(* ===== verification/Prelude.thy ===== *)
theory Prelude
  imports Main "HOL-Library.Monad_Syntax" "HOL-Library.Word"
begin

text \<open>
  Shared vocabulary of the development.

  \<^item> Machine types: \<open>cint\<close> (C's 32-bit \<open>int\<close>), \<open>size_t\<close> and \<open>byte\<close>, and the error numbers.
  \<^item> Undefined behaviour. A computation that dereferences a null or dangling pointer, reads a
    vector out of range or never returns is the value \<open>None\<close> of an option type; a theorem
    \<open>runs m P\<close> says that the computation \<open>m\<close> returns and that its result satisfies \<open>P\<close>.
  \<^item> Association lists with sorted keys, the abstract value of every search tree here:
    \<open>upd_list\<close>, \<open>ins_new\<close> and \<open>del_list\<close>.
  \<^item> \<open>std::vector\<close> primitives on lists, \<open>insert_at\<close> and \<open>erase_at\<close>, strings in byte buffers and
    printing.
\<close>

section \<open>Machine types\<close>

type_synonym cint = "32 word"
type_synonym size_t = "64 word"
type_synonym byte = "8 word"
type_synonym addr = nat

text \<open>An \<open>int\<close> that is initialised with a size, and the number of rounds of a loop that counts up to it.\<close>

definition int_of_size :: "nat \<Rightarrow> int" where
  "int_of_size n = sint (of_nat n :: cint)"

lemma int_of_size: "n < 2 ^ 31 \<Longrightarrow> int_of_size n = int n"
  by (simp add: int_of_size_def sint_uint unsigned_of_nat take_bit_nat_eq_self signed_take_bit_int_eq_self flip: take_bit_of_nat)

text \<open>The values of \<open>errno\<close> that the sources compare or return.\<close>

definition ENOENT :: int where "ENOENT = 2"
definition EINVAL :: int where "EINVAL = 22"
definition ENOTCONN :: int where "ENOTCONN = 107"
definition ENOMEM :: int where "ENOMEM = 12"
definition ETIMEDOUT :: int where "ETIMEDOUT = 110"

lemmas errno_defs = ENOENT_def EINVAL_def ENOTCONN_def ENOMEM_def ETIMEDOUT_def

named_theorems runs_intro \<open>introduction rules of the total-correctness judgement\<close>
named_theorems vec_simps \<open>facts on vector insertion and erasure\<close>

section \<open>Total correctness of computations that may fail\<close>

definition runs :: "'a option \<Rightarrow> ('a \<Rightarrow> bool) \<Rightarrow> bool" where
  "runs m P \<longleftrightarrow> (case m of None \<Rightarrow> False | Some x \<Rightarrow> P x)"

lemma runs_Some [simp]: "runs (Some x) P \<longleftrightarrow> P x"
  by (simp add: runs_def)

lemma runs_None [simp]: "\<not> runs None P"
  by (simp add: runs_def)

lemma runs_iff: "runs m P \<longleftrightarrow> (\<exists>x. m = Some x \<and> P x)"
  by (simp add: runs_def split: option.splits)

lemma runsE:
  assumes "runs m P"
  obtains x where "m = Some x" and "P x"
  using assms by (auto simp: runs_iff)

lemma runs_bind [runs_intro]: "runs m (\<lambda>x. runs (f x) P) \<Longrightarrow> runs (Option.bind m f) P"
  by (auto simp: runs_iff)

lemma runs_mono: "runs m P \<Longrightarrow> (\<And>x. m = Some x \<Longrightarrow> P x \<Longrightarrow> Q x) \<Longrightarrow> runs m Q"
  by (auto simp: runs_iff)

section \<open>Sorted association lists\<close>

abbreviation sorted1 :: "('k::linorder \<times> 'v) list \<Rightarrow> bool" where
  "sorted1 ps \<equiv> sorted_wrt (<) (map fst ps)"

fun upd_list :: "'k::linorder \<Rightarrow> 'v \<Rightarrow> ('k \<times> 'v) list \<Rightarrow> ('k \<times> 'v) list" where
  "upd_list k v [] = [(k, v)]"
| "upd_list k v ((a, b) # ps) =
     (if k < a then (k, v) # (a, b) # ps
      else if k = a then (k, v) # ps else (a, b) # upd_list k v ps)"

fun del_list :: "'k::linorder \<Rightarrow> ('k \<times> 'v) list \<Rightarrow> ('k \<times> 'v) list" where
  "del_list k [] = []"
| "del_list k ((a, b) # ps) = (if k = a then ps else (a, b) # del_list k ps)"

definition ins_new :: "'k::linorder \<Rightarrow> 'v \<Rightarrow> ('k \<times> 'v) list \<Rightarrow> ('k \<times> 'v) list" where
  "ins_new k v ps = (if k \<in> fst ` set ps then ps else upd_list k v ps)"

lemma sorted1_append:
  "sorted1 (xs @ ys) \<longleftrightarrow> sorted1 xs \<and> sorted1 ys \<and> (\<forall>a\<in>fst ` set xs. \<forall>b\<in>fst ` set ys. a < b)"
  by (auto simp: sorted_wrt_append)

lemma sorted1_distinct: "sorted1 ps \<Longrightarrow> distinct (map fst ps)"
  using strict_sorted_iff by blast

lemma upd_list_mid_new:
  "sorted1 (xs @ ys) \<Longrightarrow> \<forall>a\<in>fst ` set xs. a < k \<Longrightarrow> \<forall>b\<in>fst ` set ys. k < b \<Longrightarrow>
   upd_list k v (xs @ ys) = xs @ (k, v) # ys"
proof (induction xs)
  case Nil
  then show ?case by (cases ys) auto
qed auto

lemma upd_list_mid_old:
  "sorted1 (xs @ (k, w) # ys) \<Longrightarrow> upd_list k v (xs @ (k, w) # ys) = xs @ (k, v) # ys"
  by (induction xs) auto

lemma del_list_mid:
  "sorted1 (xs @ (k, w) # ys) \<Longrightarrow> del_list k (xs @ (k, w) # ys) = xs @ ys"
  by (induction xs) auto

lemma del_list_absent: "k \<notin> fst ` set ps \<Longrightarrow> del_list k ps = ps"
  by (induction k ps rule: del_list.induct) auto

lemma set_upd_list: "fst ` set (upd_list k v ps) = insert k (fst ` set ps)"
  by (induction k v ps rule: upd_list.induct) auto

lemma sorted1_upd_list: "sorted1 ps \<Longrightarrow> sorted1 (upd_list k v ps)"
proof (induction k v ps rule: upd_list.induct)
  case (2 k v a b ps)
  moreover have "c \<in> set (map fst (upd_list k v ps)) \<Longrightarrow> c = k \<or> c \<in> set (map fst ps)" for c
    using set_upd_list [of k v ps] by auto
  ultimately show ?case by fastforce
qed simp

lemma set_del_list: "sorted1 ps \<Longrightarrow> fst ` set (del_list k ps) = fst ` set ps - {k}"
  by (induction k ps rule: del_list.induct) force+

lemma sorted1_del_list: "sorted1 ps \<Longrightarrow> sorted1 (del_list k ps)"
proof (induction k ps rule: del_list.induct)
  case (2 k a b ps)
  then show ?case using set_del_list [of ps k] by force
qed simp

lemma map_of_upd_list: "sorted1 ps \<Longrightarrow> map_of (upd_list k v ps) = (map_of ps)(k \<mapsto> v)"
proof (induction k v ps rule: upd_list.induct)
  case (2 k v a b ps)
  then show ?case by (auto simp: fun_eq_iff)
qed auto

lemma map_of_none_iff: "map_of ps k = None \<longleftrightarrow> k \<notin> fst ` set ps"
  by (induction ps) auto

lemma map_of_del_list: "sorted1 ps \<Longrightarrow> map_of (del_list k ps) = (map_of ps)(k := None)"
proof (induction k ps rule: del_list.induct)
  case (2 k a b ps)
  then have "k = a \<Longrightarrow> map_of ps a = None"
    by (subst map_of_none_iff) auto
  with 2 show ?case by (auto simp: fun_eq_iff)
qed auto

lemma map_of_mid:
  "sorted1 (xs @ (k, w) # ys) \<Longrightarrow> map_of (xs @ (k, w) # ys) k = Some w"
  by (induction xs) auto

lemma length_upd_list:
  "sorted1 ps \<Longrightarrow> length (upd_list k v ps) = (if k \<in> fst ` set ps then length ps else Suc (length ps))"
  by (induction k v ps rule: upd_list.induct) auto

section \<open>Vector primitives\<close>

text \<open>\<open>v.insert(v.begin() + i, x)\<close> and \<open>v.erase(v.begin() + i)\<close>; a position out of range is
  undefined behaviour and has no value.\<close>

definition insert_at :: "nat \<Rightarrow> 'a \<Rightarrow> 'a list \<Rightarrow> 'a list option" where
  "insert_at i x xs = (if i \<le> length xs then Some (take i xs @ x # drop i xs) else None)"

definition erase_at :: "nat \<Rightarrow> 'a list \<Rightarrow> 'a list option" where
  "erase_at i xs = (if i < length xs then Some (take i xs @ drop (Suc i) xs) else None)"

lemma insert_at_append [vec_simps]: "insert_at (length xs) x (xs @ ys) = Some (xs @ x # ys)"
  by (simp add: insert_at_def)

lemma erase_at_append [vec_simps]: "erase_at (length xs) (xs @ x # ys) = Some (xs @ ys)"
  by (simp add: erase_at_def)

section \<open>C strings\<close>

definition c_str :: "string \<Rightarrow> byte list" where
  "c_str s = map of_char s"

text \<open>The string that starts at \<open>p\<close>, as \<open>printf\<close> and \<open>strcmp\<close> read it; it needs a terminating NUL.\<close>

definition c_string :: "byte list \<Rightarrow> nat \<Rightarrow> byte list option" where
  "c_string buf p = (let r = drop p buf; w = takeWhile (\<lambda>c. c \<noteq> 0) r in
     if length w < length r then Some w else None)"

lemma c_string_here: "0 \<notin> set w \<Longrightarrow> c_string (pre @ w @ 0 # post) (length pre) = Some w"
  by (auto simp: c_string_def Let_def takeWhile_append)

section \<open>Output\<close>

text \<open>How \<open>operator<<\<close> and \<open>std::to_string\<close> print an integer. The output of a program is the list of its lines.\<close>

definition digit :: "nat \<Rightarrow> char" where
  "digit n = char_of (48 + n)"

fun show_nat :: "nat \<Rightarrow> string" where
  "show_nat n = (if n < 10 then [digit n] else show_nat (n div 10) @ [digit (n mod 10)])"

declare show_nat.simps [simp del]

definition show_int :: "int \<Rightarrow> string" where
  "show_int i = (if i < 0 then CHR ''-'' # show_nat (nat (- i)) else show_nat (nat i))"

fun joined :: "string \<Rightarrow> string list \<Rightarrow> string" where
  "joined sep [] = []"
| "joined sep [x] = x"
| "joined sep (x # y # xs) = x @ sep @ joined sep (y # xs)"

section \<open>Logarithms\<close>

text \<open>\<open>static_cast<int>(std::log2(n))\<close>, the logarithm rounded down.\<close>

fun ilog2 :: "nat \<Rightarrow> nat" where
  "ilog2 n = (if n < 2 then 0 else Suc (ilog2 (n div 2)))"

declare ilog2.simps [simp del]

lemma ilog2_bounds: "0 < n \<Longrightarrow> 2 ^ ilog2 n \<le> n \<and> n < 2 * 2 ^ ilog2 n"
proof (induction n rule: ilog2.induct)
  case (1 n)
  then show ?case by (cases "n < 2") (auto simp: ilog2.simps [of n])
qed

lemma le_ilog2:
  assumes "2 ^ k \<le> n"
  shows "k \<le> ilog2 n"
proof -
  have "0 < n" using assms by (rule less_le_trans [rotated]) simp
  then have "(2::nat) ^ k < 2 ^ Suc (ilog2 n)" using ilog2_bounds [of n] assms by simp
  then have "k < Suc (ilog2 n)" by (rule power_less_imp_less_exp [rotated]) simp
  then show ?thesis by simp
qed

end
