(* ===== verification/Heap_Tree.thy ===== *)
theory Heap_Tree
  imports Prelude
begin

text \<open>
  The node structure the two red-black trees of the repository share, and a library for
  reasoning about trees laid out in a heap of such nodes.

  \<^item> \<open>node\<close> is \<open>struct Node\<close>; a \<open>shared_ptr\<close> is an \<open>addr option\<close>, a
    \<open>weak_ptr\<close> is one whose \<open>lock\<close> is null when the node has been destroyed.
  \<^item> \<open>tree\<close> is the shape a heap stores, with the address of every node; \<open>frame\<close> lists are
    its one-hole contexts, innermost frame first.
  \<^item> \<open>focus np h rt t cs\<close> says that heap \<open>h\<close> with root pointer \<open>rt\<close> holds the tree
    \<open>plug t cs\<close>, all links and parent links consistent, no node shared. The null link is
    \<open>np\<close>: \<open>nullptr\<close> in \<open>KV_Store/RBTree.cpp\<close>, the sentinel in
    \<open>Red_Black_Tree/RBTree.hpp\<close>.
  \<^item> The red-black conditions split into colours (\<open>invc\<close>), black heights (\<open>invh\<close>) and
    their counterpart for contexts (\<open>cinv\<close>).
\<close>

section \<open>Nodes in a heap\<close>

datatype color = RED | BLACK

record ('k, 'v) node =
  key :: 'k
  val :: 'v
  color :: color
  left :: "addr option"
  right :: "addr option"
  parent :: "addr option"

type_synonym ('k, 'v) node_heap = "addr \<rightharpoonup> ('k, 'v) node"

definition load :: "addr option \<Rightarrow> ('k, 'v) node_heap \<Rightarrow> ('k, 'v) node option" where
  "load p h = Option.bind p h"

definition store :: "addr option \<Rightarrow> (('k, 'v) node \<Rightarrow> ('k, 'v) node) \<Rightarrow>
    ('k, 'v) node_heap \<Rightarrow> ('k, 'v) node_heap option" where
  "store p f h = (case p of None \<Rightarrow> None
     | Some a \<Rightarrow> (case h a of None \<Rightarrow> None | Some n \<Rightarrow> Some (h(a \<mapsto> f n))))"

definition lock :: "('k, 'v) node_heap \<Rightarrow> addr option \<Rightarrow> addr option" where
  "lock h p = (case p of None \<Rightarrow> None
     | Some a \<Rightarrow> (case h a of None \<Rightarrow> None | Some n \<Rightarrow> Some a))"

lemma load_None [simp]: "load None h = None"
  by (simp add: load_def)

lemma load_Some [simp]: "load (Some a) h = h a"
  by (simp add: load_def)

lemma store_Some [simp]: "h a = Some n \<Longrightarrow> store (Some a) f h = Some (h(a \<mapsto> f n))"
  by (simp add: store_def)

lemma lock_None [simp]: "lock h None = None"
  by (simp add: lock_def)

lemma lock_Some [simp]: "h a = Some n \<Longrightarrow> lock h (Some a) = Some a"
  by (simp add: lock_def)

lemma dom_store: "store p f h = Some h' \<Longrightarrow> dom h' = dom h"
  by (auto simp: store_def split: option.splits if_splits)

section \<open>Trees with addresses\<close>

datatype ('k, 'v) tree =
    Leaf
  | Node addr "('k, 'v) tree" color 'k 'v "('k, 'v) tree"

fun inorder :: "('k, 'v) tree \<Rightarrow> ('k \<times> 'v) list" where
  "inorder Leaf = []"
| "inorder (Node a l c k v r) = inorder l @ (k, v) # inorder r"

fun addrs :: "('k, 'v) tree \<Rightarrow> addr list" where
  "addrs Leaf = []"
| "addrs (Node a l c k v r) = a # addrs l @ addrs r"

fun ptr :: "addr option \<Rightarrow> ('k, 'v) tree \<Rightarrow> addr option" where
  "ptr np Leaf = np"
| "ptr np (Node a l c k v r) = Some a"

fun tree_color :: "('k, 'v) tree \<Rightarrow> color" where
  "tree_color Leaf = BLACK"
| "tree_color (Node a l c k v r) = c"

fun paint :: "color \<Rightarrow> ('k, 'v) tree \<Rightarrow> ('k, 'v) tree" where
  "paint c Leaf = Leaf"
| "paint c (Node a l c' k v r) = Node a l c k v r"

fun tree_height :: "('k, 'v) tree \<Rightarrow> nat" where
  "tree_height Leaf = 0"
| "tree_height (Node a l c k v r) = Suc (max (tree_height l) (tree_height r))"

fun repr :: "addr option \<Rightarrow> ('k, 'v) node_heap \<Rightarrow> addr option \<Rightarrow> ('k, 'v) tree \<Rightarrow> bool" where
  "repr np h q Leaf \<longleftrightarrow> True"
| "repr np h q (Node a l c k v r) \<longleftrightarrow>
     h a = Some \<lparr>key = k, val = v, color = c, left = ptr np l, right = ptr np r, parent = q\<rparr> \<and>
     repr np h (Some a) l \<and> repr np h (Some a) r"

lemma neq_BLACK [simp]: "c \<noteq> BLACK \<longleftrightarrow> c = RED"
  by (cases c) auto

lemma neq_RED [simp]: "c \<noteq> RED \<longleftrightarrow> c = BLACK"
  by (cases c) auto

lemma inorder_paint [simp]: "inorder (paint c t) = inorder t"
  by (cases t) auto

lemma addrs_paint [simp]: "addrs (paint c t) = addrs t"
  by (cases t) auto

lemma length_addrs: "length (addrs t) = length (inorder t)"
  by (induction t) auto

lemma ptr_in_addrs: "ptr np t = Some a \<Longrightarrow> Some a \<noteq> np \<Longrightarrow> a \<in> set (addrs t)"
  by (cases t) auto

lemma ptr_notin [simp]: "a \<notin> set (addrs t) \<Longrightarrow> np \<noteq> Some a \<Longrightarrow> ptr np t \<noteq> Some a"
  by (cases t) auto

lemma insert_dom [simp]: "h a = Some n \<Longrightarrow> insert a (dom h) = dom h"
  by auto

lemma repr_cong:
  "(\<And>a. a \<in> set (addrs t) \<Longrightarrow> h' a = h a) \<Longrightarrow> repr np h' q t = repr np h q t"
  by (induction np h q t rule: repr.induct) auto

lemma repr_upd [simp]: "a \<notin> set (addrs t) \<Longrightarrow> repr np (h(a := x)) q t = repr np h q t"
  by (rule repr_cong) auto

lemma repr_dom: "repr np h q t \<Longrightarrow> set (addrs t) \<subseteq> dom h"
  by (induction np h q t rule: repr.induct) auto

section \<open>One-hole contexts\<close>

datatype ('k, 'v) frame =
    FrameL addr color 'k 'v "('k, 'v) tree"
  | FrameR addr "('k, 'v) tree" color 'k 'v

type_synonym ('k, 'v) ctx = "('k, 'v) frame list"

fun plug :: "('k, 'v) tree \<Rightarrow> ('k, 'v) ctx \<Rightarrow> ('k, 'v) tree" where
  "plug t [] = t"
| "plug t (FrameL a c k v r # cs) = plug (Node a t c k v r) cs"
| "plug t (FrameR a l c k v # cs) = plug (Node a l c k v t) cs"

fun par :: "('k, 'v) ctx \<Rightarrow> addr option" where
  "par [] = None"
| "par (FrameL a c k v r # cs) = Some a"
| "par (FrameR a l c k v # cs) = Some a"

fun caddrs :: "('k, 'v) ctx \<Rightarrow> addr list" where
  "caddrs [] = []"
| "caddrs (FrameL a c k v r # cs) = a # addrs r @ caddrs cs"
| "caddrs (FrameR a l c k v # cs) = a # addrs l @ caddrs cs"

fun lefts :: "('k, 'v) ctx \<Rightarrow> ('k \<times> 'v) list" where
  "lefts [] = []"
| "lefts (FrameL a c k v r # cs) = lefts cs"
| "lefts (FrameR a l c k v # cs) = lefts cs @ inorder l @ [(k, v)]"

fun rights :: "('k, 'v) ctx \<Rightarrow> ('k \<times> 'v) list" where
  "rights [] = []"
| "rights (FrameL a c k v r # cs) = (k, v) # inorder r @ rights cs"
| "rights (FrameR a l c k v # cs) = rights cs"

fun crepr :: "addr option \<Rightarrow> ('k, 'v) node_heap \<Rightarrow> addr option \<Rightarrow> addr option \<Rightarrow>
    ('k, 'v) ctx \<Rightarrow> bool" where
  "crepr np h rt p [] \<longleftrightarrow> rt = p"
| "crepr np h rt p (FrameL a c k v r # cs) \<longleftrightarrow>
     h a = Some \<lparr>key = k, val = v, color = c, left = p, right = ptr np r, parent = par cs\<rparr> \<and>
     repr np h (Some a) r \<and> crepr np h rt (Some a) cs"
| "crepr np h rt p (FrameR a l c k v # cs) \<longleftrightarrow>
     h a = Some \<lparr>key = k, val = v, color = c, left = ptr np l, right = p, parent = par cs\<rparr> \<and>
     repr np h (Some a) l \<and> crepr np h rt (Some a) cs"

lemma inorder_plug: "inorder (plug t cs) = lefts cs @ inorder t @ rights cs"
  by (induction t cs rule: plug.induct) auto

lemma plug_Leaf [simp]: "plug t cs = Leaf \<longleftrightarrow> t = Leaf \<and> cs = []"
  by (induction t cs rule: plug.induct) auto

lemma set_addrs_plug: "set (addrs (plug t cs)) = set (addrs t) \<union> set (caddrs cs)"
  by (induction t cs rule: plug.induct) auto

lemma distinct_plug:
  "distinct (addrs (plug t cs)) \<longleftrightarrow> distinct (addrs t @ caddrs cs)"
proof (induction t cs rule: plug.induct)
  case (2 t a c k v r cs)
  then show ?case by auto
next
  case (3 t a l c k v cs)
  then show ?case by auto
qed simp

lemma crepr_cong:
  "(\<And>a. a \<in> set (caddrs cs) \<Longrightarrow> h' a = h a) \<Longrightarrow> crepr np h' rt p cs = crepr np h rt p cs"
proof (induction np h rt p cs rule: crepr.induct)
  case (2 np h rt p a c k v r cs)
  have "repr np h' (Some a) r = repr np h (Some a) r"
    by (rule repr_cong) (simp add: 2)
  with 2 show ?case by simp
next
  case (3 np h rt p a l c k v cs)
  have "repr np h' (Some a) l = repr np h (Some a) l"
    by (rule repr_cong) (simp add: 3)
  with 3 show ?case by simp
qed simp

lemma crepr_upd [simp]: "a \<notin> set (caddrs cs) \<Longrightarrow> crepr np (h(a := x)) rt p cs = crepr np h rt p cs"
  by (rule crepr_cong) auto

lemma par_in_caddrs: "par cs = Some a \<Longrightarrow> a \<in> set (caddrs cs)"
  by (cases cs rule: par.cases) auto

lemma par_None [simp]: "par cs = None \<longleftrightarrow> cs = []"
  by (cases cs rule: par.cases) auto

section \<open>The focus judgement\<close>

definition focus :: "addr option \<Rightarrow> ('k, 'v) node_heap \<Rightarrow> addr option \<Rightarrow>
    ('k, 'v) tree \<Rightarrow> ('k, 'v) ctx \<Rightarrow> bool" where
  "focus np h rt t cs \<longleftrightarrow> repr np h (par cs) t \<and> crepr np h rt (ptr np t) cs \<and>
     distinct (addrs t @ caddrs cs) \<and>
     (\<forall>a. np = Some a \<longrightarrow> a \<notin> set (addrs t) \<union> set (caddrs cs))"

lemma focus_left:
  "focus np h rt (Node a l c k v r) cs \<longleftrightarrow> focus np h rt l (FrameL a c k v r # cs)"
  by (auto simp: focus_def)

lemma focus_right:
  "focus np h rt (Node a l c k v r) cs \<longleftrightarrow> focus np h rt r (FrameR a l c k v # cs)"
  by (auto simp: focus_def)

lemmas focus_up = focus_left [symmetric] focus_right [symmetric]

lemma focus_plug: "focus np h rt t cs \<longleftrightarrow> focus np h rt (plug t cs) []"
  by (induction t cs rule: plug.induct) (simp_all add: focus_left [symmetric] focus_right [symmetric])


lemma crepr_root: "crepr np h rt p cs \<Longrightarrow> cs \<noteq> [] \<Longrightarrow> \<exists>a\<in>set (caddrs cs). rt = Some a"
proof (induction np h rt p cs rule: crepr.induct)
  case (2 np h rt p a c k v r cs)
  then show ?case by (cases cs) auto
next
  case (3 np h rt p a l c k v cs)
  then show ?case by (cases cs) auto
qed simp

lemma focus_root: "focus np h rt (Node a l c k v r) cs \<Longrightarrow> rt = Some a \<longleftrightarrow> cs = []"
  by (cases "cs = []") (auto simp: focus_def dest!: crepr_root)

lemma focus_not_root: "focus np h rt t cs \<Longrightarrow> cs \<noteq> [] \<Longrightarrow> ptr np t \<noteq> rt"
  by (cases t) (auto simp: focus_def dest!: crepr_root)

lemma focus_node:
  "focus np h rt (Node a l c k v r) cs \<Longrightarrow>
   h a = Some \<lparr>key = k, val = v, color = c, left = ptr np l, right = ptr np r, parent = par cs\<rparr>"
  by (simp add: focus_def)

lemma focus_dom:
  assumes "focus np h rt t cs"
  shows "set (addrs t) \<union> set (caddrs cs) \<subseteq> dom h"
proof -
  have "repr np h None (plug t cs)"
    using iffD1 [OF focus_plug assms] by (simp add: focus_def)
  then show ?thesis using repr_dom set_addrs_plug by blast
qed

section \<open>Red-black invariants\<close>

fun bheight :: "('k, 'v) tree \<Rightarrow> nat" where
  "bheight Leaf = 0"
| "bheight (Node a l c k v r) = (if c = BLACK then Suc (bheight l) else bheight l)"

fun invc :: "('k, 'v) tree \<Rightarrow> bool" where
  "invc Leaf \<longleftrightarrow> True"
| "invc (Node a l c k v r) \<longleftrightarrow>
     (c = RED \<longrightarrow> tree_color l = BLACK \<and> tree_color r = BLACK) \<and> invc l \<and> invc r"

fun invh :: "('k, 'v) tree \<Rightarrow> bool" where
  "invh Leaf \<longleftrightarrow> True"
| "invh (Node a l c k v r) \<longleftrightarrow> bheight l = bheight r \<and> invh l \<and> invh r"

definition rbt :: "('k, 'v) tree \<Rightarrow> bool" where
  "rbt t \<longleftrightarrow> invc t \<and> invh t \<and> tree_color t = BLACK"

fun ctx_color :: "('k, 'v) ctx \<Rightarrow> color" where
  "ctx_color [] = BLACK"
| "ctx_color (FrameL a c k v r # cs) = c"
| "ctx_color (FrameR a l c k v # cs) = c"

text \<open>\<open>cinv n cs\<close>: the context is red-black around a subtree of black height \<open>n\<close>.\<close>

fun cinv :: "nat \<Rightarrow> ('k, 'v) ctx \<Rightarrow> bool" where
  "cinv n [] \<longleftrightarrow> True"
| "cinv n (FrameL a c k v r # cs) \<longleftrightarrow>
     invc r \<and> invh r \<and> bheight r = n \<and>
     (c = RED \<longrightarrow> tree_color r = BLACK \<and> cs \<noteq> [] \<and> ctx_color cs = BLACK) \<and>
     cinv (if c = BLACK then Suc n else n) cs"
| "cinv n (FrameR a l c k v # cs) \<longleftrightarrow>
     invc l \<and> invh l \<and> bheight l = n \<and>
     (c = RED \<longrightarrow> tree_color l = BLACK \<and> cs \<noteq> [] \<and> ctx_color cs = BLACK) \<and>
     cinv (if c = BLACK then Suc n else n) cs"

lemma tree_color_paint [simp]: "tree_color (paint BLACK t) = BLACK"
  by (cases t) auto

lemma invh_paint [simp]: "invh (paint c t) = invh t"
  by (cases t) auto

lemma invc_paint_BLACK: "invc t \<Longrightarrow> invc (paint BLACK t)"
  by (cases t) auto

lemma bheight_pos: "bheight t = Suc n \<Longrightarrow> t \<noteq> Leaf"
  by auto

text \<open>Filling the hole of a red-black context gives a red-black tree, and every subtree of a
  red-black tree sits in a red-black context.\<close>

lemma rbt_plug_iff:
  "invc (plug t cs) \<and> invh (plug t cs) \<and> tree_color (plug t cs) = BLACK \<longleftrightarrow>
   invc t \<and> invh t \<and> cinv (bheight t) cs \<and>
   (tree_color t = RED \<longrightarrow> cs \<noteq> [] \<and> ctx_color cs = BLACK)"
proof (induction t cs rule: plug.induct)
  case (2 t a c k v r cs)
  then show ?case by (cases c) auto
next
  case (3 t a l c k v cs)
  then show ?case by (cases c) auto
qed auto

lemma rbt_plug:
  "rbt (plug t cs) \<longleftrightarrow> invc t \<and> invh t \<and> cinv (bheight t) cs \<and>
     (tree_color t = RED \<longrightarrow> cs \<noteq> [] \<and> ctx_color cs = BLACK)"
  unfolding rbt_def by (rule rbt_plug_iff)

subsection \<open>Height\<close>

lemma height_bheight:
  "invc t \<Longrightarrow> invh t \<Longrightarrow> tree_height t \<le> 2 * bheight t + (if tree_color t = BLACK then 0 else 1)"
  by (induction t) (auto split: if_splits)

lemma bheight_size: "invh t \<Longrightarrow> 2 ^ bheight t \<le> Suc (length (inorder t))"
  by (induction t) auto

lemma rbt_height:
  assumes "rbt t"
  shows "tree_height t \<le> 2 * ilog2 (Suc (length (inorder t)))"
proof -
  have "tree_height t \<le> 2 * bheight t" "2 ^ bheight t \<le> Suc (length (inorder t))"
    using height_bheight [of t] bheight_size [of t] assms by (simp_all add: rbt_def)
  with le_ilog2 [of "bheight t"] show ?thesis by fastforce
qed

end
