(* ===== verification/RedBlackTree.thy ===== *)
theory RedBlackTree
  imports Heap_Tree
begin

text \<open>
  \<open>class RedBlackTree<K, V>\<close> of \<open>KV_Store/RBTree.cpp\<close> (a copy of the same file is
  \<open>B+Tree/temp.cpp\<close>): an ordered map as a red-black tree of heap nodes with parent links.

  The state \<open>rbtree\<close> is the object (root pointer and element count) with the heap its nodes
  live in; \<open>rb_next\<close> is the next address \<open>make_shared\<close> hands out. Every method is one
  definition, pointer by pointer; \<open>None\<close> is a null dereference or a loop that never ends, so
  the correctness theorems, which say that the methods return, exclude both. A node is
  destroyed (dropped from the heap) when \<open>remove\<close> returns, which is where its last
  \<open>shared_ptr\<close> goes away. The \<open>Violation\<close> messages of \<open>validate\<close>, which returns false whenever it writes one,
  are left out.

  The theory defines the class; \<open>RedBlackTree_Proofs\<close> proves it correct.
\<close>

section \<open>The object and its primitive accesses\<close>

record ('k, 'v) rbtree =
  rb_root :: "addr option"
  rb_count :: size_t
  rb_heap :: "('k, 'v) node_heap"
  rb_next :: addr

definition rb_new :: "('k, 'v) rbtree" where
  "rb_new = \<lparr>rb_root = None, rb_count = 0, rb_heap = Map.empty, rb_next = 0\<rparr>"

abbreviation getn :: "addr option \<Rightarrow> ('k, 'v) rbtree \<Rightarrow> ('k, 'v) node option" where
  "getn p s \<equiv> load p (rb_heap s)"

definition put :: "addr option \<Rightarrow> (('k, 'v) node \<Rightarrow> ('k, 'v) node) \<Rightarrow>
    ('k, 'v) rbtree \<Rightarrow> ('k, 'v) rbtree option" where
  "put p f s = map_option (\<lambda>h. s\<lparr>rb_heap := h\<rparr>) (store p f (rb_heap s))"

abbreviation locked :: "('k, 'v) rbtree \<Rightarrow> addr option \<Rightarrow> addr option" where
  "locked s p \<equiv> lock (rb_heap s) p"

definition set_color :: "addr option \<Rightarrow> color \<Rightarrow> ('k, 'v) rbtree \<Rightarrow> ('k, 'v) rbtree option" where
  "set_color p c s = put p (\<lambda>n. n\<lparr>color := c\<rparr>) s"

definition make_node :: "'k \<Rightarrow> 'v \<Rightarrow> color \<Rightarrow> ('k, 'v) node" where
  "make_node k v c = \<lparr>key = k, val = v, color = c, left = None, right = None, parent = None\<rparr>"

section \<open>Node members\<close>

definition is_left_child :: "addr option \<Rightarrow> ('k, 'v) rbtree \<Rightarrow> bool option" where
  "is_left_child x s = do {
     n \<leftarrow> getn x s;
     let p = locked s (parent n);
     (if p = None then Some False else do {
        m \<leftarrow> getn p s;
        Some (left m = x) }) }"

definition sibling :: "addr option \<Rightarrow> ('k, 'v) rbtree \<Rightarrow> addr option option" where
  "sibling x s = do {
     n \<leftarrow> getn x s;
     let p = locked s (parent n);
     (if p = None then Some None else do {
        b \<leftarrow> is_left_child x s;
        m \<leftarrow> getn p s;
        Some (if b then right m else left m) }) }"

definition uncle :: "addr option \<Rightarrow> ('k, 'v) rbtree \<Rightarrow> addr option option" where
  "uncle x s = do {
     n \<leftarrow> getn x s;
     let p = locked s (parent n);
     (if p = None then Some None else do {
        m \<leftarrow> getn p s;
        let gp = locked s (parent m);
        (if gp = None then Some None else do {
           b \<leftarrow> is_left_child p s;
           g \<leftarrow> getn gp s;
           Some (if b then right g else left g) }) }) }"

definition grandparent :: "addr option \<Rightarrow> ('k, 'v) rbtree \<Rightarrow> addr option option" where
  "grandparent x s = do {
     n \<leftarrow> getn x s;
     let p = locked s (parent n);
     (if p = None then Some None else do {
        m \<leftarrow> getn p s;
        Some (locked s (parent m)) }) }"

section \<open>Rotations\<close>

definition left_rotate :: "addr option \<Rightarrow> ('k, 'v) rbtree \<Rightarrow> ('k, 'v) rbtree option" where
  "left_rotate x s = do {
     nx \<leftarrow> getn x s;
     let y = right nx;
     (if y = None then Some s else do {
        ny \<leftarrow> getn y s;
        s \<leftarrow> put x (\<lambda>n. n\<lparr>right := left ny\<rparr>) s;
        s \<leftarrow> (if left ny \<noteq> None then put (left ny) (\<lambda>n. n\<lparr>parent := x\<rparr>) s else Some s);
        nx \<leftarrow> getn x s;
        s \<leftarrow> put y (\<lambda>n. n\<lparr>parent := parent nx\<rparr>) s;
        let p = locked s (parent nx);
        s \<leftarrow> (if p = None then Some (s\<lparr>rb_root := y\<rparr>) else do {
               b \<leftarrow> is_left_child x s;
               (if b then put p (\<lambda>n. n\<lparr>left := y\<rparr>) s else put p (\<lambda>n. n\<lparr>right := y\<rparr>) s) });
        s \<leftarrow> put y (\<lambda>n. n\<lparr>left := x\<rparr>) s;
        put x (\<lambda>n. n\<lparr>parent := y\<rparr>) s }) }"

definition right_rotate :: "addr option \<Rightarrow> ('k, 'v) rbtree \<Rightarrow> ('k, 'v) rbtree option" where
  "right_rotate y s = do {
     ny \<leftarrow> getn y s;
     let x = left ny;
     (if x = None then Some s else do {
        nx \<leftarrow> getn x s;
        s \<leftarrow> put y (\<lambda>n. n\<lparr>left := right nx\<rparr>) s;
        s \<leftarrow> (if right nx \<noteq> None then put (right nx) (\<lambda>n. n\<lparr>parent := y\<rparr>) s else Some s);
        ny \<leftarrow> getn y s;
        s \<leftarrow> put x (\<lambda>n. n\<lparr>parent := parent ny\<rparr>) s;
        let p = locked s (parent ny);
        s \<leftarrow> (if p = None then Some (s\<lparr>rb_root := x\<rparr>) else do {
               b \<leftarrow> is_left_child y s;
               (if b then put p (\<lambda>n. n\<lparr>left := x\<rparr>) s else put p (\<lambda>n. n\<lparr>right := x\<rparr>) s) });
        s \<leftarrow> put x (\<lambda>n. n\<lparr>right := y\<rparr>) s;
        put y (\<lambda>n. n\<lparr>parent := x\<rparr>) s }) }"

section \<open>Insertion\<close>

text \<open>\<open>p && p->color == c\<close>, and \<open>!p || p->color == BLACK\<close>.\<close>

definition is_red :: "addr option \<Rightarrow> ('k, 'v) rbtree \<Rightarrow> bool option" where
  "is_red p s = (if p = None then Some False else do { n \<leftarrow> getn p s; Some (color n = RED) })"

definition is_black :: "addr option \<Rightarrow> ('k, 'v) rbtree \<Rightarrow> bool option" where
  "is_black p s = (if p = None then Some True else do { n \<leftarrow> getn p s; Some (color n = BLACK) })"

text \<open>The two halves of the loop body of \<open>fix_insert\<close>. The result is the new \<open>node\<close>, the new
  object and whether the loop was left by \<open>break\<close>.\<close>

definition fix_insert_left :: "addr option \<Rightarrow> addr option \<Rightarrow> addr option \<Rightarrow>
    ('k, 'v) rbtree \<Rightarrow> (addr option \<times> ('k, 'v) rbtree \<times> bool) option" where
  "fix_insert_left node p g s = do {
     u \<leftarrow> sibling p s;
     red \<leftarrow> is_red u s;
     (if red then do {
        s \<leftarrow> set_color p BLACK s;
        s \<leftarrow> set_color u BLACK s;
        s \<leftarrow> set_color g RED s;
        Some (g, s, False) }
      else do {
        nl \<leftarrow> is_left_child node s;
        (node, p, g, s) \<leftarrow> (if \<not> nl then do {
            s \<leftarrow> left_rotate p s;
            n \<leftarrow> getn p s;
            let p' = locked s (parent n);
            g' \<leftarrow> (if p' = None then Some None else do {
                    m \<leftarrow> getn p' s; Some (locked s (parent m)) });
            Some (p, p', g', s) }
          else Some (node, p, g, s));
        (if g = None then Some (node, s, True) else do {
           s \<leftarrow> set_color p BLACK s;
           s \<leftarrow> set_color g RED s;
           s \<leftarrow> right_rotate g s;
           Some (node, s, False) }) }) }"

definition fix_insert_right :: "addr option \<Rightarrow> addr option \<Rightarrow> addr option \<Rightarrow>
    ('k, 'v) rbtree \<Rightarrow> (addr option \<times> ('k, 'v) rbtree \<times> bool) option" where
  "fix_insert_right node p g s = do {
     u \<leftarrow> sibling p s;
     red \<leftarrow> is_red u s;
     (if red then do {
        s \<leftarrow> set_color p BLACK s;
        s \<leftarrow> set_color u BLACK s;
        s \<leftarrow> set_color g RED s;
        Some (g, s, False) }
      else do {
        nl \<leftarrow> is_left_child node s;
        (node, p, g, s) \<leftarrow> (if nl then do {
            s \<leftarrow> right_rotate p s;
            n \<leftarrow> getn p s;
            let p' = locked s (parent n);
            g' \<leftarrow> (if p' = None then Some None else do {
                    m \<leftarrow> getn p' s; Some (locked s (parent m)) });
            Some (p, p', g', s) }
          else Some (node, p, g, s));
        (if g = None then Some (node, s, True) else do {
           s \<leftarrow> set_color p BLACK s;
           s \<leftarrow> set_color g RED s;
           s \<leftarrow> left_rotate g s;
           Some (node, s, False) }) }) }"

definition fix_insert_body :: "addr option \<Rightarrow> ('k, 'v) rbtree \<Rightarrow>
    (addr option \<times> ('k, 'v) rbtree \<times> bool) option" where
  "fix_insert_body node s = do {
     n \<leftarrow> getn node s;
     let p = locked s (parent n);
     m \<leftarrow> getn p s;
     let g = locked s (parent m);
     (if g = None then Some (node, s, True) else do {
        b \<leftarrow> is_left_child p s;
        (if b then fix_insert_left node p g s else fix_insert_right node p g s) }) }"

partial_function (option) fix_insert_loop ::
    "addr option \<Rightarrow> ('k, 'v) rbtree \<Rightarrow> ('k, 'v) rbtree option" where
  "fix_insert_loop node s =
     (if node = rb_root s then Some s else do {
        n \<leftarrow> getn node s;
        m \<leftarrow> getn (locked s (parent n)) s;
        (if color m = RED then do {
           (node', s', brk) \<leftarrow> fix_insert_body node s;
           (if brk then Some s' else fix_insert_loop node' s') }
         else Some s) })"

definition fix_insert :: "addr option \<Rightarrow> ('k, 'v) rbtree \<Rightarrow> ('k, 'v) rbtree option" where
  "fix_insert node s = do {
     s \<leftarrow> fix_insert_loop node s;
     (if rb_root s \<noteq> None then set_color (rb_root s) BLACK s else Some s) }"

text \<open>The descent of \<open>insert\<close>: it ends at an existing key or below the future parent.\<close>

datatype position = Exists addr | Below "addr option"

partial_function (option) insert_position ::
    "'k::linorder \<Rightarrow> addr option \<Rightarrow> addr option \<Rightarrow> ('k, 'v) rbtree \<Rightarrow> position option" where
  "insert_position k cur p s =
     (case cur of None \<Rightarrow> Some (Below p)
      | Some a \<Rightarrow> do {
          n \<leftarrow> getn cur s;
          (if k < key n then insert_position k (left n) cur s
           else if key n < k then insert_position k (right n) cur s
           else Some (Exists a)) })"

text \<open>The new red node, linked below its parent (lines 375 to 384).\<close>

definition attach :: "'k::linorder \<Rightarrow> 'v \<Rightarrow> addr option \<Rightarrow> ('k, 'v) rbtree \<Rightarrow> ('k, 'v) rbtree option" where
  "attach k v p s = do {
     let new_node = Some (rb_next s);
     let s = s\<lparr>rb_heap := (rb_heap s)(rb_next s \<mapsto> (make_node k v RED)\<lparr>parent := p\<rparr>),
       rb_next := Suc (rb_next s)\<rparr>;
     n \<leftarrow> getn p s;
     (if k < key n then put p (\<lambda>n. n\<lparr>left := new_node\<rparr>) s
      else put p (\<lambda>n. n\<lparr>right := new_node\<rparr>) s) }"

definition rb_insert :: "'k::linorder \<Rightarrow> 'v \<Rightarrow> ('k, 'v) rbtree \<Rightarrow> (bool \<times> ('k, 'v) rbtree) option" where
  "rb_insert k v s =
     (if rb_root s = None then
        Some (True, s\<lparr>rb_root := Some (rb_next s), rb_count := 1,
          rb_heap := (rb_heap s)(rb_next s \<mapsto> make_node k v BLACK), rb_next := Suc (rb_next s)\<rparr>)
      else do {
        pos \<leftarrow> insert_position k (rb_root s) None s;
        (case pos of
           Exists a \<Rightarrow> do {
             s \<leftarrow> put (Some a) (\<lambda>n. n\<lparr>val := v\<rparr>) s;
             Some (False, s) }
         | Below p \<Rightarrow> do {
             let new_node = Some (rb_next s);
             s \<leftarrow> attach k v p s;
             s \<leftarrow> fix_insert new_node s;
             Some (True, s\<lparr>rb_count := rb_count s + 1\<rparr>) }) })"

section \<open>Lookup\<close>

partial_function (option) minimum_loop :: "addr option \<Rightarrow> ('k, 'v) rbtree \<Rightarrow> addr option option" where
  "minimum_loop node s = do {
     n \<leftarrow> getn node s;
     (if left n = None then Some node else minimum_loop (left n) s) }"

definition minimum :: "addr option \<Rightarrow> ('k, 'v) rbtree \<Rightarrow> addr option option" where
  "minimum node s = (if node = None then Some None else minimum_loop node s)"

partial_function (option) find_from :: "'k::linorder \<Rightarrow> addr option \<Rightarrow> ('k, 'v) rbtree \<Rightarrow> addr option option" where
  "find_from k cur s =
     (if cur = None then Some None else do {
        n \<leftarrow> getn cur s;
        (if k < key n then find_from k (left n) s
         else if key n < k then find_from k (right n) s
         else Some cur) })"

definition find_node :: "'k::linorder \<Rightarrow> ('k, 'v) rbtree \<Rightarrow> addr option option" where
  "find_node k s = find_from k (rb_root s) s"

definition rb_find :: "'k::linorder \<Rightarrow> ('k, 'v) rbtree \<Rightarrow> 'v option option" where
  "rb_find k s = do {
     node \<leftarrow> find_node k s;
     (if node = None then Some None else do { n \<leftarrow> getn node s; Some (Some (val n)) }) }"

definition rb_contains :: "'k::linorder \<Rightarrow> ('k, 'v) rbtree \<Rightarrow> bool option" where
  "rb_contains k s = do { node \<leftarrow> find_node k s; Some (node \<noteq> None) }"

definition rb_size :: "('k, 'v) rbtree \<Rightarrow> size_t" where
  "rb_size s = rb_count s"

definition rb_empty :: "('k, 'v) rbtree \<Rightarrow> bool" where
  "rb_empty s \<longleftrightarrow> rb_count s = 0"

text \<open>\<open>root.reset()\<close> drops the only owner of the root, which destroys every node.\<close>

definition rb_clear :: "('k, 'v) rbtree \<Rightarrow> ('k, 'v) rbtree" where
  "rb_clear s = s\<lparr>rb_root := None, rb_count := 0, rb_heap := Map.empty\<rparr>"

section \<open>Deletion\<close>

definition transplant :: "addr option \<Rightarrow> addr option \<Rightarrow> ('k, 'v) rbtree \<Rightarrow> ('k, 'v) rbtree option" where
  "transplant u v s = do {
     nu \<leftarrow> getn u s;
     let p = locked s (parent nu);
     s \<leftarrow> (if p = None then Some (s\<lparr>rb_root := v\<rparr>) else do {
            b \<leftarrow> is_left_child u s;
            (if b then put p (\<lambda>n. n\<lparr>left := v\<rparr>) s else put p (\<lambda>n. n\<lparr>right := v\<rparr>) s) });
     (if v \<noteq> None then do {
        nu \<leftarrow> getn u s;
        put v (\<lambda>n. n\<lparr>parent := parent nu\<rparr>) s }
      else Some s) }"

text \<open>The two halves of the loop body of \<open>fix_delete\<close>, each in three parts: making the sibling
  black (case 1), the cases of a black sibling (2 and 3), and case 4, which ends the loop. The result is the new \<open>node\<close>, the new
  \<open>parent\<close>, the new object and whether the loop was left by \<open>break\<close>.\<close>

definition fix_delete_left_last :: "addr option \<Rightarrow> addr option \<Rightarrow> addr option \<Rightarrow> ('k, 'v) rbtree \<Rightarrow>
    (addr option \<times> addr option \<times> ('k, 'v) rbtree \<times> bool) option" where
  "fix_delete_left_last node p w s =
     (if w = None then Some (node, p, s, True) else do {
        np \<leftarrow> getn p s;
        s \<leftarrow> set_color w (color np) s;
        s \<leftarrow> set_color p BLACK s;
        nw \<leftarrow> getn w s;
        s \<leftarrow> (if right nw \<noteq> None then set_color (right nw) BLACK s else Some s);
        s \<leftarrow> left_rotate p s;
        Some (rb_root s, p, s, True) })"

definition fix_delete_left_tail :: "addr option \<Rightarrow> addr option \<Rightarrow> addr option \<Rightarrow> ('k, 'v) rbtree \<Rightarrow>
    (addr option \<times> addr option \<times> ('k, 'v) rbtree \<times> bool) option" where
  "fix_delete_left_tail node p w s =
     (if w = None then Some (node, p, s, True) else do {
        nw \<leftarrow> getn w s;
        lb \<leftarrow> is_black (left nw) s;
        rb \<leftarrow> is_black (right nw) s;
        (if lb \<and> rb then do {
           s \<leftarrow> set_color w RED s;
           np \<leftarrow> getn p s;
           Some (p, locked s (parent np), s, False) }
         else do {
           (w, s) \<leftarrow> (if rb then do {
               s \<leftarrow> (if left nw \<noteq> None then set_color (left nw) BLACK s else Some s);
               s \<leftarrow> set_color w RED s;
               s \<leftarrow> right_rotate w s;
               np \<leftarrow> getn p s;
               Some (right np, s) }
             else Some (w, s));
           fix_delete_left_last node p w s }) })"

definition fix_delete_left :: "addr option \<Rightarrow> addr option \<Rightarrow> ('k, 'v) rbtree \<Rightarrow>
    (addr option \<times> addr option \<times> ('k, 'v) rbtree \<times> bool) option" where
  "fix_delete_left node p s = do {
     np \<leftarrow> getn p s;
     let w = right np;
     (if w = None then Some (node, p, s, True) else do {
        nw \<leftarrow> getn w s;
        (w, s) \<leftarrow> (if color nw = RED then do {
            s \<leftarrow> set_color w BLACK s;
            s \<leftarrow> set_color p RED s;
            s \<leftarrow> left_rotate p s;
            np \<leftarrow> getn p s;
            Some (right np, s) }
          else Some (w, s));
        fix_delete_left_tail node p w s }) }"

definition fix_delete_right_last :: "addr option \<Rightarrow> addr option \<Rightarrow> addr option \<Rightarrow> ('k, 'v) rbtree \<Rightarrow>
    (addr option \<times> addr option \<times> ('k, 'v) rbtree \<times> bool) option" where
  "fix_delete_right_last node p w s =
     (if w = None then Some (node, p, s, True) else do {
        np \<leftarrow> getn p s;
        s \<leftarrow> set_color w (color np) s;
        s \<leftarrow> set_color p BLACK s;
        nw \<leftarrow> getn w s;
        s \<leftarrow> (if left nw \<noteq> None then set_color (left nw) BLACK s else Some s);
        s \<leftarrow> right_rotate p s;
        Some (rb_root s, p, s, True) })"

definition fix_delete_right_tail :: "addr option \<Rightarrow> addr option \<Rightarrow> addr option \<Rightarrow> ('k, 'v) rbtree \<Rightarrow>
    (addr option \<times> addr option \<times> ('k, 'v) rbtree \<times> bool) option" where
  "fix_delete_right_tail node p w s =
     (if w = None then Some (node, p, s, True) else do {
        nw \<leftarrow> getn w s;
        lb \<leftarrow> is_black (left nw) s;
        rb \<leftarrow> is_black (right nw) s;
        (if lb \<and> rb then do {
           s \<leftarrow> set_color w RED s;
           np \<leftarrow> getn p s;
           Some (p, locked s (parent np), s, False) }
         else do {
           (w, s) \<leftarrow> (if lb then do {
               s \<leftarrow> (if right nw \<noteq> None then set_color (right nw) BLACK s else Some s);
               s \<leftarrow> set_color w RED s;
               s \<leftarrow> left_rotate w s;
               np \<leftarrow> getn p s;
               Some (left np, s) }
             else Some (w, s));
           fix_delete_right_last node p w s }) })"

definition fix_delete_right :: "addr option \<Rightarrow> addr option \<Rightarrow> ('k, 'v) rbtree \<Rightarrow>
    (addr option \<times> addr option \<times> ('k, 'v) rbtree \<times> bool) option" where
  "fix_delete_right node p s = do {
     np \<leftarrow> getn p s;
     let w = left np;
     (if w = None then Some (node, p, s, True) else do {
        nw \<leftarrow> getn w s;
        (w, s) \<leftarrow> (if color nw = RED then do {
            s \<leftarrow> set_color w BLACK s;
            s \<leftarrow> set_color p RED s;
            s \<leftarrow> right_rotate p s;
            np \<leftarrow> getn p s;
            Some (left np, s) }
          else Some (w, s));
        fix_delete_right_tail node p w s }) }"

definition fix_delete_body :: "addr option \<Rightarrow> addr option \<Rightarrow> ('k, 'v) rbtree \<Rightarrow>
    (addr option \<times> addr option \<times> ('k, 'v) rbtree \<times> bool) option" where
  "fix_delete_body node p s =
     (if p = None then Some (node, p, s, True) else do {
        np \<leftarrow> getn p s;
        (if node = left np then fix_delete_left node p s else fix_delete_right node p s) })"

partial_function (option) fix_delete_loop ::
    "addr option \<Rightarrow> addr option \<Rightarrow> ('k, 'v) rbtree \<Rightarrow> (addr option \<times> ('k, 'v) rbtree) option" where
  "fix_delete_loop node p s =
     (if node = rb_root s then Some (node, s) else do {
        b \<leftarrow> is_black node s;
        (if b then do {
           (node', p', s', brk) \<leftarrow> fix_delete_body node p s;
           (if brk then Some (node', s') else fix_delete_loop node' p' s') }
         else Some (node, s)) })"

definition fix_delete :: "addr option \<Rightarrow> addr option \<Rightarrow> ('k, 'v) rbtree \<Rightarrow> ('k, 'v) rbtree option" where
  "fix_delete node p s =
     (if rb_root s = None then Some s else do {
        (node, s) \<leftarrow> fix_delete_loop node p s;
        (if node \<noteq> None then set_color node BLACK s else Some s) })"

text \<open>The part of \<open>remove\<close> that unlinks the node (lines 397 to 435): it returns the colour that
  left the tree, the node \<open>x\<close> that moved up and its parent. With two children the successor is
  first taken from its place (lines 418 to 427), then put in place of the node (429 to 434).\<close>

definition detach_successor :: "addr option \<Rightarrow> addr option \<Rightarrow> addr option \<Rightarrow> ('k, 'v) rbtree \<Rightarrow>
    (addr option \<times> ('k, 'v) rbtree) option" where
  "detach_successor node successor p s =
     (if p \<noteq> node then do {
        m \<leftarrow> getn successor s;
        s \<leftarrow> transplant successor (right m) s;
        n \<leftarrow> getn node s;
        s \<leftarrow> put successor (\<lambda>m. m\<lparr>right := right n\<rparr>) s;
        s \<leftarrow> (if right n \<noteq> None then put (right n) (\<lambda>m. m\<lparr>parent := successor\<rparr>) s else Some s);
        Some (p, s) }
      else Some (successor, s))"

definition replace_node :: "addr option \<Rightarrow> addr option \<Rightarrow> ('k, 'v) rbtree \<Rightarrow>
    ('k, 'v) rbtree option" where
  "replace_node node successor s = do {
     s \<leftarrow> transplant node successor s;
     n \<leftarrow> getn node s;
     s \<leftarrow> put successor (\<lambda>m. m\<lparr>left := left n\<rparr>) s;
     s \<leftarrow> (if left n \<noteq> None then put (left n) (\<lambda>m. m\<lparr>parent := successor\<rparr>) s else Some s);
     n \<leftarrow> getn node s;
     set_color successor (color n) s }"

definition unlink :: "addr option \<Rightarrow> ('k, 'v) rbtree \<Rightarrow>
    (color \<times> addr option \<times> addr option \<times> ('k, 'v) rbtree) option" where
  "unlink node s = do {
     n \<leftarrow> getn node s;
     (if left n = None then do {
        let x = right n;
        let p = locked s (parent n);
        s \<leftarrow> transplant node (right n) s;
        Some (color n, x, p, s) }
      else if right n = None then do {
        let x = left n;
        let p = locked s (parent n);
        s \<leftarrow> transplant node (left n) s;
        Some (color n, x, p, s) }
      else do {
        successor \<leftarrow> minimum (right n) s;
        m \<leftarrow> getn successor s;
        let original_color = color m;
        let x = right m;
        let p = locked s (parent m);
        (p, s) \<leftarrow> detach_successor node successor p s;
        s \<leftarrow> replace_node node successor s;
        Some (original_color, x, p, s) }) }"

definition rb_remove :: "'k::linorder \<Rightarrow> ('k, 'v) rbtree \<Rightarrow> (bool \<times> ('k, 'v) rbtree) option" where
  "rb_remove k s = do {
     node \<leftarrow> find_node k s;
     (case node of None \<Rightarrow> Some (False, s)
      | Some a \<Rightarrow> do {
          (original_color, x, p, s) \<leftarrow> unlink node s;
          s \<leftarrow> (if original_color = BLACK then
                   (if x = rb_root s then (if x \<noteq> None then set_color x BLACK s else Some s)
                    else if p \<noteq> None then fix_delete x p s else Some s)
                 else Some s);
          Some (True, s\<lparr>rb_count := rb_count s - 1, rb_heap := (rb_heap s)(a := None)\<rparr>) }) }"

section \<open>Traversals and the validator\<close>

partial_function (option) inorder_traversal ::
    "addr option \<Rightarrow> ('k \<times> 'v) list \<Rightarrow> ('k, 'v) rbtree \<Rightarrow> ('k \<times> 'v) list option" where
  "inorder_traversal node result s =
     (if node = None then Some result else do {
        n \<leftarrow> getn node s;
        result \<leftarrow> inorder_traversal (left n) result s;
        inorder_traversal (right n) (result @ [(key n, val n)]) s })"

definition rb_inorder :: "('k, 'v) rbtree \<Rightarrow> ('k \<times> 'v) list option" where
  "rb_inorder s = inorder_traversal (rb_root s) [] s"

text \<open>\<open>path_black_count\<close> is a reference parameter: it is threaded through the calls.\<close>

partial_function (option) validate_rb ::
    "addr option \<Rightarrow> int \<Rightarrow> int \<Rightarrow> ('k, 'v) rbtree \<Rightarrow> (bool \<times> int) option" where
  "validate_rb node black_count path_black_count s =
     (if node = None then
        (let pbc = (if path_black_count = - 1 then black_count else path_black_count)
         in Some (black_count = pbc, pbc))
      else do {
        n \<leftarrow> getn node s;
        bad \<leftarrow> (if color n = RED then do {
                 l \<leftarrow> is_red (left n) s;
                 r \<leftarrow> is_red (right n) s;
                 Some (l \<or> r) } else Some False);
        (if bad then Some (False, path_black_count) else do {
           let new_black_count = black_count + (if color n = BLACK then 1 else 0);
           (ok, pbc) \<leftarrow> validate_rb (left n) new_black_count path_black_count s;
           (if ok then validate_rb (right n) new_black_count pbc s else Some (False, pbc)) }) })"

definition rb_validate :: "('k, 'v) rbtree \<Rightarrow> bool option" where
  "rb_validate s =
     (if rb_root s = None then Some True else do {
        n \<leftarrow> getn (rb_root s) s;
        (if color n \<noteq> BLACK then Some False else do {
           (ok, pbc) \<leftarrow> validate_rb (rb_root s) 0 (- 1) s;
           Some ok }) })"

partial_function (option) node_height :: "addr option \<Rightarrow> ('k, 'v) rbtree \<Rightarrow> int option" where
  "node_height node s =
     (if node = None then Some 0 else do {
        n \<leftarrow> getn node s;
        l \<leftarrow> node_height (left n) s;
        r \<leftarrow> node_height (right n) s;
        Some (1 + max l r) })"

definition get_height :: "('k, 'v) rbtree \<Rightarrow> int option" where
  "get_height s = node_height (rb_root s) s"

text \<open>The inner \<open>for\<close> loop of \<open>level_order\<close> runs up to the \<open>int\<close> \<open>level_size\<close>. It pops \<open>i\<close> nodes, appends them to \<open>level\<close> and pushes
  their children.\<close>

fun level_for :: "nat \<Rightarrow> addr option list \<Rightarrow> ('k \<times> color) list \<Rightarrow> ('k, 'v) rbtree \<Rightarrow>
    (addr option list \<times> ('k \<times> color) list) option" where
  "level_for 0 q level s = Some (q, level)"
| "level_for (Suc i) [] level s = None"
| "level_for (Suc i) (node # q) level s = do {
     n \<leftarrow> getn node s;
     let q = (if left n \<noteq> None then q @ [left n] else q);
     let q = (if right n \<noteq> None then q @ [right n] else q);
     level_for i q (level @ [(key n, color n)]) s }"

partial_function (option) level_while :: "addr option list \<Rightarrow> ('k \<times> color) list list \<Rightarrow>
    ('k, 'v) rbtree \<Rightarrow> ('k \<times> color) list list option" where
  "level_while q result s =
     (if q = [] then Some result else do {
        (q', level) \<leftarrow> level_for (nat (int_of_size (length q))) q [] s;
        level_while q' (result @ [level]) s })"

definition level_order :: "('k, 'v) rbtree \<Rightarrow> ('k \<times> color) list list option" where
  "level_order s = (if rb_root s = None then Some [] else level_while [rb_root s] [] s)"

text \<open>The equations of the loops, for evaluation.\<close>

declare
  fix_insert_loop.simps [code] and
  insert_position.simps [code] and
  minimum_loop.simps [code] and
  find_from.simps [code] and
  fix_delete_loop.simps [code] and
  inorder_traversal.simps [code] and
  validate_rb.simps [code] and
  node_height.simps [code] and
  level_while.simps [code]

end
