(* ===== verification/Tree_Repair.thy ===== *)
theory Tree_Repair
  imports Heap_Tree
begin

text \<open>
  What the proofs of the two red-black trees share about trees and contexts: the invariants of the
  repair loops after an insertion and after a removal, contexts of contexts, and where a search ends.
\<close>

section \<open>Repair after insertion\<close>

text \<open>The loop invariant: the focus is red, it and its context are red-black, but its parent
  may be red as well.\<close>

definition ins_inv :: "('k, 'v) tree \<Rightarrow> ('k, 'v) ctx \<Rightarrow> bool" where
  "ins_inv t cs \<longleftrightarrow> tree_color t = RED \<and> invc t \<and> invh t \<and> cinv (bheight t) cs"

lemma ins_inv_red_parent:
  assumes "ins_inv t cs" and "ctx_color cs = RED"
  obtains fp fg cs' where "cs = fp # fg # cs'"
  using assms by (cases cs rule: ctx_color.cases; cases "tl cs") (auto simp: ins_inv_def)

section \<open>Repair after deletion\<close>

text \<open>The loop invariant: the focus is red-black, and one black node short of what its context
  expects. A red focus may have a red child, since the loop stops there and paints it black.\<close>

definition del_inv :: "('k, 'v) tree \<Rightarrow> ('k, 'v) ctx \<Rightarrow> bool" where
  "del_inv t cs \<longleftrightarrow> invc (paint BLACK t) \<and> invh t \<and> cinv (Suc (bheight t)) cs"

lemma paint_BLACK: "tree_color t = BLACK \<Longrightarrow> paint BLACK t = t"
  by (cases t) auto

lemma bheight_paint_RED: "tree_color t = RED \<Longrightarrow> bheight (paint BLACK t) = Suc (bheight t)"
  by (cases t) auto

definition same_contents :: "('k, 'v) tree \<Rightarrow> ('k, 'v) tree \<Rightarrow> bool" where
  "same_contents t t' \<longleftrightarrow> inorder t' = inorder t \<and> set (addrs t') = set (addrs t)"

lemma same_contents_trans: "same_contents t u \<Longrightarrow> same_contents u v \<Longrightarrow> same_contents t v"
  by (simp add: same_contents_def)

text \<open>Taking out a node with at most one child leaves either a red-black tree or a tree that is
  one black node short at the child.\<close>

lemma hole_inv:
  assumes "rbt (plug (Node a l c k v r) cs)" and "l = Leaf \<and> x = r \<or> r = Leaf \<and> x = l"
  shows "c = RED \<Longrightarrow> rbt (plug x cs)" and "c = BLACK \<Longrightarrow> del_inv x cs"
  using assms by (auto simp: rbt_plug del_inv_def invc_paint_BLACK)

section \<open>Contexts of contexts\<close>

lemma plug_append: "plug t (cs @ ds) = plug (plug t cs) ds"
  by (induction t cs rule: plug.induct) auto

lemma focus_append: "focus np h rt t (cs @ ds) \<longleftrightarrow> focus np h rt (plug t cs) ds"
  by (induction t cs rule: plug.induct) (simp_all add: focus_up)

lemma lefts_append: "lefts (cs @ ds) = lefts ds @ lefts cs"
  by (induction cs rule: lefts.induct) auto

lemma rights_append: "rights (cs @ ds) = rights cs @ rights ds"
  by (induction cs rule: rights.induct) auto

lemma caddrs_append: "caddrs (cs @ ds) = caddrs cs @ caddrs ds"
  by (induction cs rule: caddrs.induct) auto

lemma ctx_color_FrameR: "ctx_color (cs @ FrameR a l c k v # ds) = ctx_color (cs @ FrameR b l c k' v' # ds)"
  by (cases cs rule: ctx_color.cases) auto

lemma cinv_FrameR: "cinv n (cs @ FrameR a l c k v # ds) = cinv n (cs @ FrameR b l c k' v' # ds)"
proof (induction n cs rule: cinv.induct)
  case (2 n a' c' k'' v'' r cs)
  then show ?case using ctx_color_FrameR [of cs a l c k v ds b k' v'] by auto
next
  case (3 n a' l' c' k'' v'' cs)
  then show ?case using ctx_color_FrameR [of cs a l c k v ds b k' v'] by auto
qed simp

section \<open>Levels\<close>

fun kids :: "('k, 'v) tree \<Rightarrow> ('k, 'v) tree list" where
  "kids Leaf = []"
| "kids (Node a l c k v r) = filter (\<lambda>t. t \<noteq> Leaf) [l, r]"

fun forest_height :: "('k, 'v) tree list \<Rightarrow> nat" where
  "forest_height [] = 0"
| "forest_height (t # ts) = max (tree_height t) (forest_height ts)"

lemma forest_height_kids:
  "t \<noteq> Leaf \<Longrightarrow> tree_height t = Suc (forest_height (kids t))"
  by (cases t) auto

lemma forest_height_append: "forest_height (ts @ us) = max (forest_height ts) (forest_height us)"
  by (induction ts) auto

text \<open>A level is no wider than its trees have entries.\<close>

definition forest_size :: "('k, 'v) tree list \<Rightarrow> nat" where
  "forest_size ts = length (concat (map inorder ts))"

lemma forest_width: "\<forall>t\<in>set ts. t \<noteq> Leaf \<Longrightarrow> length ts \<le> forest_size ts"
proof (induction ts)
  case (Cons t ts)
  then show ?case by (cases t) (auto simp: forest_size_def)
qed simp

lemma forest_size_kids: "forest_size (concat (map kids ts)) \<le> forest_size ts"
proof (induction ts)
  case (Cons t ts)
  then show ?case by (cases t) (auto simp: forest_size_def)
qed simp

lemma forest_height_level:
  "\<forall>t\<in>set ts. t \<noteq> Leaf \<Longrightarrow> ts \<noteq> [] \<Longrightarrow>
   forest_height ts = Suc (forest_height (concat (map kids ts)))"
proof (induction ts)
  case (Cons t ts)
  then show ?case
    by (cases ts) (auto simp: forest_height_append forest_height_kids)
qed simp

section \<open>Searching\<close>

text \<open>\<open>around k cs\<close>: the keys left of the hole are smaller than \<open>k\<close>, those right of it larger.\<close>

definition around :: "'k::linorder \<Rightarrow> ('k, 'v) ctx \<Rightarrow> bool" where
  "around k cs \<longleftrightarrow> (\<forall>a\<in>fst ` set (lefts cs). a < k) \<and> (\<forall>b\<in>fst ` set (rights cs). k < b)"

lemma around_FrameL: "sorted1 (inorder (plug (Node a l c kn v r) cs)) \<Longrightarrow> around k cs \<Longrightarrow> k < kn \<Longrightarrow>
    around k (FrameL a c kn v r # cs)"
  by (auto simp: around_def inorder_plug sorted_wrt_append dest: less_trans)

lemma around_FrameR: "sorted1 (inorder (plug (Node a l c kn v r) cs)) \<Longrightarrow> around k cs \<Longrightarrow> kn < k \<Longrightarrow>
    around k (FrameR a l c kn v # cs)"
  by (auto simp: around_def inorder_plug sorted_wrt_append dest: less_trans)

text \<open>Where a search for \<open>k\<close> ends: at the node that has the key, or at a leaf.\<close>

definition lands :: "'k::linorder \<Rightarrow> ('k, 'v) tree \<Rightarrow> ('k, 'v) tree \<Rightarrow> ('k, 'v) ctx \<Rightarrow> bool" where
  "lands k t0 t cs \<longleftrightarrow> plug t cs = t0 \<and> around k cs \<and> (t = Leaf \<or> (\<exists>a l c v r. t = Node a l c k v r))"

text \<open>What a landing says of the contents.\<close>

lemma lands_Leaf:
  assumes "lands k t0 Leaf cs" and "sorted1 (inorder t0)"
  shows "k \<notin> fst ` set (inorder t0)" and "upd_list k v (inorder t0) = lefts cs @ (k, v) # rights cs"
proof -
  have t0: "inorder t0 = lefts cs @ rights cs" and a: "around k cs"
    using assms(1) by (auto simp: lands_def inorder_plug)
  show "k \<notin> fst ` set (inorder t0)" using a by (auto simp: t0 around_def)
  show "upd_list k v (inorder t0) = lefts cs @ (k, v) # rights cs"
    unfolding t0 by (rule upd_list_mid_new) (use a assms(2) t0 in \<open>auto simp: around_def\<close>)
qed

lemma lands_Node:
  assumes "lands k t0 (Node a l c k' w r) cs" and "sorted1 (inorder t0)"
  shows "k' = k" and "k \<in> fst ` set (inorder t0)" and "map_of (inorder t0) k = Some w"
    and "upd_list k v (inorder t0) = inorder (plug (Node a l c k v r) cs)"
    and "del_list k (inorder t0) = lefts cs @ inorder l @ inorder r @ rights cs"
proof -
  show k: "k' = k" using assms(1) by (simp add: lands_def)
  have t0: "inorder t0 = (lefts cs @ inorder l) @ (k, w) # inorder r @ rights cs"
    using assms(1) k by (auto simp: lands_def inorder_plug)
  note s = assms(2) [unfolded t0]
  show "k \<in> fst ` set (inorder t0)" by (simp add: t0)
  show "map_of (inorder t0) k = Some w" unfolding t0 using s by (rule map_of_mid)
  show "upd_list k v (inorder t0) = inorder (plug (Node a l c k v r) cs)"
    unfolding t0 upd_list_mid_old [OF s] by (simp add: inorder_plug)
  show "del_list k (inorder t0) = lefts cs @ inorder l @ inorder r @ rights cs"
    unfolding t0 del_list_mid [OF s] by simp
qed

end
