(* ===== verification/RedBlackTree_Proofs.thy ===== *)
theory RedBlackTree_Proofs
  imports RedBlackTree Tree_Repair
begin

text \<open>
  Correctness of \<open>RedBlackTree\<close>. Each pointer operation is described by what it does to the
  tree in focus: the rotations and recolourings first, then the two fix-up loops with their
  red-black invariants and a decreasing context length, then the public methods against the
  sorted association list \<open>ps\<close> that \<open>rb_repr s ps\<close> relates to an object \<open>s\<close>.
\<close>

section \<open>Objects and trees\<close>

abbreviation holds :: "('k, 'v) rbtree \<Rightarrow> ('k, 'v) tree \<Rightarrow> ('k, 'v) ctx \<Rightarrow> bool" where
  "holds s t cs \<equiv> focus None (rb_heap s) (rb_root s) t cs"

text \<open>What the fix-ups never touch: the count, the allocator, the set of live nodes.\<close>

definition same :: "('k, 'v) rbtree \<Rightarrow> ('k, 'v) rbtree \<Rightarrow> bool" where
  "same s s' \<longleftrightarrow> rb_count s' = rb_count s \<and> rb_next s' = rb_next s \<and>
     dom (rb_heap s') = dom (rb_heap s)"

lemma same_refl [simp]: "same s s"
  by (simp add: same_def)

lemma same_trans [trans]: "same s t \<Longrightarrow> same t u \<Longrightarrow> same s u"
  by (simp add: same_def)

definition rb_inv :: "('k::linorder, 'v) rbtree \<Rightarrow> ('k, 'v) tree \<Rightarrow> bool" where
  "rb_inv s t \<longleftrightarrow> holds s t [] \<and> rbt t \<and> sorted1 (inorder t) \<and>
     rb_count s = of_nat (length (inorder t)) \<and>
     dom (rb_heap s) = set (addrs t) \<and> (\<forall>a\<in>set (addrs t). a < rb_next s)"

definition rb_repr :: "('k::linorder, 'v) rbtree \<Rightarrow> ('k \<times> 'v) list \<Rightarrow> bool" where
  "rb_repr s ps \<longleftrightarrow> (\<exists>t. rb_inv s t \<and> inorder t = ps)"

section \<open>Pointer operations at the focus\<close>

lemma left_rotate_focus:
  assumes "holds s (Node x a cx kx vx (Node y b cy ky vy c)) cs"
  shows "runs (left_rotate (Some x) s) (\<lambda>s'.
     holds s' (Node y (Node x a cx kx vx b) cy ky vy c) cs \<and> same s s')"
  using assms
  by (cases b; cases cs rule: par.cases)
    (auto simp: focus_def left_rotate_def put_def is_left_child_def Let_def same_def)

lemma right_rotate_focus:
  assumes "holds s (Node y (Node x a cx kx vx b) cy ky vy c) cs"
  shows "runs (right_rotate (Some y) s) (\<lambda>s'.
     holds s' (Node x a cx kx vx (Node y b cy ky vy c)) cs \<and> same s s')"
  using assms
  by (cases b; cases cs rule: par.cases)
    (auto simp: focus_def right_rotate_def put_def is_left_child_def Let_def same_def)

lemma set_color_focus:
  assumes "holds s (Node a l c k v r) cs"
  shows "runs (set_color (Some a) c' s) (\<lambda>s'. holds s' (Node a l c' k v r) cs \<and> same s s')"
  using assms by (auto simp: focus_def set_color_def put_def same_def)

lemma set_color_ptr:
  assumes "holds s t cs" and "t \<noteq> Leaf"
  shows "runs (set_color (ptr None t) c s) (\<lambda>s'. holds s' (paint c t) cs \<and> same s s')"
  using assms set_color_focus by (cases t) auto

lemma is_red_ptr: "holds s t cs \<Longrightarrow> is_red (ptr None t) s = Some (tree_color t = RED)"
  by (cases t) (auto simp: focus_def is_red_def)

lemma is_black_ptr: "holds s t cs \<Longrightarrow> is_black (ptr None t) s = Some (tree_color t = BLACK)"
  by (cases t) (auto simp: focus_def is_black_def)

lemma sibling_FrameL:
  assumes "holds s (Node p pl c kp vp pr) (FrameL g cg kg vg u # cs)"
  shows "sibling (Some p) s = Some (ptr None u)"
    and "is_red (ptr None u) s = Some (tree_color u = RED)"
    and "is_left_child (Some p) s = Some True"
  using assms by (cases u; auto simp: focus_def sibling_def is_left_child_def is_red_def Let_def)+

lemma sibling_FrameR:
  assumes "holds s (Node p pl c kp vp pr) (FrameR g u cg kg vg # cs)"
  shows "sibling (Some p) s = Some (ptr None u)"
    and "is_red (ptr None u) s = Some (tree_color u = RED)"
    and "is_left_child (Some p) s = Some False"
  using assms by (cases u; auto simp: focus_def sibling_def is_left_child_def is_red_def Let_def)+

lemma parent_locked: "holds s t cs \<Longrightarrow> locked s (par cs) = par cs"
  by (cases cs rule: par.cases) (auto simp: focus_def)

lemma gparent_locked:
  assumes "holds s (Node z l c k v r) (FrameL p cp kp vp pr # cs) \<or>
    holds s (Node z l c k v r) (FrameR p pl cp kp vp # cs)"
  shows "\<exists>m. rb_heap s p = Some m \<and> color m = cp \<and> locked s (parent m) = par cs"
  using assms by (cases cs rule: par.cases) (auto simp: focus_def)

section \<open>Repair after insertion\<close>

lemma fix_insert_left_red:
  assumes "holds s (Node p pl RED kp vp pr) (FrameL g BLACK kg vg (Node w ul RED ku vu ur) # cs)"
  shows "runs (fix_insert_left node (Some p) (Some g) s) (\<lambda>(n, s', brk). n = Some g \<and> \<not> brk \<and>
    holds s' (Node g (Node p pl BLACK kp vp pr) RED kg vg (Node w ul BLACK ku vu ur)) cs \<and> same s s')"
  using assms
  by (auto simp: focus_def fix_insert_left_def sibling_def is_left_child_def is_red_def
      set_color_def put_def same_def Let_def)

lemma fix_insert_right_red:
  assumes "holds s (Node p pl RED kp vp pr) (FrameR g (Node w ul RED ku vu ur) BLACK kg vg # cs)"
  shows "runs (fix_insert_right node (Some p) (Some g) s) (\<lambda>(n, s', brk). n = Some g \<and> \<not> brk \<and>
    holds s' (Node g (Node w ul BLACK ku vu ur) RED kg vg (Node p pl BLACK kp vp pr)) cs \<and> same s s')"
  using assms
  by (auto simp: focus_def fix_insert_right_def sibling_def is_left_child_def is_red_def
      set_color_def put_def same_def Let_def)

text \<open>The last three steps of the other cases: parent black, grandparent red, rotate.\<close>

lemma recolor_rotate_right:
  assumes "holds s (Node g (Node p a RED kp vp b) BLACK kg vg u) cs"
  shows "runs (do { s \<leftarrow> set_color (Some p) BLACK s; s \<leftarrow> set_color (Some g) RED s;
      right_rotate (Some g) s })
    (\<lambda>s'. holds s' (Node p a BLACK kp vp (Node g b RED kg vg u)) cs \<and> same s s')"
proof -
  obtain s1 where s1: "set_color (Some p) BLACK s = Some s1" "same s s1"
    "holds s1 (Node g (Node p a BLACK kp vp b) BLACK kg vg u) cs"
    using set_color_focus [of s p a RED kp vp b "FrameL g BLACK kg vg u # cs" BLACK] assms
    by (auto elim: runsE simp: focus_left)
  obtain s2 where s2: "set_color (Some g) RED s1 = Some s2" "same s1 s2"
    "holds s2 (Node g (Node p a BLACK kp vp b) RED kg vg u) cs"
    using set_color_focus [OF s1(3)] by (auto elim: runsE)
  show ?thesis
    using s1 s2 right_rotate_focus [OF s2(3)] by (auto simp: same_def elim!: runs_mono)
qed

lemma recolor_rotate_left:
  assumes "holds s (Node g u BLACK kg vg (Node p a RED kp vp b)) cs"
  shows "runs (do { s \<leftarrow> set_color (Some p) BLACK s; s \<leftarrow> set_color (Some g) RED s;
      left_rotate (Some g) s })
    (\<lambda>s'. holds s' (Node p (Node g u RED kg vg a) BLACK kp vp b) cs \<and> same s s')"
proof -
  obtain s1 where s1: "set_color (Some p) BLACK s = Some s1" "same s s1"
    "holds s1 (Node g u BLACK kg vg (Node p a BLACK kp vp b)) cs"
    using set_color_focus [of s p a RED kp vp b "FrameR g u BLACK kg vg # cs" BLACK] assms
    by (auto elim: runsE simp: focus_right)
  obtain s2 where s2: "set_color (Some g) RED s1 = Some s2" "same s1 s2"
    "holds s2 (Node g u RED kg vg (Node p a BLACK kp vp b)) cs"
    using set_color_focus [OF s1(3)] by (auto elim: runsE)
  show ?thesis
    using s1 s2 left_rotate_focus [OF s2(3)] by (auto simp: same_def elim!: runs_mono)
qed

lemma fix_insert_left_outer:
  assumes h: "holds s (Node z l RED k v r) (FrameL p RED kp vp pr # FrameL g BLACK kg vg u # cs)"
    and u: "tree_color u = BLACK"
  shows "runs (fix_insert_left (Some z) (Some p) (Some g) s) (\<lambda>(n, s', brk). n = Some z \<and> \<not> brk \<and>
    holds s' (Node z l RED k v r) (FrameL p BLACK kp vp (Node g pr RED kg vg u) # cs) \<and> same s s')"
proof -
  have p: "holds s (Node p (Node z l RED k v r) RED kp vp pr) (FrameL g BLACK kg vg u # cs)"
    and g: "holds s (Node g (Node p (Node z l RED k v r) RED kp vp pr) BLACK kg vg u) cs"
    using h by (simp_all add: focus_left)
  show ?thesis
    using recolor_rotate_right [OF g] u sibling_FrameL [OF p] sibling_FrameL(3) [OF h]
    by (auto simp: fix_insert_left_def focus_left bind_eq_Some_conv elim!: runsE)
qed

lemma fix_insert_right_outer:
  assumes h: "holds s (Node z l RED k v r) (FrameR p pl RED kp vp # FrameR g u BLACK kg vg # cs)"
    and u: "tree_color u = BLACK"
  shows "runs (fix_insert_right (Some z) (Some p) (Some g) s) (\<lambda>(n, s', brk). n = Some z \<and> \<not> brk \<and>
    holds s' (Node z l RED k v r) (FrameR p (Node g u RED kg vg pl) BLACK kp vp # cs) \<and> same s s')"
proof -
  have p: "holds s (Node p pl RED kp vp (Node z l RED k v r)) (FrameR g u BLACK kg vg # cs)"
    and g: "holds s (Node g u BLACK kg vg (Node p pl RED kp vp (Node z l RED k v r))) cs"
    using h by (simp_all add: focus_right)
  show ?thesis
    using recolor_rotate_left [OF g] u sibling_FrameR [OF p] sibling_FrameR(3) [OF h]
    by (auto simp: fix_insert_right_def focus_right bind_eq_Some_conv elim!: runsE)
qed

lemma fix_insert_left_inner:
  assumes h: "holds s (Node z l RED k v r) (FrameR p pl RED kp vp # FrameL g BLACK kg vg u # cs)"
    and u: "tree_color u = BLACK"
  shows "runs (fix_insert_left (Some z) (Some p) (Some g) s) (\<lambda>(n, s', brk). n = Some p \<and> \<not> brk \<and>
    holds s' (Node p pl RED kp vp l) (FrameL z BLACK k v (Node g r RED kg vg u) # cs) \<and> same s s')"
proof -
  have p: "holds s (Node p pl RED kp vp (Node z l RED k v r)) (FrameL g BLACK kg vg u # cs)"
    using h by (simp add: focus_right)
  obtain s1 where s1: "left_rotate (Some p) s = Some s1" "same s s1"
    and h1: "holds s1 (Node z (Node p pl RED kp vp l) RED k v r) (FrameL g BLACK kg vg u # cs)"
    using left_rotate_focus [OF p] by (auto elim: runsE)
  have g: "holds s1 (Node g (Node z (Node p pl RED kp vp l) RED k v r) BLACK kg vg u) cs"
    using h1 by (simp add: focus_left)
  have "\<exists>n m. rb_heap s1 p = Some n \<and> locked s1 (parent n) = Some z \<and>
      rb_heap s1 z = Some m \<and> locked s1 (parent m) = Some g"
    using h1 by (auto simp: focus_def)
  then show ?thesis
    using s1 recolor_rotate_right [OF g] u sibling_FrameL [OF p] sibling_FrameR(3) [OF h]
    by (auto simp: fix_insert_left_def focus_left bind_eq_Some_conv same_def elim!: runsE)
qed

lemma fix_insert_right_inner:
  assumes h: "holds s (Node z l RED k v r) (FrameL p RED kp vp pr # FrameR g u BLACK kg vg # cs)"
    and u: "tree_color u = BLACK"
  shows "runs (fix_insert_right (Some z) (Some p) (Some g) s) (\<lambda>(n, s', brk). n = Some p \<and> \<not> brk \<and>
    holds s' (Node p r RED kp vp pr) (FrameR z (Node g u RED kg vg l) BLACK k v # cs) \<and> same s s')"
proof -
  have p: "holds s (Node p (Node z l RED k v r) RED kp vp pr) (FrameR g u BLACK kg vg # cs)"
    using h by (simp add: focus_left)
  obtain s1 where s1: "right_rotate (Some p) s = Some s1" "same s s1"
    and h1: "holds s1 (Node z l RED k v (Node p r RED kp vp pr)) (FrameR g u BLACK kg vg # cs)"
    using right_rotate_focus [OF p] by (auto elim: runsE)
  have g: "holds s1 (Node g u BLACK kg vg (Node z l RED k v (Node p r RED kp vp pr))) cs"
    using h1 by (simp add: focus_right)
  have "\<exists>n m. rb_heap s1 p = Some n \<and> locked s1 (parent n) = Some z \<and>
      rb_heap s1 z = Some m \<and> locked s1 (parent m) = Some g"
    using h1 by (auto simp: focus_def)
  then show ?thesis
    using s1 recolor_rotate_left [OF g] u sibling_FrameR [OF p] sibling_FrameL(3) [OF h]
    by (auto simp: fix_insert_right_def focus_right bind_eq_Some_conv same_def elim!: runsE)
qed

text \<open>A step of the loop: it keeps the invariant and the contents, and it moves up.\<close>

definition ins_step :: "('k, 'v) rbtree \<Rightarrow> ('k, 'v) tree \<Rightarrow> ('k, 'v) ctx \<Rightarrow>
    addr option \<times> ('k, 'v) rbtree \<times> bool \<Rightarrow> bool" where
  "ins_step s t cs = (\<lambda>(n, s', brk). \<not> brk \<and> same s s' \<and>
     (\<exists>t' cs'. n = ptr None t' \<and> holds s' t' cs' \<and> ins_inv t' cs' \<and> length cs' < length cs \<and>
       inorder (plug t' cs') = inorder (plug t cs) \<and>
       set (addrs (plug t' cs')) = set (addrs (plug t cs))))"

lemma ins_step_intro:
  assumes "runs m (\<lambda>(n, s', brk). n = n0 \<and> \<not> brk \<and> holds s' t' cs' \<and> same s s')"
    and "n0 = ptr None t'" and "ins_inv t' cs'" and "length cs' < length cs"
    and "inorder (plug t' cs') = inorder (plug t cs)"
    and "set (addrs (plug t' cs')) = set (addrs (plug t cs))"
  shows "runs m (ins_step s t cs)"
  using assms(1) by (rule runs_mono) (use assms(2-) in \<open>auto simp: ins_step_def\<close>)

lemma fix_insert_left_step:
  assumes h: "holds s (Node z l RED k v r) (fp # FrameL g cg kg vg u # cs)"
    and inv: "ins_inv (Node z l RED k v r) (fp # FrameL g cg kg vg u # cs)"
    and red: "ctx_color (fp # FrameL g cg kg vg u # cs) = RED"
  shows "runs (fix_insert_body (Some z) s)
    (ins_step s (Node z l RED k v r) (fp # FrameL g cg kg vg u # cs))"
proof -
  obtain p pl kp vp pr where hp: "holds s (Node p pl RED kp vp pr) (FrameL g cg kg vg u # cs)"
    and fp: "fp = FrameL p RED kp vp pr \<and> pl = Node z l RED k v r \<or>
      fp = FrameR p pl RED kp vp \<and> pr = Node z l RED k v r"
    using h red by (cases fp) (auto simp: focus_up)
  have cg: "cg = BLACK" using inv red by (cases fp) (auto simp: ins_inv_def)
  have body: "fix_insert_body (Some z) s = fix_insert_left (Some z) (Some p) (Some g) s"
    using h fp sibling_FrameL(3) [OF hp] by (auto simp: fix_insert_body_def focus_def Let_def)
  show ?thesis
  proof (cases "tree_color u")
    case RED
    then obtain w ul ku vu ur where u: "u = Node w ul RED ku vu ur" by (cases u) auto
    show ?thesis unfolding body
      by (rule ins_step_intro [OF fix_insert_left_red [OF hp [unfolded cg u]]])
        (use inv fp in \<open>auto simp: ins_inv_def inorder_plug set_addrs_plug u cg\<close>)
  next
    case BLACK
    from fp show ?thesis
    proof
      assume fp: "fp = FrameL p RED kp vp pr \<and> pl = Node z l RED k v r"
      then show ?thesis unfolding body
        by (intro ins_step_intro [OF fix_insert_left_outer])
          (use h inv cg BLACK in \<open>auto simp: ins_inv_def inorder_plug set_addrs_plug\<close>)
    next
      assume fp: "fp = FrameR p pl RED kp vp \<and> pr = Node z l RED k v r"
      then show ?thesis unfolding body
        by (intro ins_step_intro [OF fix_insert_left_inner])
          (use h inv cg BLACK in \<open>auto simp: ins_inv_def inorder_plug set_addrs_plug\<close>)
    qed
  qed
qed

lemma fix_insert_right_step:
  assumes h: "holds s (Node z l RED k v r) (fp # FrameR g u cg kg vg # cs)"
    and inv: "ins_inv (Node z l RED k v r) (fp # FrameR g u cg kg vg # cs)"
    and red: "ctx_color (fp # FrameR g u cg kg vg # cs) = RED"
  shows "runs (fix_insert_body (Some z) s)
    (ins_step s (Node z l RED k v r) (fp # FrameR g u cg kg vg # cs))"
proof -
  obtain p pl kp vp pr where hp: "holds s (Node p pl RED kp vp pr) (FrameR g u cg kg vg # cs)"
    and fp: "fp = FrameL p RED kp vp pr \<and> pl = Node z l RED k v r \<or>
      fp = FrameR p pl RED kp vp \<and> pr = Node z l RED k v r"
    using h red by (cases fp) (auto simp: focus_up)
  have cg: "cg = BLACK" using inv red by (cases fp) (auto simp: ins_inv_def)
  have body: "fix_insert_body (Some z) s = fix_insert_right (Some z) (Some p) (Some g) s"
    using h fp sibling_FrameR(3) [OF hp] by (auto simp: fix_insert_body_def focus_def Let_def)
  show ?thesis
  proof (cases "tree_color u")
    case RED
    then obtain w ul ku vu ur where u: "u = Node w ul RED ku vu ur" by (cases u) auto
    show ?thesis unfolding body
      by (rule ins_step_intro [OF fix_insert_right_red [OF hp [unfolded cg u]]])
        (use inv fp in \<open>auto simp: ins_inv_def inorder_plug set_addrs_plug u cg\<close>)
  next
    case BLACK
    from fp show ?thesis
    proof
      assume fp: "fp = FrameL p RED kp vp pr \<and> pl = Node z l RED k v r"
      then show ?thesis unfolding body
        by (intro ins_step_intro [OF fix_insert_right_inner])
          (use h inv cg BLACK in \<open>auto simp: ins_inv_def inorder_plug set_addrs_plug\<close>)
    next
      assume fp: "fp = FrameR p pl RED kp vp \<and> pr = Node z l RED k v r"
      then show ?thesis unfolding body
        by (intro ins_step_intro [OF fix_insert_right_outer])
          (use h inv cg BLACK in \<open>auto simp: ins_inv_def inorder_plug set_addrs_plug\<close>)
    qed
  qed
qed

lemma fix_insert_loop_ok:
  "holds s t cs \<Longrightarrow> ins_inv t cs \<Longrightarrow>
   runs (fix_insert_loop (ptr None t) s) (\<lambda>s'. same s s' \<and> (\<exists>t'. holds s' t' [] \<and>
     t' \<noteq> Leaf \<and> rbt (paint BLACK t') \<and> inorder t' = inorder (plug t cs) \<and>
     set (addrs t') = set (addrs (plug t cs))))"
proof (induction "length cs" arbitrary: s t cs rule: less_induct)
  case less
  then obtain z l k v r where t: "t = Node z l RED k v r" by (cases t) (auto simp: ins_inv_def)
  show ?case
  proof (cases "cs = []")
    case True
    moreover from this have "rb_root s = Some z"
      using focus_root [OF less.prems(1) [unfolded t]] by simp
    ultimately show ?thesis using less.prems
      by (subst fix_insert_loop.simps)
        (auto simp: t ins_inv_def rbt_def intro!: exI [of _ "Node z l RED k v r"])
  next
    case False
    obtain m where m: "rb_heap s z = Some m" "locked s (parent m) = par cs"
      using less.prems(1) parent_locked [OF less.prems(1)] by (auto simp: t focus_def)
    obtain n where n: "getn (par cs) s = Some n" "color n = ctx_color cs"
      using less.prems(1) False by (cases cs rule: par.cases) (auto simp: focus_def)
    have loop: "fix_insert_loop (ptr None t) s = (if ctx_color cs = RED then do {
           (node', s', brk) \<leftarrow> fix_insert_body (Some z) s;
           (if brk then Some s' else fix_insert_loop node' s') } else Some s)"
      using m n focus_not_root [OF less.prems(1) False]
      by (subst fix_insert_loop.simps) (auto simp: t)
    show ?thesis
    proof (cases "ctx_color cs")
      case RED
      obtain fp fg cs' where cs: "cs = fp # fg # cs'"
        using less.prems(2) RED by (rule ins_inv_red_parent)
      have "runs (fix_insert_body (Some z) s) (ins_step s t cs)"
        using less.prems RED fix_insert_left_step fix_insert_right_step
        by (cases fg) (auto simp: t cs)
      then obtain t' cs' s' where s': "fix_insert_body (Some z) s = Some (ptr None t', s', False)"
        "same s s'" "holds s' t' cs'" "ins_inv t' cs'" "length cs' < length cs"
        "inorder (plug t' cs') = inorder (plug t cs)"
        "set (addrs (plug t' cs')) = set (addrs (plug t cs))"
        by (elim runsE) (auto simp: ins_step_def)
      show ?thesis
        using less.hyps [OF s'(5) s'(3,4)] s'(1,2,6,7) RED
        by (auto simp: loop same_def elim!: runs_mono)
    next
      case BLACK
      with less.prems False have "rbt (plug t cs)"
        by (auto simp: rbt_plug ins_inv_def)
      then have "holds s (plug t cs) [] \<and> plug t cs \<noteq> Leaf \<and> rbt (paint BLACK (plug t cs))"
        using iffD1 [OF focus_plug less.prems(1)] by (auto simp: rbt_def invc_paint_BLACK t)
      then show ?thesis using BLACK by (auto simp: loop)
    qed
  qed
qed

lemma fix_insert_ok:
  assumes "holds s t cs" and "ins_inv t cs"
  shows "runs (fix_insert (ptr None t) s) (\<lambda>s'. same s s' \<and>
    (\<exists>t'. holds s' t' [] \<and> rbt t' \<and> inorder t' = inorder (plug t cs) \<and>
      set (addrs t') = set (addrs (plug t cs))))"
proof -
  obtain s1 t1 where s1: "fix_insert_loop (ptr None t) s = Some s1" "same s s1" "holds s1 t1 []"
    "t1 \<noteq> Leaf" "rbt (paint BLACK t1)" "inorder t1 = inorder (plug t cs)"
    "set (addrs t1) = set (addrs (plug t cs))"
    using fix_insert_loop_ok [OF assms] by (elim runsE) auto
  have r: "rb_root s1 = ptr None t1" "ptr None t1 \<noteq> None"
    using s1(3,4) by (cases t1; simp add: focus_def)+
  obtain s2 where s2: "set_color (ptr None t1) BLACK s1 = Some s2" "holds s2 (paint BLACK t1) []"
    "same s1 s2"
    using set_color_ptr [OF s1(3,4), of BLACK] by (elim runsE) auto
  have "same s s2" using s1(2) s2(3) by (rule same_trans)
  moreover have "fix_insert (ptr None t) s = Some s2"
    using s1(1) s2(1) r by (simp add: fix_insert_def)
  moreover have "holds s2 (paint BLACK t1) [] \<and> rbt (paint BLACK t1) \<and>
      inorder (paint BLACK t1) = inorder (plug t cs) \<and>
      set (addrs (paint BLACK t1)) = set (addrs (plug t cs))"
    using s1(5-7) s2(2) by simp
  ultimately show ?thesis unfolding runs_iff by blast
qed

section \<open>Searching\<close>

definition landed :: "('k::linorder, 'v) rbtree \<Rightarrow> 'k \<Rightarrow> ('k, 'v) tree \<Rightarrow>
    ('k, 'v) tree \<Rightarrow> ('k, 'v) ctx \<Rightarrow> bool" where
  "landed s k t0 t cs \<longleftrightarrow> holds s t cs \<and> lands k t0 t cs"

lemma landed_lands: "landed s k t0 t cs \<Longrightarrow> lands k t0 t cs"
  by (simp add: landed_def)

lemma insert_position_ok:
  assumes "holds s t cs" and "sorted1 (inorder (plug t cs))" and "around k cs"
  shows "\<exists>t' cs'. landed s k (plug t cs) t' cs' \<and> insert_position k (ptr None t) (par cs) s =
    Some (case ptr None t' of None \<Rightarrow> Below (par cs') | Some a \<Rightarrow> Exists a)"
  using assms
proof (induction t arbitrary: cs)
  case Leaf
  then show ?case
    by (intro exI [of _ Leaf] exI [of _ cs]) (simp add: landed_def lands_def insert_position.simps)
next
  case (Node a l c kn v r)
  note pos = insert_position.simps [of k "Some a" "par cs" s] and n = focus_node [OF Node.prems(1)]
  consider (lt) "k < kn" | (gt) "kn < k" | (eq) "k = kn" by (rule linorder_cases)
  then show ?case
  proof cases
    case lt
    with Node.prems Node.IH(1) [of "FrameL a c kn v r # cs"] show ?thesis
      by (simp add: pos n focus_left [symmetric] around_FrameL)
  next
    case gt
    with less_not_sym [OF gt] Node.prems Node.IH(2) [of "FrameR a l c kn v # cs"] show ?thesis
      by (simp add: pos n focus_right [symmetric] around_FrameR)
  next
    case eq
    with Node.prems show ?thesis
      by (intro exI [of _ "Node a l c kn v r"] exI [of _ cs]) (simp add: landed_def lands_def pos [unfolded eq] n)
  qed
qed

lemma find_from_ok:
  assumes "holds s t cs" and "sorted1 (inorder (plug t cs))" and "around k cs"
  shows "\<exists>t' cs'. landed s k (plug t cs) t' cs' \<and> find_from k (ptr None t) s = Some (ptr None t')"
  using assms
proof (induction t arbitrary: cs)
  case Leaf
  then show ?case
    by (intro exI [of _ Leaf] exI [of _ cs]) (simp add: landed_def lands_def find_from.simps)
next
  case (Node a l c kn v r)
  note pos = find_from.simps [of k "Some a" s] and n = focus_node [OF Node.prems(1)]
  consider (lt) "k < kn" | (gt) "kn < k" | (eq) "k = kn" by (rule linorder_cases)
  then show ?case
  proof cases
    case lt
    with Node.prems Node.IH(1) [of "FrameL a c kn v r # cs"] show ?thesis
      by (simp add: pos n focus_left [symmetric] around_FrameL)
  next
    case gt
    with less_not_sym [OF gt] Node.prems Node.IH(2) [of "FrameR a l c kn v # cs"] show ?thesis
      by (simp add: pos n focus_right [symmetric] around_FrameR)
  next
    case eq
    with Node.prems show ?thesis
      by (intro exI [of _ "Node a l c kn v r"] exI [of _ cs]) (simp add: landed_def lands_def pos [unfolded eq] n)
  qed
qed

lemma find_node_ok:
  assumes "rb_inv s t"
  shows "\<exists>t' cs. landed s k t t' cs \<and> find_node k s = Some (ptr None t')"
  using find_from_ok [of s t "[]" k] assms
  by (auto simp: find_node_def rb_inv_def around_def focus_def)

section \<open>The insertion method\<close>

lemma attach_ok:
  assumes h: "holds s Leaf cs" and ne: "cs \<noteq> []" and k: "around k cs"
    and fresh: "rb_next s \<notin> dom (rb_heap s)"
  shows "runs (attach k v (par cs) s) (\<lambda>s'. holds s' (Node (rb_next s) Leaf RED k v Leaf) cs \<and>
    rb_count s' = rb_count s \<and> rb_next s' = Suc (rb_next s) \<and>
    dom (rb_heap s') = insert (rb_next s) (dom (rb_heap s)))"
proof -
  have "rb_next s \<notin> set (caddrs cs)" using focus_dom [OF h] fresh by auto
  with h ne k show ?thesis
    by (cases cs rule: par.cases)
      (auto simp: attach_def focus_def make_node_def put_def around_def Let_def less_not_sym)
qed

text \<open>The two outcomes of the descent.\<close>

lemma insert_new_ok:
  assumes inv: "rb_inv s t" and land: "landed s k t Leaf cs" and ne: "cs \<noteq> []"
  shows "\<exists>s' s''. attach k v (par cs) s = Some s' \<and> fix_insert (Some (rb_next s)) s' = Some s'' \<and>
    rb_repr (s''\<lparr>rb_count := rb_count s'' + 1\<rparr>) (upd_list k v (inorder t))"
proof -
  obtain s1 where s1: "attach k v (par cs) s = Some s1"
      "holds s1 (Node (rb_next s) Leaf RED k v Leaf) cs" "rb_count s1 = rb_count s"
      "rb_next s1 = Suc (rb_next s)" "dom (rb_heap s1) = insert (rb_next s) (dom (rb_heap s))"
    using attach_ok [of s cs k v] land ne inv by (auto elim!: runsE simp: landed_def lands_def rb_inv_def)
  have "ins_inv (Node (rb_next s) Leaf RED k v Leaf) cs"
    using inv land rbt_plug [of Leaf cs] by (auto simp: ins_inv_def landed_def lands_def rb_inv_def)
  then obtain s2 t2 where s2: "fix_insert (Some (rb_next s)) s1 = Some s2" "same s1 s2"
      "holds s2 t2 []" "rbt t2" "inorder t2 = lefts cs @ (k, v) # rights cs"
      "set (addrs t2) = insert (rb_next s) (set (caddrs cs))"
    using fix_insert_ok [OF s1(2)] by (auto elim!: runsE simp: inorder_plug set_addrs_plug)
  have srt: "sorted1 (inorder t)" using inv by (simp add: rb_inv_def)
  note upd = lands_Leaf(2) [OF landed_lands [OF land] srt, of v]
  have t: "inorder t = lefts cs @ rights cs" "set (addrs t) = set (caddrs cs)"
    using land by (auto simp: landed_def lands_def inorder_plug set_addrs_plug)
  have "rb_inv (s2\<lparr>rb_count := rb_count s2 + 1\<rparr>) t2"
    using inv s1 s2 sorted1_upd_list [OF srt, of k v] upd t by (auto simp: rb_inv_def same_def)
  then show ?thesis using s1 s2 upd by (auto simp: rb_repr_def)
qed

lemma insert_old_ok:
  assumes inv: "rb_inv s t" and land: "landed s k t (Node a l c k w r) cs"
  shows "\<exists>s'. put (Some a) (\<lambda>n. n\<lparr>val := v\<rparr>) s = Some s' \<and> rb_repr s' (upd_list k v (inorder t))"
proof -
  have h: "holds s (Node a l c k w r) cs" and t: "t = plug (Node a l c k w r) cs"
    using land by (auto simp: landed_def lands_def)
  have srt: "sorted1 (inorder t)" using inv by (simp add: rb_inv_def)
  obtain s' where s': "put (Some a) (\<lambda>n. n\<lparr>val := v\<rparr>) s = Some s'" "same s s'"
      "holds s' (Node a l c k v r) cs"
    using h by (auto simp: focus_def put_def same_def)
  have "rbt (plug (Node a l c k v r) cs)"
    using inv unfolding rb_inv_def t rbt_plug by simp
  then have "rb_inv s' (plug (Node a l c k v r) cs)"
    using inv s' sorted1_upd_list [OF srt, of k v] lands_Node(4) [OF landed_lands [OF land] srt, of v]
    by (auto simp: rb_inv_def same_def focus_plug [symmetric] t set_addrs_plug inorder_plug)
  then show ?thesis using s' lands_Node(4) [OF landed_lands [OF land] srt, of v] by (auto simp: rb_repr_def)
qed

lemma rb_insert_ok:
  assumes "rb_repr s ps"
  shows "\<exists>s'. rb_insert k v s = Some (k \<notin> fst ` set ps, s') \<and> rb_repr s' (upd_list k v ps)"
proof -
  obtain t where inv: "rb_inv s t" and ps: "inorder t = ps"
    using assms by (auto simp: rb_repr_def)
  have h: "holds s t []" and srt: "sorted1 (inorder t)" and root: "rb_root s = ptr None t"
    using inv by (auto simp: rb_inv_def focus_def)
  show ?thesis
  proof (cases "t = Leaf")
    case True
    then show ?thesis using inv ps
      by (auto simp: rb_insert_def rb_repr_def rb_inv_def focus_def make_node_def rbt_def
          intro!: exI [of _ "Node (rb_next s) Leaf BLACK k v Leaf"])
  next
    case False
    then have ne: "rb_root s \<noteq> None" by (cases t) (simp_all add: root)
    obtain t' cs where land: "landed s k t t' cs" and pos: "insert_position k (rb_root s) None s =
        Some (case ptr None t' of None \<Rightarrow> Below (par cs) | Some a \<Rightarrow> Exists a)"
      using insert_position_ok [OF h, of k] srt by (auto simp: root around_def)
    show ?thesis
    proof (cases t')
      case t': Leaf
      then have "cs \<noteq> []" using land False by (auto simp: landed_def lands_def)
      then show ?thesis
        using insert_new_ok [OF inv land [unfolded t'], of v] lands_Leaf(1) [OF landed_lands [OF land [unfolded t']] srt]
          ne pos ps by (auto simp: rb_insert_def t')
    next
      case t': (Node a l c k' w r)
      show ?thesis
        using insert_old_ok [of s t k a l c w r cs v] inv land lands_Node(1,2) [OF landed_lands [OF land [unfolded t']] srt]
          ne pos ps by (auto simp: rb_insert_def t')
    qed
  qed
qed

end
