(* ===== verification/RedBlackTree_Delete.thy ===== *)
theory RedBlackTree_Delete
  imports RedBlackTree_Proofs
begin

text \<open>
  Correctness of \<open>remove\<close> in \<open>KV_Store/RBTree.cpp\<close>: the repair loop \<open>fix_delete\<close>, the
  unlinking of a node by \<open>transplant\<close> and the composed method.
\<close>

section \<open>Repair after deletion\<close>

text \<open>The loop is done when painting its node black gives a red-black tree.\<close>

definition del_done :: "('k, 'v) rbtree \<Rightarrow> ('k, 'v) tree \<Rightarrow> ('k, 'v) ctx \<Rightarrow>
    addr option \<times> ('k, 'v) rbtree \<Rightarrow> bool" where
  "del_done s t cs = (\<lambda>(n, s'). same s s' \<and> (\<exists>t' cs'. n = ptr None t' \<and> holds s' t' cs' \<and>
     rbt (plug (paint BLACK t') cs') \<and> same_contents (plug t cs) (plug t' cs')))"

definition del_step :: "('k, 'v) rbtree \<Rightarrow> ('k, 'v) tree \<Rightarrow> ('k, 'v) ctx \<Rightarrow>
    addr option \<times> addr option \<times> ('k, 'v) rbtree \<times> bool \<Rightarrow> bool" where
  "del_step s t cs = (\<lambda>(n, p, s', brk). if brk then del_done s t cs (n, s') else
     same s s' \<and> (\<exists>t' cs'. n = ptr None t' \<and> p = par cs' \<and> holds s' t' cs' \<and> del_inv t' cs' \<and>
       same_contents (plug t cs) (plug t' cs') \<and>
       (length cs' < length cs \<or> tree_color t' = RED)))"

lemma fix_delete_left_last_ok:
  assumes h: "holds s (Node p t cp kp vp (Node wa wl BLACK kw vw wr)) cs" and wr: "tree_color wr = RED"
  shows "runs (fix_delete_left_last node (Some p) (Some wa) s) (\<lambda>(n, q, s', brk). brk \<and>
    n = rb_root s' \<and> same s s' \<and>
    holds s' (Node wa (Node p t BLACK kp vp wl) cp kw vw (paint BLACK wr)) cs)"
proof -
  have hw: "holds s (Node wa wl BLACK kw vw wr) (FrameR p t cp kp vp # cs)"
    using h by (simp add: focus_right)
  obtain s1 where s1: "set_color (Some wa) cp s = Some s1" "same s s1"
    "holds s1 (Node p t cp kp vp (Node wa wl cp kw vw wr)) cs"
    using set_color_focus [OF hw, of cp] by (auto elim!: runsE simp: focus_up)
  obtain s2 where s2: "set_color (Some p) BLACK s1 = Some s2" "same s1 s2"
    "holds s2 wr (FrameR wa wl cp kw vw # FrameR p t BLACK kp vp # cs)"
    using set_color_focus [OF s1(3), of BLACK] by (auto elim!: runsE simp: focus_right)
  have ne: "wr \<noteq> Leaf" "ptr None wr \<noteq> None" using wr by (cases wr; simp)+
  obtain s3 where s3: "set_color (ptr None wr) BLACK s2 = Some s3" "same s2 s3"
    "holds s3 (Node p t BLACK kp vp (Node wa wl cp kw vw (paint BLACK wr))) cs"
    using set_color_ptr [OF s2(3) ne(1), of BLACK] by (auto elim!: runsE simp: focus_up)
  obtain s4 where s4: "left_rotate (Some p) s3 = Some s4" "same s3 s4"
    "holds s4 (Node wa (Node p t BLACK kp vp wl) cp kw vw (paint BLACK wr)) cs"
    using left_rotate_focus [OF s3(3)] by (auto elim!: runsE)
  have "rb_heap s p = Some \<lparr>key = kp, val = vp, color = cp, left = ptr None t,
      right = Some wa, parent = par cs\<rparr>"
    using focus_node [OF h] by simp
  moreover have "\<exists>n. rb_heap s2 wa = Some n \<and> right n = ptr None wr"
    using s2(3) by (auto simp: focus_def)
  ultimately show ?thesis
    using s1 s2 s3 s4 ne by (auto simp: fix_delete_left_last_def same_def)
qed

lemma fix_delete_right_last_ok:
  assumes h: "holds s (Node p (Node wa wl BLACK kw vw wr) cp kp vp t) cs" and wl: "tree_color wl = RED"
  shows "runs (fix_delete_right_last node (Some p) (Some wa) s) (\<lambda>(n, q, s', brk). brk \<and>
    n = rb_root s' \<and> same s s' \<and>
    holds s' (Node wa (paint BLACK wl) cp kw vw (Node p wr BLACK kp vp t)) cs)"
proof -
  have hw: "holds s (Node wa wl BLACK kw vw wr) (FrameL p cp kp vp t # cs)"
    using h by (simp add: focus_left)
  obtain s1 where s1: "set_color (Some wa) cp s = Some s1" "same s s1"
    "holds s1 (Node p (Node wa wl cp kw vw wr) cp kp vp t) cs"
    using set_color_focus [OF hw, of cp] by (auto elim!: runsE simp: focus_up)
  obtain s2 where s2: "set_color (Some p) BLACK s1 = Some s2" "same s1 s2"
    "holds s2 wl (FrameL wa cp kw vw wr # FrameL p BLACK kp vp t # cs)"
    using set_color_focus [OF s1(3), of BLACK] by (auto elim!: runsE simp: focus_left)
  have ne: "wl \<noteq> Leaf" "ptr None wl \<noteq> None" using wl by (cases wl; simp)+
  obtain s3 where s3: "set_color (ptr None wl) BLACK s2 = Some s3" "same s2 s3"
    "holds s3 (Node p (Node wa (paint BLACK wl) cp kw vw wr) BLACK kp vp t) cs"
    using set_color_ptr [OF s2(3) ne(1), of BLACK] by (auto elim!: runsE simp: focus_up)
  obtain s4 where s4: "right_rotate (Some p) s3 = Some s4" "same s3 s4"
    "holds s4 (Node wa (paint BLACK wl) cp kw vw (Node p wr BLACK kp vp t)) cs"
    using right_rotate_focus [OF s3(3)] by (auto elim!: runsE)
  have "rb_heap s p = Some \<lparr>key = kp, val = vp, color = cp, left = Some wa,
      right = ptr None t, parent = par cs\<rparr>"
    using focus_node [OF h] by simp
  moreover have "\<exists>n. rb_heap s2 wa = Some n \<and> left n = ptr None wl"
    using s2(3) by (auto simp: focus_def)
  ultimately show ?thesis
    using s1 s2 s3 s4 ne by (auto simp: fix_delete_right_last_def same_def)
qed

text \<open>Case 3 turns an inner red nephew into the situation of case 4.\<close>

lemma nephew_rotate_right:
  assumes h: "holds s (Node p t cp kp vp (Node wa (Node xa xl RED kx vx xr) BLACK kw vw wr)) cs"
  shows "runs (do { s \<leftarrow> set_color (Some xa) BLACK s; s \<leftarrow> set_color (Some wa) RED s;
      right_rotate (Some wa) s })
    (\<lambda>s'. same s s' \<and> holds s' (Node p t cp kp vp (Node xa xl BLACK kx vx (Node wa xr RED kw vw wr))) cs)"
proof -
  have hx: "holds s (Node xa xl RED kx vx xr) (FrameL wa BLACK kw vw wr # FrameR p t cp kp vp # cs)"
    using h by (simp add: focus_up)
  obtain s1 where s1: "set_color (Some xa) BLACK s = Some s1" "same s s1"
    "holds s1 (Node wa (Node xa xl BLACK kx vx xr) BLACK kw vw wr) (FrameR p t cp kp vp # cs)"
    using set_color_focus [OF hx, of BLACK] by (auto elim!: runsE simp: focus_left)
  obtain s2 where s2: "set_color (Some wa) RED s1 = Some s2" "same s1 s2"
    "holds s2 (Node wa (Node xa xl BLACK kx vx xr) RED kw vw wr) (FrameR p t cp kp vp # cs)"
    using set_color_focus [OF s1(3), of RED] by (auto elim!: runsE)
  show ?thesis
    using s1 s2 right_rotate_focus [OF s2(3)] by (auto simp: focus_up same_def elim!: runs_mono)
qed

lemma nephew_rotate_left:
  assumes h: "holds s (Node p (Node wa wl BLACK kw vw (Node xa xl RED kx vx xr)) cp kp vp t) cs"
  shows "runs (do { s \<leftarrow> set_color (Some xa) BLACK s; s \<leftarrow> set_color (Some wa) RED s;
      left_rotate (Some wa) s })
    (\<lambda>s'. same s s' \<and> holds s' (Node p (Node xa (Node wa wl RED kw vw xl) BLACK kx vx xr) cp kp vp t) cs)"
proof -
  have hx: "holds s (Node xa xl RED kx vx xr) (FrameR wa wl BLACK kw vw # FrameL p cp kp vp t # cs)"
    using h by (simp add: focus_up)
  obtain s1 where s1: "set_color (Some xa) BLACK s = Some s1" "same s s1"
    "holds s1 (Node wa wl BLACK kw vw (Node xa xl BLACK kx vx xr)) (FrameL p cp kp vp t # cs)"
    using set_color_focus [OF hx, of BLACK] by (auto elim!: runsE simp: focus_right)
  obtain s2 where s2: "set_color (Some wa) RED s1 = Some s2" "same s1 s2"
    "holds s2 (Node wa wl RED kw vw (Node xa xl BLACK kx vx xr)) (FrameL p cp kp vp t # cs)"
    using set_color_focus [OF s1(3), of RED] by (auto elim!: runsE)
  show ?thesis
    using s1 s2 left_rotate_focus [OF s2(3)] by (auto simp: focus_up same_def elim!: runs_mono)
qed

lemma del_done_root:
  assumes "holds s' t' cs'" and "n = rb_root s'" and "same s s'"
    and "rbt (plug t' cs')" and "same_contents (plug t cs) (plug t' cs')"
  shows "del_done s t cs (n, s')"
proof -
  have r: "holds s' (plug t' cs') []" using assms(1) by (simp add: focus_plug [symmetric])
  then have "n = ptr None (plug t' cs')" using assms(2) by (simp add: focus_def)
  moreover have "rbt (paint BLACK (plug t' cs'))" using assms(4) by (simp add: rbt_def invc_paint_BLACK)
  ultimately show ?thesis using r assms(3,5)
    unfolding del_done_def by (auto intro!: exI [of _ "plug t' cs'"] exI [of _ "[]"])
qed

lemma fix_delete_left_tail_ok:
  assumes h: "holds s t (FrameL p cp kp vp (Node wa wl BLACK kw vw wr) # cs)"
    and blk: "tree_color t = BLACK"
    and inv: "del_inv t (FrameL p cp kp vp (Node wa wl BLACK kw vw wr) # cs)"
  shows "runs (fix_delete_left_tail (ptr None t) (Some p) (Some wa) s) (\<lambda>(n, q, s', brk).
    if brk then del_done s t (FrameL p cp kp vp (Node wa wl BLACK kw vw wr) # cs) (n, s')
    else n = Some p \<and> q = par cs \<and> same s s' \<and> del_inv (Node p t cp kp vp (Node wa wl RED kw vw wr)) cs \<and>
      holds s' (Node p t cp kp vp (Node wa wl RED kw vw wr)) cs)"
proof -
  have hp: "holds s (Node p t cp kp vp (Node wa wl BLACK kw vw wr)) cs" using h by (simp add: focus_up)
  have hw: "holds s (Node wa wl BLACK kw vw wr) (FrameR p t cp kp vp # cs)"
    using hp by (simp add: focus_right)
  have nw: "rb_heap s wa = Some \<lparr>key = kw, val = vw, color = BLACK, left = ptr None wl,
      right = ptr None wr, parent = Some p\<rparr>" using focus_node [OF hw] by simp
  have b: "is_black (ptr None wl) s = Some (tree_color wl = BLACK)"
    "is_black (ptr None wr) s = Some (tree_color wr = BLACK)"
    by (rule is_black_ptr, rule iffD1 [OF focus_left hw], rule is_black_ptr, rule iffD1 [OF focus_right hw])
  consider (case2) "tree_color wl = BLACK" "tree_color wr = BLACK" | (case4) "tree_color wr = RED"
    | (case3) xa xl kx vx xr where "wl = Node xa xl RED kx vx xr" "tree_color wr = BLACK"
    by (cases wl; cases "tree_color wr"; cases "tree_color wl") auto
  then show ?thesis
  proof cases
    case case2
    obtain s1 where s1: "set_color (Some wa) RED s = Some s1" "same s s1"
      "holds s1 (Node p t cp kp vp (Node wa wl RED kw vw wr)) cs"
      using set_color_focus [OF hw, of RED] by (auto elim!: runsE simp: focus_up)
    have "\<exists>n. rb_heap s1 p = Some n \<and> locked s1 (parent n) = par cs"
      using focus_node [OF s1(3)] parent_locked [OF s1(3)] by simp
    then show ?thesis using case2 s1 inv nw b by (auto simp: fix_delete_left_tail_def del_inv_def paint_BLACK [OF blk])
  next
    case case4
    have "fix_delete_left_tail (ptr None t) (Some p) (Some wa) s =
        fix_delete_left_last (ptr None t) (Some p) (Some wa) s"
      using case4 nw b by (simp add: fix_delete_left_tail_def)
    then show ?thesis
      using fix_delete_left_last_ok [OF hp case4, of "ptr None t"] inv case4
      by (auto elim!: runs_mono intro!: del_done_root
          simp: rbt_plug del_inv_def same_contents_def inorder_plug set_addrs_plug invc_paint_BLACK
            paint_BLACK [OF blk] bheight_paint_RED)
  next
    case case3
    obtain s1 where s1: "(do { s \<leftarrow> set_color (Some xa) BLACK s; s \<leftarrow> set_color (Some wa) RED s;
        right_rotate (Some wa) s }) = Some s1" "same s s1"
      "holds s1 (Node p t cp kp vp (Node xa xl BLACK kx vx (Node wa xr RED kw vw wr))) cs"
      using nephew_rotate_right [OF hp [unfolded case3]] by (auto elim!: runsE)
    have "fix_delete_left_tail (ptr None t) (Some p) (Some wa) s =
        fix_delete_left_last (ptr None t) (Some p) (Some xa) s1"
      using case3 nw b s1(1) focus_node [OF s1(3)]
      by (auto simp: fix_delete_left_tail_def bind_eq_Some_conv)
    then show ?thesis
      using fix_delete_left_last_ok [OF s1(3), of "ptr None t"] inv case3 s1(2)
      by (auto elim!: runs_mono intro!: del_done_root same_trans [OF s1(2)]
          simp: rbt_plug del_inv_def same_contents_def inorder_plug set_addrs_plug
            paint_BLACK [OF blk])
  qed
qed

lemma fix_delete_right_tail_ok:
  assumes h: "holds s t (FrameR p (Node wa wl BLACK kw vw wr) cp kp vp # cs)"
    and blk: "tree_color t = BLACK"
    and inv: "del_inv t (FrameR p (Node wa wl BLACK kw vw wr) cp kp vp # cs)"
  shows "runs (fix_delete_right_tail (ptr None t) (Some p) (Some wa) s) (\<lambda>(n, q, s', brk).
    if brk then del_done s t (FrameR p (Node wa wl BLACK kw vw wr) cp kp vp # cs) (n, s')
    else n = Some p \<and> q = par cs \<and> same s s' \<and> del_inv (Node p (Node wa wl RED kw vw wr) cp kp vp t) cs \<and>
      holds s' (Node p (Node wa wl RED kw vw wr) cp kp vp t) cs)"
proof -
  have hp: "holds s (Node p (Node wa wl BLACK kw vw wr) cp kp vp t) cs" using h by (simp add: focus_up)
  have hw: "holds s (Node wa wl BLACK kw vw wr) (FrameL p cp kp vp t # cs)"
    using hp by (simp add: focus_left)
  have nw: "rb_heap s wa = Some \<lparr>key = kw, val = vw, color = BLACK, left = ptr None wl,
      right = ptr None wr, parent = Some p\<rparr>" using focus_node [OF hw] by simp
  have b: "is_black (ptr None wr) s = Some (tree_color wr = BLACK)"
    "is_black (ptr None wl) s = Some (tree_color wl = BLACK)"
    by (rule is_black_ptr, rule iffD1 [OF focus_right hw], rule is_black_ptr, rule iffD1 [OF focus_left hw])
  consider (case2) "tree_color wr = BLACK" "tree_color wl = BLACK" | (case4) "tree_color wl = RED"
    | (case3) xa xr kx vx xl where "wr = Node xa xl RED kx vx xr" "tree_color wl = BLACK"
    by (cases wr; cases "tree_color wl"; cases "tree_color wr") auto
  then show ?thesis
  proof cases
    case case2
    obtain s1 where s1: "set_color (Some wa) RED s = Some s1" "same s s1"
      "holds s1 (Node p (Node wa wl RED kw vw wr) cp kp vp t) cs"
      using set_color_focus [OF hw, of RED] by (auto elim!: runsE simp: focus_up)
    have "\<exists>n. rb_heap s1 p = Some n \<and> locked s1 (parent n) = par cs"
      using focus_node [OF s1(3)] parent_locked [OF s1(3)] by simp
    then show ?thesis using case2 s1 inv nw b by (auto simp: fix_delete_right_tail_def del_inv_def paint_BLACK [OF blk])
  next
    case case4
    have "fix_delete_right_tail (ptr None t) (Some p) (Some wa) s =
        fix_delete_right_last (ptr None t) (Some p) (Some wa) s"
      using case4 nw b by (simp add: fix_delete_right_tail_def)
    then show ?thesis
      using fix_delete_right_last_ok [OF hp case4, of "ptr None t"] inv case4
      by (auto elim!: runs_mono intro!: del_done_root
          simp: rbt_plug del_inv_def same_contents_def inorder_plug set_addrs_plug invc_paint_BLACK
            paint_BLACK [OF blk] bheight_paint_RED)
  next
    case case3
    obtain s1 where s1: "(do { s \<leftarrow> set_color (Some xa) BLACK s; s \<leftarrow> set_color (Some wa) RED s;
        left_rotate (Some wa) s }) = Some s1" "same s s1"
      "holds s1 (Node p (Node xa (Node wa wl RED kw vw xl) BLACK kx vx xr) cp kp vp t) cs"
      using nephew_rotate_left [OF hp [unfolded case3]] by (auto elim!: runsE)
    have "fix_delete_right_tail (ptr None t) (Some p) (Some wa) s =
        fix_delete_right_last (ptr None t) (Some p) (Some xa) s1"
      using case3 nw b s1(1) focus_node [OF s1(3)]
      by (auto simp: fix_delete_right_tail_def bind_eq_Some_conv)
    then show ?thesis
      using fix_delete_right_last_ok [OF s1(3), of "ptr None t"] inv case3 s1(2)
      by (auto elim!: runs_mono intro!: del_done_root same_trans [OF s1(2)]
          simp: rbt_plug del_inv_def same_contents_def inorder_plug set_addrs_plug
            paint_BLACK [OF blk])
  qed
qed

lemma del_done_trans:
  "del_done s1 t1 cs1 r \<Longrightarrow> same s s1 \<Longrightarrow> same_contents (plug t cs) (plug t1 cs1) \<Longrightarrow> del_done s t cs r"
  by (cases r) (auto simp: del_done_def same_contents_def same_def)

lemma del_step_intro:
  assumes "runs m (\<lambda>(n, q, s', brk). if brk then del_done s1 t cs1 (n, s')
      else n = Some p \<and> q = par cs' \<and> same s1 s' \<and> del_inv t' cs' \<and> holds s' t' cs')"
    and "ptr None t' = Some p" and "same s s1"
    and "same_contents (plug t cs) (plug t cs1)" and "same_contents (plug t cs1) (plug t' cs')"
    and "length cs' < length cs \<or> tree_color t' = RED"
  shows "runs m (del_step s t cs)"
  using assms(1)
proof (rule runs_mono)
  fix r
  assume r: "case r of (n, q, s', brk) \<Rightarrow> if brk then del_done s1 t cs1 (n, s')
      else n = Some p \<and> q = par cs' \<and> same s1 s' \<and> del_inv t' cs' \<and> holds s' t' cs'"
  obtain n q s' brk where [simp]: "r = (n, q, s', brk)" by (cases r)
  note 1 = same_contents_trans [OF assms(4,5)]
  show "del_step s t cs r"
  proof (cases brk)
    case True
    then show ?thesis using r del_done_trans [OF _ assms(3,4)] by (auto simp: del_step_def)
  next
    case False
    then have "same s s'" using r same_trans [OF assms(3)] by auto
    with False r 1 assms(2,6) show ?thesis unfolding del_step_def by auto metis+
  qed
qed

lemma fix_delete_left_step:
  assumes h: "holds s t (FrameL p cp kp vp w # cs)" and blk: "tree_color t = BLACK"
    and inv: "del_inv t (FrameL p cp kp vp w # cs)"
  shows "runs (fix_delete_left (ptr None t) (Some p) s) (del_step s t (FrameL p cp kp vp w # cs))"
proof -
  obtain wa wl cw kw vw wr where w: "w = Node wa wl cw kw vw wr"
    using inv by (cases w) (auto simp: del_inv_def)
  have hp: "holds s (Node p t cp kp vp (Node wa wl cw kw vw wr)) cs"
    and hw: "holds s (Node wa wl cw kw vw wr) (FrameR p t cp kp vp # cs)"
    using h by (simp_all add: w focus_up)
  note np = focus_node [OF hp] focus_node [OF hw]
  show ?thesis
  proof (cases cw)
    case BLACK
    then have "fix_delete_left (ptr None t) (Some p) s = fix_delete_left_tail (ptr None t) (Some p) (Some wa) s"
      using np by (simp add: fix_delete_left_def)
    then show ?thesis
      using del_step_intro [OF fix_delete_left_tail_ok [OF h [unfolded w BLACK] blk inv [unfolded w BLACK]],
          of s "FrameL p cp kp vp w # cs"]
      by (simp add: w BLACK same_contents_def inorder_plug set_addrs_plug)
  next
    case RED
    obtain xa xl kx vx xr where wl: "wl = Node xa xl BLACK kx vx xr" and cp: "cp = BLACK"
      using inv RED by (cases wl) (auto simp: del_inv_def w)
    obtain s1 where s1: "(do { s \<leftarrow> set_color (Some wa) BLACK s; s \<leftarrow> set_color (Some p) RED s;
        left_rotate (Some p) s }) = Some s1" "same s s1"
      "holds s1 (Node wa (Node p t RED kp vp wl) BLACK kw vw wr) cs"
      using recolor_rotate_left [OF hp [unfolded RED cp]] by (auto elim!: runsE)
    let ?cs = "FrameL p RED kp vp wl # FrameL wa BLACK kw vw wr # cs"
    have h1: "holds s1 t ?cs" and hp1: "holds s1 (Node p t RED kp vp wl) (FrameL wa BLACK kw vw wr # cs)"
      using s1(3) by (simp_all add: focus_left)
    have inv1: "del_inv t ?cs" and eq: "same_contents (plug t (FrameL p cp kp vp w # cs)) (plug t ?cs)"
      using inv by (auto simp: del_inv_def w RED cp wl same_contents_def inorder_plug set_addrs_plug)
    have "fix_delete_left (ptr None t) (Some p) s = fix_delete_left_tail (ptr None t) (Some p) (Some xa) s1"
      using np s1(1) RED focus_node [OF hp1] by (auto simp: fix_delete_left_def wl bind_eq_Some_conv)
    then show ?thesis
      using del_step_intro [OF fix_delete_left_tail_ok [OF h1 [unfolded wl] blk inv1 [unfolded wl]]
          _ s1(2) eq [unfolded wl]]
      by (simp add: same_contents_def inorder_plug set_addrs_plug)
  qed
qed

lemma fix_delete_right_step:
  assumes h: "holds s t (FrameR p w cp kp vp # cs)" and blk: "tree_color t = BLACK"
    and inv: "del_inv t (FrameR p w cp kp vp # cs)"
  shows "runs (fix_delete_right (ptr None t) (Some p) s) (del_step s t (FrameR p w cp kp vp # cs))"
proof -
  obtain wa wr cw kw vw wl where w: "w = Node wa wl cw kw vw wr"
    using inv by (cases w) (auto simp: del_inv_def)
  have hp: "holds s (Node p (Node wa wl cw kw vw wr) cp kp vp t) cs"
    and hw: "holds s (Node wa wl cw kw vw wr) (FrameL p cp kp vp t # cs)"
    using h by (simp_all add: w focus_up)
  note np = focus_node [OF hp] focus_node [OF hw]
  show ?thesis
  proof (cases cw)
    case BLACK
    then have "fix_delete_right (ptr None t) (Some p) s = fix_delete_right_tail (ptr None t) (Some p) (Some wa) s"
      using np by (simp add: fix_delete_right_def)
    then show ?thesis
      using del_step_intro [OF fix_delete_right_tail_ok [OF h [unfolded w BLACK] blk inv [unfolded w BLACK]],
          of s "FrameR p w cp kp vp # cs"]
      by (simp add: w BLACK same_contents_def inorder_plug set_addrs_plug)
  next
    case RED
    obtain xa xr kx vx xl where wr: "wr = Node xa xl BLACK kx vx xr" and cp: "cp = BLACK"
      using inv RED by (cases wr) (auto simp: del_inv_def w)
    obtain s1 where s1: "(do { s \<leftarrow> set_color (Some wa) BLACK s; s \<leftarrow> set_color (Some p) RED s;
        right_rotate (Some p) s }) = Some s1" "same s s1"
      "holds s1 (Node wa wl BLACK kw vw (Node p wr RED kp vp t)) cs"
      using recolor_rotate_right [OF hp [unfolded RED cp]] by (auto elim!: runsE)
    let ?cs = "FrameR p wr RED kp vp # FrameR wa wl BLACK kw vw # cs"
    have h1: "holds s1 t ?cs" and hp1: "holds s1 (Node p wr RED kp vp t) (FrameR wa wl BLACK kw vw # cs)"
      using s1(3) by (simp_all add: focus_right)
    have inv1: "del_inv t ?cs" and eq: "same_contents (plug t (FrameR p w cp kp vp # cs)) (plug t ?cs)"
      using inv by (auto simp: del_inv_def w RED cp wr same_contents_def inorder_plug set_addrs_plug)
    have "fix_delete_right (ptr None t) (Some p) s = fix_delete_right_tail (ptr None t) (Some p) (Some xa) s1"
      using np s1(1) RED focus_node [OF hp1] by (auto simp: fix_delete_right_def wr bind_eq_Some_conv)
    then show ?thesis
      using del_step_intro [OF fix_delete_right_tail_ok [OF h1 [unfolded wr] blk inv1 [unfolded wr]]
          _ s1(2) eq [unfolded wr]]
      by (simp add: same_contents_def inorder_plug set_addrs_plug)
  qed
qed

lemma fix_delete_body_step:
  assumes h: "holds s t (f # cs)" and blk: "tree_color t = BLACK" and inv: "del_inv t (f # cs)"
  shows "runs (fix_delete_body (ptr None t) (par (f # cs)) s) (del_step s t (f # cs))"
proof (cases f)
  case f: (FrameL p cp kp vp w)
  have "fix_delete_body (ptr None t) (par (f # cs)) s = fix_delete_left (ptr None t) (Some p) s"
    using h by (simp add: fix_delete_body_def focus_def f)
  then show ?thesis using fix_delete_left_step [OF h [unfolded f] blk inv [unfolded f]] by (simp add: f)
next
  case f: (FrameR p w cp kp vp)
  have "w \<noteq> Leaf" using inv by (auto simp: del_inv_def f)
  then have "ptr None t \<noteq> ptr None w" using h by (cases w; cases t) (auto simp: focus_def f)
  then have "fix_delete_body (ptr None t) (par (f # cs)) s = fix_delete_right (ptr None t) (Some p) s"
    using h by (simp add: fix_delete_body_def focus_def f)
  then show ?thesis using fix_delete_right_step [OF h [unfolded f] blk inv [unfolded f]] by (simp add: f)
qed

lemma del_done_now:
  assumes "holds s t cs" and "del_inv t cs" and "cs = [] \<or> tree_color t = RED"
  shows "del_done s t cs (ptr None t, s)"
proof -
  have "rbt (plug (paint BLACK t) cs)"
    using assms(2,3) by (auto simp: rbt_plug del_inv_def bheight_paint_RED)
  then show ?thesis using assms(1) unfolding del_done_def same_contents_def by auto
qed

lemma fix_delete_loop_now:
  assumes "holds s t cs" and "cs = [] \<or> tree_color t = RED"
  shows "fix_delete_loop (ptr None t) (par cs) s = Some (ptr None t, s)"
  using assms is_black_ptr [OF assms(1)]
  by (subst fix_delete_loop.simps) (auto simp: focus_def)

lemma fix_delete_loop_ok:
  "holds s t cs \<Longrightarrow> del_inv t cs \<Longrightarrow>
   runs (fix_delete_loop (ptr None t) (par cs) s) (del_done s t cs)"
proof (induction "length cs" arbitrary: s t cs rule: less_induct)
  case less
  show ?case
  proof (cases "cs = [] \<or> tree_color t = RED")
    case True
    then show ?thesis using less.prems by (simp add: fix_delete_loop_now del_done_now)
  next
    case False
    then obtain f cs0 where cs: "cs = f # cs0" and blk: "tree_color t = BLACK" by (cases cs) auto
    have loop: "fix_delete_loop (ptr None t) (par cs) s = do {
           (node', p', s', brk) \<leftarrow> fix_delete_body (ptr None t) (par cs) s;
           (if brk then Some (node', s') else fix_delete_loop node' p' s') }"
      using focus_not_root [OF less.prems(1)] is_black_ptr [OF less.prems(1)] False
      by (subst fix_delete_loop.simps) auto
    obtain n q s' brk where r: "fix_delete_body (ptr None t) (par cs) s = Some (n, q, s', brk)"
      and st: "del_step s t cs (n, q, s', brk)"
      using fix_delete_body_step [OF less.prems(1) [unfolded cs] blk less.prems(2) [unfolded cs]]
      by (auto simp: cs elim!: runsE)
    show ?thesis
    proof (cases brk)
      case True
      then show ?thesis using st by (simp add: loop r del_step_def)
    next
      case brk: False
      then obtain t' cs' where n: "n = ptr None t'" "q = par cs'" "holds s' t' cs'" "del_inv t' cs'"
          "same s s'" "same_contents (plug t cs) (plug t' cs')"
          "length cs' < length cs \<or> tree_color t' = RED"
        using st by (auto simp: del_step_def)
      have "runs (fix_delete_loop n q s') (del_done s' t' cs')"
        using less.hyps [OF _ n(3,4)] n fix_delete_loop_now [OF n(3)] del_done_now [OF n(3,4)] by auto
      then have "runs (fix_delete_loop n q s') (del_done s t cs)"
        using n(5,6) by (auto elim!: runs_mono simp: del_done_def same_contents_def same_def)
      then show ?thesis using brk by (simp add: loop r)
    qed
  qed
qed

lemma fix_delete_ok:
  assumes h: "holds s t cs" and inv: "del_inv t cs" and ne: "cs \<noteq> []"
  shows "runs (fix_delete (ptr None t) (par cs) s) (\<lambda>s'. same s s' \<and>
    (\<exists>t'. holds s' t' [] \<and> rbt t' \<and> same_contents (plug t cs) t'))"
proof -
  have "rb_root s \<noteq> None" using h ne by (auto simp: focus_def dest!: crepr_root)
  obtain s1 t1 cs1 where s1: "fix_delete_loop (ptr None t) (par cs) s = Some (ptr None t1, s1)"
      "same s s1" "holds s1 t1 cs1" "rbt (plug (paint BLACK t1) cs1)"
      "same_contents (plug t cs) (plug t1 cs1)"
    using fix_delete_loop_ok [OF h inv] by (auto simp: del_done_def elim!: runsE)
  have "\<exists>s2. (if ptr None t1 \<noteq> None then set_color (ptr None t1) BLACK s1 else Some s1) = Some s2 \<and>
      same s1 s2 \<and> holds s2 (paint BLACK t1) cs1"
    using set_color_ptr [OF s1(3), of BLACK] s1(3) by (cases t1) (auto elim!: runsE)
  then obtain s2 where s2: "fix_delete (ptr None t) (par cs) s = Some s2" "same s1 s2"
      "holds s2 (plug (paint BLACK t1) cs1) []"
    using s1(1) \<open>rb_root s \<noteq> None\<close> by (auto simp: fix_delete_def focus_plug [symmetric])
  moreover have "same_contents (plug t cs) (plug (paint BLACK t1) cs1)"
    using s1(5) by (simp add: same_contents_def inorder_plug set_addrs_plug)
  ultimately show ?thesis using s1(4) same_trans [OF s1(2) s2(2)] unfolding runs_iff by blast
qed

section \<open>Unlinking a node\<close>

lemma transplant_child:
  assumes "holds s (Node a l c k v r) cs" and "x = l \<or> x = r"
  shows "runs (transplant (Some a) (ptr None x) s)
    (\<lambda>s'. same s s' \<and> holds s' x cs \<and> rb_heap s' a = rb_heap s a)"
  using assms
  by (cases x; cases cs rule: par.cases)
    (auto simp: focus_def transplant_def put_def is_left_child_def same_def)

lemma minimum_loop_ok:
  assumes "holds s t cs" and "t \<noteq> Leaf"
  shows "\<exists>y c k v r ups. t = plug (Node y Leaf c k v r) ups \<and> minimum_loop (ptr None t) s = Some (Some y) \<and>
    lefts ups = []"
  using assms
proof (induction t arbitrary: cs)
  case (Node a l c k v r)
  note step = minimum_loop.simps [of "Some a" s] and n = focus_node [OF Node.prems(1)]
  show ?case
  proof (cases "l = Leaf")
    case True
    then show ?thesis
      by (intro exI [of _ a] exI [of _ c] exI [of _ k] exI [of _ v] exI [of _ r] exI [of _ "[]"])
        (simp add: step n)
  next
    case False
    then obtain y c' k' v' r' ups where l: "l = plug (Node y Leaf c' k' v' r') ups"
        "minimum_loop (ptr None l) s = Some (Some y)" "lefts ups = []"
      using Node.IH(1) [of "FrameL a c k v r # cs"] Node.prems(1) by (auto simp: focus_left)
    moreover have "ptr None l \<noteq> None" using False by (cases l) auto
    ultimately show ?thesis
      by (intro exI [of _ y] exI [of _ c'] exI [of _ k'] exI [of _ v'] exI [of _ r']
          exI [of _ "ups @ [FrameL a c k v r]"]) (auto simp: step n plug_append lefts_append)
  qed
qed simp

text \<open>The situation \<open>replace_ok\<close> starts from.\<close>

definition replaceable :: "('k, 'v) rbtree \<Rightarrow> addr \<Rightarrow> ('k, 'v) tree \<Rightarrow> color \<Rightarrow> addr \<Rightarrow> 'k \<Rightarrow> 'v \<Rightarrow>
    ('k, 'v) tree \<Rightarrow> ('k, 'v) ctx \<Rightarrow> bool" where
  "replaceable s a l c y k v r cs \<longleftrightarrow>
     (\<exists>na. rb_heap s a = Some na \<and> left na = ptr None l \<and> parent na = par cs \<and> color na = c) \<and>
     (\<exists>ny. rb_heap s y = Some ny \<and> key ny = k \<and> val ny = v \<and> right ny = ptr None r) \<and>
     repr None (rb_heap s) (Some a) l \<and> repr None (rb_heap s) (Some y) r \<and>
     crepr None (rb_heap s) (rb_root s) (Some a) cs \<and>
     distinct (a # y # addrs l @ addrs r @ caddrs cs)"

text \<open>The last part of the two-children case: the successor \<open>y\<close>, whose right subtree is in place,
  takes over the position, the left subtree and the colour of \<open>a\<close>.\<close>

lemma replace_ok:
  assumes "replaceable s a l c y k v r cs"
  shows "runs (replace_node (Some a) (Some y) s) (\<lambda>s'. same s s' \<and> holds s' (Node y l c k v r) cs)"
  using assms unfolding replaceable_def
  by (cases l; cases cs rule: par.cases)
    (auto simp: replace_node_def focus_def transplant_def put_def is_left_child_def set_color_def same_def)

lemma take_right_ok:
  assumes "holds s (Node a l c k' v' r) cs" and "r \<noteq> Leaf"
    and "rb_heap s y = Some ny" and "key ny = k" and "val ny = v"
    and "y \<notin> set (addrs (plug (Node a l c k' v' r) cs))"
  shows "runs (do {
        n \<leftarrow> getn (Some a) s;
        s \<leftarrow> put (Some y) (\<lambda>m. m\<lparr>right := right n\<rparr>) s;
        (if right n \<noteq> None then put (right n) (\<lambda>m. m\<lparr>parent := Some y\<rparr>) s else Some s) })
    (\<lambda>s'. same s s' \<and> replaceable s' a l c y k v r cs)"
  using assms
  by (cases r) (auto simp: focus_def put_def same_def replaceable_def set_addrs_plug)

text \<open>What \<open>unlink\<close> establishes: \<open>a\<close> is out of the tree, \<open>x\<close> is in focus.\<close>

definition unlinked :: "('k, 'v) rbtree \<Rightarrow> addr \<Rightarrow> ('k \<times> 'v) list \<Rightarrow> addr set \<Rightarrow>
    color \<times> addr option \<times> addr option \<times> ('k, 'v) rbtree \<Rightarrow> bool" where
  "unlinked s a ps as = (\<lambda>(oc, x, p, s'). same s s' \<and> (\<exists>t' cs'. x = ptr None t' \<and> p = par cs' \<and>
     holds s' t' cs' \<and> inorder (plug t' cs') = ps \<and> set (addrs (plug t' cs')) = as - {a} \<and>
     (oc = RED \<longrightarrow> rbt (plug t' cs')) \<and> (oc = BLACK \<longrightarrow> del_inv t' cs')))"

lemma unlink_one_child:
  assumes h: "holds s (Node a l c k v r) cs" and rb: "rbt (plug (Node a l c k v r) cs)"
    and x: "l = Leaf \<and> x = r \<or> r = Leaf \<and> x = l"
  shows "runs (do { s \<leftarrow> transplant (Some a) (ptr None x) s; Some (c, ptr None x, par cs, s) })
    (unlinked s a (lefts cs @ inorder l @ inorder r @ rights cs)
      (set (addrs (plug (Node a l c k v r) cs))))"
proof -
  obtain s1 where s1: "transplant (Some a) (ptr None x) s = Some s1" "same s s1" "holds s1 x cs"
    using transplant_child [OF h, of x] x by (auto elim!: runsE)
  have d: "a \<notin> set (addrs x) \<union> set (caddrs cs)" using h x by (auto simp: focus_def)
  have "inorder (plug x cs) = lefts cs @ inorder l @ inorder r @ rights cs \<and>
      set (addrs (plug x cs)) = set (addrs (plug (Node a l c k v r) cs)) - {a}"
    using x d by (auto simp: inorder_plug set_addrs_plug)
  then show ?thesis using s1 hole_inv [OF rb x]
    by (auto simp: unlinked_def intro!: exI [of _ x] exI [of _ cs])
qed

lemma detach_successor_ok:
  assumes hy: "holds s (Node y Leaf cy ky vy yr) (ups @ FrameR a l c k v # cs)"
  shows "runs (detach_successor (Some a) (Some y) (par (ups @ FrameR a l c k v # cs)) s)
    (\<lambda>(p, s'). p = par (ups @ FrameR y l c ky vy # cs) \<and> same s s' \<and>
      replaceable s' a l c y ky vy (plug yr ups) cs)"
proof (cases "ups = []")
  case True
  then show ?thesis using hy by (auto simp: detach_successor_def focus_def replaceable_def)
next
  case False
  let ?cs = "ups @ FrameR a l c k v # cs"
  obtain s1 where s1: "transplant (Some y) (ptr None yr) s = Some s1" "same s s1" "holds s1 yr ?cs"
      "rb_heap s1 y = rb_heap s y"
    using transplant_child [OF hy, of yr] by (auto elim!: runsE)
  have p: "par ?cs \<noteq> Some a" "par ?cs = par (ups @ FrameR y l c ky vy # cs)"
    using False hy by (cases ups rule: par.cases; auto simp: focus_def caddrs_append)+
  have y: "y \<notin> set (addrs (plug (Node a l c k v (plug yr ups)) cs))"
    using hy by (auto simp: set_addrs_plug caddrs_append focus_def)
  have h1: "holds s1 (Node a l c k v (plug yr ups)) cs"
    using s1(3) by (simp add: focus_append focus_up)
  have ny: "rb_heap s1 y = Some \<lparr>key = ky, val = vy, color = cy, left = None, right = ptr None yr,
      parent = par ?cs\<rparr>" using focus_node [OF hy] s1(4) by simp
  obtain s2 where "(do {
        n \<leftarrow> getn (Some a) s1;
        s \<leftarrow> put (Some y) (\<lambda>m. m\<lparr>right := right n\<rparr>) s1;
        (if right n \<noteq> None then put (right n) (\<lambda>m. m\<lparr>parent := Some y\<rparr>) s else Some s) }) = Some s2"
      "same s1 s2" "replaceable s2 a l c y ky vy (plug yr ups) cs"
    using take_right_ok [OF h1 _ ny refl refl y] False by (auto elim!: runsE)
  then show ?thesis using p s1(1,2) focus_node [OF hy]
    by (auto simp: detach_successor_def bind_eq_Some_conv same_def)
qed

lemma unlink_two_children:
  assumes h: "holds s (Node a l c k v r) cs" and rb: "rbt (plug (Node a l c k v r) cs)"
    and ne: "l \<noteq> Leaf" "r \<noteq> Leaf"
  shows "runs (unlink (Some a) s) (unlinked s a (lefts cs @ inorder l @ inorder r @ rights cs)
      (set (addrs (plug (Node a l c k v r) cs))))"
proof -
  have hr: "holds s r (FrameR a l c k v # cs)" using h by (simp add: focus_right)
  obtain y cy ky vy yr ups where r: "r = plug (Node y Leaf cy ky vy yr) ups" "lefts ups = []"
      "minimum_loop (ptr None r) s = Some (Some y)"
    using minimum_loop_ok [OF hr ne(2)] by blast
  let ?cs = "ups @ FrameR a l c k v # cs" and ?cs' = "ups @ FrameR y l c ky vy # cs"
  have hy: "holds s (Node y Leaf cy ky vy yr) ?cs" using hr by (simp add: r focus_append)
  have hole: "cy = RED \<Longrightarrow> rbt (plug yr ?cs')" "cy = BLACK \<Longrightarrow> del_inv yr ?cs'"
    using hole_inv [of y Leaf cy ky vy yr ?cs yr] rb
    by (auto simp: plug_append r rbt_plug del_inv_def cinv_FrameR [of _ ups a l c k v cs y ky vy]
        ctx_color_FrameR [of ups a l c k v cs y ky vy])
  have na: "rb_heap s a = Some \<lparr>key = k, val = v, color = c, left = ptr None l, right = ptr None r,
      parent = par cs\<rparr>" "ptr None l \<noteq> None" "ptr None r \<noteq> None"
    using focus_node [OF h] ne by (cases l; cases r; simp)+
  have ny: "rb_heap s y = Some \<lparr>key = ky, val = vy, color = cy, left = None, right = ptr None yr,
      parent = par ?cs\<rparr>" "locked s (par ?cs) = par ?cs"
    using focus_node [OF hy] parent_locked [OF hy] by simp_all
  obtain s1 where s1: "detach_successor (Some a) (Some y) (par ?cs) s = Some (par ?cs', s1)" "same s s1"
      "replaceable s1 a l c y ky vy (plug yr ups) cs"
    using detach_successor_ok [OF hy] by (auto elim!: runsE)
  obtain s2 where s2: "replace_node (Some a) (Some y) s1 = Some s2" "same s1 s2" "holds s2 yr ?cs'"
    using replace_ok [OF s1(3)] by (auto elim!: runsE simp: focus_append focus_up)
  have "unlink (Some a) s = Some (cy, ptr None yr, par ?cs', s2)"
    using na ny s1(1) s2(1) r(3) by (auto simp: unlink_def minimum_def)
  moreover have "inorder (plug yr ?cs') = lefts cs @ inorder l @ inorder r @ rights cs"
    by (simp add: inorder_plug lefts_append rights_append r)
  moreover have "set (addrs (plug yr ?cs')) = set (addrs (plug (Node a l c k v r) cs)) - {a}"
    using hy by (auto simp: set_addrs_plug caddrs_append r focus_def)
  ultimately show ?thesis using same_trans [OF s1(2) s2(2)] s2(3) hole
    by (auto simp: unlinked_def intro!: exI [of _ yr] exI [of _ ?cs'])
qed

lemma unlink_ok:
  assumes h: "holds s (Node a l c k v r) cs" and rb: "rbt (plug (Node a l c k v r) cs)"
  shows "runs (unlink (Some a) s) (unlinked s a (lefts cs @ inorder l @ inorder r @ rights cs)
      (set (addrs (plug (Node a l c k v r) cs))))"
proof -
  note n = focus_node [OF h] parent_locked [OF h]
  consider "l = Leaf" | "l \<noteq> Leaf" "r = Leaf" | "l \<noteq> Leaf" "r \<noteq> Leaf" by blast
  then show ?thesis
  proof cases
    case 1
    then show ?thesis using n unlink_one_child [OF h rb, of r] by (simp add: unlink_def)
  next
    case 2
    moreover from this have "ptr None l \<noteq> None" by (cases l) auto
    ultimately show ?thesis using n unlink_one_child [OF h rb, of l] by (auto simp: unlink_def)
  next
    case 3
    then show ?thesis by (rule unlink_two_children [OF h rb])
  qed
qed

section \<open>The method \<open>remove\<close>\<close>

lemma repair_ok:
  assumes h: "holds s t cs" and c: "oc = RED \<longrightarrow> rbt (plug t cs)" "oc = BLACK \<longrightarrow> del_inv t cs"
  shows "runs (if oc = BLACK then
       (if ptr None t = rb_root s then (if ptr None t \<noteq> None then set_color (ptr None t) BLACK s else Some s)
        else if par cs \<noteq> None then fix_delete (ptr None t) (par cs) s else Some s)
     else Some s)
    (\<lambda>s'. same s s' \<and> (\<exists>t'. holds s' t' [] \<and> rbt t' \<and> same_contents (plug t cs) t'))"
proof (cases "oc = BLACK \<and> cs \<noteq> []")
  case True
  then show ?thesis using focus_not_root [OF h] fix_delete_ok [OF h] c by auto
next
  case False
  show ?thesis
  proof (cases oc)
    case RED
    then show ?thesis using h c
      by (auto simp: same_contents_def focus_plug [symmetric] intro!: exI [of _ "plug t cs"])
  next
    case BLACK
    with False c have cs: "cs = []" and t: "rbt (paint BLACK t)" by (auto simp: del_inv_def rbt_def)
    have root: "rb_root s = ptr None t" and "t \<noteq> Leaf \<Longrightarrow> ptr None t \<noteq> None"
      using h by (simp add: cs focus_def) (cases t; simp)
    then show ?thesis using BLACK cs t h set_color_ptr [OF h, of BLACK]
      by (cases "t = Leaf") (auto simp: same_contents_def elim!: runs_mono intro!: exI [of _ "paint BLACK t"])
  qed
qed

lemma holds_free:
  assumes "holds s t []" and "a \<notin> set (addrs t)"
  shows "holds (s\<lparr>rb_count := n, rb_heap := (rb_heap s)(a := None)\<rparr>) t []"
  using assms by (simp add: focus_def)

lemma remove_found_ok:
  assumes inv: "rb_inv s t" and land: "landed s k t (Node a l c k v r) cs"
    and find: "find_node k s = Some (Some a)"
  shows "\<exists>s'. rb_remove k s = Some (True, s') \<and> rb_repr s' (del_list k (inorder t))"
proof -
  have h: "holds s (Node a l c k v r) cs" and t: "t = plug (Node a l c k v r) cs"
    and rb: "rbt (plug (Node a l c k v r) cs)" and srt: "sorted1 (inorder t)"
    using land inv by (auto simp: landed_def lands_def rb_inv_def)
  note del = lands_Node(5) [OF landed_lands [OF land] srt]
  obtain oc s1 t1 cs1 where s1: "unlink (Some a) s = Some (oc, ptr None t1, par cs1, s1)" "same s s1"
      "holds s1 t1 cs1" "inorder (plug t1 cs1) = del_list k (inorder t)"
      "set (addrs (plug t1 cs1)) = set (addrs t) - {a}"
      "oc = RED \<longrightarrow> rbt (plug t1 cs1)" "oc = BLACK \<longrightarrow> del_inv t1 cs1"
    using unlink_ok [OF h rb] by (auto simp: unlinked_def t del [unfolded t] elim!: runsE)
  obtain s2 t2 where s2: "(if oc = BLACK then
       (if ptr None t1 = rb_root s1 then (if ptr None t1 \<noteq> None then set_color (ptr None t1) BLACK s1 else Some s1)
        else if par cs1 \<noteq> None then fix_delete (ptr None t1) (par cs1) s1 else Some s1)
     else Some s1) = Some s2" "same s1 s2" "holds s2 t2 []" "rbt t2"
      "inorder t2 = del_list k (inorder t)" "set (addrs t2) = set (addrs t) - {a}"
    using repair_ok [OF s1(3,6,7)] s1(4,5) by (elim runsE) (auto simp: same_contents_def)
  let ?s = "s2\<lparr>rb_count := rb_count s2 - 1, rb_heap := (rb_heap s2)(a := None)\<rparr>"
  have "rb_remove k s = Some (True, ?s)"
    using find s1(1) s2(1) by (simp add: rb_remove_def)
  moreover have "length (inorder t) = Suc (length (inorder t2))"
    by (simp add: s2(5) del) (simp add: t inorder_plug)
  moreover have "sorted1 (inorder t2)" using srt by (simp add: s2(5) sorted1_del_list)
  ultimately have "rb_inv ?s t2"
    using inv s1(2) s2(2,4,6) holds_free [OF s2(3), of a "rb_count s2 - 1"]
    by (auto simp: rb_inv_def same_def)
  with \<open>rb_remove k s = _\<close> s2(5) show ?thesis by (auto simp: rb_repr_def)
qed

lemma rb_remove_ok:
  assumes "rb_repr s ps"
  shows "\<exists>s'. rb_remove k s = Some (k \<in> fst ` set ps, s') \<and> rb_repr s' (del_list k ps)"
proof -
  obtain t where inv: "rb_inv s t" and ps: "inorder t = ps"
    using assms by (auto simp: rb_repr_def)
  have srt: "sorted1 (inorder t)" using inv by (simp add: rb_inv_def)
  obtain t' cs where land: "landed s k t t' cs" and find: "find_node k s = Some (ptr None t')"
    using find_node_ok [OF inv] by blast
  show ?thesis
  proof (cases t')
    case Leaf
    then have "k \<notin> fst ` set ps" using lands_Leaf(1) [OF landed_lands srt] land ps by blast
    then show ?thesis using find Leaf assms by (auto simp: rb_remove_def del_list_absent)
  next
    case (Node a l c k' v r)
    then show ?thesis
      using lands_Node(1,2) [OF landed_lands [OF land [unfolded Node]] srt] remove_found_ok [OF inv] land find ps by auto
  qed
qed

end
