(* ===== verification/Ordered_Map.thy ===== *)
theory Ordered_Map
  imports Prelude
begin

text \<open>
  The contract of the ordered maps of the repository. A map object promises how its contents, a
  sorted association list, change under insertion and removal and what a lookup returns; an
  insertion at an existing key keeps or replaces the value as \<open>merge\<close> says. What a client
  gets is proved once: any sequence of operations on a fresh object returns, and lookups answer
  as the finite map obtained by the same sequence.
\<close>

datatype ('k, 'v) command = Insert 'k 'v | Remove 'k

fun run_commands :: "('k \<Rightarrow> 'v \<Rightarrow> 's \<Rightarrow> 's option) \<Rightarrow> ('k \<Rightarrow> 's \<Rightarrow> 's option) \<Rightarrow>
    ('k, 'v) command list \<Rightarrow> 's \<Rightarrow> 's option" where
  "run_commands ins del [] s = Some s"
| "run_commands ins del (Insert k v # cs) s = do { s \<leftarrow> ins k v s; run_commands ins del cs s }"
| "run_commands ins del (Remove k # cs) s = do { s \<leftarrow> del k s; run_commands ins del cs s }"

fun map_commands :: "('v option \<Rightarrow> 'v \<Rightarrow> 'v) \<Rightarrow> ('k, 'v) command list \<Rightarrow> ('k \<rightharpoonup> 'v) \<Rightarrow> ('k \<rightharpoonup> 'v)" where
  "map_commands merge [] m = m"
| "map_commands merge (Insert k v # cs) m = map_commands merge cs (m(k \<mapsto> merge (m k) v))"
| "map_commands merge (Remove k # cs) m = map_commands merge cs (m(k := None))"

definition overwrite :: "'v option \<Rightarrow> 'v \<Rightarrow> 'v" where
  "overwrite old v = v"

definition keep_old :: "'v option \<Rightarrow> 'v \<Rightarrow> 'v" where
  "keep_old old v = (case old of None \<Rightarrow> v | Some w \<Rightarrow> w)"

lemma map_of_ins_new:
  "sorted1 ps \<Longrightarrow> map_of (ins_new k v ps) = (map_of ps)(k \<mapsto> keep_old (map_of ps k) v)"
  by (auto simp: ins_new_def keep_old_def map_of_upd_list map_of_none_iff fun_eq_iff split: option.splits)
    (auto simp: map_of_none_iff [symmetric])

locale ordered_map =
  fixes new :: 's
    and ins :: "'k::linorder \<Rightarrow> 'v \<Rightarrow> 's \<Rightarrow> 's option"
    and del :: "'k \<Rightarrow> 's \<Rightarrow> 's option"
    and look :: "'k \<Rightarrow> 's \<Rightarrow> 'v option option"
    and contents :: "'s \<Rightarrow> ('k \<times> 'v) list \<Rightarrow> bool"
    and merge :: "'v option \<Rightarrow> 'v \<Rightarrow> 'v"
    and upd :: "'k \<Rightarrow> 'v \<Rightarrow> ('k \<times> 'v) list \<Rightarrow> ('k \<times> 'v) list"
  assumes new_contents: "contents new []"
    and contents_sorted: "contents s ps \<Longrightarrow> sorted1 ps"
    and ins_contents: "contents s ps \<Longrightarrow> runs (ins k v s) (\<lambda>s'. contents s' (upd k v ps))"
    and del_contents: "contents s ps \<Longrightarrow> runs (del k s) (\<lambda>s'. contents s' (del_list k ps))"
    and look_contents: "contents s ps \<Longrightarrow> look k s = Some (map_of ps k)"
    and upd_map: "sorted1 ps \<Longrightarrow> map_of (upd k v ps) = (map_of ps)(k \<mapsto> merge (map_of ps k) v)"
begin

lemma run_contents:
  "contents s ps \<Longrightarrow> runs (run_commands ins del cs s)
     (\<lambda>s'. \<exists>qs. contents s' qs \<and> map_of qs = map_commands merge cs (map_of ps))"
proof (induction cs arbitrary: s ps)
  case (Cons c cs)
  note srt = contents_sorted [OF Cons.prems]
  show ?case
  proof (cases c)
    case (Insert k v)
    from ins_contents [OF Cons.prems, of k v] show ?thesis
      by (rule runsE) (use Cons.IH upd_map [OF srt, of k v] Insert in fastforce)
  next
    case (Remove k)
    from del_contents [OF Cons.prems, of k] show ?thesis
      by (rule runsE) (use Cons.IH map_of_del_list [OF srt, of k] Remove in fastforce)
  qed
qed auto

lemma run_new:
  "runs (run_commands ins del cs new)
     (\<lambda>s'. \<forall>k. look k s' = Some (map_commands merge cs Map.empty k))"
  using run_contents [OF new_contents, of cs] by (auto simp: look_contents elim!: runs_mono)

lemma look_after_ins:
  assumes "contents s ps"
  shows "runs (ins k v s) (\<lambda>s'. look k s' = Some (Some (merge (map_of ps k) v)) \<and>
    (\<forall>j. j \<noteq> k \<longrightarrow> look j s' = look j s))"
  using ins_contents [OF assms, of k v] look_contents [OF assms] upd_map [OF contents_sorted [OF assms], of k v]
  by (auto simp: look_contents elim!: runs_mono)

lemma look_after_del:
  assumes "contents s ps"
  shows "runs (del k s) (\<lambda>s'. look k s' = Some None \<and> (\<forall>j. j \<noteq> k \<longrightarrow> look j s' = look j s))"
  using del_contents [OF assms, of k] look_contents [OF assms] map_of_del_list [OF contents_sorted [OF assms], of k]
  by (auto simp: look_contents elim!: runs_mono)

end

end
