(* ===== verification/RedBlackTree_Map.thy ===== *)
theory RedBlackTree_Map
  imports RedBlackTree_Delete Ordered_Map
begin

text \<open>
  The queries of \<open>class RedBlackTree\<close> in \<open>KV_Store/RBTree.cpp\<close>: lookups, the in-order and the
  level-order traversal, the height and the validator; the class as an \<open>ordered_map\<close>; and the
  properties of its public methods.
\<close>

section \<open>Lookups\<close>

lemma rb_find_ok:
  assumes "rb_repr s ps"
  shows "rb_find k s = Some (map_of ps k)"
proof -
  obtain t where inv: "rb_inv s t" and ps: "inorder t = ps" using assms by (auto simp: rb_repr_def)
  have srt: "sorted1 (inorder t)" using inv by (simp add: rb_inv_def)
  obtain t' cs where land: "landed s k t t' cs" and find: "find_node k s = Some (ptr None t')"
    using find_node_ok [OF inv] by blast
  show ?thesis
  proof (cases t')
    case Leaf
    then have "map_of ps k = None" using lands_Leaf(1) [OF landed_lands srt] land ps by (simp add: map_of_none_iff)
    then show ?thesis using find Leaf by (simp add: rb_find_def)
  next
    case (Node a l c k' v r)
    then have "rb_heap s a = Some \<lparr>key = k', val = v, color = c, left = ptr None l, right = ptr None r,
        parent = par cs\<rparr>"
      using land by (auto simp: landed_def lands_def dest: focus_node)
    then show ?thesis using lands_Node(3) [OF landed_lands [OF land [unfolded Node]] srt] find Node ps
      by (simp add: rb_find_def)
  qed
qed

lemma rb_contains_ok:
  assumes "rb_repr s ps"
  shows "rb_contains k s = Some (k \<in> fst ` set ps)"
proof -
  have "rb_find k s = Some (map_of ps k)" using assms by (rule rb_find_ok)
  then have "rb_contains k s = Some (map_of ps k \<noteq> None)"
    by (auto simp: rb_find_def rb_contains_def bind_eq_Some_conv split: if_splits dest: sym [of "Some _"])
  then show ?thesis by (simp add: map_of_none_iff)
qed

section \<open>Traversals\<close>

lemma inorder_traversal_ok:
  "holds s t cs \<Longrightarrow> inorder_traversal (ptr None t) res s = Some (res @ inorder t)"
proof (induction t arbitrary: cs res)
  case Leaf
  then show ?case by (simp add: inorder_traversal.simps)
next
  case (Node a l c k v r)
  have "inorder_traversal (ptr None l) x s = Some (x @ inorder l)"
       "inorder_traversal (ptr None r) x s = Some (x @ inorder r)" for x
    using Node.IH(1) [OF iffD1 [OF focus_left Node.prems]]
      Node.IH(2) [OF iffD1 [OF focus_right Node.prems]] by auto
  then show ?case
    by (simp add: inorder_traversal.simps [of "Some a"] focus_node [OF Node.prems])
qed

lemma node_height_ok: "holds s t cs \<Longrightarrow> node_height (ptr None t) s = Some (int (tree_height t))"
proof (induction t arbitrary: cs)
  case Leaf
  then show ?case by (simp add: node_height.simps)
next
  case (Node a l c k v r)
  note hl = Node.IH(1) [OF iffD1 [OF focus_left Node.prems]]
    and hr = Node.IH(2) [OF iffD1 [OF focus_right Node.prems]]
  show ?case by (simp add: node_height.simps [of "Some a"] focus_node [OF Node.prems] hl hr)
qed

text \<open>The nodes at a given depth, from left to right.\<close>

fun level_at :: "nat \<Rightarrow> ('k, 'v) tree \<Rightarrow> ('k \<times> color) list" where
  "level_at d Leaf = []"
| "level_at 0 (Node a l c k v r) = [(k, c)]"
| "level_at (Suc d) (Node a l c k v r) = level_at d l @ level_at d r"

lemma level_at_kids: "level_at (Suc d) t = concat (map (level_at d) (kids t))"
  by (cases t) auto

lemma level_for_ok:
  assumes "\<forall>t\<in>set ts. t \<noteq> Leaf \<and> (\<exists>cs. holds s t cs)"
  shows "level_for (length ts) (map (ptr None) ts @ q) lv s =
    Some (q @ map (ptr None) (concat (map kids ts)), lv @ concat (map (level_at 0) ts))"
  using assms
proof (induction ts arbitrary: q lv)
  case (Cons t ts)
  then obtain a l c k v r cs where t: "t = Node a l c k v r" "holds s t cs" by (cases t) auto
  have n: "rb_heap s a = Some \<lparr>key = k, val = v, color = c, left = ptr None l, right = ptr None r,
      parent = par cs\<rparr>" using focus_node [OF t(2) [unfolded t(1)]] .
  have "level_for (Suc i) (Some a # q') lv s =
      level_for i (q' @ map (ptr None) (kids t)) (lv @ [(k, c)]) s" for i q'
    by (cases l; cases r) (simp_all add: n t(1))
  moreover have "level_for (length ts) (map (ptr None) ts @ q @ map (ptr None) (kids t)) (lv @ [(k, c)]) s =
      Some ((q @ map (ptr None) (kids t)) @ map (ptr None) (concat (map kids ts)),
        (lv @ [(k, c)]) @ concat (map (level_at 0) ts))"
    by (rule Cons.IH) (use Cons.prems in simp)
  ultimately show ?case by (simp add: t(1))
qed simp

lemma kids_holds:
  assumes "holds s t cs" and "t' \<in> set (kids t)"
  shows "t' \<noteq> Leaf \<and> (\<exists>cs'. holds s t' cs')"
proof (cases t)
  case (Node a l c k v r)
  have "holds s l (FrameL a c k v r # cs)" "holds s r (FrameR a l c k v # cs)"
    using assms(1) iffD1 [OF focus_left] iffD1 [OF focus_right] by (auto simp: Node)
  then show ?thesis using assms(2) by (auto simp: Node split: if_splits)
qed (use assms in simp)

lemma level_while_ok:
  assumes "\<forall>t\<in>set ts. t \<noteq> Leaf \<and> (\<exists>cs. holds s t cs)" and "forest_size ts < 2 ^ 31"
  shows "level_while (map (ptr None) ts) res s =
    Some (res @ map (\<lambda>d. concat (map (level_at d) ts)) [0..<forest_height ts])"
  using assms
proof (induction "forest_height ts" arbitrary: ts res)
  case 0
  then have "ts = []" using forest_height_level [of ts] by (cases ts) auto
  then show ?case by (simp add: level_while.simps)
next
  case (Suc h)
  let ?us = "concat (map kids ts)"
  have ne: "ts \<noteq> []" using Suc.hyps(2) by auto
  then have h: "h = forest_height ?us" using Suc forest_height_level [of ts] by simp
  have us: "\<forall>t\<in>set ?us. t \<noteq> Leaf \<and> (\<exists>cs. holds s t cs)" "forest_size ?us < 2 ^ 31"
    using Suc.prems kids_holds forest_size_kids [of ts] by (fastforce, linarith)
  have "int_of_size (length ts) = int (length ts)"
    using int_of_size forest_width [of ts] Suc.prems by (simp add: order_le_less_trans)
  then have "level_for (nat (int_of_size (length (map (ptr None) ts)))) (map (ptr None) ts) [] s =
      Some (map (ptr None) ?us, concat (map (level_at 0) ts))"
    using level_for_ok [OF Suc.prems(1), of "[]" "[]"] by simp
  then have "level_while (map (ptr None) ts) res s =
      level_while (map (ptr None) ?us) (res @ [concat (map (level_at 0) ts)]) s"
    using ne by (subst level_while.simps) simp
  also have "\<dots> = Some (res @ [concat (map (level_at 0) ts)] @
      map (\<lambda>d. concat (map (level_at d) ?us)) [0..<h])"
    using Suc.hyps(1) [OF h us] by (simp add: h)
  also have "(\<lambda>d. concat (map (level_at d) ?us)) = (\<lambda>d. concat (map (level_at (Suc d)) ts))"
    by (induction ts) (simp_all add: level_at_kids fun_eq_iff)
  also have "[concat (map (level_at 0) ts)] @ map (\<lambda>d. concat (map (level_at (Suc d)) ts)) [0..<h] =
      map (\<lambda>d. concat (map (level_at d) ts)) [0..<Suc h]"
    by (simp only: upt_conv_Cons [OF zero_less_Suc] list.map map_Suc_upt [symmetric]) simp
  finally show ?case using Suc.hyps(2) by simp
qed

lemma level_order_ok:
  assumes "holds s t []" and "length (inorder t) < 2 ^ 31"
  shows "level_order s = Some (map (\<lambda>d. level_at d t) [0..<tree_height t])"
proof (cases t)
  case Leaf
  then show ?thesis using assms by (simp add: level_order_def focus_def)
next
  case (Node a l c k v r)
  then have "rb_root s = ptr None t" "rb_root s \<noteq> None" using assms by (auto simp: focus_def)
  then show ?thesis using level_while_ok [of "[t]" s "[]"] assms Node
    by (auto simp: level_order_def forest_size_def)
qed

section \<open>The validator\<close>

definition path_ok :: "('k, 'v) tree \<Rightarrow> int \<Rightarrow> int \<Rightarrow> bool" where
  "path_ok t b p \<longleftrightarrow> invc t \<and> invh t \<and> (p \<noteq> - 1 \<longrightarrow> p = b + int (bheight t))"

lemma validate_rb_ok:
  "holds s t cs \<Longrightarrow> b \<ge> 0 \<Longrightarrow> \<exists>q. validate_rb (ptr None t) b p s = Some (path_ok t b p, q) \<and>
     (path_ok t b p \<longrightarrow> q = b + int (bheight t))"
proof (induction t arbitrary: cs b p)
  case Leaf
  then show ?case by (auto simp: validate_rb.simps path_ok_def Let_def)
next
  case (Node a l c k v r)
  note hl = iffD1 [OF focus_left Node.prems(1)] and hr = iffD1 [OF focus_right Node.prems(1)]
  note red = is_red_ptr [OF hl] is_red_ptr [OF hr] and n = focus_node [OF Node.prems(1)]
  let ?b = "b + (if c = BLACK then 1 else 0)"
  have b: "?b \<ge> 0" using Node.prems(2) by simp
  obtain q where q: "validate_rb (ptr None l) ?b p s = Some (path_ok l ?b p, q)"
      "path_ok l ?b p \<longrightarrow> q = ?b + int (bheight l)"
    using Node.IH(1) [OF hl b] by blast
  obtain q' where q': "validate_rb (ptr None r) ?b q s = Some (path_ok r ?b q, q')"
      "path_ok r ?b q \<longrightarrow> q' = ?b + int (bheight r)"
    using Node.IH(2) [OF hr b] by blast
  have step: "validate_rb (Some a) b p s =
      (if c = RED \<and> (tree_color l = RED \<or> tree_color r = RED) then Some (False, p)
       else if path_ok l ?b p then Some (path_ok r ?b q, q') else Some (False, q))"
    using q(1) q'(1) red n by (subst validate_rb.simps) (auto simp: Let_def)
  show ?case
  proof (cases "path_ok l ?b p \<and> \<not> (c = RED \<and> (tree_color l = RED \<or> tree_color r = RED))")
    case True
    then have "q \<noteq> - 1" "path_ok (Node a l c k v r) b p = path_ok r ?b q"
      using q(2) b by (auto simp: path_ok_def)
    then show ?thesis using True q'(2) q(2) by (auto simp: step path_ok_def)
  next
    case False
    then have "\<not> path_ok (Node a l c k v r) b p" by (auto simp: path_ok_def)
    then show ?thesis using False by (auto simp: step)
  qed
qed

lemma rb_validate_ok:
  assumes h: "holds s t []"
  shows "rb_validate s = Some (rbt t)"
proof (cases t)
  case Leaf
  then show ?thesis using h by (simp add: rb_validate_def focus_def rbt_def)
next
  case (Node a l c k v r)
  have root: "rb_root s = ptr None t" using h by (simp add: focus_def)
  obtain q where "validate_rb (ptr None t) 0 (- 1) s = Some (path_ok t 0 (- 1), q)"
    using validate_rb_ok [OF h, of 0 "- 1"] by auto
  then show ?thesis using focus_node [OF h [unfolded Node]]
    by (auto simp: rb_validate_def root Node path_ok_def rbt_def)
qed

section \<open>The class as an ordered map\<close>

lemma rb_new_ok: "rb_repr rb_new []"
  by (auto simp: rb_repr_def rb_inv_def rb_new_def focus_def rbt_def intro!: exI [of _ Leaf])

interpretation rb: ordered_map rb_new "\<lambda>k v s. map_option snd (rb_insert k v s)"
  "\<lambda>k s. map_option snd (rb_remove k s)" rb_find rb_repr overwrite upd_list
proof
  show "rb_repr rb_new []" by (rule rb_new_ok)
next
  fix s :: "('a, 'b) rbtree" and ps
  assume s: "rb_repr s ps"
  show "sorted1 ps" using s by (auto simp: rb_repr_def rb_inv_def)
  show "runs (map_option snd (rb_insert k v s)) (\<lambda>s'. rb_repr s' (upd_list k v ps))" for k v
    using rb_insert_ok [OF s, of k v] by auto
  show "runs (map_option snd (rb_remove k s)) (\<lambda>s'. rb_repr s' (del_list k ps))" for k
    using rb_remove_ok [OF s, of k] by auto
  show "rb_find k s = Some (map_of ps k)" for k using s by (rule rb_find_ok)
qed (simp add: map_of_upd_list overwrite_def)

section \<open>Properties\<close>

text \<open>A tree with the three keys 1, 2, 3, for concrete inputs.\<close>

definition tree123 :: "(nat, nat) rbtree" where
  "tree123 = \<lparr>rb_root = Some 1, rb_count = 3, rb_heap =
     [0 \<mapsto> \<lparr>key = 1, val = 10, color = RED, left = None, right = None, parent = Some 1\<rparr>,
      1 \<mapsto> \<lparr>key = 2, val = 20, color = BLACK, left = Some 0, right = Some 2, parent = None\<rparr>,
      2 \<mapsto> \<lparr>key = 3, val = 30, color = RED, left = None, right = None, parent = Some 1\<rparr>],
     rb_next = 3\<rparr>"

lemma tree123_repr: "rb_repr tree123 [(1, 10), (2, 20), (3, 30)]"
  by (auto simp: rb_repr_def rb_inv_def tree123_def focus_def rbt_def
      intro!: exI [of _ "Node 1 (Node 0 Leaf RED 1 10 Leaf) BLACK 2 20 (Node 2 Leaf RED 3 30 Leaf)"])

text \<open>C1. \<open>insert\<close> returns on every well-formed tree, reports whether the key is new, and leaves a
  well-formed red-black tree whose contents are the old contents with the key set to the value.\<close>

theorem rb_insert_correct:
  assumes "rb_repr s ps"
  shows "\<exists>s'. rb_insert k v s = Some (k \<notin> fst ` set ps, s') \<and> rb_repr s' (upd_list k v ps)"
  using assms by (rule rb_insert_ok)

theorem rb_insert_correct_witness:
  "rb_repr tree123 [(1, 10), (2, 20), (3, 30)] \<and>
   (\<exists>s'. rb_insert 4 40 tree123 = Some (True, s') \<and> rb_repr s' [(1, 10), (2, 20), (3, 30), (4, 40)])"
  using rb_insert_correct [OF tree123_repr, of 4 40] tree123_repr by simp

text \<open>C2. \<open>remove\<close> returns on every well-formed tree, reports whether the key was there, and leaves a
  well-formed red-black tree without the key and with every other entry unchanged; the removed
  node is no longer in the heap.\<close>

theorem rb_remove_correct:
  assumes "rb_repr s ps"
  shows "\<exists>s'. rb_remove k s = Some (k \<in> fst ` set ps, s') \<and> rb_repr s' (del_list k ps)"
  using assms by (rule rb_remove_ok)

theorem rb_remove_correct_witness:
  "rb_repr tree123 [(1, 10), (2, 20), (3, 30)] \<and>
   (\<exists>s'. rb_remove 2 tree123 = Some (True, s') \<and> rb_repr s' [(1, 10), (3, 30)])"
  using rb_remove_correct [OF tree123_repr, of 2] tree123_repr by simp

text \<open>C3. Any sequence of \<open>insert\<close> and \<open>remove\<close> calls on a fresh tree returns, and afterwards
  \<open>find\<close> answers for every key as the finite map after the same sequence does.\<close>

theorem rb_commands_correct:
  "\<exists>s. run_commands (\<lambda>k v s. map_option snd (rb_insert k v s)) (\<lambda>k s. map_option snd (rb_remove k s))
        cs rb_new = Some s \<and>
     (\<forall>k. rb_find k s = Some (map_commands overwrite cs Map.empty k))"
  using rb.run_new [of cs] by (auto simp: runs_iff)

text \<open>C4. \<open>validate\<close> decides the red-black conditions: on any linked tree, balanced or not, it
  returns true exactly when the root is black, no red node has a red child and all paths have the
  same number of black nodes.\<close>

theorem rb_validate_correct:
  assumes "focus None (rb_heap s) (rb_root s) t []"
  shows "rb_validate s = Some (rbt t)"
  using assms by (rule rb_validate_ok)

theorem rb_validate_correct_witness:
  "rb_validate \<lparr>rb_root = Some 0, rb_count = 2, rb_heap =
     [0 \<mapsto> \<lparr>key = 1::nat, val = 1::nat, color = BLACK, left = None, right = Some 1, parent = None\<rparr>,
      1 \<mapsto> \<lparr>key = 2, val = 2, color = BLACK, left = None, right = None, parent = Some 0\<rparr>],
     rb_next = 2\<rparr> = Some (rbt (Node 0 Leaf BLACK (1::nat) (1::nat) (Node 1 Leaf BLACK 2 2 Leaf)))"
  by (rule rb_validate_correct) (simp add: focus_def)

lemma rb_traversals:
  assumes "rb_inv s t"
  shows "rb_inorder s = Some (inorder t) \<and> sorted1 (inorder t) \<and>
    (length (inorder t) < 2 ^ 31 \<longrightarrow> level_order s = Some (map (\<lambda>d. level_at d t) [0..<tree_height t]))"
proof -
  have t: "holds s t []" "sorted1 (inorder t)" using assms by (auto simp: rb_inv_def)
  have "rb_inorder s = Some (inorder t)"
    using inorder_traversal_ok [OF t(1), of "[]"] t by (simp add: rb_inorder_def focus_def)
  with t level_order_ok [OF t(1)] show ?thesis by auto
qed

lemma rb_clear_repr: "rb_repr (rb_clear s) []"
  by (auto simp: rb_repr_def rb_inv_def rb_clear_def focus_def rbt_def intro!: exI [of _ Leaf])

lemma tree123_inv: "rb_inv tree123 (Node 1 (Node 0 Leaf RED 1 10 Leaf) BLACK 2 20 (Node 2 Leaf RED 3 30 Leaf))"
  by (auto simp: rb_inv_def tree123_def focus_def rbt_def)

text \<open>C5. The observers of a well-formed tree return and agree with the tree \<open>t\<close> that its nodes and links form: \<open>inorder\<close>
  lists its entries in strictly increasing key order, \<open>level_order\<close> lists, for each depth from the root down, the keys and
  colours of the nodes at that depth from left to right, \<open>find\<close>, \<open>contains\<close>, \<open>size\<close> and \<open>empty\<close> answer from the entries, and
  \<open>clear\<close> empties the tree. The size is exact as long as the number of entries fits \<open>size_t\<close>, and the statement on
  \<open>level_order\<close> is for trees whose number of entries fits \<open>int\<close>, the type of its counter.\<close>

theorem rb_observers_correct:
  assumes "rb_inv s t" and "length (inorder t) < 2 ^ 64"
  shows "rb_inorder s = Some (inorder t) \<and> sorted1 (inorder t) \<and>
    (length (inorder t) < 2 ^ 31 \<longrightarrow> level_order s = Some (map (\<lambda>d. level_at d t) [0..<tree_height t])) \<and>
    rb_find k s = Some (map_of (inorder t) k) \<and> rb_contains k s = Some (k \<in> fst ` set (inorder t)) \<and>
    unat (rb_size s) = length (inorder t) \<and> (rb_empty s \<longleftrightarrow> t = Leaf) \<and> rb_repr (rb_clear s) []"
proof -
  have repr: "rb_repr s (inorder t)" using assms(1) by (auto simp: rb_repr_def)
  have n: "rb_count s = of_nat (length (inorder t))" using assms(1) by (auto simp: rb_inv_def)
  then have "unat (rb_count s) = length (inorder t)" using assms(2) by (simp add: unat_of_nat)
  moreover have "inorder t = [] \<longleftrightarrow> t = Leaf" by (cases t) auto
  ultimately show ?thesis using rb_traversals [OF assms(1)] rb_find_ok [OF repr] rb_contains_ok [OF repr] rb_clear_repr
    by (auto simp: rb_size_def rb_empty_def simp flip: unat_eq_0)
qed

theorem rb_observers_correct_witness:
  "rb_inorder tree123 = Some [(1, 10), (2, 20), (3, 30)] \<and>
   level_order tree123 = Some [[(2, BLACK)], [(1, RED), (3, RED)]] \<and>
   rb_find 2 tree123 = Some (Some 20) \<and> rb_contains 5 tree123 = Some False \<and>
   unat (rb_size tree123) = 3 \<and> \<not> rb_empty tree123 \<and> rb_repr (rb_clear tree123) []"
  using rb_observers_correct [OF tree123_inv, of 2] rb_observers_correct [OF tree123_inv, of 5] by (simp add: upt_rec)

text \<open>C6. \<open>get_height\<close> returns the height of the tree, the number of nodes on its longest path, which is at most
  \<open>2 \<lfloor>log\<^sub>2 (n + 1)\<rfloor>\<close> for \<open>n\<close> entries, the bound that the repository's own test computes.\<close>

theorem rb_height_bound:
  assumes "rb_inv s t"
  shows "get_height s = Some (int (tree_height t)) \<and> tree_height t \<le> 2 * ilog2 (length (inorder t) + 1)"
  using assms node_height_ok [of s t "[]"] rbt_height [of t] by (auto simp: rb_inv_def get_height_def focus_def)

theorem rb_height_bound_witness: "get_height tree123 = Some 2"
  using rb_height_bound [OF tree123_inv] by simp

end
