(* ===== verification/RedBlackTree_Test.thy ===== *)
theory RedBlackTree_Test
  imports RedBlackTree_Map
begin

text \<open>
  \<open>print_tree\<close> and \<open>test_redblack_tree\<close>, the test program of \<open>KV_Store/RBTree.cpp\<close>. The output is the list of its lines;
  \<open>Check x\<close> is the line of \<open>x\<close> with a check mark in front, \<open>Cross x\<close> the one with a cross; the sign for \<open>about\<close> in test 7 is
  written \<open>=\<close>. The proofs use the contract of the tree, not its evaluation.
\<close>

datatype line = Line string | Check string | Cross string

section \<open>The program\<close>

fun show_node :: "int \<times> color \<Rightarrow> string" where
  "show_node (k, c) = show_int k @ (if c = RED then ''(R)'' else ''(B)'') @ '' ''"

definition print_tree :: "(int, 'v) rbtree \<Rightarrow> line list option" where
  "print_tree s = (if rb_root s = None then Some [Line ''Empty tree''] else do {
     levels \<leftarrow> level_order s;
     Some (map (\<lambda>i. Line (''Level '' @ show_nat i @ '': '' @ concat (map show_node (levels ! i)))) [0..<length levels]) })"

fun put_all :: "('k::linorder \<times> 'v) list \<Rightarrow> ('k, 'v) rbtree \<Rightarrow> ('k, 'v) rbtree option" where
  "put_all [] s = Some s"
| "put_all ((k, v) # ps) s = do { (r, s) \<leftarrow> rb_insert k v s; put_all ps s }"

fun contains_all :: "'k::linorder list \<Rightarrow> ('k, 'v) rbtree \<Rightarrow> bool option" where
  "contains_all [] s = Some True"
| "contains_all (k # ks) s = do { r \<leftarrow> rb_contains k s; (if \<not> r then Some False else contains_all ks s) }"

text \<open>\<open>std::is_sorted\<close> with the comparison of the keys.\<close>

fun is_sorted :: "('k::linorder \<times> 'v) list \<Rightarrow> bool" where
  "is_sorted (p # q # ps) \<longleftrightarrow> \<not> fst q < fst p \<and> is_sorted (q # ps)"
| "is_sorted _ \<longleftrightarrow> True"

definition names :: "(int \<times> string) list" where
  "names = [(10, ''Alice''), (20, ''Bob''), (30, ''Charlie''), (15, ''David''), (25, ''Eve''), (5, ''Frank''), (3, ''Grace''),
     (8, ''Henry''), (12, ''Ivy''), (18, ''Jack'')]"

text \<open>Tests 1 and 2: insertion and lookup, the red-black properties.\<close>

definition rb_test1 :: "(line list \<times> (int, string) rbtree) option" where
  "rb_test1 = do {
     tree \<leftarrow> put_all names rb_new;
     all_found \<leftarrow> contains_all (map fst names) tree;
     ok \<leftarrow> rb_validate tree;
     p \<leftarrow> print_tree tree;
     Some ([Line ''Test 1: Basic Insertion and Lookup'',
       if all_found then Check (''All '' @ show_nat (unat (rb_size tree)) @ '' keys inserted and found'') else Cross ''Some keys not found!'',
       Line [], Line ''Test 2: Red-Black Tree Properties'',
       if ok then Check ''All red-black tree properties satisfied'' else Cross ''Red-black tree properties violated!'',
       Line [], Line ''Tree structure (level order):''] @ p, tree) }"

text \<open>Test 3: traversal.\<close>

definition rb_test3 :: "(int, string) rbtree \<Rightarrow> line list option" where
  "rb_test3 tree = do {
     sorted \<leftarrow> rb_inorder tree;
     Some ([Line [], Line ''Test 3: Inorder Traversal (Should be sorted)''] @
       (if is_sorted sorted then [Check ''Inorder traversal is sorted'',
          Line (''Sorted keys: '' @ concat (map (\<lambda>p. show_int (fst p) @ '' '') sorted))] else [])) }"

text \<open>Test 4: deletion.\<close>

definition rb_test4 :: "(int, string) rbtree \<Rightarrow> (line list \<times> (int, string) rbtree) option" where
  "rb_test4 tree = do {
     c \<leftarrow> rb_contains 15 tree;
     (ls, tree) \<leftarrow> (if c then do {
         (r, tree) \<leftarrow> rb_remove 15 tree;
         c \<leftarrow> rb_contains 15 tree;
         ok \<leftarrow> rb_validate tree;
         Some ((if \<not> c then [Check ''Key 15 successfully deleted''] else []) @
           (if ok then [Check ''Red-black tree properties still satisfied after deletion''] else []), tree) }
       else Some ([], tree));
     Some ([Line [], Line ''Test 4: Deletion''] @ ls, tree) }"

text \<open>Test 5: update.\<close>

definition rb_test5 :: "(int, string) rbtree \<Rightarrow> line list option" where
  "rb_test5 tree = do {
     (inserted, tree) \<leftarrow> rb_insert 10 ''Alice_Updated'' tree;
     r \<leftarrow> rb_find 10 tree;
     Some ([Line [], Line ''Test 5: Update Existing Key''] @
       (if \<not> inserted \<and> r = Some ''Alice_Updated'' then [Check ''Key 10 successfully updated''] else [])) }"

text \<open>Test 6: the empty tree.\<close>

definition rb_test6 :: "line list option" where
  "rb_test6 = do {
     let empty_tree = (rb_new :: (int, int) rbtree);
     c \<leftarrow> rb_contains 999 empty_tree;
     Some ([Line [], Line ''Test 6: Edge Cases''] @
       (if rb_empty empty_tree \<and> rb_size empty_tree = 0 then [Check ''Empty tree properties correct''] else []) @
       (if \<not> c then [Check ''Non-existent key not found in empty tree''] else [])) }"

text \<open>Test 7: 1000 keys.\<close>

definition rb_test7 :: "line list option" where
  "rb_test7 = do {
     large_tree \<leftarrow> put_all (map (\<lambda>i. (i, i * 10)) [0..999]) (rb_new :: (int, int) rbtree);
     found \<leftarrow> contains_all [0..999] large_tree;
     ok \<leftarrow> rb_validate large_tree;
     h \<leftarrow> get_height large_tree;
     let bound = 2 * int (ilog2 (1000 + 1));
     Some ([Line [], Line ''Test 7: Bulk Operations''] @
       (if found then [Check ''All 1000 keys inserted and found''] else []) @
       (if ok then [Check ''Red-black tree properties satisfied for large tree''] else []) @
       [Line (''Tree height: '' @ show_int h),
        Line (''Theoretical maximum height for 1000 nodes: 2*log2(n+1) = '' @ show_int bound)] @
       (if h \<le> bound then [Check ''Tree height is within theoretical bounds''] else [])) }"

text \<open>Test 8: sorted insertion.\<close>

definition rb_test8 :: "line list option" where
  "rb_test8 = do {
     sorted_tree \<leftarrow> put_all (map (\<lambda>i. (i, ''Value'' @ show_int i)) [1..20]) (rb_new :: (int, string) rbtree);
     ok \<leftarrow> rb_validate sorted_tree;
     h \<leftarrow> get_height sorted_tree;
     Some ([Line [], Line ''Test 8: Sorted Insertion (Worst Case)''] @
       (if ok then [Check ''Red-black tree handles sorted insertion correctly'',
          Line (''Tree height after sorted insertion: '' @ show_int h)] else [])) }"

text \<open>Test 9: removal of all keys, with a validation after each.\<close>

fun remove_all :: "int list \<Rightarrow> (int, int) rbtree \<Rightarrow> (line list \<times> (int, int) rbtree) option" where
  "remove_all [] s = Some ([], s)"
| "remove_all (k # ks) s = do {
     (r, s) \<leftarrow> rb_remove k s;
     ok \<leftarrow> rb_validate s;
     (if \<not> ok then Some ([Cross (''Red-black tree properties violated after deleting key '' @ show_int k)], s)
      else remove_all ks s) }"

definition rb_test9 :: "line list option" where
  "rb_test9 = do {
     delete_test \<leftarrow> put_all (map (\<lambda>i. (i, i)) [0..9]) (rb_new :: (int, int) rbtree);
     (ls, delete_test) \<leftarrow> remove_all [0..9] delete_test;
     Some ([Line [], Line ''Test 9: Delete All Nodes''] @ ls @
       (if rb_empty delete_test then [Check ''All nodes successfully deleted, tree is empty''] else [])) }"

definition test_redblack_tree :: "line list option" where
  "test_redblack_tree = do {
     (o1, tree) \<leftarrow> rb_test1;
     o3 \<leftarrow> rb_test3 tree;
     (o4, tree) \<leftarrow> rb_test4 tree;
     o5 \<leftarrow> rb_test5 tree;
     o6 \<leftarrow> rb_test6;
     o7 \<leftarrow> rb_test7;
     o8 \<leftarrow> rb_test8;
     o9 \<leftarrow> rb_test9;
     Some ([Line ''=== Red-Black Tree Test ==='', Line []] @ o1 @ o3 @ o4 @ o5 @ o6 @ o7 @ o8 @ o9 @
       [Line [], Line ''=== All Tests Completed Successfully ==='']) }"

section \<open>The tree under test\<close>

lemma put_all_repr:
  "rb_repr s ps \<Longrightarrow> runs (put_all qs s) (\<lambda>s'. rb_repr s' (fold (\<lambda>(k, v). upd_list k v) qs ps))"
proof (induction qs arbitrary: s ps)
  case (Cons q qs)
  obtain k v where q: "q = (k, v)" by fastforce
  from rb_insert_ok [OF Cons.prems, of k v] obtain s' where "rb_insert k v s = Some (k \<notin> fst ` set ps, s')"
      "rb_repr s' (upd_list k v ps)" by blast
  with Cons.IH show ?case by (simp add: q)
qed simp

lemma contains_all_repr: "rb_repr s ps \<Longrightarrow> contains_all ks s = Some (set ks \<subseteq> fst ` set ps)"
  by (induction ks) (auto simp: rb_contains_ok)

lemma rb_repr_valid: "rb_repr s ps \<Longrightarrow> rb_validate s = Some True"
  using rb_validate_ok by (fastforce simp: rb_repr_def rb_inv_def)

lemma rb_repr_empty: "rb_repr s [] \<Longrightarrow> rb_empty s"
  by (auto simp: rb_repr_def rb_inv_def rb_empty_def)

lemma rb_repr_height:
  assumes "rb_repr s ps"
  shows "\<exists>h. get_height s = Some (int h) \<and> h \<le> 2 * ilog2 (Suc (length ps))"
  using assms node_height_ok [of s _ "[]"] rbt_height
  by (fastforce simp: rb_repr_def rb_inv_def get_height_def focus_def)

lemma sorted1_is_sorted: "sorted1 ps \<Longrightarrow> is_sorted ps"
  by (induction ps rule: is_sorted.induct) auto

lemma upd_list_end: "\<forall>a\<in>fst ` set ps. a < k \<Longrightarrow> upd_list k v ps = ps @ [(k, v)]"
  by (induction k v ps rule: upd_list.induct) auto

text \<open>Inserting in increasing order appends.\<close>

lemma put_ascending: "sorted1 (ps @ qs) \<Longrightarrow> fold (\<lambda>(k, v). upd_list k v) qs ps = ps @ qs"
proof (induction qs arbitrary: ps)
  case (Cons q qs)
  obtain k v where q: "q = (k, v)" by fastforce
  have "upd_list k v ps = ps @ [q]" using Cons.prems upd_list_end [of ps k v] by (auto simp: q sorted_wrt_append)
  with Cons show ?case by (simp add: q)
qed simp

lemma remove_all_repr:
  "rb_repr s ps \<Longrightarrow> runs (remove_all ks s) (\<lambda>(ls, s'). ls = [] \<and> rb_repr s' (fold del_list ks ps))"
proof (induction ks arbitrary: s ps)
  case (Cons k ks)
  from rb_remove_ok [OF Cons.prems, of k] obtain s' where "rb_remove k s = Some (k \<in> fst ` set ps, s')"
      "rb_repr s' (del_list k ps)" by blast
  with Cons.IH rb_repr_valid show ?case by fastforce
qed simp

section \<open>The tests\<close>

text \<open>The lines with a mark.\<close>

fun marks :: "line list \<Rightarrow> line list" where
  "marks [] = []"
| "marks (Line x # ls) = marks ls"
| "marks (l # ls) = l # marks ls"

lemma marks_append [simp]: "marks (xs @ ys) = marks xs @ marks ys"
  by (induction xs rule: marks.induct) auto

lemma marks_Lines [simp]: "marks (map (\<lambda>x. Line (f x)) xs) = []"
  by (induction xs) auto

lemma print_tree_marks: "rb_repr s ps \<Longrightarrow> length ps < 2 ^ 31 \<Longrightarrow> runs (print_tree s) (\<lambda>p. marks p = [])"
  using rb_traversals by (fastforce simp: print_tree_def rb_repr_def)

definition people :: "(int \<times> string) list" where
  "people = [(3, ''Grace''), (5, ''Frank''), (8, ''Henry''), (10, ''Alice''), (12, ''Ivy''), (15, ''David''), (18, ''Jack''),
     (20, ''Bob''), (25, ''Eve''), (30, ''Charlie'')]"

lemma people_names: "fold (\<lambda>(k, v). upd_list k v) names [] = people"
  by (simp add: names_def people_def)

lemma rb_test1_runs: "runs rb_test1 (\<lambda>(ls, tree). rb_repr tree people \<and> marks ls =
    [Check ''All 10 keys inserted and found'', Check ''All red-black tree properties satisfied''])"
proof -
  from put_all_repr [OF rb_new_ok, of names] obtain tree where
    t: "put_all names rb_new = Some tree" "rb_repr tree people" by (auto simp: people_names elim!: runsE)
  from print_tree_marks [OF t(2)] obtain p where p: "print_tree tree = Some p" "marks p = []" by (auto simp: people_def elim!: runsE)
  have "unat (rb_size tree) = 10" using t(2) by (auto simp: rb_repr_def rb_inv_def rb_size_def people_def)
  moreover have "set (map fst names) \<subseteq> fst ` set people" by (simp add: names_def people_def)
  moreover have "show_nat 10 = ''10''" by code_simp
  ultimately show ?thesis using t p
    by (simp add: rb_test1_def contains_all_repr [OF t(2)] rb_repr_valid [OF t(2)])
qed

lemma rb_test3_runs:
  assumes "rb_repr tree people"
  shows "runs (rb_test3 tree) (\<lambda>ls. marks ls = [Check ''Inorder traversal is sorted''])"
  proof -
  obtain t where "rb_inv tree t" "inorder t = people" using assms by (auto simp: rb_repr_def)
  then show ?thesis using rb_traversals [of tree t] sorted1_is_sorted [of people] by (simp add: rb_test3_def)
qed

lemma rb_test4_runs:
  assumes "rb_repr tree people"
  shows "runs (rb_test4 tree) (\<lambda>(ls, tree'). rb_repr tree' (del_list 15 people) \<and> marks ls =
    [Check ''Key 15 successfully deleted'', Check ''Red-black tree properties still satisfied after deletion''])"
proof -
  from rb_remove_ok [OF assms, of 15] obtain s' where
    s': "rb_remove 15 tree = Some (15 \<in> fst ` set people, s')" "rb_repr s' (del_list 15 people)" by blast
  have "(15 :: int) \<in> fst ` set people" "15 \<notin> fst ` set (del_list 15 people)" by (simp_all add: people_def)
  then show ?thesis using s' rb_repr_valid [OF s'(2)]
    by (simp add: rb_test4_def rb_contains_ok [OF assms] rb_contains_ok [OF s'(2)])
qed

lemma rb_test5_runs:
  assumes "rb_repr tree (del_list 15 people)"
  shows "runs (rb_test5 tree) (\<lambda>ls. marks ls = [Check ''Key 10 successfully updated''])"
proof -
  from rb_insert_ok [OF assms, of 10 "''Alice_Updated''"] obtain s' where
    s': "rb_insert 10 ''Alice_Updated'' tree = Some (10 \<notin> fst ` set (del_list 15 people), s')"
      "rb_repr s' (upd_list 10 ''Alice_Updated'' (del_list 15 people))" by blast
  have "(10 :: int) \<in> fst ` set (del_list 15 people)"
      "map_of (upd_list 10 ''Alice_Updated'' (del_list 15 people)) 10 = Some ''Alice_Updated''"
    by (simp_all add: people_def)
  then show ?thesis using s' by (simp add: rb_test5_def rb_find_ok [OF s'(2)])
qed

lemma rb_test6_runs: "runs rb_test6 (\<lambda>ls. marks ls =
    [Check ''Empty tree properties correct'', Check ''Non-existent key not found in empty tree''])"
proof -
  have "rb_contains 999 (rb_new :: (int, int) rbtree) = Some False" "rb_empty (rb_new :: (int, int) rbtree)"
    using rb_contains_ok [OF rb_new_ok] rb_repr_empty [OF rb_new_ok] by simp_all
  then show ?thesis by (simp add: rb_test6_def rb_size_def rb_empty_def)
qed

lemma sorted1_upto: "sorted1 (map (\<lambda>i. (i, f i)) [a..b])"
  by (simp add: comp_def)

lemma put_upto:
  "runs (put_all (map (\<lambda>i. (i, f i)) [a..b]) rb_new) (\<lambda>s. rb_repr s (map (\<lambda>i. (i, f i)) [a..b]))"
  using put_all_repr [OF rb_new_ok, of "map (\<lambda>i. (i, f i)) [a..b]"] put_ascending [of "[]" "map (\<lambda>i. (i, f i)) [a..b]"]
    sorted1_upto [of f a b] by simp

lemma rb_test7_runs: "runs rb_test7 (\<lambda>ls. marks ls = [Check ''All 1000 keys inserted and found'',
    Check ''Red-black tree properties satisfied for large tree'', Check ''Tree height is within theoretical bounds''])"
proof -
  from put_upto [of "\<lambda>i. i * 10" 0 999] obtain s where s: "put_all (map (\<lambda>i. (i, i * 10)) [0..999]) rb_new = Some s"
      "rb_repr s (map (\<lambda>i. (i, i * 10)) [0..999])" by (auto elim!: runsE)
  from rb_repr_height [OF s(2)] obtain h where h: "get_height s = Some (int h)" "int h \<le> 2 * int (ilog2 (1000 + 1))" by auto
  have "set [0..999] \<subseteq> fst ` set (map (\<lambda>i. (i, i * 10)) [0..999 :: int])" by force
  then show ?thesis using s(1) h rb_repr_valid [OF s(2)]
    by (simp add: rb_test7_def contains_all_repr [OF s(2)])
qed

lemma rb_test8_runs: "runs rb_test8 (\<lambda>ls. marks ls = [Check ''Red-black tree handles sorted insertion correctly''])"
proof -
  from put_upto [of "\<lambda>i. ''Value'' @ show_int i" 1 20] obtain s where
    s: "put_all (map (\<lambda>i. (i, ''Value'' @ show_int i)) [1..20]) rb_new = Some s"
      "rb_repr s (map (\<lambda>i. (i, ''Value'' @ show_int i)) [1..20])" by (auto elim!: runsE)
  from rb_repr_height [OF s(2)] obtain h where h: "get_height s = Some (int h)" by auto
  then show ?thesis using s(1) rb_repr_valid [OF s(2)] by (simp add: rb_test8_def)
qed

lemma rb_test9_runs: "runs rb_test9 (\<lambda>ls. marks ls = [Check ''All nodes successfully deleted, tree is empty''])"
proof -
  let ?ps = "map (\<lambda>i. (i, i)) [0..9 :: int]"
  from put_upto [of "\<lambda>i. i" 0 9] obtain s where s: "put_all ?ps rb_new = Some s" "rb_repr s ?ps" by (auto elim!: runsE)
  have "fold del_list [0..9] ?ps = []" by (simp add: upto_rec1)
  with remove_all_repr [OF s(2), of "[0..9]"] obtain s' where s': "remove_all [0..9] s = Some ([], s')" "rb_repr s' []"
    by (auto elim!: runsE)
  then show ?thesis using s(1) rb_repr_empty [OF s'(2)] by (simp add: rb_test9_def)
qed

text \<open>
  C7. The test program of the tree returns, prints all of its thirteen check marks, in this order, and no cross.
\<close>

theorem test_redblack_tree_passes:
  "runs test_redblack_tree (\<lambda>ls. marks ls =
    [Check ''All 10 keys inserted and found'', Check ''All red-black tree properties satisfied'',
     Check ''Inorder traversal is sorted'', Check ''Key 15 successfully deleted'',
     Check ''Red-black tree properties still satisfied after deletion'', Check ''Key 10 successfully updated'',
     Check ''Empty tree properties correct'', Check ''Non-existent key not found in empty tree'',
     Check ''All 1000 keys inserted and found'', Check ''Red-black tree properties satisfied for large tree'',
     Check ''Tree height is within theoretical bounds'', Check ''Red-black tree handles sorted insertion correctly'',
     Check ''All nodes successfully deleted, tree is empty''])"
proof -
  from rb_test1_runs obtain o1 t1 where 1: "rb_test1 = Some (o1, t1)" "rb_repr t1 people"
      "marks o1 = [Check ''All 10 keys inserted and found'', Check ''All red-black tree properties satisfied'']"
    by (auto elim!: runsE)
  from rb_test4_runs [OF 1(2)] obtain o4 t4 where 4: "rb_test4 t1 = Some (o4, t4)" "rb_repr t4 (del_list 15 people)"
      "marks o4 = [Check ''Key 15 successfully deleted'', Check ''Red-black tree properties still satisfied after deletion'']"
    by (auto elim!: runsE)
  from rb_test3_runs [OF 1(2)] rb_test5_runs [OF 4(2)] obtain o3 o5 where 35: "rb_test3 t1 = Some o3" "rb_test5 t4 = Some o5"
      "marks o3 = [Check ''Inorder traversal is sorted'']" "marks o5 = [Check ''Key 10 successfully updated'']"
    by (auto elim!: runsE)
  from rb_test6_runs rb_test7_runs obtain o6 o7 where 67: "rb_test6 = Some o6" "rb_test7 = Some o7"
      "marks o6 = [Check ''Empty tree properties correct'', Check ''Non-existent key not found in empty tree'']"
      "marks o7 = [Check ''All 1000 keys inserted and found'', Check ''Red-black tree properties satisfied for large tree'',
         Check ''Tree height is within theoretical bounds'']"
    by (blast elim: runsE)
  from rb_test8_runs rb_test9_runs obtain o8 o9 where "rb_test8 = Some o8" "rb_test9 = Some o9"
      "marks o8 = [Check ''Red-black tree handles sorted insertion correctly'']"
      "marks o9 = [Check ''All nodes successfully deleted, tree is empty'']"
    by (blast elim: runsE)
  note 89 = this
  show ?thesis by (simp add: test_redblack_tree_def 1 4 35 67 89)
qed

end
