(* ===== verification/Sentinel_Tree.thy ===== *)
theory Sentinel_Tree
  imports Heap_Tree
begin

text \<open>
  \<open>class RBTree<T>\<close> of \<open>Red_Black_Tree/RBTree.hpp\<close>: a red-black tree whose leaves are one shared
  sentinel node \<open>nil\<close>.

  The state is the object with the heap of its nodes. \<open>std::shared_ptr\<close> is an \<open>addr option\<close>, where
  \<open>None\<close> is \<open>nullptr\<close> and not the sentinel; \<open>std::weak_ptr::lock\<close> is \<open>lock\<close>. Dereferencing \<open>nullptr\<close>, as
  an access to the children of a child of the sentinel does, has no value, nor has a loop that
  never ends. Exceptions are values of \<open>rt_error\<close>. The output of the two traversals is the list of
  the keys, values and colours they write.
\<close>

section \<open>The object\<close>

record 'a rt =
  rt_root :: "addr option"
  rt_nil :: "addr option"
  rt_heap :: "('a, 'a) node_heap"
  rt_next :: addr

datatype rt_error = Key_not_found | Tree_is_empty

abbreviation node_at :: "addr option \<Rightarrow> 'a rt \<Rightarrow> ('a, 'a) node option" where
  "node_at p s \<equiv> load p (rt_heap s)"

definition upd_node :: "addr option \<Rightarrow> (('a, 'a) node \<Rightarrow> ('a, 'a) node) \<Rightarrow> 'a rt \<Rightarrow> 'a rt option" where
  "upd_node p f s = map_option (\<lambda>h. s\<lparr>rt_heap := h\<rparr>) (store p f (rt_heap s))"

definition paint_node :: "addr option \<Rightarrow> color \<Rightarrow> 'a rt \<Rightarrow> 'a rt option" where
  "paint_node p c s = upd_node p (\<lambda>n. n\<lparr>color := c\<rparr>) s"

text \<open>\<open>p->parent.lock()\<close> and \<open>p->color\<close>.\<close>

definition up :: "addr option \<Rightarrow> 'a rt \<Rightarrow> addr option option" where
  "up p s = do { n \<leftarrow> node_at p s; Some (lock (rt_heap s) (parent n)) }"

definition color_at :: "addr option \<Rightarrow> 'a rt \<Rightarrow> color option" where
  "color_at p s = do { n \<leftarrow> node_at p s; Some (color n) }"

text \<open>\<open>T()\<close> is the argument \<open>dflt\<close>.\<close>

definition createNil :: "'a \<Rightarrow> ('a, 'a) node" where
  "createNil dflt = \<lparr>key = dflt, val = dflt, color = BLACK, left = None, right = None, parent = None\<rparr>"

definition rt_new :: "'a \<Rightarrow> 'a rt" where
  "rt_new dflt = \<lparr>rt_root = Some 0, rt_nil = Some 0, rt_heap = [0 \<mapsto> createNil dflt], rt_next = 1\<rparr>"

section \<open>Rotations\<close>

text \<open>\<open>if (u->parent.lock() == nullptr) root = v; else if (u == u->parent.lock()->left) ...\<close>\<close>

definition relink :: "addr option \<Rightarrow> addr option \<Rightarrow> 'a rt \<Rightarrow> 'a rt option" where
  "relink u v s = do {
     p \<leftarrow> up u s;
     (if p = None then Some (s\<lparr>rt_root := v\<rparr>) else do {
        m \<leftarrow> node_at p s;
        (if u = left m then upd_node p (\<lambda>n. n\<lparr>left := v\<rparr>) s else upd_node p (\<lambda>n. n\<lparr>right := v\<rparr>) s) }) }"

definition leftRotate :: "addr option \<Rightarrow> 'a rt \<Rightarrow> 'a rt option" where
  "leftRotate x s = do {
     nx \<leftarrow> node_at x s;
     let y = right nx;
     ny \<leftarrow> node_at y s;
     s \<leftarrow> upd_node x (\<lambda>n. n\<lparr>right := left ny\<rparr>) s;
     s \<leftarrow> (if left ny \<noteq> rt_nil s then upd_node (left ny) (\<lambda>n. n\<lparr>parent := x\<rparr>) s else Some s);
     nx \<leftarrow> node_at x s;
     s \<leftarrow> upd_node y (\<lambda>n. n\<lparr>parent := parent nx\<rparr>) s;
     s \<leftarrow> relink x y s;
     s \<leftarrow> upd_node y (\<lambda>n. n\<lparr>left := x\<rparr>) s;
     upd_node x (\<lambda>n. n\<lparr>parent := y\<rparr>) s }"

definition rightRotate :: "addr option \<Rightarrow> 'a rt \<Rightarrow> 'a rt option" where
  "rightRotate y s = do {
     ny \<leftarrow> node_at y s;
     let x = left ny;
     nx \<leftarrow> node_at x s;
     s \<leftarrow> upd_node y (\<lambda>n. n\<lparr>left := right nx\<rparr>) s;
     s \<leftarrow> (if right nx \<noteq> rt_nil s then upd_node (right nx) (\<lambda>n. n\<lparr>parent := y\<rparr>) s else Some s);
     ny \<leftarrow> node_at y s;
     s \<leftarrow> upd_node x (\<lambda>n. n\<lparr>parent := parent ny\<rparr>) s;
     s \<leftarrow> relink y x s;
     s \<leftarrow> upd_node x (\<lambda>n. n\<lparr>right := y\<rparr>) s;
     upd_node y (\<lambda>n. n\<lparr>parent := x\<rparr>) s }"

section \<open>Insertion\<close>

text \<open>\<open>y != nil && y->color == Color::RED\<close>.\<close>

definition red_uncle :: "addr option \<Rightarrow> 'a rt \<Rightarrow> bool option" where
  "red_uncle y s = (if y \<noteq> rt_nil s then do { c \<leftarrow> color_at y s; Some (c = RED) } else Some False)"

text \<open>Case 1: parent and uncle black, grandparent red; \<open>z\<close> moves to the grandparent.\<close>

definition push_red :: "addr option \<Rightarrow> addr option \<Rightarrow> 'a rt \<Rightarrow> (addr option \<times> 'a rt) option" where
  "push_red z y s = do {
     p \<leftarrow> up z s;
     s \<leftarrow> paint_node p BLACK s;
     s \<leftarrow> paint_node y BLACK s;
     g \<leftarrow> up p s;
     s \<leftarrow> paint_node g RED s;
     Some (g, s) }"

text \<open>The last three statements of the other case, with the rotation that ends them.\<close>

definition split_red :: "(addr option \<Rightarrow> 'a rt \<Rightarrow> 'a rt option) \<Rightarrow> addr option \<Rightarrow> 'a rt \<Rightarrow> 'a rt option" where
  "split_red rot z s = do {
     p \<leftarrow> up z s;
     s \<leftarrow> paint_node p BLACK s;
     g \<leftarrow> up p s;
     s \<leftarrow> paint_node g RED s;
     rot g s }"

definition insertFixup_left :: "addr option \<Rightarrow> addr option \<Rightarrow> 'a rt \<Rightarrow> (addr option \<times> 'a rt) option" where
  "insertFixup_left z g s = do {
     ng \<leftarrow> node_at g s;
     let y = right ng;
     red \<leftarrow> red_uncle y s;
     (if red then push_red z y s else do {
        p \<leftarrow> up z s;
        np \<leftarrow> node_at p s;
        (z, s) \<leftarrow> (if z = right np then do { s \<leftarrow> leftRotate p s; Some (p, s) } else Some (z, s));
        s \<leftarrow> split_red rightRotate z s;
        Some (z, s) }) }"

definition insertFixup_right :: "addr option \<Rightarrow> addr option \<Rightarrow> 'a rt \<Rightarrow> (addr option \<times> 'a rt) option" where
  "insertFixup_right z g s = do {
     ng \<leftarrow> node_at g s;
     let y = left ng;
     red \<leftarrow> red_uncle y s;
     (if red then push_red z y s else do {
        p \<leftarrow> up z s;
        np \<leftarrow> node_at p s;
        (z, s) \<leftarrow> (if z = left np then do { s \<leftarrow> rightRotate p s; Some (p, s) } else Some (z, s));
        s \<leftarrow> split_red leftRotate z s;
        Some (z, s) }) }"

definition insertFixup_body :: "addr option \<Rightarrow> 'a rt \<Rightarrow> (addr option \<times> 'a rt) option" where
  "insertFixup_body z s = do {
     p \<leftarrow> up z s;
     g \<leftarrow> up p s;
     ng \<leftarrow> node_at g s;
     (if p = left ng then insertFixup_left z g s else insertFixup_right z g s) }"

partial_function (option) insertFixup_loop :: "addr option \<Rightarrow> 'a rt \<Rightarrow> 'a rt option" where
  "insertFixup_loop z s = do {
     p \<leftarrow> up z s;
     red \<leftarrow> (if p \<noteq> None then do { c \<leftarrow> color_at p s; Some (c = RED) } else Some False);
     (if red then do {
        (z', s') \<leftarrow> insertFixup_body z s;
        (if z' = rt_root s' then Some s' else insertFixup_loop z' s') }
      else Some s) }"

definition insertFixup :: "addr option \<Rightarrow> 'a rt \<Rightarrow> 'a rt option" where
  "insertFixup z s = do {
     s \<leftarrow> insertFixup_loop z s;
     paint_node (rt_root s) BLACK s }"

partial_function (option) searchNode_from :: "'a::linorder \<Rightarrow> addr option \<Rightarrow> 'a rt \<Rightarrow> addr option option" where
  "searchNode_from k current s =
     (if current \<noteq> rt_nil s then do {
        n \<leftarrow> node_at current s;
        (if k = key n then Some current
         else if k < key n then searchNode_from k (left n) s
         else searchNode_from k (right n) s) }
      else Some None)"

definition searchNode :: "'a::linorder \<Rightarrow> 'a rt \<Rightarrow> addr option option" where
  "searchNode k s = searchNode_from k (rt_root s) s"

text \<open>The descent of \<open>insert\<close> (lines 203 to 212): \<open>None\<close> is the \<open>return\<close> on an existing key, \<open>Some y\<close> the
  node to insert below, \<open>nullptr\<close> for an empty tree.\<close>

partial_function (option) descend :: "'a::linorder \<Rightarrow> addr option \<Rightarrow> addr option \<Rightarrow> 'a rt \<Rightarrow>
    addr option option option" where
  "descend k x y s =
     (if x \<noteq> rt_nil s then do {
        n \<leftarrow> node_at x s;
        (if k < key n then descend k (left n) x s
         else if k > key n then descend k (right n) x s
         else Some None) }
      else Some (Some y))"

text \<open>Linking the new node \<open>z\<close> below \<open>y\<close> (lines 214 to 224).\<close>

definition link :: "'a::linorder \<Rightarrow> addr option \<Rightarrow> addr option \<Rightarrow> 'a rt \<Rightarrow> 'a rt option" where
  "link k z y s = do {
     s \<leftarrow> upd_node z (\<lambda>n. n\<lparr>parent := y\<rparr>) s;
     s \<leftarrow> (if y = None then Some (s\<lparr>rt_root := z\<rparr>) else do {
            ny \<leftarrow> node_at y s;
            (if k < key ny then upd_node y (\<lambda>n. n\<lparr>left := z\<rparr>) s else upd_node y (\<lambda>n. n\<lparr>right := z\<rparr>) s) });
     upd_node z (\<lambda>n. n\<lparr>left := rt_nil s, right := rt_nil s\<rparr>) s }"

definition rt_insert :: "'a::linorder \<Rightarrow> 'a \<Rightarrow> 'a rt \<Rightarrow> 'a rt option" where
  "rt_insert k v s = do {
     existing \<leftarrow> searchNode k s;
     (if existing \<noteq> None \<and> existing \<noteq> rt_nil s then Some s else do {
        pos \<leftarrow> descend k (rt_root s) None s;
        (case pos of None \<Rightarrow> Some s
         | Some y \<Rightarrow> do {
             let z = Some (rt_next s);
             let s = s\<lparr>rt_heap := (rt_heap s)(rt_next s \<mapsto> \<lparr>key = k, val = v, color = RED, left = rt_nil s,
               right = rt_nil s, parent = None\<rparr>), rt_next := Suc (rt_next s)\<rparr>;
             s \<leftarrow> link k z y s;
             p \<leftarrow> up z s;
             (if p = None then paint_node z BLACK s else do {
                g \<leftarrow> up p s;
                (if g = None then Some s else insertFixup z s) }) }) }) }"

section \<open>Lookup\<close>

partial_function (option) rt_minimum :: "addr option \<Rightarrow> 'a rt \<Rightarrow> addr option option" where
  "rt_minimum node s = do {
     n \<leftarrow> node_at node s;
     (if left n \<noteq> rt_nil s then rt_minimum (left n) s else Some node) }"

partial_function (option) rt_maximum :: "addr option \<Rightarrow> 'a rt \<Rightarrow> addr option option" where
  "rt_maximum node s = do {
     n \<leftarrow> node_at node s;
     (if right n \<noteq> rt_nil s then rt_maximum (right n) s else Some node) }"

definition rt_get :: "'a::linorder \<Rightarrow> 'a rt \<Rightarrow> (rt_error + 'a) option" where
  "rt_get k s = do {
     node \<leftarrow> searchNode k s;
     (if node = None then Some (Inl Key_not_found) else do { n \<leftarrow> node_at node s; Some (Inr (val n)) }) }"

definition rt_modify :: "'a::linorder \<Rightarrow> 'a \<Rightarrow> 'a rt \<Rightarrow> 'a rt option" where
  "rt_modify k v s = do {
     node \<leftarrow> searchNode k s;
     (if node \<noteq> None then upd_node node (\<lambda>n. n\<lparr>val := v\<rparr>) s else Some s) }"

definition rt_min :: "'a rt \<Rightarrow> (rt_error + 'a) option" where
  "rt_min s = (if rt_root s = rt_nil s then Some (Inl Tree_is_empty) else do {
     p \<leftarrow> rt_minimum (rt_root s) s;
     n \<leftarrow> node_at p s;
     Some (Inr (key n)) })"

definition rt_max :: "'a rt \<Rightarrow> (rt_error + 'a) option" where
  "rt_max s = (if rt_root s = rt_nil s then Some (Inl Tree_is_empty) else do {
     p \<leftarrow> rt_maximum (rt_root s) s;
     n \<leftarrow> node_at p s;
     Some (Inr (key n)) })"

definition rt_empty :: "'a rt \<Rightarrow> bool" where
  "rt_empty s \<longleftrightarrow> rt_root s = rt_nil s"

section \<open>Deletion\<close>

definition rt_transplant :: "addr option \<Rightarrow> addr option \<Rightarrow> 'a rt \<Rightarrow> 'a rt option" where
  "rt_transplant u v s = do {
     s \<leftarrow> relink u v s;
     (if v \<noteq> None then do {
        nu \<leftarrow> node_at u s;
        upd_node v (\<lambda>n. n\<lparr>parent := parent nu\<rparr>) s }
      else Some s) }"

text \<open>The loop body of \<open>deleteFixup\<close>, each half in three parts: the red sibling (case 1), the cases of a
  black sibling (2 and 3) and case 4. The results are the sibling \<open>w\<close>, then the new \<open>x\<close>.\<close>

definition deleteFixup_left_sibling :: "addr option \<Rightarrow> 'a rt \<Rightarrow> (addr option \<times> 'a rt) option" where
  "deleteFixup_left_sibling x s = do {
     p \<leftarrow> up x s;
     np \<leftarrow> node_at p s;
     let w = right np;
     c \<leftarrow> color_at w s;
     (if c = RED then do {
        s \<leftarrow> paint_node w BLACK s;
        p \<leftarrow> up x s;
        s \<leftarrow> paint_node p RED s;
        s \<leftarrow> leftRotate p s;
        p \<leftarrow> up x s;
        np \<leftarrow> node_at p s;
        Some (right np, s) }
      else Some (w, s)) }"

definition deleteFixup_left_last :: "addr option \<Rightarrow> addr option \<Rightarrow> 'a rt \<Rightarrow> (addr option \<times> 'a rt) option" where
  "deleteFixup_left_last x w s = do {
     p \<leftarrow> up x s;
     c \<leftarrow> color_at p s;
     s \<leftarrow> paint_node w c s;
     s \<leftarrow> paint_node p BLACK s;
     nw \<leftarrow> node_at w s;
     s \<leftarrow> paint_node (right nw) BLACK s;
     s \<leftarrow> leftRotate p s;
     Some (rt_root s, s) }"

definition deleteFixup_left_tail :: "addr option \<Rightarrow> addr option \<Rightarrow> 'a rt \<Rightarrow> (addr option \<times> 'a rt) option" where
  "deleteFixup_left_tail x w s = do {
     nw \<leftarrow> node_at w s;
     cl \<leftarrow> color_at (left nw) s;
     cr \<leftarrow> color_at (right nw) s;
     (if cl = BLACK \<and> cr = BLACK then do {
        s \<leftarrow> paint_node w RED s;
        p \<leftarrow> up x s;
        Some (p, s) }
      else do {
        (w, s) \<leftarrow> (if cr = BLACK then do {
            s \<leftarrow> paint_node (left nw) BLACK s;
            s \<leftarrow> paint_node w RED s;
            s \<leftarrow> rightRotate w s;
            p \<leftarrow> up x s;
            np \<leftarrow> node_at p s;
            Some (right np, s) }
          else Some (w, s));
        deleteFixup_left_last x w s }) }"

definition deleteFixup_right_sibling :: "addr option \<Rightarrow> 'a rt \<Rightarrow> (addr option \<times> 'a rt) option" where
  "deleteFixup_right_sibling x s = do {
     p \<leftarrow> up x s;
     np \<leftarrow> node_at p s;
     let w = left np;
     c \<leftarrow> color_at w s;
     (if c = RED then do {
        s \<leftarrow> paint_node w BLACK s;
        p \<leftarrow> up x s;
        s \<leftarrow> paint_node p RED s;
        s \<leftarrow> rightRotate p s;
        p \<leftarrow> up x s;
        np \<leftarrow> node_at p s;
        Some (left np, s) }
      else Some (w, s)) }"

definition deleteFixup_right_last :: "addr option \<Rightarrow> addr option \<Rightarrow> 'a rt \<Rightarrow> (addr option \<times> 'a rt) option" where
  "deleteFixup_right_last x w s = do {
     p \<leftarrow> up x s;
     c \<leftarrow> color_at p s;
     s \<leftarrow> paint_node w c s;
     s \<leftarrow> paint_node p BLACK s;
     nw \<leftarrow> node_at w s;
     s \<leftarrow> paint_node (left nw) BLACK s;
     s \<leftarrow> rightRotate p s;
     Some (rt_root s, s) }"

definition deleteFixup_right_tail :: "addr option \<Rightarrow> addr option \<Rightarrow> 'a rt \<Rightarrow> (addr option \<times> 'a rt) option" where
  "deleteFixup_right_tail x w s = do {
     nw \<leftarrow> node_at w s;
     cr \<leftarrow> color_at (right nw) s;
     cl \<leftarrow> color_at (left nw) s;
     (if cr = BLACK \<and> cl = BLACK then do {
        s \<leftarrow> paint_node w RED s;
        p \<leftarrow> up x s;
        Some (p, s) }
      else do {
        (w, s) \<leftarrow> (if cl = BLACK then do {
            s \<leftarrow> paint_node (right nw) BLACK s;
            s \<leftarrow> paint_node w RED s;
            s \<leftarrow> leftRotate w s;
            p \<leftarrow> up x s;
            np \<leftarrow> node_at p s;
            Some (left np, s) }
          else Some (w, s));
        deleteFixup_right_last x w s }) }"

definition deleteFixup_body :: "addr option \<Rightarrow> 'a rt \<Rightarrow> (addr option \<times> 'a rt) option" where
  "deleteFixup_body x s = do {
     p \<leftarrow> up x s;
     np \<leftarrow> node_at p s;
     (if x = left np then do {
        (w, s) \<leftarrow> deleteFixup_left_sibling x s;
        deleteFixup_left_tail x w s }
      else do {
        (w, s) \<leftarrow> deleteFixup_right_sibling x s;
        deleteFixup_right_tail x w s }) }"

partial_function (option) deleteFixup_loop :: "addr option \<Rightarrow> 'a rt \<Rightarrow> (addr option \<times> 'a rt) option" where
  "deleteFixup_loop x s =
     (if x = rt_root s then Some (x, s) else do {
        c \<leftarrow> color_at x s;
        (if c = BLACK then do {
           (x', s') \<leftarrow> deleteFixup_body x s;
           deleteFixup_loop x' s' }
         else Some (x, s)) })"

definition deleteFixup :: "addr option \<Rightarrow> 'a rt \<Rightarrow> 'a rt option" where
  "deleteFixup x s = do {
     (x, s) \<leftarrow> deleteFixup_loop x s;
     paint_node x BLACK s }"

text \<open>The two parts of the case of two children (lines 398 to 413).\<close>

definition lift_successor :: "addr option \<Rightarrow> addr option \<Rightarrow> addr option \<Rightarrow> 'a rt \<Rightarrow> 'a rt option" where
  "lift_successor z y x s = do {
     p \<leftarrow> up y s;
     (if p = z then upd_node x (\<lambda>n. n\<lparr>parent := y\<rparr>) s
      else do {
        ny \<leftarrow> node_at y s;
        s \<leftarrow> rt_transplant y (right ny) s;
        nz \<leftarrow> node_at z s;
        s \<leftarrow> upd_node y (\<lambda>n. n\<lparr>right := right nz\<rparr>) s;
        upd_node (right nz) (\<lambda>n. n\<lparr>parent := y\<rparr>) s }) }"

definition take_over :: "addr option \<Rightarrow> addr option \<Rightarrow> 'a rt \<Rightarrow> 'a rt option" where
  "take_over z y s = do {
     s \<leftarrow> rt_transplant z y s;
     nz \<leftarrow> node_at z s;
     s \<leftarrow> upd_node y (\<lambda>n. n\<lparr>left := left nz\<rparr>) s;
     s \<leftarrow> upd_node (left nz) (\<lambda>n. n\<lparr>parent := y\<rparr>) s;
     nz \<leftarrow> node_at z s;
     paint_node y (color nz) s }"

definition cut :: "addr option \<Rightarrow> 'a rt \<Rightarrow> (color \<times> addr option \<times> 'a rt) option" where
  "cut z s = do {
     nz \<leftarrow> node_at z s;
     (if left nz = rt_nil s then do {
        s \<leftarrow> rt_transplant z (right nz) s;
        Some (color nz, right nz, s) }
      else if right nz = rt_nil s then do {
        s \<leftarrow> rt_transplant z (left nz) s;
        Some (color nz, left nz, s) }
      else do {
        y \<leftarrow> rt_minimum (right nz) s;
        ny \<leftarrow> node_at y s;
        let x = right ny;
        s \<leftarrow> lift_successor z y x s;
        s \<leftarrow> take_over z y s;
        Some (color ny, x, s) }) }"

text \<open>\<open>z\<close> is the last owner of the removed node, which is destroyed when \<open>remove\<close> returns.\<close>

definition rt_remove :: "'a::linorder \<Rightarrow> 'a rt \<Rightarrow> 'a rt option" where
  "rt_remove k s = do {
     z \<leftarrow> searchNode k s;
     (case z of None \<Rightarrow> Some s
      | Some a \<Rightarrow> (if z = rt_nil s then Some s else do {
          (y_original_color, x, s) \<leftarrow> cut z s;
          s \<leftarrow> (if y_original_color = BLACK then deleteFixup x s else Some s);
          s \<leftarrow> upd_node (rt_nil s) (\<lambda>n. n\<lparr>parent := None\<rparr>) s;
          Some (s\<lparr>rt_heap := (rt_heap s)(a := None)\<rparr>) })) }"

section \<open>Clearing, traversals and the validator\<close>

text \<open>\<open>clear\<close> walks over the subtree and changes nothing; \<open>cleanTree\<close> then drops the root, which
  destroys every node but the sentinel.\<close>

partial_function (option) clear_walk :: "addr option \<Rightarrow> 'a rt \<Rightarrow> unit option" where
  "clear_walk node s =
     (if node \<noteq> rt_nil s then do {
        n \<leftarrow> node_at node s;
        u \<leftarrow> clear_walk (left n) s;
        clear_walk (right n) s }
      else Some ())"

definition cleanTree :: "'a rt \<Rightarrow> 'a rt option" where
  "cleanTree s = do {
     u \<leftarrow> clear_walk (rt_root s) s;
     Some (s\<lparr>rt_root := rt_nil s, rt_heap := rt_heap s |` {a. rt_nil s = Some a}\<rparr>) }"

text \<open>The inner loop of \<open>inOrder\<close> pushes the left spine; the outer one pops and visits.\<close>

partial_function (option) push_spine :: "addr option \<Rightarrow> addr option list \<Rightarrow> 'a rt \<Rightarrow> addr option list option" where
  "push_spine current st s =
     (if current \<noteq> rt_nil s then do {
        n \<leftarrow> node_at current s;
        push_spine (left n) (current # st) s }
      else Some st)"

partial_function (option) inOrder_loop :: "addr option \<Rightarrow> addr option list \<Rightarrow> ('a \<times> 'a \<times> color) list \<Rightarrow> 'a rt \<Rightarrow>
    ('a \<times> 'a \<times> color) list option" where
  "inOrder_loop current st out s =
     (if current \<noteq> rt_nil s \<or> st \<noteq> [] then do {
        st \<leftarrow> push_spine current st s;
        (case st of [] \<Rightarrow> None
         | c # st \<Rightarrow> do {
             n \<leftarrow> node_at c s;
             inOrder_loop (right n) st (out @ [(key n, val n, color n)]) s }) }
      else Some out)"

definition inOrder :: "'a rt \<Rightarrow> ('a \<times> 'a \<times> color) list option" where
  "inOrder s = inOrder_loop (rt_root s) [] [] s"

fun levelOrder_for :: "nat \<Rightarrow> addr option list \<Rightarrow> ('a \<times> 'a \<times> color) list \<Rightarrow> 'a rt \<Rightarrow>
    (addr option list \<times> ('a \<times> 'a \<times> color) list) option" where
  "levelOrder_for 0 q out s = Some (q, out)"
| "levelOrder_for (Suc i) [] out s = None"
| "levelOrder_for (Suc i) (node # q) out s =
     (if node \<noteq> rt_nil s then do {
        n \<leftarrow> node_at node s;
        let q = (if left n \<noteq> rt_nil s then q @ [left n] else q);
        let q = (if right n \<noteq> rt_nil s then q @ [right n] else q);
        levelOrder_for i q (out @ [(key n, val n, color n)]) s }
      else levelOrder_for i q out s)"

partial_function (option) levelOrder_while :: "addr option list \<Rightarrow> ('a \<times> 'a \<times> color) list list \<Rightarrow> 'a rt \<Rightarrow>
    ('a \<times> 'a \<times> color) list list option" where
  "levelOrder_while q out s =
     (if q = [] then Some out else do {
        (q', line) \<leftarrow> levelOrder_for (nat (int_of_size (length q))) q [] s;
        levelOrder_while q' (out @ [line]) s })"

definition levelOrder :: "'a rt \<Rightarrow> ('a \<times> 'a \<times> color) list list option" where
  "levelOrder s = (if rt_root s = rt_nil s then Some [] else levelOrder_while [rt_root s] [] s)"

partial_function (option) checkRedProperty :: "addr option \<Rightarrow> 'a rt \<Rightarrow> bool option" where
  "checkRedProperty node s =
     (if node = rt_nil s then Some True else do {
        n \<leftarrow> node_at node s;
        bad \<leftarrow> (if color n = RED then do {
                 cl \<leftarrow> color_at (left n) s;
                 (if cl = RED then Some True else do { cr \<leftarrow> color_at (right n) s; Some (cr = RED) }) }
               else Some False);
        (if bad then Some False else do {
           l \<leftarrow> checkRedProperty (left n) s;
           (if l then checkRedProperty (right n) s else Some False) }) })"

text \<open>The result is \<open>leafBlackCounts\<close>; the returned count is not used.\<close>

partial_function (option) checkBlackHeight :: "addr option \<Rightarrow> int \<Rightarrow> int list \<Rightarrow> 'a rt \<Rightarrow> int list option" where
  "checkBlackHeight node blackCount leafBlackCounts s =
     (if node = rt_nil s then Some (leafBlackCounts @ [blackCount]) else do {
        n \<leftarrow> node_at node s;
        let blackCount = (if color n = BLACK then blackCount + 1 else blackCount);
        leafBlackCounts \<leftarrow> checkBlackHeight (left n) blackCount leafBlackCounts s;
        checkBlackHeight (right n) blackCount leafBlackCounts s })"

definition verifyRBProperties :: "'a rt \<Rightarrow> bool option" where
  "verifyRBProperties s =
     (if rt_root s = rt_nil s then Some True else do {
        c \<leftarrow> color_at (rt_root s) s;
        (if c \<noteq> BLACK then Some False else do {
           ok \<leftarrow> checkRedProperty (rt_root s) s;
           (if \<not> ok then Some False else do {
              counts \<leftarrow> checkBlackHeight (rt_root s) 0 [] s;
              (case counts of [] \<Rightarrow> None
               | first # rest \<Rightarrow> Some (list_all (\<lambda>c. c = first) rest)) }) }) })"

partial_function (option) getHeight :: "addr option \<Rightarrow> 'a rt \<Rightarrow> int option" where
  "getHeight node s =
     (if node = rt_nil s then Some 0 else do {
        n \<leftarrow> node_at node s;
        l \<leftarrow> getHeight (left n) s;
        r \<leftarrow> getHeight (right n) s;
        Some (1 + max l r) })"

definition rt_height :: "'a rt \<Rightarrow> int option" where
  "rt_height s = getHeight (rt_root s) s"

declare
  insertFixup_loop.simps [code] and searchNode_from.simps [code] and descend.simps [code] and
  rt_minimum.simps [code] and rt_maximum.simps [code] and deleteFixup_loop.simps [code] and
  clear_walk.simps [code] and push_spine.simps [code] and inOrder_loop.simps [code] and
  levelOrder_while.simps [code] and checkRedProperty.simps [code] and checkBlackHeight.simps [code] and
  getHeight.simps [code]

end
