(* ===== verification/Sentinel_Proofs.thy ===== *)
theory Sentinel_Proofs
  imports Sentinel_Tree Tree_Repair Ordered_Map
begin

text \<open>
  Correctness of \<open>RBTree<T>\<close>: the rotations and the two repair loops at a focus of the tree, where the
  leaves are the sentinel. The sentinel is black and keeps its null children; its parent link is
  scratch space that \<open>remove\<close> sets for the repair loop and clears at the end.
\<close>

section \<open>Objects and trees\<close>

definition sentinel :: "addr \<Rightarrow> 'a rt \<Rightarrow> bool" where
  "sentinel z s \<longleftrightarrow> rt_nil s = Some z \<and>
     (\<exists>n. rt_heap s z = Some n \<and> color n = BLACK \<and> left n = None \<and> right n = None)"

definition shape :: "addr \<Rightarrow> 'a rt \<Rightarrow> ('a, 'a) tree \<Rightarrow> ('a, 'a) ctx \<Rightarrow> bool" where
  "shape z s t cs \<longleftrightarrow> sentinel z s \<and> focus (Some z) (rt_heap s) (rt_root s) t cs"

text \<open>What the repair loops leave alone: the allocator, the live nodes and the sentinel.\<close>

definition keeps :: "addr \<Rightarrow> 'a rt \<Rightarrow> 'a rt \<Rightarrow> bool" where
  "keeps z s s' \<longleftrightarrow> rt_nil s' = rt_nil s \<and> rt_next s' = rt_next s \<and> dom (rt_heap s') = dom (rt_heap s) \<and>
     rt_heap s' z = rt_heap s z"

lemma keeps_refl [simp]: "keeps z s s"
  by (simp add: keeps_def)

lemma keeps_trans [trans]: "keeps z s t \<Longrightarrow> keeps z t u \<Longrightarrow> keeps z s u"
  by (simp add: keeps_def)

lemma ptr_notin_sym [simp]: "a \<notin> set (addrs t) \<Longrightarrow> np \<noteq> Some a \<Longrightarrow> Some a \<noteq> ptr np t"
  by (cases t) auto

lemma shape_left: "shape z s (Node a l c k v r) cs \<longleftrightarrow> shape z s l (FrameL a c k v r # cs)"
  by (simp add: shape_def focus_left)

lemma shape_right: "shape z s (Node a l c k v r) cs \<longleftrightarrow> shape z s r (FrameR a l c k v # cs)"
  by (simp add: shape_def focus_right)

lemmas shape_up = shape_left [symmetric] shape_right [symmetric]

lemma shape_plug: "shape z s t cs \<longleftrightarrow> shape z s (plug t cs) []"
  by (simp add: shape_def focus_plug [symmetric])

lemma shape_append: "shape z s t (cs @ ds) \<longleftrightarrow> shape z s (plug t cs) ds"
  by (simp add: shape_def focus_append)

lemma shape_node:
  "shape z s (Node a l c k v r) cs \<Longrightarrow>
   rt_heap s a = Some \<lparr>key = k, val = v, color = c, left = ptr (Some z) l, right = ptr (Some z) r, parent = par cs\<rparr>"
  by (auto simp: shape_def dest: focus_node)

lemma shape_nil: "shape z s t cs \<Longrightarrow> rt_nil s = Some z"
  by (simp add: shape_def sentinel_def)

lemma shape_ne_nil: "shape z s (Node a l c k v r) cs \<Longrightarrow> a \<noteq> z"
  by (auto simp: shape_def focus_def)

lemma ptr_nil: "shape z s t cs \<Longrightarrow> ptr (Some z) t = Some z \<longleftrightarrow> t = Leaf"
  by (cases t) (auto simp: shape_def focus_def)

lemma shape_root: "shape z s t [] \<Longrightarrow> rt_root s = ptr (Some z) t"
  by (simp add: shape_def focus_def)

section \<open>Pointer operations at the focus\<close>

lemma par_lock: "shape z s t cs \<Longrightarrow> lock (rt_heap s) (par cs) = par cs"
  by (cases cs rule: par.cases) (auto simp: shape_def focus_def)

lemma up_node: "shape z s (Node a l c k v r) cs \<Longrightarrow> up (Some a) s = Some (par cs)"
  using shape_node par_lock by (fastforce simp: up_def)

lemma color_at_ptr: "shape z s t cs \<Longrightarrow> color_at (ptr (Some z) t) s = Some (tree_color t)"
  by (cases t) (auto simp: shape_def focus_def sentinel_def color_at_def)

lemma leftRotate_shape:
  assumes "shape z s (Node x a cx kx vx (Node y b cy ky vy c)) cs"
  shows "runs (leftRotate (Some x) s) (\<lambda>s'. shape z s' (Node y (Node x a cx kx vx b) cy ky vy c) cs \<and> keeps z s s')"
  using assms
  by (cases b; cases cs rule: par.cases)
    (auto simp: shape_def sentinel_def focus_def leftRotate_def relink_def up_def upd_node_def Let_def keeps_def)

lemma rightRotate_shape:
  assumes "shape z s (Node y (Node x a cx kx vx b) cy ky vy c) cs"
  shows "runs (rightRotate (Some y) s) (\<lambda>s'. shape z s' (Node x a cx kx vx (Node y b cy ky vy c)) cs \<and> keeps z s s')"
  using assms
  by (cases b; cases cs rule: par.cases)
    (auto simp: shape_def sentinel_def focus_def rightRotate_def relink_def up_def upd_node_def Let_def keeps_def)

lemma paint_node_shape:
  assumes "shape z s (Node a l c k v r) cs"
  shows "runs (paint_node (Some a) c' s) (\<lambda>s'. shape z s' (Node a l c' k v r) cs \<and> keeps z s s')"
  using assms by (auto simp: shape_def sentinel_def focus_def paint_node_def upd_node_def keeps_def)

lemma paint_BLACK_shape:
  assumes "shape z s t cs"
  shows "runs (paint_node (ptr (Some z) t) BLACK s) (\<lambda>s'. shape z s' (paint BLACK t) cs \<and> keeps z s s')"
proof (cases t)
  case Leaf
  from assms obtain n where "rt_heap s z = Some n" "color n = BLACK" by (auto simp: shape_def sentinel_def)
  moreover from this have "n\<lparr>color := BLACK\<rparr> = n" by simp
  ultimately show ?thesis using assms Leaf by (simp add: paint_node_def upd_node_def fun_upd_idem)
next
  case (Node a l c k v r)
  then show ?thesis using paint_node_shape assms by simp
qed

section \<open>Repair after insertion\<close>

lemma red_uncle_ptr: "shape z s t cs \<Longrightarrow> red_uncle (ptr (Some z) t) s = Some (tree_color t = RED)"
  using color_at_ptr [of z s t cs] ptr_nil [of z s t cs] shape_nil [of z s t cs]
  by (cases t) (auto simp: red_uncle_def)

lemma uncle_FrameL:
  assumes "shape z s (Node p pl c kp vp pr) (FrameL g cg kg vg u # cs)"
  shows "\<exists>n. rt_heap s g = Some n \<and> left n = Some p \<and> right n = ptr (Some z) u"
    and "red_uncle (ptr (Some z) u) s = Some (tree_color u = RED)"
proof -
  have g: "shape z s (Node g (Node p pl c kp vp pr) cg kg vg u) cs" using assms by (simp add: shape_up)
  then show "\<exists>n. rt_heap s g = Some n \<and> left n = Some p \<and> right n = ptr (Some z) u" using shape_node [OF g] by simp
  from g show "red_uncle (ptr (Some z) u) s = Some (tree_color u = RED)" by (simp add: shape_right red_uncle_ptr)
qed

lemma uncle_FrameR:
  assumes "shape z s (Node p pl c kp vp pr) (FrameR g u cg kg vg # cs)"
  shows "\<exists>n. rt_heap s g = Some n \<and> left n = ptr (Some z) u \<and> right n = Some p"
    and "red_uncle (ptr (Some z) u) s = Some (tree_color u = RED)"
proof -
  have g: "shape z s (Node g u cg kg vg (Node p pl c kp vp pr)) cs" using assms by (simp add: shape_up)
  then show "\<exists>n. rt_heap s g = Some n \<and> left n = ptr (Some z) u \<and> right n = Some p" using shape_node [OF g] by simp
  from g show "red_uncle (ptr (Some z) u) s = Some (tree_color u = RED)" by (simp add: shape_left red_uncle_ptr)
qed

lemma push_red_left:
  assumes "shape z s (Node p pl RED kp vp pr) (FrameL g BLACK kg vg (Node w ul RED ku vu ur) # cs)"
    and "up x s = Some (Some p)"
  shows "runs (push_red x (Some w) s) (\<lambda>(n, s'). n = Some g \<and> keeps z s s' \<and>
    shape z s' (Node g (Node p pl BLACK kp vp pr) RED kg vg (Node w ul BLACK ku vu ur)) cs)"
  using assms
  by (auto simp: shape_def sentinel_def focus_def push_red_def paint_node_def upd_node_def keeps_def
      up_def [of "Some p"])

lemma push_red_right:
  assumes "shape z s (Node p pl RED kp vp pr) (FrameR g (Node w ul RED ku vu ur) BLACK kg vg # cs)"
    and "up x s = Some (Some p)"
  shows "runs (push_red x (Some w) s) (\<lambda>(n, s'). n = Some g \<and> keeps z s s' \<and>
    shape z s' (Node g (Node w ul BLACK ku vu ur) RED kg vg (Node p pl BLACK kp vp pr)) cs)"
  using assms
  by (auto simp: shape_def sentinel_def focus_def push_red_def paint_node_def upd_node_def keeps_def
      up_def [of "Some p"])

lemma split_red_right:
  assumes "shape z s (Node g (Node p a RED kp vp b) BLACK kg vg u) cs" and "up x s = Some (Some p)"
  shows "runs (split_red rightRotate x s)
    (\<lambda>s'. shape z s' (Node p a BLACK kp vp (Node g b RED kg vg u)) cs \<and> keeps z s s')"
proof -
  obtain s1 where s1: "paint_node (Some p) BLACK s = Some s1" "keeps z s s1"
    "shape z s1 (Node p a BLACK kp vp b) (FrameL g BLACK kg vg u # cs)"
    using paint_node_shape [of z s p a RED kp vp b "FrameL g BLACK kg vg u # cs" BLACK] assms(1)
    by (auto elim: runsE simp: shape_left)
  obtain s2 where s2: "paint_node (Some g) RED s1 = Some s2" "keeps z s1 s2"
    "shape z s2 (Node g (Node p a BLACK kp vp b) RED kg vg u) cs"
    using paint_node_shape [OF s1(3) [folded shape_left]] by (auto elim: runsE)
  show ?thesis
    using s1(1,2) s2(1,2) rightRotate_shape [OF s2(3)] up_node [OF s1(3)] assms(2)
    by (auto simp: split_red_def keeps_def elim!: runs_mono)
qed

lemma split_red_left:
  assumes "shape z s (Node g u BLACK kg vg (Node p a RED kp vp b)) cs" and "up x s = Some (Some p)"
  shows "runs (split_red leftRotate x s)
    (\<lambda>s'. shape z s' (Node p (Node g u RED kg vg a) BLACK kp vp b) cs \<and> keeps z s s')"
proof -
  obtain s1 where s1: "paint_node (Some p) BLACK s = Some s1" "keeps z s s1"
    "shape z s1 (Node p a BLACK kp vp b) (FrameR g u BLACK kg vg # cs)"
    using paint_node_shape [of z s p a RED kp vp b "FrameR g u BLACK kg vg # cs" BLACK] assms(1)
    by (auto elim: runsE simp: shape_right)
  obtain s2 where s2: "paint_node (Some g) RED s1 = Some s2" "keeps z s1 s2"
    "shape z s2 (Node g u RED kg vg (Node p a BLACK kp vp b)) cs"
    using paint_node_shape [OF s1(3) [folded shape_right]] by (auto elim: runsE)
  show ?thesis
    using s1(1,2) s2(1,2) leftRotate_shape [OF s2(3)] up_node [OF s1(3)] assms(2)
    by (auto simp: split_red_def keeps_def elim!: runs_mono)
qed

lemma insertFixup_left_outer:
  assumes h: "shape z s (Node x l RED k v r) (FrameL p RED kp vp pr # FrameL g BLACK kg vg u # cs)"
    and u: "tree_color u = BLACK"
  shows "runs (insertFixup_left (Some x) (Some g) s) (\<lambda>(n, s'). n = Some x \<and> keeps z s s' \<and>
    shape z s' (Node x l RED k v r) (FrameL p BLACK kp vp (Node g pr RED kg vg u) # cs))"
proof -
  have p: "shape z s (Node p (Node x l RED k v r) RED kp vp pr) (FrameL g BLACK kg vg u # cs)"
    and g: "shape z s (Node g (Node p (Node x l RED k v r) RED kp vp pr) BLACK kg vg u) cs"
    using h by (simp_all add: shape_left)
  have ne: "ptr (Some z) pr \<noteq> Some x"
    using p by (cases pr) (auto simp: shape_def focus_def)
  have up: "up (Some x) s = Some (Some p)" using up_node [OF h] by simp
  show ?thesis
    using split_red_right [OF g up] u uncle_FrameL [OF p] up shape_node [OF p] ne
    by (auto simp: insertFixup_left_def shape_left elim!: runsE)
qed

lemma insertFixup_left_inner:
  assumes h: "shape z s (Node x l RED k v r) (FrameR p pl RED kp vp # FrameL g BLACK kg vg u # cs)"
    and u: "tree_color u = BLACK"
  shows "runs (insertFixup_left (Some x) (Some g) s) (\<lambda>(n, s'). n = Some p \<and> keeps z s s' \<and>
    shape z s' (Node p pl RED kp vp l) (FrameL x BLACK k v (Node g r RED kg vg u) # cs))"
proof -
  have p: "shape z s (Node p pl RED kp vp (Node x l RED k v r)) (FrameL g BLACK kg vg u # cs)"
    using h by (simp add: shape_right)
  obtain s1 where s1: "leftRotate (Some p) s = Some s1" "keeps z s s1"
    and h1: "shape z s1 (Node x (Node p pl RED kp vp l) RED k v r) (FrameL g BLACK kg vg u # cs)"
    using leftRotate_shape [OF p] by (auto elim: runsE)
  have g: "shape z s1 (Node g (Node x (Node p pl RED kp vp l) RED k v r) BLACK kg vg u) cs"
    using h1 by (simp add: shape_left)
  have up: "up (Some x) s = Some (Some p)" "up (Some p) s1 = Some (Some x)"
    using up_node [OF h] up_node [OF iffD1 [OF shape_left h1]] by simp_all
  show ?thesis
    using s1 split_red_right [OF g up(2)] u uncle_FrameL [OF p] up(1) shape_node [OF p]
    by (auto simp: insertFixup_left_def shape_left keeps_def elim!: runsE)
qed

lemma insertFixup_right_outer:
  assumes h: "shape z s (Node x r RED k v l) (FrameR p pl RED kp vp # FrameR g u BLACK kg vg # cs)"
    and u: "tree_color u = BLACK"
  shows "runs (insertFixup_right (Some x) (Some g) s) (\<lambda>(n, s'). n = Some x \<and> keeps z s s' \<and>
    shape z s' (Node x r RED k v l) (FrameR p (Node g u RED kg vg pl) BLACK kp vp # cs))"
proof -
  have p: "shape z s (Node p pl RED kp vp (Node x r RED k v l)) (FrameR g u BLACK kg vg # cs)"
    and g: "shape z s (Node g u BLACK kg vg (Node p pl RED kp vp (Node x r RED k v l))) cs"
    using h by (simp_all add: shape_right)
  have ne: "ptr (Some z) pl \<noteq> Some x"
    using p by (cases pl) (auto simp: shape_def focus_def)
  have up: "up (Some x) s = Some (Some p)" using up_node [OF h] by simp
  show ?thesis
    using split_red_left [OF g up] u uncle_FrameR [OF p] up shape_node [OF p] ne
    by (auto simp: insertFixup_right_def shape_right elim!: runsE)
qed

lemma insertFixup_right_inner:
  assumes h: "shape z s (Node x r RED k v l) (FrameL p RED kp vp pr # FrameR g u BLACK kg vg # cs)"
    and u: "tree_color u = BLACK"
  shows "runs (insertFixup_right (Some x) (Some g) s) (\<lambda>(n, s'). n = Some p \<and> keeps z s s' \<and>
    shape z s' (Node p l RED kp vp pr) (FrameR x (Node g u RED kg vg r) BLACK k v # cs))"
proof -
  have p: "shape z s (Node p (Node x r RED k v l) RED kp vp pr) (FrameR g u BLACK kg vg # cs)"
    using h by (simp add: shape_left)
  obtain s1 where s1: "rightRotate (Some p) s = Some s1" "keeps z s s1"
    and h1: "shape z s1 (Node x r RED k v (Node p l RED kp vp pr)) (FrameR g u BLACK kg vg # cs)"
    using rightRotate_shape [OF p] by (auto elim: runsE)
  have g: "shape z s1 (Node g u BLACK kg vg (Node x r RED k v (Node p l RED kp vp pr))) cs"
    using h1 by (simp add: shape_right)
  have up: "up (Some x) s = Some (Some p)" "up (Some p) s1 = Some (Some x)"
    using up_node [OF h] up_node [OF iffD1 [OF shape_right h1]] by simp_all
  show ?thesis
    using s1 split_red_left [OF g up(2)] u uncle_FrameR [OF p] up(1) shape_node [OF p]
    by (auto simp: insertFixup_right_def shape_right keeps_def elim!: runsE)
qed

text \<open>A step of the loop: it keeps the invariant and the contents, and it moves up.\<close>

definition rt_ins_step :: "addr \<Rightarrow> 'a rt \<Rightarrow> ('a, 'a) tree \<Rightarrow> ('a, 'a) ctx \<Rightarrow> addr option \<times> 'a rt \<Rightarrow> bool" where
  "rt_ins_step z s t cs = (\<lambda>(n, s'). keeps z s s' \<and> (\<exists>t' cs'. n = ptr (Some z) t' \<and> shape z s' t' cs' \<and>
     ins_inv t' cs' \<and> length cs' < length cs \<and> same_contents (plug t cs) (plug t' cs')))"

lemma rt_ins_step_intro:
  assumes "runs m (\<lambda>(n, s'). n = n0 \<and> keeps z s s' \<and> shape z s' t' cs')"
    and "n0 = ptr (Some z) t'" and "ins_inv t' cs'" and "length cs' < length cs"
    and "same_contents (plug t cs) (plug t' cs')"
  shows "runs m (rt_ins_step z s t cs)"
  using assms(1) by (rule runs_mono) (use assms(2-) in \<open>auto simp: rt_ins_step_def\<close>)

lemma insertFixup_left_step:
  assumes h: "shape z s (Node x l RED k v r) (fp # FrameL g cg kg vg u # cs)"
    and inv: "ins_inv (Node x l RED k v r) (fp # FrameL g cg kg vg u # cs)"
    and red: "ctx_color (fp # FrameL g cg kg vg u # cs) = RED"
  shows "runs (insertFixup_body (Some x) s) (rt_ins_step z s (Node x l RED k v r) (fp # FrameL g cg kg vg u # cs))"
proof -
  obtain p pl kp vp pr where hp: "shape z s (Node p pl RED kp vp pr) (FrameL g cg kg vg u # cs)"
    and fp: "fp = FrameL p RED kp vp pr \<and> pl = Node x l RED k v r \<or>
      fp = FrameR p pl RED kp vp \<and> pr = Node x l RED k v r"
    using h red by (cases fp) (auto simp: shape_up)
  have cg: "cg = BLACK" using inv red by (cases fp) (auto simp: ins_inv_def)
  have up: "up (Some x) s = Some (Some p)" "up (Some p) s = Some (Some g)"
    using up_node [OF h] up_node [OF hp] fp by auto
  have body: "insertFixup_body (Some x) s = insertFixup_left (Some x) (Some g) s"
    using up uncle_FrameL(1) [OF hp] by (auto simp: insertFixup_body_def)
  show ?thesis
  proof (cases "tree_color u")
    case RED
    then obtain w ul ku vu ur where u: "u = Node w ul RED ku vu ur" by (cases u) auto
    have push: "insertFixup_left (Some x) (Some g) s = push_red (Some x) (Some w) s"
      using uncle_FrameL [OF hp] by (auto simp: insertFixup_left_def u)
    show ?thesis unfolding body push
      by (rule rt_ins_step_intro [OF push_red_left [OF hp [unfolded cg u] up(1)]])
        (use inv fp in \<open>auto simp: ins_inv_def same_contents_def inorder_plug set_addrs_plug u cg\<close>)
  next
    case BLACK
    from fp show ?thesis
    proof
      assume fp: "fp = FrameL p RED kp vp pr \<and> pl = Node x l RED k v r"
      then show ?thesis unfolding body
        by (intro rt_ins_step_intro [OF insertFixup_left_outer])
          (use h inv cg BLACK in \<open>auto simp: ins_inv_def same_contents_def inorder_plug set_addrs_plug\<close>)
    next
      assume fp: "fp = FrameR p pl RED kp vp \<and> pr = Node x l RED k v r"
      then show ?thesis unfolding body
        by (intro rt_ins_step_intro [OF insertFixup_left_inner])
          (use h inv cg BLACK in \<open>auto simp: ins_inv_def same_contents_def inorder_plug set_addrs_plug\<close>)
    qed
  qed
qed

lemma insertFixup_right_step:
  assumes h: "shape z s (Node x r RED k v l) (fp # FrameR g u cg kg vg # cs)"
    and inv: "ins_inv (Node x r RED k v l) (fp # FrameR g u cg kg vg # cs)"
    and red: "ctx_color (fp # FrameR g u cg kg vg # cs) = RED"
  shows "runs (insertFixup_body (Some x) s) (rt_ins_step z s (Node x r RED k v l) (fp # FrameR g u cg kg vg # cs))"
proof -
  obtain p pr kp vp pl where hp: "shape z s (Node p pl RED kp vp pr) (FrameR g u cg kg vg # cs)"
    and fp: "fp = FrameR p pl RED kp vp \<and> pr = Node x r RED k v l \<or>
      fp = FrameL p RED kp vp pr \<and> pl = Node x r RED k v l"
    using h red by (cases fp) (auto simp: shape_up)
  have cg: "cg = BLACK" using inv red by (cases fp) (auto simp: ins_inv_def)
  have up: "up (Some x) s = Some (Some p)" "up (Some p) s = Some (Some g)"
    using up_node [OF h] up_node [OF hp] fp by auto
  have "Some p \<noteq> ptr (Some z) u" using hp by (cases u) (auto simp: shape_def focus_def)
  then have body: "insertFixup_body (Some x) s = insertFixup_right (Some x) (Some g) s"
    using up uncle_FrameR(1) [OF hp] by (auto simp: insertFixup_body_def)
  show ?thesis
  proof (cases "tree_color u")
    case RED
    then obtain w ur ku vu ul where u: "u = Node w ul RED ku vu ur" by (cases u) auto
    have push: "insertFixup_right (Some x) (Some g) s = push_red (Some x) (Some w) s"
      using uncle_FrameR [OF hp] by (auto simp: insertFixup_right_def u)
    show ?thesis unfolding body push
      by (rule rt_ins_step_intro [OF push_red_right [OF hp [unfolded cg u] up(1)]])
        (use inv fp in \<open>auto simp: ins_inv_def same_contents_def inorder_plug set_addrs_plug u cg\<close>)
  next
    case BLACK
    from fp show ?thesis
    proof
      assume fp: "fp = FrameR p pl RED kp vp \<and> pr = Node x r RED k v l"
      then show ?thesis unfolding body
        by (intro rt_ins_step_intro [OF insertFixup_right_outer])
          (use h inv cg BLACK in \<open>auto simp: ins_inv_def same_contents_def inorder_plug set_addrs_plug\<close>)
    next
      assume fp: "fp = FrameL p RED kp vp pr \<and> pl = Node x r RED k v l"
      then show ?thesis unfolding body
        by (intro rt_ins_step_intro [OF insertFixup_right_inner])
          (use h inv cg BLACK in \<open>auto simp: ins_inv_def same_contents_def inorder_plug set_addrs_plug\<close>)
    qed
  qed
qed

lemma insertFixup_loop_top:
  assumes h: "shape z s t []" and t: "t \<noteq> Leaf"
  shows "insertFixup_loop (ptr (Some z) t) s = Some s"
  using t up_node [of z s] h by (cases t) (auto simp: insertFixup_loop.simps)

lemma insertFixup_loop_ok:
  "shape z s t cs \<Longrightarrow> ins_inv t cs \<Longrightarrow>
   runs (insertFixup_loop (ptr (Some z) t) s) (\<lambda>s'. keeps z s s' \<and> (\<exists>t'. shape z s' t' [] \<and> t' \<noteq> Leaf \<and>
     rbt (paint BLACK t') \<and> same_contents (plug t cs) t'))"
proof (induction "length cs" arbitrary: s t cs rule: less_induct)
  case less
  then obtain x l k v r where t: "t = Node x l RED k v r" by (cases t) (auto simp: ins_inv_def)
  have up: "up (Some x) s = Some (par cs)" using up_node less.prems(1) by (simp add: t)
  show ?case
  proof (cases "cs = []")
    case True
    then show ?thesis using less.prems insertFixup_loop_top [of z s t]
      by (auto simp: t ins_inv_def rbt_def same_contents_def intro!: exI [of _ "Node x l RED k v r"])
  next
    case False
    have col: "color_at (par cs) s = Some (ctx_color cs)"
      using less.prems(1) False by (cases cs rule: par.cases) (auto simp: shape_def focus_def color_at_def)
    show ?thesis
    proof (cases "ctx_color cs")
      case RED
      obtain fp fg cs' where cs: "cs = fp # fg # cs'" using less.prems(2) RED by (rule ins_inv_red_parent)
      have "runs (insertFixup_body (Some x) s) (rt_ins_step z s t cs)"
        using less.prems RED insertFixup_left_step insertFixup_right_step by (cases fg) (auto simp: t cs)
      then obtain t' cs' s' where s': "insertFixup_body (Some x) s = Some (ptr (Some z) t', s')"
        "keeps z s s'" "shape z s' t' cs'" "ins_inv t' cs'" "length cs' < length cs"
        "same_contents (plug t cs) (plug t' cs')"
        by (elim runsE) (auto simp: rt_ins_step_def)
      have "insertFixup_loop (ptr (Some z) t) s = insertFixup_loop (ptr (Some z) t') s'"
      proof (cases "ptr (Some z) t' = rt_root s'")
        case True
        then have "cs' = []" "t' \<noteq> Leaf"
          using s'(3,4) focus_not_root [of "Some z" "rt_heap s'" "rt_root s'" t' cs']
          by (auto simp: shape_def ins_inv_def)
        with True s'(1) RED False up col insertFixup_loop_top [of z s' t'] s'(3) show ?thesis
          by (subst insertFixup_loop.simps) (simp add: t)
      next
        case ne: False
        with s'(1) RED False up col show ?thesis by (subst insertFixup_loop.simps) (simp add: t)
      qed
      then show ?thesis
        using less.hyps [OF s'(5) s'(3,4)] s'(2,6) same_contents_trans
        by (auto elim!: runs_mono simp: keeps_def same_contents_def)
    next
      case BLACK
      with less.prems False have "rbt (plug t cs)" by (auto simp: rbt_plug ins_inv_def)
      then have "shape z s (plug t cs) [] \<and> plug t cs \<noteq> Leaf \<and> rbt (paint BLACK (plug t cs))"
        using iffD1 [OF shape_plug less.prems(1)] by (auto simp: rbt_def invc_paint_BLACK t)
      moreover have "insertFixup_loop (ptr (Some z) t) s = Some s"
        using BLACK False up col by (subst insertFixup_loop.simps) (simp add: t)
      ultimately show ?thesis by (auto simp: same_contents_def)
    qed
  qed
qed

lemma insertFixup_ok:
  assumes "shape z s t cs" and "ins_inv t cs"
  shows "runs (insertFixup (ptr (Some z) t) s) (\<lambda>s'. keeps z s s' \<and>
    (\<exists>t'. shape z s' t' [] \<and> rbt t' \<and> same_contents (plug t cs) t'))"
proof -
  obtain s1 t1 where s1: "insertFixup_loop (ptr (Some z) t) s = Some s1" "keeps z s s1" "shape z s1 t1 []"
    "t1 \<noteq> Leaf" "rbt (paint BLACK t1)" "same_contents (plug t cs) t1"
    using insertFixup_loop_ok [OF assms] by (elim runsE) auto
  obtain s2 where s2: "paint_node (ptr (Some z) t1) BLACK s1 = Some s2" "shape z s2 (paint BLACK t1) []" "keeps z s1 s2"
    using paint_BLACK_shape [OF s1(3)] by (elim runsE) auto
  have run: "insertFixup (ptr (Some z) t) s = Some s2"
    using s1(1) s2(1) shape_root [OF s1(3)] by (simp add: insertFixup_def)
  have "same_contents (plug t cs) (paint BLACK t1)" using s1(6) by (simp add: same_contents_def)
  with keeps_trans [OF s1(2) s2(3)] s1(5) s2(2) show ?thesis unfolding run runs_Some by blast
qed

end
