(* ===== verification/Sentinel_Insert.thy ===== *)
theory Sentinel_Insert
  imports Sentinel_Proofs
begin

text \<open>
  Searching and inserting in \<open>RBTree<T>\<close>, against the sorted list of entries that \<open>rt_repr\<close> relates to an
  object.
\<close>

definition rt_inv :: "addr \<Rightarrow> 'a::linorder rt \<Rightarrow> ('a, 'a) tree \<Rightarrow> bool" where
  "rt_inv z s t \<longleftrightarrow> shape z s t [] \<and> rbt t \<and> sorted1 (inorder t) \<and>
     dom (rt_heap s) = insert z (set (addrs t)) \<and> (\<forall>a\<in>dom (rt_heap s). a < rt_next s)"

definition rt_repr :: "'a::linorder rt \<Rightarrow> ('a \<times> 'a) list \<Rightarrow> bool" where
  "rt_repr s ps \<longleftrightarrow> (\<exists>z t. rt_inv z s t \<and> inorder t = ps)"

lemma rt_new_repr: "rt_repr (rt_new dflt) []"
  by (auto simp: rt_repr_def rt_inv_def rt_new_def createNil_def shape_def sentinel_def focus_def rbt_def
      intro!: exI [of _ 0] exI [of _ Leaf])

section \<open>Searching\<close>

fun found :: "('a, 'a) tree \<Rightarrow> addr option" where
  "found Leaf = None"
| "found (Node a l c k v r) = Some a"

lemma searchNode_from_ok:
  assumes "shape z s t cs" and "sorted1 (inorder (plug t cs))" and "around k cs"
  shows "\<exists>t' cs'. shape z s t' cs' \<and> lands k (plug t cs) t' cs' \<and>
    searchNode_from k (ptr (Some z) t) s = Some (found t')"
  using assms
proof (induction t arbitrary: cs)
  case Leaf
  then show ?case
    by (intro exI [of _ Leaf] exI [of _ cs]) (simp add: lands_def searchNode_from.simps shape_nil)
next
  case (Node a l c kn v r)
  note n = shape_node [OF Node.prems(1)] shape_nil [OF Node.prems(1)] shape_ne_nil [OF Node.prems(1)]
  note pos = searchNode_from.simps [of k "Some a" s]
  consider (lt) "k < kn" | (gt) "kn < k" | (eq) "k = kn" by (rule linorder_cases)
  then show ?case
  proof cases
    case lt
    with less_imp_neq [OF lt] Node.prems Node.IH(1) [of "FrameL a c kn v r # cs"] show ?thesis
      by (simp add: pos n shape_left [symmetric] around_FrameL)
  next
    case gt
    with less_imp_neq [OF gt] less_not_sym [OF gt] Node.prems Node.IH(2) [of "FrameR a l c kn v # cs"] show ?thesis
      by (simp add: pos n shape_right [symmetric] around_FrameR)
  next
    case eq
    with Node.prems show ?thesis
      by (intro exI [of _ "Node a l c kn v r"] exI [of _ cs]) (simp add: lands_def pos [unfolded eq] n)
  qed
qed

lemma descend_ok:
  assumes "shape z s t cs" and "sorted1 (inorder (plug t cs))" and "around k cs"
  shows "\<exists>t' cs'. shape z s t' cs' \<and> lands k (plug t cs) t' cs' \<and>
    descend k (ptr (Some z) t) (par cs) s = Some (if t' = Leaf then Some (par cs') else None)"
  using assms
proof (induction t arbitrary: cs)
  case Leaf
  then show ?case
    by (intro exI [of _ Leaf] exI [of _ cs]) (simp add: lands_def descend.simps shape_nil)
next
  case (Node a l c kn v r)
  note n = shape_node [OF Node.prems(1)] shape_nil [OF Node.prems(1)] shape_ne_nil [OF Node.prems(1)]
  note pos = descend.simps [of k "Some a" "par cs" s]
  consider (lt) "k < kn" | (gt) "kn < k" | (eq) "k = kn" by (rule linorder_cases)
  then show ?case
  proof cases
    case lt
    with Node.prems Node.IH(1) [of "FrameL a c kn v r # cs"] show ?thesis
      by (simp add: pos n shape_left [symmetric] around_FrameL)
  next
    case gt
    with less_not_sym [OF gt] Node.prems Node.IH(2) [of "FrameR a l c kn v # cs"] show ?thesis
      by (simp add: pos n shape_right [symmetric] around_FrameR)
  next
    case eq
    with Node.prems show ?thesis
      by (intro exI [of _ "Node a l c kn v r"] exI [of _ cs]) (simp add: lands_def pos [unfolded eq] n)
  qed
qed

lemma searchNode_ok:
  assumes "rt_inv z s t"
  shows "\<exists>t' cs. shape z s t' cs \<and> lands k t t' cs \<and> searchNode k s = Some (found t')"
  using searchNode_from_ok [of z s t "[]" k] assms shape_root [of z s t]
  by (auto simp: searchNode_def rt_inv_def around_def)

section \<open>Insertion\<close>

lemma link_ok:
  assumes h: "shape z s Leaf cs" and k: "around k cs" and a: "a \<notin> dom (rt_heap s)"
  shows "runs (link k (Some a) (par cs) (s\<lparr>rt_heap := (rt_heap s)(a \<mapsto> \<lparr>key = k, val = v, color = RED, left = rt_nil s,
      right = rt_nil s, parent = None\<rparr>), rt_next := n\<rparr>))
    (\<lambda>s'. shape z s' (Node a Leaf RED k v Leaf) cs \<and> rt_nil s' = rt_nil s \<and> rt_next s' = n \<and>
      dom (rt_heap s') = insert a (dom (rt_heap s)))"
proof -
  have "a \<notin> set (caddrs cs)" "a \<noteq> z"
    using h a focus_dom [of "Some z" "rt_heap s" "rt_root s" Leaf cs] by (auto simp: shape_def sentinel_def)
  with h k show ?thesis
    by (cases cs rule: par.cases)
      (auto simp: link_def shape_def sentinel_def focus_def upd_node_def around_def Let_def less_not_sym)
qed

text \<open>What follows the link: the new node is the root, the child of the root, or deeper.\<close>

lemma settle_ok:
  assumes h: "shape z s (Node a Leaf RED k v Leaf) cs" and inv: "ins_inv (Node a Leaf RED k v Leaf) cs"
  shows "runs (do {
        p \<leftarrow> up (Some a) s;
        (if p = None then paint_node (Some a) BLACK s else do {
           g \<leftarrow> up p s;
           (if g = None then Some s else insertFixup (Some a) s) }) })
    (\<lambda>s'. keeps z s s' \<and> (\<exists>t'. shape z s' t' [] \<and> rbt t' \<and> same_contents (plug (Node a Leaf RED k v Leaf) cs) t'))"
proof (cases cs)
  case Nil
  then show ?thesis using paint_node_shape [OF h, of BLACK] up_node [OF h]
    by (auto simp: rbt_def same_contents_def elim!: runs_mono
        intro!: exI [of _ "Node a Leaf BLACK k v Leaf"])
next
  case (Cons f ds)
  obtain p where p: "par cs = Some p" "up (Some p) s = Some (par ds)"
    using h up_node [of z s] by (cases f) (auto simp: Cons shape_up)
  show ?thesis
  proof (cases "ds = []")
    case True
    then have "rbt (plug (Node a Leaf RED k v Leaf) cs)"
      using inv unfolding rbt_plug by (cases f) (auto simp: ins_inv_def Cons)
    with h p True show ?thesis using up_node [OF h]
      by (auto simp: shape_plug [symmetric] same_contents_def intro!: exI [of _ "plug (Node a Leaf RED k v Leaf) cs"])
  next
    case False
    then have "par ds \<noteq> None" by simp
    with p insertFixup_ok [OF h inv] up_node [OF h] show ?thesis by auto
  qed
qed

lemma rt_insert_new:
  assumes inv: "rt_inv z s t" and new: "k \<notin> fst ` set (inorder t)"
  shows "runs (rt_insert k v s) (\<lambda>s'. rt_repr s' (upd_list k v (inorder t)))"
proof -
  have h: "shape z s t []" and srt: "sorted1 (inorder t)" and dm: "dom (rt_heap s) = insert z (set (addrs t))"
    and fresh: "rt_next s \<notin> dom (rt_heap s)" "\<forall>a\<in>dom (rt_heap s). a < rt_next s" and rb: "rbt t"
    using inv by (auto simp: rt_inv_def)
  obtain t0 cs0 where f: "lands k t t0 cs0" "searchNode k s = Some (found t0)" using searchNode_ok [OF inv] by blast
  have "t0 = Leaf" using lands_Node(2) [OF _ srt] f(1) new by (cases t0) blast+
  obtain t1 cs where d: "shape z s t1 cs" "lands k t t1 cs"
      "descend k (rt_root s) None s = Some (if t1 = Leaf then Some (par cs) else None)"
    using descend_ok [OF h, of k] srt shape_root [OF h] by (auto simp: around_def)
  have t1: "t1 = Leaf" using lands_Node(2) [OF _ srt] d(2) new by (cases t1) blast+
  let ?a = "rt_next s" and ?n = "Node (rt_next s) Leaf RED k v Leaf"
  have t: "plug Leaf cs = t" "around k cs" using d(2) by (auto simp: lands_def t1)
  obtain s1 where s1: "link k (Some ?a) (par cs) (s\<lparr>rt_heap := (rt_heap s)(?a \<mapsto> \<lparr>key = k, val = v, color = RED,
        left = rt_nil s, right = rt_nil s, parent = None\<rparr>), rt_next := Suc ?a\<rparr>) = Some s1"
      "shape z s1 ?n cs" "rt_nil s1 = rt_nil s" "rt_next s1 = Suc ?a" "dom (rt_heap s1) = insert ?a (dom (rt_heap s))"
    using link_ok [OF d(1) [unfolded t1] t(2) fresh(1), of "Suc ?a" v] by (rule runsE) blast
  have "ins_inv ?n cs" using rb t(1) rbt_plug [of Leaf cs] by (simp add: ins_inv_def)
  from settle_ok [OF s1(2) this] obtain s2 where s2r: "(do {
        p \<leftarrow> up (Some ?a) s1;
        (if p = None then paint_node (Some ?a) BLACK s1 else do {
           g \<leftarrow> up p s1;
           (if g = None then Some s1 else insertFixup (Some ?a) s1) }) }) = Some s2"
    and "keeps z s1 s2 \<and> (\<exists>t'. shape z s2 t' [] \<and> rbt t' \<and> same_contents (plug ?n cs) t')"
    by (rule runsE)
  then obtain t2 where s2: "keeps z s1 s2" "shape z s2 t2 []" "rbt t2" "same_contents (plug ?n cs) t2" by blast
  have "searchNode k s = Some None" "descend k (rt_root s) None s = Some (Some (par cs))"
    using f(2) d(3) by (simp_all add: \<open>t0 = Leaf\<close> t1)
  then have run: "rt_insert k v s = Some s2" by (simp add: rt_insert_def s1(1) s2r)
  have "inorder t2 = lefts cs @ (k, v) # rights cs" "set (addrs t2) = insert ?a (set (caddrs cs))"
    using s2(4) by (simp_all add: same_contents_def inorder_plug set_addrs_plug)
  moreover have "set (addrs t) = set (caddrs cs)" by (simp add: t(1) [symmetric] set_addrs_plug)
  ultimately have io: "inorder t2 = upd_list k v (inorder t)" "set (addrs t2) = insert ?a (set (addrs t))"
    by (simp_all only: lands_Leaf(2) [OF d(2) [unfolded t1] srt, of v])
  have "rt_inv z s2 t2"
    using s2(1-3) s1(3-5) dm fresh(2) sorted1_upd_list [OF srt, of k v] unfolding rt_inv_def io
    by (auto simp: keeps_def less_Suc_eq)
  with run io(1) show ?thesis by (auto simp: rt_repr_def)
qed

lemma rt_insert_ok:
  assumes "rt_repr s ps"
  shows "runs (rt_insert k v s) (\<lambda>s'. rt_repr s' (ins_new k v ps))"
proof -
  obtain z t where inv: "rt_inv z s t" and ps: "inorder t = ps" using assms by (auto simp: rt_repr_def)
  have srt: "sorted1 (inorder t)" using inv by (simp add: rt_inv_def)
  show ?thesis
  proof (cases "k \<in> fst ` set ps")
    case False
    then show ?thesis using rt_insert_new [OF inv] ps by (simp add: ins_new_def)
  next
    case True
    obtain t0 cs0 where f: "shape z s t0 cs0" "lands k t t0 cs0" "searchNode k s = Some (found t0)"
      using searchNode_ok [OF inv] by blast
    have "t0 \<noteq> Leaf" using lands_Leaf(1) [OF _ srt] f(2) True ps by blast
    then obtain a l c k' w r where t0: "t0 = Node a l c k' w r" by (cases t0) blast+
    have "found t0 \<noteq> None \<and> found t0 \<noteq> rt_nil s"
      unfolding t0 found.simps shape_nil [OF f(1)] using shape_ne_nil [OF f(1) [unfolded t0]] by simp
    then have "rt_insert k v s = Some s" unfolding rt_insert_def f(3) by simp
    with assms True show ?thesis by (simp add: ins_new_def)
  qed
qed

end
