(* ===== verification/Sentinel_Delete.thy ===== *)
theory Sentinel_Delete
  imports Sentinel_Insert
begin

text \<open>
  Correctness of \<open>remove\<close>: the repair loop \<open>deleteFixup\<close>, which climbs from a node that may be the
  sentinel, the unlinking of a node, and the method.
\<close>

section \<open>The parent of the sentinel\<close>

text \<open>When the loop starts at a leaf, the sentinel's parent link tells which one.\<close>

definition hung :: "addr \<Rightarrow> 'a rt \<Rightarrow> ('a, 'a) tree \<Rightarrow> addr option \<Rightarrow> bool" where
  "hung z s t q \<longleftrightarrow> (t = Leaf \<longrightarrow> (\<exists>n. rt_heap s z = Some n \<and> parent n = q))"

lemma hung_keeps: "hung z s t q \<Longrightarrow> keeps z s s' \<Longrightarrow> hung z s' t q"
  by (simp add: hung_def keeps_def)

lemma up_ptr:
  assumes "shape z s t cs" and "hung z s t (par cs)"
  shows "up (ptr (Some z) t) s = Some (par cs)"
proof (cases t)
  case Leaf
  with assms par_lock [OF assms(1)] show ?thesis by (auto simp: hung_def up_def)
next
  case (Node a l c k v r)
  with assms(1) up_node [of z s a l c k v r cs] show ?thesis by simp
qed

section \<open>Repair after deletion\<close>

lemma deleteFixup_left_last_ok:
  assumes h: "shape z s (Node p t cp kp vp (Node wa wl BLACK kw vw wr)) cs" and wr: "tree_color wr = RED"
    and hu: "hung z s t (Some p)"
  shows "runs (deleteFixup_left_last (ptr (Some z) t) (Some wa) s) (\<lambda>(n, s'). n = rt_root s' \<and> keeps z s s' \<and>
    shape z s' (Node wa (Node p t BLACK kp vp wl) cp kw vw (paint BLACK wr)) cs)"
proof -
  have hw: "shape z s (Node wa wl BLACK kw vw wr) (FrameR p t cp kp vp # cs)"
    using h by (simp add: shape_right)
  have ht: "shape z s t (FrameL p cp kp vp (Node wa wl BLACK kw vw wr) # cs)"
    using h by (simp add: shape_left)
  have up: "up (ptr (Some z) t) s = Some (Some p)" using up_ptr [OF ht] hu by simp
  have col: "color_at (Some p) s = Some cp" using color_at_ptr [OF h] by simp
  obtain s1 where s1: "paint_node (Some wa) cp s = Some s1" "keeps z s s1"
    "shape z s1 (Node p t cp kp vp (Node wa wl cp kw vw wr)) cs"
    using paint_node_shape [OF hw, of cp] by (auto elim!: runsE simp: shape_up)
  obtain s2 where s2: "paint_node (Some p) BLACK s1 = Some s2" "keeps z s1 s2"
    "shape z s2 (Node wa wl cp kw vw wr) (FrameR p t BLACK kp vp # cs)"
    using paint_node_shape [OF s1(3), of BLACK] by (auto elim!: runsE simp: shape_right)
  obtain s3 where s3: "paint_node (ptr (Some z) wr) BLACK s2 = Some s3" "keeps z s2 s3"
    "shape z s3 (Node p t BLACK kp vp (Node wa wl cp kw vw (paint BLACK wr))) cs"
    using paint_BLACK_shape [OF iffD1 [OF shape_right s2(3)]] by (auto elim!: runsE simp: shape_up)
  obtain s4 where s4: "leftRotate (Some p) s3 = Some s4" "keeps z s3 s4"
    "shape z s4 (Node wa (Node p t BLACK kp vp wl) cp kw vw (paint BLACK wr)) cs"
    using leftRotate_shape [OF s3(3)] by (auto elim!: runsE)
  have "deleteFixup_left_last (ptr (Some z) t) (Some wa) s = Some (rt_root s4, s4)"
    using up col s1(1) s2(1) s3(1) s4(1) shape_node [OF s2(3)] by (simp add: deleteFixup_left_last_def)
  moreover have "keeps z s s4" using s1(2) s2(2) s3(2) s4(2) by (simp add: keeps_def)
  ultimately show ?thesis using s4(3) by simp
qed

lemma deleteFixup_right_last_ok:
  assumes h: "shape z s (Node p (Node wa wl BLACK kw vw wr) cp kp vp t) cs" and wl: "tree_color wl = RED"
    and hu: "hung z s t (Some p)"
  shows "runs (deleteFixup_right_last (ptr (Some z) t) (Some wa) s) (\<lambda>(n, s'). n = rt_root s' \<and> keeps z s s' \<and>
    shape z s' (Node wa (paint BLACK wl) cp kw vw (Node p wr BLACK kp vp t)) cs)"
proof -
  have hw: "shape z s (Node wa wl BLACK kw vw wr) (FrameL p cp kp vp t # cs)"
    using h by (simp add: shape_left)
  have ht: "shape z s t (FrameR p (Node wa wl BLACK kw vw wr) cp kp vp # cs)"
    using h by (simp add: shape_right)
  have up: "up (ptr (Some z) t) s = Some (Some p)" using up_ptr [OF ht] hu by simp
  have col: "color_at (Some p) s = Some cp" using color_at_ptr [OF h] by simp
  obtain s1 where s1: "paint_node (Some wa) cp s = Some s1" "keeps z s s1"
    "shape z s1 (Node p (Node wa wl cp kw vw wr) cp kp vp t) cs"
    using paint_node_shape [OF hw, of cp] by (auto elim!: runsE simp: shape_up)
  obtain s2 where s2: "paint_node (Some p) BLACK s1 = Some s2" "keeps z s1 s2"
    "shape z s2 (Node wa wl cp kw vw wr) (FrameL p BLACK kp vp t # cs)"
    using paint_node_shape [OF s1(3), of BLACK] by (auto elim!: runsE simp: shape_left)
  obtain s3 where s3: "paint_node (ptr (Some z) wl) BLACK s2 = Some s3" "keeps z s2 s3"
    "shape z s3 (Node p (Node wa (paint BLACK wl) cp kw vw wr) BLACK kp vp t) cs"
    using paint_BLACK_shape [OF iffD1 [OF shape_left s2(3)]] by (auto elim!: runsE simp: shape_up)
  obtain s4 where s4: "rightRotate (Some p) s3 = Some s4" "keeps z s3 s4"
    "shape z s4 (Node wa (paint BLACK wl) cp kw vw (Node p wr BLACK kp vp t)) cs"
    using rightRotate_shape [OF s3(3)] by (auto elim!: runsE)
  have "deleteFixup_right_last (ptr (Some z) t) (Some wa) s = Some (rt_root s4, s4)"
    using up col s1(1) s2(1) s3(1) s4(1) shape_node [OF s2(3)] by (simp add: deleteFixup_right_last_def)
  moreover have "keeps z s s4" using s1(2) s2(2) s3(2) s4(2) by (simp add: keeps_def)
  ultimately show ?thesis using s4(3) by simp
qed

text \<open>Case 3 turns an inner red nephew into the situation of case 4.\<close>

lemma nephew_rightRotate:
  assumes h: "shape z s (Node p t cp kp vp (Node wa (Node xa xl RED kx vx xr) BLACK kw vw wr)) cs"
  shows "runs (do { s \<leftarrow> paint_node (Some xa) BLACK s; s \<leftarrow> paint_node (Some wa) RED s; rightRotate (Some wa) s })
    (\<lambda>s'. keeps z s s' \<and> shape z s' (Node p t cp kp vp (Node xa xl BLACK kx vx (Node wa xr RED kw vw wr))) cs)"
proof -
  have hx: "shape z s (Node xa xl RED kx vx xr) (FrameL wa BLACK kw vw wr # FrameR p t cp kp vp # cs)"
    using h by (simp add: shape_up)
  obtain s1 where s1: "paint_node (Some xa) BLACK s = Some s1" "keeps z s s1"
    "shape z s1 (Node wa (Node xa xl BLACK kx vx xr) BLACK kw vw wr) (FrameR p t cp kp vp # cs)"
    using paint_node_shape [OF hx, of BLACK] by (auto elim!: runsE simp: shape_left)
  obtain s2 where s2: "paint_node (Some wa) RED s1 = Some s2" "keeps z s1 s2"
    "shape z s2 (Node wa (Node xa xl BLACK kx vx xr) RED kw vw wr) (FrameR p t cp kp vp # cs)"
    using paint_node_shape [OF s1(3), of RED] by (auto elim!: runsE)
  show ?thesis
    using s1 s2 rightRotate_shape [OF s2(3)] by (auto simp: shape_up keeps_def elim!: runs_mono)
qed

lemma nephew_leftRotate:
  assumes h: "shape z s (Node p (Node wa wl BLACK kw vw (Node xa xl RED kx vx xr)) cp kp vp t) cs"
  shows "runs (do { s \<leftarrow> paint_node (Some xa) BLACK s; s \<leftarrow> paint_node (Some wa) RED s; leftRotate (Some wa) s })
    (\<lambda>s'. keeps z s s' \<and> shape z s' (Node p (Node xa (Node wa wl RED kw vw xl) BLACK kx vx xr) cp kp vp t) cs)"
proof -
  have hx: "shape z s (Node xa xl RED kx vx xr) (FrameR wa wl BLACK kw vw # FrameL p cp kp vp t # cs)"
    using h by (simp add: shape_up)
  obtain s1 where s1: "paint_node (Some xa) BLACK s = Some s1" "keeps z s s1"
    "shape z s1 (Node wa wl BLACK kw vw (Node xa xl BLACK kx vx xr)) (FrameL p cp kp vp t # cs)"
    using paint_node_shape [OF hx, of BLACK] by (auto elim!: runsE simp: shape_right)
  obtain s2 where s2: "paint_node (Some wa) RED s1 = Some s2" "keeps z s1 s2"
    "shape z s2 (Node wa wl RED kw vw (Node xa xl BLACK kx vx xr)) (FrameL p cp kp vp t # cs)"
    using paint_node_shape [OF s1(3), of RED] by (auto elim!: runsE)
  show ?thesis
    using s1 s2 leftRotate_shape [OF s2(3)] by (auto simp: shape_up keeps_def elim!: runs_mono)
qed

definition rt_step :: "addr \<Rightarrow> 'a rt \<Rightarrow> ('a, 'a) tree \<Rightarrow> nat \<Rightarrow> addr option \<times> 'a rt \<Rightarrow> bool" where
  "rt_step z s t0 n = (\<lambda>(x, s'). keeps z s s' \<and> (\<exists>t' cs'. x = ptr (Some z) t' \<and> t' \<noteq> Leaf \<and> shape z s' t' cs' \<and>
     same_contents t0 (plug t' cs') \<and>
     (cs' = [] \<and> rbt t' \<or> del_inv t' cs' \<and> (length cs' < n \<or> tree_color t' = RED))))"

lemma rt_step_done:
  assumes "runs m (\<lambda>(n, s'). n = rt_root s' \<and> keeps z s1 s' \<and> shape z s' t' cs')" and "keeps z s s1"
    and "rbt (plug t' cs')" and "t' \<noteq> Leaf" and "same_contents t0 (plug t' cs')"
  shows "runs m (rt_step z s t0 k)"
  using assms(1)
proof (rule runs_mono)
  fix r assume r: "case r of (n, s') \<Rightarrow> n = rt_root s' \<and> keeps z s1 s' \<and> shape z s' t' cs'"
  obtain n s' where [simp]: "r = (n, s')" by (cases r)
  have "shape z s' (plug t' cs') []" using r by (simp add: shape_plug [symmetric])
  moreover from this have "n = ptr (Some z) (plug t' cs')" using r shape_root by fastforce
  moreover have "keeps z s s'" using r keeps_trans [OF assms(2)] by simp
  ultimately show "rt_step z s t0 k r"
    using assms(3-5) unfolding rt_step_def by (auto intro!: exI [of _ "plug t' cs'"] exI [of _ "[]"])
qed

lemma nephew_colors:
  assumes "shape z s (Node wa wl c kw vw wr) cs"
  shows "color_at (ptr (Some z) wl) s = Some (tree_color wl)" and "color_at (ptr (Some z) wr) s = Some (tree_color wr)"
  by (rule color_at_ptr, rule iffD1 [OF shape_left assms], rule color_at_ptr, rule iffD1 [OF shape_right assms])

lemma deleteFixup_left_case2:
  assumes h: "shape z s t (FrameL p cp kp vp (Node wa wl BLACK kw vw wr) # cs)"
    and blk: "tree_color t = BLACK" and hu: "hung z s t (Some p)"
    and inv: "del_inv t (FrameL p cp kp vp (Node wa wl BLACK kw vw wr) # cs)"
    and w: "tree_color wl = BLACK" "tree_color wr = BLACK"
    and k: "length cs < n \<or> cp = RED"
    and eq: "same_contents t0 (plug t (FrameL p cp kp vp (Node wa wl BLACK kw vw wr) # cs))"
  shows "runs (deleteFixup_left_tail (ptr (Some z) t) (Some wa) s) (rt_step z s t0 n)"
proof -
  have hw: "shape z s (Node wa wl BLACK kw vw wr) (FrameR p t cp kp vp # cs)"
    using h by (simp add: shape_up)
  obtain s1 where s1: "paint_node (Some wa) RED s = Some s1" "keeps z s s1"
    "shape z s1 (Node p t cp kp vp (Node wa wl RED kw vw wr)) cs"
    using paint_node_shape [OF hw, of RED] by (auto elim!: runsE simp: shape_up)
  have up: "up (ptr (Some z) t) s1 = Some (Some p)"
    using up_ptr [OF iffD1 [OF shape_left s1(3)]] hung_keeps [OF hu s1(2)] by simp
  have "deleteFixup_left_tail (ptr (Some z) t) (Some wa) s = Some (Some p, s1)"
    using shape_node [OF hw] nephew_colors [OF hw] w s1(1) up by (simp add: deleteFixup_left_tail_def)
  moreover have "del_inv (Node p t cp kp vp (Node wa wl RED kw vw wr)) cs"
    using inv w by (auto simp: del_inv_def paint_BLACK [OF blk])
  moreover have "same_contents t0 (plug (Node p t cp kp vp (Node wa wl RED kw vw wr)) cs)"
    using eq by (simp add: same_contents_def inorder_plug set_addrs_plug)
  ultimately show ?thesis using s1(2,3) k unfolding rt_step_def
    by (auto intro!: exI [of _ "Node p t cp kp vp (Node wa wl RED kw vw wr)"])
qed

lemma deleteFixup_left_case34:
  assumes h: "shape z s t (FrameL p cp kp vp (Node wa wl BLACK kw vw wr) # cs)"
    and blk: "tree_color t = BLACK" and hu: "hung z s t (Some p)"
    and inv: "del_inv t (FrameL p cp kp vp (Node wa wl BLACK kw vw wr) # cs)"
    and w: "tree_color wl = RED \<or> tree_color wr = RED"
    and eq: "same_contents t0 (plug t (FrameL p cp kp vp (Node wa wl BLACK kw vw wr) # cs))"
  shows "runs (deleteFixup_left_tail (ptr (Some z) t) (Some wa) s) (rt_step z s t0 n)"
proof -
  have hp: "shape z s (Node p t cp kp vp (Node wa wl BLACK kw vw wr)) cs" using h by (simp add: shape_up)
  have hw: "shape z s (Node wa wl BLACK kw vw wr) (FrameR p t cp kp vp # cs)"
    using hp by (simp add: shape_right)
  note nw = shape_node [OF hw] nephew_colors [OF hw]
  show ?thesis
  proof (cases "tree_color wr")
    case RED
    then have last: "deleteFixup_left_tail (ptr (Some z) t) (Some wa) s =
        deleteFixup_left_last (ptr (Some z) t) (Some wa) s"
      using nw by (simp add: deleteFixup_left_tail_def)
    show ?thesis unfolding last
      by (rule rt_step_done [OF deleteFixup_left_last_ok [OF hp RED hu] keeps_refl])
        (use inv RED eq in \<open>auto simp: rbt_plug del_inv_def same_contents_def inorder_plug set_addrs_plug
          invc_paint_BLACK paint_BLACK [OF blk] bheight_paint_RED\<close>)
  next
    case BLACK
    with w obtain xa xl kx vx xr where wl: "wl = Node xa xl RED kx vx xr" by (cases wl) auto
    obtain s1 where s1: "(do { s \<leftarrow> paint_node (Some xa) BLACK s; s \<leftarrow> paint_node (Some wa) RED s;
        rightRotate (Some wa) s }) = Some s1" "keeps z s s1"
      "shape z s1 (Node p t cp kp vp (Node xa xl BLACK kx vx (Node wa xr RED kw vw wr))) cs"
      using nephew_rightRotate [OF hp [unfolded wl]] by (auto elim!: runsE)
    have hu1: "hung z s1 t (Some p)" by (rule hung_keeps [OF hu s1(2)])
    have up: "up (ptr (Some z) t) s1 = Some (Some p)"
      using up_ptr [OF iffD1 [OF shape_left s1(3)]] hu1 by simp
    have last: "deleteFixup_left_tail (ptr (Some z) t) (Some wa) s =
        deleteFixup_left_last (ptr (Some z) t) (Some xa) s1"
      using nw wl BLACK s1(1) up shape_node [OF s1(3)]
      by (auto simp: deleteFixup_left_tail_def bind_eq_Some_conv)
    show ?thesis unfolding last
      by (rule rt_step_done [OF deleteFixup_left_last_ok [OF s1(3) _ hu1] s1(2)])
        (use inv BLACK eq wl in \<open>auto simp: rbt_plug del_inv_def same_contents_def inorder_plug set_addrs_plug
          paint_BLACK [OF blk]\<close>)
  qed
qed

lemma deleteFixup_left_tail_ok:
  assumes "shape z s t (FrameL p cp kp vp (Node wa wl BLACK kw vw wr) # cs)"
    and "tree_color t = BLACK" and "hung z s t (Some p)"
    and "del_inv t (FrameL p cp kp vp (Node wa wl BLACK kw vw wr) # cs)"
    and "length cs < n \<or> cp = RED"
    and "same_contents t0 (plug t (FrameL p cp kp vp (Node wa wl BLACK kw vw wr) # cs))"
  shows "runs (deleteFixup_left_tail (ptr (Some z) t) (Some wa) s) (rt_step z s t0 n)"
proof (cases "tree_color wl = RED \<or> tree_color wr = RED")
  case True
  then show ?thesis by (rule deleteFixup_left_case34 [OF assms(1-4) _ assms(6)])
next
  case False
  then have "tree_color wl = BLACK" "tree_color wr = BLACK" by simp_all
  then show ?thesis by (rule deleteFixup_left_case2 [OF assms(1-4) _ _ assms(5,6)])
qed

lemma deleteFixup_right_case2:
  assumes h: "shape z s t (FrameR p (Node wa wl BLACK kw vw wr) cp kp vp # cs)"
    and blk: "tree_color t = BLACK" and hu: "hung z s t (Some p)"
    and inv: "del_inv t (FrameR p (Node wa wl BLACK kw vw wr) cp kp vp # cs)"
    and w: "tree_color wr = BLACK" "tree_color wl = BLACK"
    and k: "length cs < n \<or> cp = RED"
    and eq: "same_contents t0 (plug t (FrameR p (Node wa wl BLACK kw vw wr) cp kp vp # cs))"
  shows "runs (deleteFixup_right_tail (ptr (Some z) t) (Some wa) s) (rt_step z s t0 n)"
proof -
  have hw: "shape z s (Node wa wl BLACK kw vw wr) (FrameL p cp kp vp t # cs)"
    using h by (simp add: shape_up)
  obtain s1 where s1: "paint_node (Some wa) RED s = Some s1" "keeps z s s1"
    "shape z s1 (Node p (Node wa wl RED kw vw wr) cp kp vp t) cs"
    using paint_node_shape [OF hw, of RED] by (auto elim!: runsE simp: shape_up)
  have up: "up (ptr (Some z) t) s1 = Some (Some p)"
    using up_ptr [OF iffD1 [OF shape_right s1(3)]] hung_keeps [OF hu s1(2)] by simp
  have "deleteFixup_right_tail (ptr (Some z) t) (Some wa) s = Some (Some p, s1)"
    using shape_node [OF hw] nephew_colors [OF hw] w s1(1) up by (simp add: deleteFixup_right_tail_def)
  moreover have "del_inv (Node p (Node wa wl RED kw vw wr) cp kp vp t) cs"
    using inv w by (auto simp: del_inv_def paint_BLACK [OF blk])
  moreover have "same_contents t0 (plug (Node p (Node wa wl RED kw vw wr) cp kp vp t) cs)"
    using eq by (simp add: same_contents_def inorder_plug set_addrs_plug)
  ultimately show ?thesis using s1(2,3) k unfolding rt_step_def
    by (auto intro!: exI [of _ "Node p (Node wa wl RED kw vw wr) cp kp vp t"])
qed

lemma deleteFixup_right_case34:
  assumes h: "shape z s t (FrameR p (Node wa wl BLACK kw vw wr) cp kp vp # cs)"
    and blk: "tree_color t = BLACK" and hu: "hung z s t (Some p)"
    and inv: "del_inv t (FrameR p (Node wa wl BLACK kw vw wr) cp kp vp # cs)"
    and w: "tree_color wr = RED \<or> tree_color wl = RED"
    and eq: "same_contents t0 (plug t (FrameR p (Node wa wl BLACK kw vw wr) cp kp vp # cs))"
  shows "runs (deleteFixup_right_tail (ptr (Some z) t) (Some wa) s) (rt_step z s t0 n)"
proof -
  have hp: "shape z s (Node p (Node wa wl BLACK kw vw wr) cp kp vp t) cs" using h by (simp add: shape_up)
  have hw: "shape z s (Node wa wl BLACK kw vw wr) (FrameL p cp kp vp t # cs)"
    using hp by (simp add: shape_left)
  note nw = shape_node [OF hw] nephew_colors [OF hw]
  show ?thesis
  proof (cases "tree_color wl")
    case RED
    then have last: "deleteFixup_right_tail (ptr (Some z) t) (Some wa) s =
        deleteFixup_right_last (ptr (Some z) t) (Some wa) s"
      using nw by (simp add: deleteFixup_right_tail_def)
    show ?thesis unfolding last
      by (rule rt_step_done [OF deleteFixup_right_last_ok [OF hp RED hu] keeps_refl])
        (use inv RED eq in \<open>auto simp: rbt_plug del_inv_def same_contents_def inorder_plug set_addrs_plug
          invc_paint_BLACK paint_BLACK [OF blk] bheight_paint_RED\<close>)
  next
    case BLACK
    with w obtain xa xr kx vx xl where wr: "wr = Node xa xl RED kx vx xr" by (cases wr) auto
    obtain s1 where s1: "(do { s \<leftarrow> paint_node (Some xa) BLACK s; s \<leftarrow> paint_node (Some wa) RED s;
        leftRotate (Some wa) s }) = Some s1" "keeps z s s1"
      "shape z s1 (Node p (Node xa (Node wa wl RED kw vw xl) BLACK kx vx xr) cp kp vp t) cs"
      using nephew_leftRotate [OF hp [unfolded wr]] by (auto elim!: runsE)
    have hu1: "hung z s1 t (Some p)" by (rule hung_keeps [OF hu s1(2)])
    have up: "up (ptr (Some z) t) s1 = Some (Some p)"
      using up_ptr [OF iffD1 [OF shape_right s1(3)]] hu1 by simp
    have last: "deleteFixup_right_tail (ptr (Some z) t) (Some wa) s =
        deleteFixup_right_last (ptr (Some z) t) (Some xa) s1"
      using nw wr BLACK s1(1) up shape_node [OF s1(3)]
      by (auto simp: deleteFixup_right_tail_def bind_eq_Some_conv)
    show ?thesis unfolding last
      by (rule rt_step_done [OF deleteFixup_right_last_ok [OF s1(3) _ hu1] s1(2)])
        (use inv BLACK eq wr in \<open>auto simp: rbt_plug del_inv_def same_contents_def inorder_plug set_addrs_plug
          paint_BLACK [OF blk]\<close>)
  qed
qed

lemma deleteFixup_right_tail_ok:
  assumes "shape z s t (FrameR p (Node wa wl BLACK kw vw wr) cp kp vp # cs)"
    and "tree_color t = BLACK" and "hung z s t (Some p)"
    and "del_inv t (FrameR p (Node wa wl BLACK kw vw wr) cp kp vp # cs)"
    and "length cs < n \<or> cp = RED"
    and "same_contents t0 (plug t (FrameR p (Node wa wl BLACK kw vw wr) cp kp vp # cs))"
  shows "runs (deleteFixup_right_tail (ptr (Some z) t) (Some wa) s) (rt_step z s t0 n)"
proof (cases "tree_color wr = RED \<or> tree_color wl = RED")
  case True
  then show ?thesis by (rule deleteFixup_right_case34 [OF assms(1-4) _ assms(6)])
next
  case False
  then have "tree_color wr = BLACK" "tree_color wl = BLACK" by simp_all
  then show ?thesis by (rule deleteFixup_right_case2 [OF assms(1-4) _ _ assms(5,6)])
qed

lemma rt_step_keeps: "runs m (rt_step z s1 t0 n) \<Longrightarrow> keeps z s s1 \<Longrightarrow> runs m (rt_step z s t0 n)"
  by (erule runs_mono) (auto simp: rt_step_def keeps_def)

lemma deleteFixup_left_step:
  assumes h: "shape z s t (FrameL p cp kp vp w # cs)" and blk: "tree_color t = BLACK" and hu: "hung z s t (Some p)"
    and inv: "del_inv t (FrameL p cp kp vp w # cs)"
  shows "runs (do { (w, s) \<leftarrow> deleteFixup_left_sibling (ptr (Some z) t) s; deleteFixup_left_tail (ptr (Some z) t) w s })
    (rt_step z s (plug t (FrameL p cp kp vp w # cs)) (Suc (length cs)))"
proof -
  obtain wa wl cw kw vw wr where w: "w = Node wa wl cw kw vw wr"
    using inv by (cases w) (auto simp: del_inv_def)
  have hp: "shape z s (Node p t cp kp vp (Node wa wl cw kw vw wr)) cs"
    and hw: "shape z s (Node wa wl cw kw vw wr) (FrameR p t cp kp vp # cs)"
    using h by (simp_all add: w shape_up)
  note np = shape_node [OF hp] color_at_ptr [OF hw] up_ptr [OF h] hu
  show ?thesis
  proof (cases cw)
    case BLACK
    have "deleteFixup_left_sibling (ptr (Some z) t) s = Some (Some wa, s)"
      using np BLACK by (simp add: deleteFixup_left_sibling_def)
    then show ?thesis
      using deleteFixup_left_tail_ok [OF h [unfolded w BLACK] blk hu inv [unfolded w BLACK]]
      by (simp add: w BLACK same_contents_def)
  next
    case RED
    obtain xa xl kx vx xr where wl: "wl = Node xa xl BLACK kx vx xr" and cp: "cp = BLACK"
      using inv RED by (cases wl) (auto simp: del_inv_def w)
    obtain s1 where s1: "paint_node (Some wa) BLACK s = Some s1" "keeps z s s1"
      "shape z s1 (Node p t BLACK kp vp (Node wa wl BLACK kw vw wr)) cs"
      using paint_node_shape [OF hw, of BLACK] by (auto elim!: runsE simp: shape_up cp)
    obtain s2 where s2: "paint_node (Some p) RED s1 = Some s2" "keeps z s1 s2"
      "shape z s2 (Node p t RED kp vp (Node wa wl BLACK kw vw wr)) cs"
      using paint_node_shape [OF s1(3), of RED] by (auto elim!: runsE)
    obtain s3 where s3: "leftRotate (Some p) s2 = Some s3" "keeps z s2 s3"
      "shape z s3 (Node wa (Node p t RED kp vp wl) BLACK kw vw wr) cs"
      using leftRotate_shape [OF s2(3)] by (auto elim!: runsE)
    have k3: "keeps z s s3" using s1(2) s2(2) s3(2) by (simp add: keeps_def)
    let ?cs = "FrameL p RED kp vp wl # FrameL wa BLACK kw vw wr # cs"
    have h3: "shape z s3 t ?cs" and hp3: "shape z s3 (Node p t RED kp vp wl) (FrameL wa BLACK kw vw wr # cs)"
      using s3(3) by (simp_all add: shape_left)
    have up: "up (ptr (Some z) t) s1 = Some (Some p)" "up (ptr (Some z) t) s3 = Some (Some p)"
      using up_ptr [OF iffD1 [OF shape_left s1(3)]] up_ptr [OF h3] hung_keeps [OF hu s1(2)] hung_keeps [OF hu k3]
      by simp_all
    have sib: "deleteFixup_left_sibling (ptr (Some z) t) s = Some (Some xa, s3)"
      using np RED s1(1) s2(1) s3(1) up shape_node [OF hp3] by (simp add: deleteFixup_left_sibling_def wl)
    have inv3: "del_inv t ?cs" and eq: "same_contents (plug t (FrameL p cp kp vp w # cs)) (plug t ?cs)"
      using inv by (auto simp: del_inv_def w RED cp wl same_contents_def inorder_plug set_addrs_plug)
    have "runs (deleteFixup_left_tail (ptr (Some z) t) (Some xa) s3)
        (rt_step z s3 (plug t (FrameL p cp kp vp w # cs)) (Suc (length cs)))"
      by (rule deleteFixup_left_tail_ok [OF h3 [unfolded wl] blk hung_keeps [OF hu k3] inv3 [unfolded wl] _ eq [unfolded wl]]) simp
    then show ?thesis using sib rt_step_keeps [OF _ k3] by simp
  qed
qed

lemma deleteFixup_right_step:
  assumes h: "shape z s t (FrameR p w cp kp vp # cs)" and blk: "tree_color t = BLACK" and hu: "hung z s t (Some p)"
    and inv: "del_inv t (FrameR p w cp kp vp # cs)"
  shows "runs (do { (w, s) \<leftarrow> deleteFixup_right_sibling (ptr (Some z) t) s; deleteFixup_right_tail (ptr (Some z) t) w s })
    (rt_step z s (plug t (FrameR p w cp kp vp # cs)) (Suc (length cs)))"
proof -
  obtain wa wr cw kw vw wl where w: "w = Node wa wl cw kw vw wr"
    using inv by (cases w) (auto simp: del_inv_def)
  have hp: "shape z s (Node p (Node wa wl cw kw vw wr) cp kp vp t) cs"
    and hw: "shape z s (Node wa wl cw kw vw wr) (FrameL p cp kp vp t # cs)"
    using h by (simp_all add: w shape_up)
  note np = shape_node [OF hp] color_at_ptr [OF hw] up_ptr [OF h] hu
  show ?thesis
  proof (cases cw)
    case BLACK
    have "deleteFixup_right_sibling (ptr (Some z) t) s = Some (Some wa, s)"
      using np BLACK by (simp add: deleteFixup_right_sibling_def)
    then show ?thesis
      using deleteFixup_right_tail_ok [OF h [unfolded w BLACK] blk hu inv [unfolded w BLACK]]
      by (simp add: w BLACK same_contents_def)
  next
    case RED
    obtain xa xr kx vx xl where wr: "wr = Node xa xl BLACK kx vx xr" and cp: "cp = BLACK"
      using inv RED by (cases wr) (auto simp: del_inv_def w)
    obtain s1 where s1: "paint_node (Some wa) BLACK s = Some s1" "keeps z s s1"
      "shape z s1 (Node p (Node wa wl BLACK kw vw wr) BLACK kp vp t) cs"
      using paint_node_shape [OF hw, of BLACK] by (auto elim!: runsE simp: shape_up cp)
    obtain s2 where s2: "paint_node (Some p) RED s1 = Some s2" "keeps z s1 s2"
      "shape z s2 (Node p (Node wa wl BLACK kw vw wr) RED kp vp t) cs"
      using paint_node_shape [OF s1(3), of RED] by (auto elim!: runsE)
    obtain s3 where s3: "rightRotate (Some p) s2 = Some s3" "keeps z s2 s3"
      "shape z s3 (Node wa wl BLACK kw vw (Node p wr RED kp vp t)) cs"
      using rightRotate_shape [OF s2(3)] by (auto elim!: runsE)
    have k3: "keeps z s s3" using s1(2) s2(2) s3(2) by (simp add: keeps_def)
    let ?cs = "FrameR p wr RED kp vp # FrameR wa wl BLACK kw vw # cs"
    have h3: "shape z s3 t ?cs" and hp3: "shape z s3 (Node p wr RED kp vp t) (FrameR wa wl BLACK kw vw # cs)"
      using s3(3) by (simp_all add: shape_right)
    have up: "up (ptr (Some z) t) s1 = Some (Some p)" "up (ptr (Some z) t) s3 = Some (Some p)"
      using up_ptr [OF iffD1 [OF shape_right s1(3)]] up_ptr [OF h3] hung_keeps [OF hu s1(2)] hung_keeps [OF hu k3]
      by simp_all
    have sib: "deleteFixup_right_sibling (ptr (Some z) t) s = Some (Some xa, s3)"
      using np RED s1(1) s2(1) s3(1) up shape_node [OF hp3] by (simp add: deleteFixup_right_sibling_def wr)
    have inv3: "del_inv t ?cs" and eq: "same_contents (plug t (FrameR p w cp kp vp # cs)) (plug t ?cs)"
      using inv by (auto simp: del_inv_def w RED cp wr same_contents_def inorder_plug set_addrs_plug)
    have "runs (deleteFixup_right_tail (ptr (Some z) t) (Some xa) s3)
        (rt_step z s3 (plug t (FrameR p w cp kp vp # cs)) (Suc (length cs)))"
      by (rule deleteFixup_right_tail_ok [OF h3 [unfolded wr] blk hung_keeps [OF hu k3] inv3 [unfolded wr] _ eq [unfolded wr]]) simp
    then show ?thesis using sib rt_step_keeps [OF _ k3] by simp
  qed
qed

lemma deleteFixup_body_step:
  assumes h: "shape z s t (f # cs)" and blk: "tree_color t = BLACK" and hu: "hung z s t (par (f # cs))"
    and inv: "del_inv t (f # cs)"
  shows "runs (deleteFixup_body (ptr (Some z) t) s) (rt_step z s (plug t (f # cs)) (length (f # cs)))"
proof (cases f)
  case f: (FrameL p cp kp vp w)
  have "shape z s (Node p t cp kp vp w) cs" using h by (simp add: f shape_up)
  from shape_node [OF this] up_ptr [OF h hu] have body: "deleteFixup_body (ptr (Some z) t) s =
      do { (w, s) \<leftarrow> deleteFixup_left_sibling (ptr (Some z) t) s; deleteFixup_left_tail (ptr (Some z) t) w s }"
    by (simp add: deleteFixup_body_def f)
  show ?thesis unfolding body
    using deleteFixup_left_step [OF h [unfolded f] blk _ inv [unfolded f]] hu by (simp add: f)
next
  case f: (FrameR p w cp kp vp)
  have "w \<noteq> Leaf" using inv by (auto simp: del_inv_def f)
  then have ne: "ptr (Some z) t \<noteq> ptr (Some z) w" using h by (cases w; cases t) (auto simp: shape_def focus_def f)
  have "shape z s (Node p w cp kp vp t) cs" using h by (simp add: f shape_up)
  from shape_node [OF this] up_ptr [OF h hu] ne have body: "deleteFixup_body (ptr (Some z) t) s =
      do { (w, s) \<leftarrow> deleteFixup_right_sibling (ptr (Some z) t) s; deleteFixup_right_tail (ptr (Some z) t) w s }"
    by (simp add: deleteFixup_body_def f)
  show ?thesis unfolding body
    using deleteFixup_right_step [OF h [unfolded f] blk _ inv [unfolded f]] hu by (simp add: f)
qed

text \<open>The loop is done when painting its node black gives a red-black tree.\<close>

definition rt_done :: "addr \<Rightarrow> 'a rt \<Rightarrow> ('a, 'a) tree \<Rightarrow> addr option \<times> 'a rt \<Rightarrow> bool" where
  "rt_done z s t0 = (\<lambda>(n, s'). keeps z s s' \<and> (\<exists>t' cs'. n = ptr (Some z) t' \<and> shape z s' t' cs' \<and>
     rbt (plug (paint BLACK t') cs') \<and> same_contents t0 (plug t' cs')))"

lemma deleteFixup_loop_now:
  assumes h: "shape z s t cs" and "cs = [] \<or> tree_color t = RED"
  shows "deleteFixup_loop (ptr (Some z) t) s = Some (ptr (Some z) t, s)"
proof (cases "cs = []")
  case True
  then have "rt_root s = ptr (Some z) t" using shape_root [of z s t] h by simp
  then show ?thesis by (subst deleteFixup_loop.simps) simp
next
  case False
  then show ?thesis using assms color_at_ptr [OF h] by (subst deleteFixup_loop.simps) simp
qed

lemma rt_done_now:
  assumes "shape z s t cs" and "cs = [] \<and> rbt t \<or> del_inv t cs \<and> (cs = [] \<or> tree_color t = RED)"
  shows "rt_done z s (plug t cs) (ptr (Some z) t, s)"
proof -
  from assms(2) have "rbt (plug (paint BLACK t) cs)"
  proof
    assume "cs = [] \<and> rbt t"
    then show ?thesis by (simp add: rbt_def invc_paint_BLACK)
  next
    assume "del_inv t cs \<and> (cs = [] \<or> tree_color t = RED)"
    then show ?thesis by (auto simp: rbt_plug del_inv_def bheight_paint_RED)
  qed
  then show ?thesis using assms(1) unfolding rt_done_def same_contents_def by auto
qed

lemma rt_done_trans:
  assumes "runs m (rt_done z s1 t1)" and "keeps z s s1" and "same_contents t0 t1"
  shows "runs m (rt_done z s t0)"
  using assms(1) by (rule runs_mono) (use assms(2,3) in \<open>auto simp: rt_done_def keeps_def same_contents_def\<close>)

lemma deleteFixup_loop_ok:
  "shape z s t cs \<Longrightarrow> del_inv t cs \<Longrightarrow> hung z s t (par cs) \<Longrightarrow>
   runs (deleteFixup_loop (ptr (Some z) t) s) (rt_done z s (plug t cs))"
proof (induction "length cs" arbitrary: s t cs rule: less_induct)
  case less
  show ?case
  proof (cases "cs = [] \<or> tree_color t = RED")
    case True
    then show ?thesis using less.prems deleteFixup_loop_now [OF less.prems(1)] rt_done_now [OF less.prems(1)] by simp
  next
    case False
    then obtain f cs0 where cs: "cs = f # cs0" and blk: "tree_color t = BLACK" by (cases cs) auto
    have nr: "ptr (Some z) t \<noteq> rt_root s"
      using focus_not_root [of "Some z" "rt_heap s" "rt_root s" t cs] less.prems(1) cs by (simp add: shape_def)
    have loop: "deleteFixup_loop (ptr (Some z) t) s =
        do { (x', s') \<leftarrow> deleteFixup_body (ptr (Some z) t) s; deleteFixup_loop x' s' }"
      using nr color_at_ptr [OF less.prems(1)] blk by (subst deleteFixup_loop.simps) simp
    have "runs (deleteFixup_body (ptr (Some z) t) s) (rt_step z s (plug t cs) (length cs))"
      unfolding cs by (rule deleteFixup_body_step) (use less.prems blk in \<open>simp_all add: cs\<close>)
    then obtain t' cs' s' where n: "deleteFixup_body (ptr (Some z) t) s = Some (ptr (Some z) t', s')" "keeps z s s'"
        "t' \<noteq> Leaf" "shape z s' t' cs'" "same_contents (plug t cs) (plug t' cs')"
        "cs' = [] \<and> rbt t' \<or> del_inv t' cs' \<and> (length cs' < length cs \<or> tree_color t' = RED)"
      by (elim runsE) (auto simp: rt_step_def)
    have hu: "hung z s' t' (par cs')" using n(3) by (simp add: hung_def)
    have "runs (deleteFixup_loop (ptr (Some z) t') s') (rt_done z s' (plug t' cs'))"
    proof (cases "cs' = [] \<or> tree_color t' = RED")
      case True
      then show ?thesis using deleteFixup_loop_now [OF n(4)] rt_done_now [OF n(4)] n(6) by auto
    next
      case False
      then show ?thesis using less.hyps [OF _ n(4) _ hu] n(6) by auto
    qed
    then show ?thesis using rt_done_trans [OF _ n(2,5)] by (simp add: loop n(1))
  qed
qed

lemma deleteFixup_ok:
  assumes h: "shape z s t cs" and inv: "del_inv t cs" and hu: "hung z s t (par cs)"
  shows "runs (deleteFixup (ptr (Some z) t) s) (\<lambda>s'. keeps z s s' \<and>
    (\<exists>t'. shape z s' t' [] \<and> rbt t' \<and> same_contents (plug t cs) t'))"
proof -
  obtain s1 t1 cs1 where s1: "deleteFixup_loop (ptr (Some z) t) s = Some (ptr (Some z) t1, s1)"
      "keeps z s s1" "shape z s1 t1 cs1" "rbt (plug (paint BLACK t1) cs1)" "same_contents (plug t cs) (plug t1 cs1)"
    using deleteFixup_loop_ok [OF h inv hu] by (auto simp: rt_done_def elim!: runsE)
  obtain s2 where s2: "paint_node (ptr (Some z) t1) BLACK s1 = Some s2" "shape z s2 (paint BLACK t1) cs1" "keeps z s1 s2"
    using paint_BLACK_shape [OF s1(3)] by (elim runsE) auto
  have run: "deleteFixup (ptr (Some z) t) s = Some s2" using s1(1) s2(1) by (simp add: deleteFixup_def)
  have "same_contents (plug t cs) (plug (paint BLACK t1) cs1)"
    using s1(5) by (simp add: same_contents_def inorder_plug set_addrs_plug)
  moreover have "shape z s2 (plug (paint BLACK t1) cs1) []" using s2(2) by (simp add: shape_plug [symmetric])
  ultimately show ?thesis unfolding run runs_Some using keeps_trans [OF s1(2) s2(3)] s1(4) by blast
qed

section \<open>Unlinking a node\<close>

text \<open>\<open>transplant\<close> may set the parent of the sentinel; everything else but the sentinel's parent stays.\<close>

definition almost :: "addr \<Rightarrow> 'a rt \<Rightarrow> 'a rt \<Rightarrow> bool" where
  "almost z s s' \<longleftrightarrow> rt_nil s' = rt_nil s \<and> rt_next s' = rt_next s \<and> dom (rt_heap s') = dom (rt_heap s)"

lemma almost_trans: "almost z s t \<Longrightarrow> almost z t u \<Longrightarrow> almost z s u"
  by (simp add: almost_def)

lemma keeps_almost: "keeps z s t \<Longrightarrow> almost z s t"
  by (simp add: almost_def keeps_def)

lemma rt_transplant_child:
  assumes "shape z s (Node a l c k v r) cs" and "x = l \<or> x = r"
  shows "runs (rt_transplant (Some a) (ptr (Some z) x) s)
    (\<lambda>s'. almost z s s' \<and> shape z s' x cs \<and> hung z s' x (par cs) \<and> rt_heap s' a = rt_heap s a)"
  using assms
  by (cases x; cases cs rule: par.cases)
    (auto simp: shape_def sentinel_def focus_def rt_transplant_def relink_def up_def upd_node_def almost_def hung_def)

lemma rt_minimum_ok:
  assumes "shape z s t cs" and "t \<noteq> Leaf"
  shows "\<exists>y c k v r ups. t = plug (Node y Leaf c k v r) ups \<and> rt_minimum (ptr (Some z) t) s = Some (Some y) \<and>
    lefts ups = []"
  using assms
proof (induction t arbitrary: cs)
  case (Node a l c k v r)
  note step = rt_minimum.simps [of "Some a" s]
  note n = shape_node [OF Node.prems(1)] shape_nil [OF Node.prems(1)]
  have hl: "shape z s l (FrameL a c k v r # cs)" using Node.prems(1) by (simp add: shape_left)
  show ?case
  proof (cases "l = Leaf")
    case True
    then show ?thesis
      by (intro exI [of _ a] exI [of _ c] exI [of _ k] exI [of _ v] exI [of _ r] exI [of _ "[]"]) (simp add: step n)
  next
    case False
    then obtain y c' k' v' r' ups where l: "l = plug (Node y Leaf c' k' v' r') ups"
        "rt_minimum (ptr (Some z) l) s = Some (Some y)" "lefts ups = []"
      using Node.IH(1) [OF hl] by blast
    moreover have "ptr (Some z) l \<noteq> Some z" using False ptr_nil [OF hl] by simp
    ultimately show ?thesis
      by (intro exI [of _ y] exI [of _ c'] exI [of _ k'] exI [of _ v'] exI [of _ r']
          exI [of _ "ups @ [FrameL a c k v r]"]) (auto simp: step n plug_append lefts_append)
  qed
qed simp

text \<open>The situation \<open>take_over\<close> starts from: \<open>y\<close> has its right subtree in place of \<open>a\<close>'s.\<close>

definition ready :: "addr \<Rightarrow> 'a rt \<Rightarrow> addr \<Rightarrow> ('a, 'a) tree \<Rightarrow> color \<Rightarrow> addr \<Rightarrow> 'a \<Rightarrow> 'a \<Rightarrow>
    ('a, 'a) tree \<Rightarrow> ('a, 'a) ctx \<Rightarrow> bool" where
  "ready z s a l c y k v r cs \<longleftrightarrow> sentinel z s \<and>
     (\<exists>na. rt_heap s a = Some na \<and> left na = ptr (Some z) l \<and> parent na = par cs \<and> color na = c) \<and>
     (\<exists>ny. rt_heap s y = Some ny \<and> key ny = k \<and> val ny = v \<and> right ny = ptr (Some z) r) \<and>
     repr (Some z) (rt_heap s) (Some a) l \<and> repr (Some z) (rt_heap s) (Some y) r \<and>
     crepr (Some z) (rt_heap s) (rt_root s) (Some a) cs \<and>
     distinct (z # a # y # addrs l @ addrs r @ caddrs cs)"

lemma take_over_ok:
  assumes "ready z s a l c y k v r cs" and "l \<noteq> Leaf"
  shows "runs (take_over (Some a) (Some y) s) (\<lambda>s'. keeps z s s' \<and> shape z s' (Node y l c k v r) cs)"
  using assms unfolding ready_def
  by (cases l; cases cs rule: par.cases)
    (auto simp: take_over_def shape_def sentinel_def focus_def rt_transplant_def relink_def up_def upd_node_def
      paint_node_def keeps_def)

lemma take_right_subtree:
  assumes "shape z s (Node a l c k' v' r) cs" and "r \<noteq> Leaf"
    and "rt_heap s y = Some ny" and "key ny = k" and "val ny = v" and "y \<noteq> z"
    and "y \<notin> set (addrs (plug (Node a l c k' v' r) cs))"
  shows "runs (do {
        nz \<leftarrow> node_at (Some a) s;
        s \<leftarrow> upd_node (Some y) (\<lambda>n. n\<lparr>right := right nz\<rparr>) s;
        upd_node (right nz) (\<lambda>n. n\<lparr>parent := Some y\<rparr>) s })
    (\<lambda>s'. keeps z s s' \<and> ready z s' a l c y k v r cs)"
  using assms
  by (cases r) (auto simp: shape_def sentinel_def focus_def upd_node_def keeps_def ready_def set_addrs_plug)

lemma lift_child_ok:
  assumes "shape z s (Node y Leaf cy ky vy yr) (FrameR a l c k v # cs)"
  shows "runs (lift_successor (Some a) (Some y) (ptr (Some z) yr) s) (\<lambda>s'. almost z s s' \<and>
    ready z s' a l c y ky vy yr cs \<and> hung z s' yr (Some y))"
  using assms up_node [OF assms]
  by (cases yr) (auto simp: lift_successor_def shape_def sentinel_def focus_def upd_node_def almost_def ready_def hung_def)

lemma lift_deep_ok:
  assumes hy: "shape z s (Node y Leaf cy ky vy yr) (ups @ FrameR a l c k v # cs)" and ne: "ups \<noteq> []"
  shows "runs (lift_successor (Some a) (Some y) (ptr (Some z) yr) s) (\<lambda>s'. almost z s s' \<and>
    ready z s' a l c y ky vy (plug yr ups) cs \<and> hung z s' yr (par (ups @ FrameR y l c ky vy # cs)))"
proof -
  let ?cs = "ups @ FrameR a l c k v # cs"
  obtain s1 where s1: "rt_transplant (Some y) (ptr (Some z) yr) s = Some s1" "almost z s s1" "shape z s1 yr ?cs"
      "hung z s1 yr (par ?cs)" "rt_heap s1 y = rt_heap s y"
    using rt_transplant_child [OF hy, of yr] by (auto elim!: runsE)
  have p: "par ?cs \<noteq> Some a" "par ?cs = par (ups @ FrameR y l c ky vy # cs)"
    using ne hy by (cases ups rule: par.cases; auto simp: shape_def focus_def caddrs_append)+
  have y: "y \<notin> set (addrs (plug (Node a l c k v (plug yr ups)) cs))"
    using hy by (auto simp: set_addrs_plug caddrs_append shape_def focus_def)
  have h1: "shape z s1 (Node a l c k v (plug yr ups)) cs"
    using s1(3) by (simp add: shape_append shape_up)
  have ny: "rt_heap s1 y = Some \<lparr>key = ky, val = vy, color = cy, left = Some z, right = ptr (Some z) yr,
      parent = par ?cs\<rparr>" using shape_node [OF hy] s1(5) by simp
  obtain s2 where s2: "(do {
        nz \<leftarrow> node_at (Some a) s1;
        s \<leftarrow> upd_node (Some y) (\<lambda>n. n\<lparr>right := right nz\<rparr>) s1;
        upd_node (right nz) (\<lambda>n. n\<lparr>parent := Some y\<rparr>) s }) = Some s2"
      "keeps z s1 s2" "ready z s2 a l c y ky vy (plug yr ups) cs"
    using take_right_subtree [OF h1 _ ny refl refl shape_ne_nil [OF hy] y] ne by (auto elim!: runsE)
  have "lift_successor (Some a) (Some y) (ptr (Some z) yr) s = Some s2"
    using up_node [OF hy] p(1) shape_node [OF hy] s1(1) s2(1) by (simp add: lift_successor_def)
  moreover have "hung z s2 yr (par (ups @ FrameR y l c ky vy # cs))"
    using hung_keeps [OF s1(4) s2(2)] by (simp only: p(2))
  ultimately show ?thesis using s2(3) almost_trans [OF s1(2) keeps_almost [OF s2(2)]] by simp
qed

text \<open>What \<open>cut\<close> establishes: \<open>a\<close> is out of the tree, \<open>x\<close> is in focus.\<close>

definition cut_off :: "addr \<Rightarrow> 'a rt \<Rightarrow> addr \<Rightarrow> ('a \<times> 'a) list \<Rightarrow> addr set \<Rightarrow>
    color \<times> addr option \<times> 'a rt \<Rightarrow> bool" where
  "cut_off z s a ps as = (\<lambda>(oc, x, s'). almost z s s' \<and> (\<exists>t' cs'. x = ptr (Some z) t' \<and> shape z s' t' cs' \<and>
     hung z s' t' (par cs') \<and> inorder (plug t' cs') = ps \<and> set (addrs (plug t' cs')) = as - {a} \<and>
     (oc = RED \<longrightarrow> rbt (plug t' cs')) \<and> (oc = BLACK \<longrightarrow> del_inv t' cs')))"

lemma cut_one_child:
  assumes h: "shape z s (Node a l c k v r) cs" and rb: "rbt (plug (Node a l c k v r) cs)"
    and x: "l = Leaf \<and> x = r \<or> r = Leaf \<and> x = l"
  shows "runs (do { s \<leftarrow> rt_transplant (Some a) (ptr (Some z) x) s; Some (c, ptr (Some z) x, s) })
    (cut_off z s a (lefts cs @ inorder l @ inorder r @ rights cs) (set (addrs (plug (Node a l c k v r) cs))))"
proof -
  obtain s1 where s1: "rt_transplant (Some a) (ptr (Some z) x) s = Some s1" "almost z s s1" "shape z s1 x cs"
      "hung z s1 x (par cs)"
    using rt_transplant_child [OF h, of x] x by (auto elim!: runsE)
  have d: "a \<notin> set (addrs x) \<union> set (caddrs cs)" using h x by (auto simp: shape_def focus_def)
  have "inorder (plug x cs) = lefts cs @ inorder l @ inorder r @ rights cs \<and>
      set (addrs (plug x cs)) = set (addrs (plug (Node a l c k v r) cs)) - {a}"
    using x d by (auto simp: inorder_plug set_addrs_plug)
  then show ?thesis using s1 hole_inv [OF rb x]
    by (auto simp: cut_off_def intro!: exI [of _ x] exI [of _ cs])
qed

lemma cut_two_children:
  assumes h: "shape z s (Node a l c k v r) cs" and rb: "rbt (plug (Node a l c k v r) cs)"
    and ne: "l \<noteq> Leaf" "r \<noteq> Leaf"
  shows "runs (cut (Some a) s) (cut_off z s a (lefts cs @ inorder l @ inorder r @ rights cs)
      (set (addrs (plug (Node a l c k v r) cs))))"
proof -
  have hr: "shape z s r (FrameR a l c k v # cs)" and hl: "shape z s l (FrameL a c k v r # cs)"
    using h by (simp_all add: shape_right [symmetric] shape_left [symmetric])
  obtain y cy ky vy yr ups where r: "r = plug (Node y Leaf cy ky vy yr) ups" "lefts ups = []"
      "rt_minimum (ptr (Some z) r) s = Some (Some y)"
    using rt_minimum_ok [OF hr ne(2)] by blast
  let ?cs = "ups @ FrameR a l c k v # cs" and ?cs' = "ups @ FrameR y l c ky vy # cs"
  have hy: "shape z s (Node y Leaf cy ky vy yr) ?cs" using hr by (simp add: r shape_append)
  have hole: "cy = RED \<Longrightarrow> rbt (plug yr ?cs')" "cy = BLACK \<Longrightarrow> del_inv yr ?cs'"
    using hole_inv [of y Leaf cy ky vy yr ?cs yr] rb
    by (auto simp: plug_append r rbt_plug del_inv_def cinv_FrameR [of _ ups a l c k v cs y ky vy]
        ctx_color_FrameR [of ups a l c k v cs y ky vy])
  have nn: "ptr (Some z) l \<noteq> Some z" "ptr (Some z) r \<noteq> Some z" using ne ptr_nil [OF hl] ptr_nil [OF hr] by simp_all
  obtain s1 where s1: "lift_successor (Some a) (Some y) (ptr (Some z) yr) s = Some s1" "almost z s s1"
      "ready z s1 a l c y ky vy (plug yr ups) cs" "hung z s1 yr (par ?cs')"
    using lift_deep_ok [OF hy] lift_child_ok [of z s y cy ky vy yr a l c k v cs] hy
    by (cases "ups = []") (auto elim!: runsE)
  obtain s2 where s2: "take_over (Some a) (Some y) s1 = Some s2" "keeps z s1 s2" "shape z s2 yr ?cs'"
    using take_over_ok [OF s1(3) ne(1)] by (auto elim!: runsE simp: shape_append shape_up)
  have "cut (Some a) s = Some (cy, ptr (Some z) yr, s2)"
    using shape_node [OF h] shape_nil [OF h] nn shape_node [OF hy] s1(1) s2(1) r(3) by (simp add: cut_def)
  moreover have "inorder (plug yr ?cs') = lefts cs @ inorder l @ inorder r @ rights cs"
    by (simp add: inorder_plug lefts_append rights_append r)
  moreover have "set (addrs (plug yr ?cs')) = set (addrs (plug (Node a l c k v r) cs)) - {a}"
    using hy by (auto simp: set_addrs_plug caddrs_append r shape_def focus_def)
  ultimately show ?thesis
    using almost_trans [OF s1(2) keeps_almost [OF s2(2)]] s2(3) hole hung_keeps [OF s1(4) s2(2)]
    by (auto simp: cut_off_def intro!: exI [of _ yr] exI [of _ ?cs'])
qed

lemma cut_ok:
  assumes h: "shape z s (Node a l c k v r) cs" and rb: "rbt (plug (Node a l c k v r) cs)"
  shows "runs (cut (Some a) s) (cut_off z s a (lefts cs @ inorder l @ inorder r @ rights cs)
      (set (addrs (plug (Node a l c k v r) cs))))"
proof -
  note n = shape_node [OF h] shape_nil [OF h]
  have hl: "shape z s l (FrameL a c k v r # cs)" using h by (simp add: shape_left)
  consider "l = Leaf" | "l \<noteq> Leaf" "r = Leaf" | "l \<noteq> Leaf" "r \<noteq> Leaf" by blast
  then show ?thesis
  proof cases
    case 1
    then show ?thesis using n cut_one_child [OF h rb, of r] by (simp add: cut_def)
  next
    case 2
    moreover from this have "ptr (Some z) l \<noteq> Some z" using ptr_nil [OF hl] by simp
    ultimately show ?thesis using n cut_one_child [OF h rb, of l] by (simp add: cut_def)
  next
    case 3
    then show ?thesis by (rule cut_two_children [OF h rb])
  qed
qed

section \<open>The method \<open>remove\<close>\<close>

lemma rt_repair_ok:
  assumes h: "shape z s t cs" and hu: "hung z s t (par cs)"
    and c: "oc = RED \<longrightarrow> rbt (plug t cs)" "oc = BLACK \<longrightarrow> del_inv t cs"
  shows "runs (if oc = BLACK then deleteFixup (ptr (Some z) t) s else Some s)
    (\<lambda>s'. keeps z s s' \<and> (\<exists>t'. shape z s' t' [] \<and> rbt t' \<and> same_contents (plug t cs) t'))"
proof (cases oc)
  case RED
  then show ?thesis using h c
    by (auto simp: same_contents_def shape_plug [symmetric] intro!: exI [of _ "plug t cs"])
next
  case BLACK
  then show ?thesis using deleteFixup_ok [OF h _ hu] c by simp
qed

text \<open>The end of \<open>remove\<close>: the sentinel's parent is reset and the node destroyed.\<close>

lemma rt_release_ok:
  assumes h: "shape z s t []" and a: "a \<notin> set (addrs t)" "a \<noteq> z"
  shows "runs (do { s \<leftarrow> upd_node (rt_nil s) (\<lambda>n. n\<lparr>parent := None\<rparr>) s; Some (s\<lparr>rt_heap := (rt_heap s)(a := None)\<rparr>) })
    (\<lambda>s'. shape z s' t [] \<and> rt_next s' = rt_next s \<and> dom (rt_heap s') = dom (rt_heap s) - {a})"
  using assms by (auto simp: shape_def sentinel_def focus_def upd_node_def)

lemma rt_remove_found:
  assumes inv: "rt_inv z s t" and land: "lands k t (Node a l c k v r) cs" and h: "shape z s (Node a l c k v r) cs"
    and find: "searchNode k s = Some (Some a)"
  shows "runs (rt_remove k s) (\<lambda>s'. rt_repr s' (del_list k (inorder t)))"
proof -
  have t: "t = plug (Node a l c k v r) cs" and rb: "rbt (plug (Node a l c k v r) cs)" and srt: "sorted1 (inorder t)"
    using land inv by (auto simp: lands_def rt_inv_def)
  note del = lands_Node(5) [OF land srt]
  have az: "a \<noteq> z" by (rule shape_ne_nil [OF h])
  from cut_ok [OF h rb, folded t, folded del] obtain oc x s1 where s1r: "cut (Some a) s = Some (oc, x, s1)"
    and "cut_off z s a (del_list k (inorder t)) (set (addrs t)) (oc, x, s1)"
    by (auto elim!: runsE)
  then obtain t1 cs1 where s1: "almost z s s1" "x = ptr (Some z) t1" "shape z s1 t1 cs1" "hung z s1 t1 (par cs1)"
      "inorder (plug t1 cs1) = del_list k (inorder t)" "set (addrs (plug t1 cs1)) = set (addrs t) - {a}"
      "oc = RED \<longrightarrow> rbt (plug t1 cs1)" "oc = BLACK \<longrightarrow> del_inv t1 cs1"
    by (auto simp: cut_off_def)
  from rt_repair_ok [OF s1(3,4,7,8)] obtain s2 where
      s2r: "(if oc = BLACK then deleteFixup x s1 else Some s1) = Some s2"
    and "keeps z s1 s2 \<and> (\<exists>t'. shape z s2 t' [] \<and> rbt t' \<and> same_contents (plug t1 cs1) t')"
    unfolding s1(2) by (rule runsE)
  then obtain t2 where s2: "keeps z s1 s2" "shape z s2 t2 []" "rbt t2" "same_contents (plug t1 cs1) t2" by blast
  have io: "inorder t2 = del_list k (inorder t)" "set (addrs t2) = set (addrs t) - {a}"
    using s2(4) s1(5,6) by (simp_all add: same_contents_def)
  have "a \<notin> set (addrs t2)" by (simp add: io(2))
  from rt_release_ok [OF s2(2) this az] obtain s3 where
      s3r: "(do { s \<leftarrow> upd_node (rt_nil s2) (\<lambda>n. n\<lparr>parent := None\<rparr>) s2;
        Some (s\<lparr>rt_heap := (rt_heap s)(a := None)\<rparr>) }) = Some s3"
    and s3: "shape z s3 t2 [] \<and> rt_next s3 = rt_next s2 \<and> dom (rt_heap s3) = dom (rt_heap s2) - {a}"
    by (rule runsE)
  have "rt_remove k s = Some s3"
    using find s1r s2r s3r shape_nil [OF h] az by (simp add: rt_remove_def)
  moreover have "rt_inv z s3 t2"
    using inv s3 s2(1,3) s1(1) az srt io sorted1_del_list [OF srt, of k]
    by (auto simp: rt_inv_def keeps_def almost_def)
  ultimately show ?thesis using io(1) by (auto simp: rt_repr_def)
qed

lemma rt_remove_ok:
  assumes "rt_repr s ps"
  shows "runs (rt_remove k s) (\<lambda>s'. rt_repr s' (del_list k ps))"
proof -
  obtain z t where inv: "rt_inv z s t" and ps: "inorder t = ps" using assms by (auto simp: rt_repr_def)
  have srt: "sorted1 (inorder t)" using inv by (simp add: rt_inv_def)
  obtain t' cs where f: "shape z s t' cs" "lands k t t' cs" "searchNode k s = Some (found t')"
    using searchNode_ok [OF inv] by blast
  show ?thesis
  proof (cases t')
    case Leaf
    then have "k \<notin> fst ` set ps" using lands_Leaf(1) [OF _ srt] f(2) ps by blast
    then show ?thesis using f(3) Leaf assms by (simp add: rt_remove_def del_list_absent)
  next
    case (Node a l c k' v r)
    have "k' = k" by (rule lands_Node(1) [OF f(2) [unfolded Node] srt])
    then show ?thesis using rt_remove_found [OF inv] f ps by (simp add: Node)
  qed
qed

end
