(* ===== verification/Sentinel_Map.thy ===== *)
theory Sentinel_Map
  imports Sentinel_Delete
begin

text \<open>
  The remaining methods of \<open>RBTree<T>\<close> and its properties: lookups and their exceptions, the extreme keys,
  the traversals, the validator, the height, and the class as an ordered map.
\<close>

section \<open>Lookups\<close>

lemma rt_get_ok:
  assumes "rt_repr s ps"
  shows "rt_get k s = Some (case map_of ps k of None \<Rightarrow> Inl Key_not_found | Some v \<Rightarrow> Inr v)"
proof -
  obtain z t where inv: "rt_inv z s t" and ps: "inorder t = ps" using assms by (auto simp: rt_repr_def)
  have srt: "sorted1 (inorder t)" using inv by (simp add: rt_inv_def)
  obtain t' cs where f: "shape z s t' cs" "lands k t t' cs" "searchNode k s = Some (found t')"
    using searchNode_ok [OF inv] by blast
  show ?thesis
  proof (cases t')
    case Leaf
    then have "map_of ps k = None" using lands_Leaf(1) [OF _ srt] f(2) ps by (simp add: map_of_none_iff)
    then show ?thesis using f(3) Leaf by (simp add: rt_get_def)
  next
    case (Node a l c k' v r)
    then show ?thesis using f(3) lands_Node(3) [OF f(2) [unfolded Node] srt] shape_node [OF f(1) [unfolded Node]] ps
      by (simp add: rt_get_def)
  qed
qed

lemma rt_modify_ok:
  assumes "rt_repr s ps"
  shows "runs (rt_modify k v s) (\<lambda>s'. rt_repr s' (if k \<in> fst ` set ps then upd_list k v ps else ps))"
proof -
  obtain z t where inv: "rt_inv z s t" and ps: "inorder t = ps" using assms by (auto simp: rt_repr_def)
  have srt: "sorted1 (inorder t)" using inv by (simp add: rt_inv_def)
  obtain t' cs where f: "shape z s t' cs" "lands k t t' cs" "searchNode k s = Some (found t')"
    using searchNode_ok [OF inv] by blast
  show ?thesis
  proof (cases t')
    case Leaf
    then have "k \<notin> fst ` set ps" using lands_Leaf(1) [OF _ srt] f(2) ps by blast
    then show ?thesis using f(3) Leaf assms by (simp add: rt_modify_def)
  next
    case t': (Node a l c k' w r)
    note land = f(2) [unfolded t'] and h = f(1) [unfolded t']
    have k': "k' = k" by (rule lands_Node(1) [OF land srt])
    have t: "t = plug (Node a l c k w r) cs" using land k' by (simp add: lands_def)
    have "runs (upd_node (Some a) (\<lambda>n. n\<lparr>val := v\<rparr>) s) (\<lambda>s'. shape z s' (Node a l c k v r) cs \<and> keeps z s s')"
      using h k' by (auto simp: shape_def sentinel_def focus_def upd_node_def keeps_def)
    then obtain s' where s': "upd_node (Some a) (\<lambda>n. n\<lparr>val := v\<rparr>) s = Some s'" "shape z s' (Node a l c k v r) cs"
        "keeps z s s'" by (auto elim!: runsE)
    have io: "inorder (plug (Node a l c k v r) cs) = upd_list k v (inorder t)"
      using lands_Node(4) [OF land srt, of v] k' by simp
    have "rbt (plug (Node a l c k v r) cs)" using inv unfolding rt_inv_def t rbt_plug by simp
    then have "rt_inv z s' (plug (Node a l c k v r) cs)"
      using inv s'(2,3) sorted1_upd_list [OF srt, of k v] unfolding rt_inv_def io
      by (simp add: keeps_def shape_plug [symmetric] t set_addrs_plug)
    then have "rt_repr s' (upd_list k v (inorder t))" using io by (auto simp: rt_repr_def)
    then show ?thesis using f(3) s'(1) lands_Node(2) [OF land srt] ps by (simp add: rt_modify_def t')
  qed
qed

lemma rt_maximum_ok:
  assumes "shape z s t cs" and "t \<noteq> Leaf"
  shows "\<exists>y c k v l ups. t = plug (Node y l c k v Leaf) ups \<and> rt_maximum (ptr (Some z) t) s = Some (Some y) \<and>
    rights ups = []"
  using assms
proof (induction t arbitrary: cs)
  case (Node a l c k v r)
  note step = rt_maximum.simps [of "Some a" s]
  note n = shape_node [OF Node.prems(1)] shape_nil [OF Node.prems(1)]
  have hr: "shape z s r (FrameR a l c k v # cs)" using Node.prems(1) by (simp add: shape_right)
  show ?case
  proof (cases "r = Leaf")
    case True
    then show ?thesis
      by (intro exI [of _ a] exI [of _ c] exI [of _ k] exI [of _ v] exI [of _ l] exI [of _ "[]"]) (simp add: step n)
  next
    case False
    then obtain y c' k' v' l' ups where r: "r = plug (Node y l' c' k' v' Leaf) ups"
        "rt_maximum (ptr (Some z) r) s = Some (Some y)" "rights ups = []"
      using Node.IH(2) [OF hr] by blast
    moreover have "ptr (Some z) r \<noteq> Some z" using False ptr_nil [OF hr] by simp
    ultimately show ?thesis
      by (intro exI [of _ y] exI [of _ c'] exI [of _ k'] exI [of _ v'] exI [of _ l']
          exI [of _ "ups @ [FrameR a l c k v]"]) (auto simp: step n plug_append rights_append)
  qed
qed simp

lemma rt_empty_ok: "shape z s t [] \<Longrightarrow> rt_empty s \<longleftrightarrow> inorder t = []"
  using shape_root [of z s t] shape_nil [of z s t "[]"] ptr_nil [of z s t "[]"] by (cases t) (auto simp: rt_empty_def)

lemma rt_min_ok:
  assumes h: "shape z s t []"
  shows "rt_min s = Some (if inorder t = [] then Inl Tree_is_empty else Inr (fst (hd (inorder t))))"
proof (cases "t = Leaf")
  case True
  then show ?thesis using rt_empty_ok [OF h] by (simp add: rt_min_def rt_empty_def)
next
  case False
  then obtain y c k v r ups where m: "t = plug (Node y Leaf c k v r) ups" "lefts ups = []"
      "rt_minimum (ptr (Some z) t) s = Some (Some y)"
    using rt_minimum_ok [OF h] by blast
  have "shape z s (Node y Leaf c k v r) ups" using h by (simp add: m(1) shape_plug [symmetric])
  from shape_node [OF this] m(3) shape_root [OF h] rt_empty_ok [OF h] False show ?thesis
    by (simp add: rt_min_def rt_empty_def m(1,2) inorder_plug)
qed

lemma rt_max_ok:
  assumes h: "shape z s t []"
  shows "rt_max s = Some (if inorder t = [] then Inl Tree_is_empty else Inr (fst (last (inorder t))))"
proof (cases "t = Leaf")
  case True
  then show ?thesis using rt_empty_ok [OF h] by (simp add: rt_max_def rt_empty_def)
next
  case False
  then obtain y c k v l ups where m: "t = plug (Node y l c k v Leaf) ups" "rights ups = []"
      "rt_maximum (ptr (Some z) t) s = Some (Some y)"
    using rt_maximum_ok [OF h] by blast
  have "shape z s (Node y l c k v Leaf) ups" using h by (simp add: m(1) shape_plug [symmetric])
  from shape_node [OF this] m(3) shape_root [OF h] rt_empty_ok [OF h] False show ?thesis
    by (simp add: rt_max_def rt_empty_def m(1,2) inorder_plug)
qed

section \<open>Traversals\<close>

fun entries :: "('a, 'a) tree \<Rightarrow> ('a \<times> 'a \<times> color) list" where
  "entries Leaf = []"
| "entries (Node a l c k v r) = entries l @ (k, v, c) # entries r"

lemma entries_inorder: "map (\<lambda>(k, v, c). (k, v)) (entries t) = inorder t"
  by (induction t) auto

text \<open>The walk over a subtree ends where it would have been with the sentinel in its place.\<close>

lemma inOrder_loop_ok:
  "shape z s t cs \<Longrightarrow> inOrder_loop (ptr (Some z) t) st out s = inOrder_loop (Some z) st (out @ entries t) s"
proof (induction t arbitrary: cs st out)
  case (Node a l c k v r)
  note n = shape_node [OF Node.prems] shape_nil [OF Node.prems] shape_ne_nil [OF Node.prems]
  have hl: "shape z s l (FrameL a c k v r # cs)" and hr: "shape z s r (FrameR a l c k v # cs)"
    by (rule iffD1 [OF shape_left Node.prems], rule iffD1 [OF shape_right Node.prems])
  have "push_spine (Some a) st s = push_spine (ptr (Some z) l) (Some a # st) s"
    using n by (subst push_spine.simps) simp
  then have "inOrder_loop (Some a) st out s = inOrder_loop (ptr (Some z) l) (Some a # st) out s"
    using n by (simp add: inOrder_loop.simps [of "Some a"] inOrder_loop.simps [of "ptr (Some z) l" "Some a # st"])
  also have "\<dots> = inOrder_loop (Some z) (Some a # st) (out @ entries l) s" by (rule Node.IH(1) [OF hl])
  also have "\<dots> = inOrder_loop (ptr (Some z) r) st (out @ entries l @ [(k, v, c)]) s"
    using n by (simp add: inOrder_loop.simps [of "Some z"] push_spine.simps)
  also have "\<dots> = inOrder_loop (Some z) st (out @ entries (Node a l c k v r)) s"
    using Node.IH(2) [OF hr, of st "out @ entries l @ [(k, v, c)]"] by simp
  finally show ?case by simp
qed simp

lemma inOrder_ok: "shape z s t [] \<Longrightarrow> inOrder s = Some (entries t)"
  using inOrder_loop_ok [of z s t "[]" "[]" "[]"] shape_nil [of z s t "[]"] shape_root [of z s t]
  by (simp add: inOrder_def inOrder_loop.simps [of "Some z" "[]"])

text \<open>The nodes at a given depth, from left to right.\<close>

fun tier :: "nat \<Rightarrow> ('a, 'a) tree \<Rightarrow> ('a \<times> 'a \<times> color) list" where
  "tier d Leaf = []"
| "tier 0 (Node a l c k v r) = [(k, v, c)]"
| "tier (Suc d) (Node a l c k v r) = tier d l @ tier d r"

lemma tier_kids: "tier (Suc d) t = concat (map (tier d) (kids t))"
  by (cases t) auto

lemma levelOrder_for_ok:
  assumes "\<forall>t\<in>set ts. t \<noteq> Leaf \<and> (\<exists>cs. shape z s t cs)"
  shows "levelOrder_for (length ts) (map (ptr (Some z)) ts @ q) out s =
    Some (q @ map (ptr (Some z)) (concat (map kids ts)), out @ concat (map (tier 0) ts))"
  using assms
proof (induction ts arbitrary: q out)
  case (Cons t ts)
  then obtain a l c k v r cs where t: "t = Node a l c k v r" and h: "shape z s (Node a l c k v r) cs" by (cases t) auto
  note n = shape_node [OF h] shape_nil [OF h] shape_ne_nil [OF h]
    ptr_nil [OF iffD1 [OF shape_left h]] ptr_nil [OF iffD1 [OF shape_right h]]
  have "levelOrder_for (Suc i) (Some a # q') out s =
      levelOrder_for i (q' @ map (ptr (Some z)) (kids t)) (out @ [(k, v, c)]) s" for i q'
    by (cases "l = Leaf"; cases "r = Leaf") (simp_all add: n t)
  moreover have "levelOrder_for (length ts) (map (ptr (Some z)) ts @ q @ map (ptr (Some z)) (kids t)) (out @ [(k, v, c)]) s =
      Some ((q @ map (ptr (Some z)) (kids t)) @ map (ptr (Some z)) (concat (map kids ts)),
        (out @ [(k, v, c)]) @ concat (map (tier 0) ts))"
    by (rule Cons.IH) (use Cons.prems in simp)
  ultimately show ?case by (simp add: t)
qed simp

lemma kids_shape:
  assumes "shape z s t cs" and "t' \<in> set (kids t)"
  shows "t' \<noteq> Leaf \<and> (\<exists>cs'. shape z s t' cs')"
proof (cases t)
  case (Node a l c k v r)
  have "shape z s l (FrameL a c k v r # cs)" "shape z s r (FrameR a l c k v # cs)"
    using assms(1) iffD1 [OF shape_left] iffD1 [OF shape_right] by (auto simp: Node)
  then show ?thesis using assms(2) by (auto simp: Node split: if_splits)
qed (use assms in simp)

lemma levelOrder_while_ok:
  assumes "\<forall>t\<in>set ts. t \<noteq> Leaf \<and> (\<exists>cs. shape z s t cs)" and "forest_size ts < 2 ^ 31"
  shows "levelOrder_while (map (ptr (Some z)) ts) res s =
    Some (res @ map (\<lambda>d. concat (map (tier d) ts)) [0..<forest_height ts])"
  using assms
proof (induction "forest_height ts" arbitrary: ts res)
  case 0
  then have "ts = []" using forest_height_level [of ts] by (cases ts) auto
  then show ?case by (simp add: levelOrder_while.simps)
next
  case (Suc h)
  let ?us = "concat (map kids ts)"
  have ne: "ts \<noteq> []" using Suc.hyps(2) by auto
  then have h: "h = forest_height ?us" using Suc forest_height_level [of ts] by simp
  have us: "\<forall>t\<in>set ?us. t \<noteq> Leaf \<and> (\<exists>cs. shape z s t cs)" "forest_size ?us < 2 ^ 31"
    using Suc.prems kids_shape forest_size_kids [of ts] by (fastforce, linarith)
  have "int_of_size (length ts) = int (length ts)"
    using int_of_size forest_width [of ts] Suc.prems by (simp add: order_le_less_trans)
  then have "levelOrder_for (nat (int_of_size (length (map (ptr (Some z)) ts)))) (map (ptr (Some z)) ts) [] s =
      Some (map (ptr (Some z)) ?us, concat (map (tier 0) ts))"
    using levelOrder_for_ok [OF Suc.prems(1), of "[]" "[]"] by simp
  then have "levelOrder_while (map (ptr (Some z)) ts) res s =
      levelOrder_while (map (ptr (Some z)) ?us) (res @ [concat (map (tier 0) ts)]) s"
    using ne by (subst levelOrder_while.simps) simp
  also have "\<dots> = Some (res @ [concat (map (tier 0) ts)] @ map (\<lambda>d. concat (map (tier d) ?us)) [0..<h])"
    using Suc.hyps(1) [OF h us] by (simp add: h)
  also have "(\<lambda>d. concat (map (tier d) ?us)) = (\<lambda>d. concat (map (tier (Suc d)) ts))"
    by (induction ts) (simp_all add: tier_kids fun_eq_iff)
  also have "[concat (map (tier 0) ts)] @ map (\<lambda>d. concat (map (tier (Suc d)) ts)) [0..<h] =
      map (\<lambda>d. concat (map (tier d) ts)) [0..<Suc h]"
    by (simp only: upt_conv_Cons [OF zero_less_Suc] list.map map_Suc_upt [symmetric]) simp
  finally show ?case using Suc.hyps(2) by simp
qed

lemma levelOrder_ok:
  assumes h: "shape z s t []" and n: "length (inorder t) < 2 ^ 31"
  shows "levelOrder s = Some (map (\<lambda>d. tier d t) [0..<tree_height t])"
proof (cases "t = Leaf")
  case True
  then show ?thesis using shape_root [OF h] shape_nil [OF h] by (simp add: levelOrder_def)
next
  case False
  then have "rt_root s = ptr (Some z) t" "rt_root s \<noteq> rt_nil s"
    using shape_root [OF h] shape_nil [OF h] ptr_nil [OF h] by simp_all
  then show ?thesis using levelOrder_while_ok [of "[t]" z s "[]"] h n False by (auto simp: levelOrder_def forest_size_def)
qed

section \<open>The validator and the height\<close>

lemma checkRedProperty_ok: "shape z s t cs \<Longrightarrow> checkRedProperty (ptr (Some z) t) s = Some (invc t)"
proof (induction t arbitrary: cs)
  case Leaf
  then show ?case using shape_nil [OF Leaf] by (simp add: checkRedProperty.simps)
next
  case (Node a l c k v r)
  have hl: "shape z s l (FrameL a c k v r # cs)" and hr: "shape z s r (FrameR a l c k v # cs)"
    by (rule iffD1 [OF shape_left Node.prems], rule iffD1 [OF shape_right Node.prems])
  show ?case
    using shape_node [OF Node.prems] shape_nil [OF Node.prems] shape_ne_nil [OF Node.prems] color_at_ptr [OF hl]
      color_at_ptr [OF hr] Node.IH(1) [OF hl] Node.IH(2) [OF hr]
    by (subst ptr.simps, subst checkRedProperty.simps) auto
qed

fun leaf_counts :: "int \<Rightarrow> ('a, 'a) tree \<Rightarrow> int list" where
  "leaf_counts b Leaf = [b]"
| "leaf_counts b (Node a l c k v r) =
     leaf_counts (if c = BLACK then b + 1 else b) l @ leaf_counts (if c = BLACK then b + 1 else b) r"

lemma checkBlackHeight_ok:
  "shape z s t cs \<Longrightarrow> checkBlackHeight (ptr (Some z) t) b out s = Some (out @ leaf_counts b t)"
proof (induction t arbitrary: cs b out)
  case Leaf
  then show ?case using shape_nil [OF Leaf] by (simp add: checkBlackHeight.simps)
next
  case (Node a l c k v r)
  have hl: "shape z s l (FrameL a c k v r # cs)" and hr: "shape z s r (FrameR a l c k v # cs)"
    by (rule iffD1 [OF shape_left Node.prems], rule iffD1 [OF shape_right Node.prems])
  show ?case
    using shape_node [OF Node.prems] shape_nil [OF Node.prems] shape_ne_nil [OF Node.prems]
      Node.IH(1) [OF hl] Node.IH(2) [OF hr]
    by (subst ptr.simps, subst checkBlackHeight.simps) (simp add: Let_def)
qed

lemma leaf_counts_equal: "list_all (\<lambda>c. c = x) (leaf_counts b t) \<longleftrightarrow> invh t \<and> x = b + int (bheight t)"
  by (induction t arbitrary: b) auto

lemma leaf_counts_ne: "leaf_counts b t \<noteq> []"
  by (induction t arbitrary: b) auto

lemma leaf_counts_first:
  assumes "leaf_counts b t = f # rest"
  shows "list_all (\<lambda>c. c = f) rest \<longleftrightarrow> invh t"
  using leaf_counts_equal [of f b t] leaf_counts_equal [of "b + int (bheight t)" b t] assms by auto

lemma verifyRBProperties_ok:
  assumes h: "shape z s t []"
  shows "verifyRBProperties s = Some (rbt t)"
proof (cases "t = Leaf")
  case True
  then show ?thesis using shape_root [OF h] shape_nil [OF h] by (simp add: verifyRBProperties_def rbt_def)
next
  case False
  obtain f rest where c: "leaf_counts 0 t = f # rest" using leaf_counts_ne [of 0 t] by (cases "leaf_counts 0 t") auto
  have "rt_root s = ptr (Some z) t" "rt_root s \<noteq> rt_nil s"
    using shape_root [OF h] shape_nil [OF h] ptr_nil [OF h] False by simp_all
  then show ?thesis
    using color_at_ptr [OF h] checkRedProperty_ok [OF h] checkBlackHeight_ok [OF h, of 0 "[]"] c leaf_counts_first [OF c]
    by (auto simp: verifyRBProperties_def rbt_def)
qed

lemma getHeight_ok: "shape z s t cs \<Longrightarrow> getHeight (ptr (Some z) t) s = Some (int (tree_height t))"
proof (induction t arbitrary: cs)
  case Leaf
  then show ?case using shape_nil [OF Leaf] by (simp add: getHeight.simps)
next
  case (Node a l c k v r)
  have hl: "shape z s l (FrameL a c k v r # cs)" and hr: "shape z s r (FrameR a l c k v # cs)"
    by (rule iffD1 [OF shape_left Node.prems], rule iffD1 [OF shape_right Node.prems])
  show ?case
    using shape_node [OF Node.prems] shape_nil [OF Node.prems] shape_ne_nil [OF Node.prems]
      Node.IH(1) [OF hl] Node.IH(2) [OF hr]
    by (subst ptr.simps, subst getHeight.simps) simp
qed

lemma clear_walk_ok: "shape z s t cs \<Longrightarrow> clear_walk (ptr (Some z) t) s = Some ()"
proof (induction t arbitrary: cs)
  case Leaf
  then show ?case using shape_nil [OF Leaf] by (simp add: clear_walk.simps)
next
  case (Node a l c k v r)
  have hl: "shape z s l (FrameL a c k v r # cs)" and hr: "shape z s r (FrameR a l c k v # cs)"
    by (rule iffD1 [OF shape_left Node.prems], rule iffD1 [OF shape_right Node.prems])
  show ?case
    using shape_node [OF Node.prems] shape_nil [OF Node.prems] shape_ne_nil [OF Node.prems]
      Node.IH(1) [OF hl] Node.IH(2) [OF hr]
    by (subst ptr.simps, subst clear_walk.simps) simp
qed

lemma cleanTree_ok:
  assumes "rt_repr s ps"
  shows "runs (cleanTree s) (\<lambda>s'. rt_repr s' [])"
proof -
  obtain z t where inv: "rt_inv z s t" using assms by (auto simp: rt_repr_def)
  then have h: "shape z s t []" by (simp add: rt_inv_def)
  let ?s = "s\<lparr>rt_root := rt_nil s, rt_heap := rt_heap s |` {a. rt_nil s = Some a}\<rparr>"
  have "rt_inv z ?s Leaf"
    using inv by (auto simp: rt_inv_def shape_def sentinel_def focus_def rbt_def)
  then have "rt_repr ?s []" by (force simp: rt_repr_def)
  then show ?thesis using clear_walk_ok [OF h] shape_root [OF h] by (simp add: cleanTree_def)
qed

section \<open>The class as an ordered map\<close>

text \<open>\<open>get\<close> with its exception read as a missing key.\<close>

definition rt_lookup :: "'a::linorder \<Rightarrow> 'a rt \<Rightarrow> 'a option option" where
  "rt_lookup k s = map_option (\<lambda>r. case r of Inl e \<Rightarrow> None | Inr v \<Rightarrow> Some v) (rt_get k s)"

interpretation rt: ordered_map "rt_new dflt" rt_insert rt_remove rt_lookup rt_repr keep_old ins_new for dflt
proof
  show "rt_repr (rt_new dflt) []" by (rule rt_new_repr)
next
  fix s :: "'a rt" and ps
  assume s: "rt_repr s ps"
  show "sorted1 ps" using s by (auto simp: rt_repr_def rt_inv_def)
  show "runs (rt_insert k v s) (\<lambda>s'. rt_repr s' (ins_new k v ps))" for k v using s by (rule rt_insert_ok)
  show "runs (rt_remove k s) (\<lambda>s'. rt_repr s' (del_list k ps))" for k using s by (rule rt_remove_ok)
  show "rt_lookup k s = Some (map_of ps k)" for k
    by (simp add: rt_lookup_def rt_get_ok [OF s] split: option.split)
qed (rule map_of_ins_new)

section \<open>Properties\<close>

text \<open>
  C30. Any sequence of \<open>insert\<close> and \<open>remove\<close> calls on a new \<open>RBTree\<close> returns: no null dereference, no
  endless repair loop. Afterwards \<open>get\<close> answers as the finite map does in which an insertion keeps the
  value of a key that is already there, and throws exactly for the keys that are not in it.
\<close>

theorem rt_commands_correct:
  "runs (run_commands rt_insert rt_remove cs (rt_new dflt)) (\<lambda>s. \<forall>k. rt_get k s =
    Some (case map_commands keep_old cs Map.empty k of None \<Rightarrow> Inl Key_not_found | Some v \<Rightarrow> Inr v))"
  using rt.run_contents [OF rt_new_repr, of cs dflt] by (auto simp: rt_get_ok elim!: runs_mono)

text \<open>
  C31. After any sequence of calls the nodes and links form a red-black tree \<open>t\<close> with one sentinel whose contents, a
  list of entries with strictly increasing keys, are those of the map, and the observers agree with \<open>t\<close>:
  \<open>verifyRBProperties\<close> accepts it, \<open>inOrder\<close> writes keys, values and colours in order, \<open>levelOrder\<close> those of each depth
  from left to right (for trees whose number of entries fits \<open>int\<close>, the type of its counter), \<open>min\<close> and
  \<open>max\<close> return the first and the last key and throw on the empty tree, \<open>empty\<close> says whether there is an entry,
  \<open>height\<close> returns the height of \<open>t\<close>, at most twice the logarithm of the number of entries plus one, \<open>modify\<close> changes the
  value of an existing key only, and \<open>cleanTree\<close> leaves an empty tree.
\<close>

theorem rt_observers_correct:
  "runs (run_commands rt_insert rt_remove cs (rt_new dflt)) (\<lambda>s. \<exists>z t. rt_inv z s t \<and> sorted1 (inorder t) \<and>
    map_of (inorder t) = map_commands keep_old cs Map.empty \<and> verifyRBProperties s = Some True \<and>
    inOrder s = Some (entries t) \<and> map (\<lambda>(k, v, c). (k, v)) (entries t) = inorder t \<and>
    (length (inorder t) < 2 ^ 31 \<longrightarrow> levelOrder s = Some (map (\<lambda>d. tier d t) [0..<tree_height t])) \<and>
    rt_min s = Some (if t = Leaf then Inl Tree_is_empty else Inr (fst (hd (inorder t)))) \<and>
    rt_max s = Some (if t = Leaf then Inl Tree_is_empty else Inr (fst (last (inorder t)))) \<and>
    (rt_empty s \<longleftrightarrow> t = Leaf) \<and> rt_height s = Some (int (tree_height t)) \<and>
    tree_height t \<le> 2 * ilog2 (Suc (length (inorder t))) \<and>
    runs (rt_modify k v s) (\<lambda>s'. map_option (map (\<lambda>(k, v, c). (k, v))) (inOrder s') =
      Some (if k \<in> fst ` set (inorder t) then upd_list k v (inorder t) else inorder t)) \<and>
    runs (cleanTree s) (\<lambda>s'. inOrder s' = Some []))"
proof (rule runs_mono [OF rt.run_contents [OF rt_new_repr, of cs dflt]])
  fix s :: "'a rt"
  assume "\<exists>qs. rt_repr s qs \<and> map_of qs = map_commands keep_old cs (map_of [])"
  then obtain ps where ps: "rt_repr s ps" "map_of ps = map_commands keep_old cs Map.empty" by auto
  then obtain z t where t: "rt_inv z s t" "inorder t = ps" by (auto simp: rt_repr_def)
  then have h: "shape z s t []" and rb: "rbt t" and srt: "sorted1 (inorder t)" by (auto simp: rt_inv_def)
  have empty: "inorder t = [] \<longleftrightarrow> t = Leaf" by (cases t) auto
  have io: "map_option (map (\<lambda>(k, v, c). (k, v))) (inOrder s') = Some qs" if "rt_repr s' qs" for s' :: "'a rt" and qs
    using that inOrder_ok entries_inorder by (fastforce simp: rt_repr_def rt_inv_def)
  have "rt_height s = Some (int (tree_height t))" using getHeight_ok [OF h] shape_root [OF h] by (simp add: rt_height_def)
  moreover have "runs (rt_modify k v s) (\<lambda>s'. map_option (map (\<lambda>(k, v, c). (k, v))) (inOrder s') =
      Some (if k \<in> fst ` set (inorder t) then upd_list k v (inorder t) else inorder t))"
    using rt_modify_ok [OF ps(1)] unfolding t(2) by (rule runs_mono) (rule io)
  moreover have "runs (cleanTree s) (\<lambda>s'. inOrder s' = Some [])"
    using cleanTree_ok [OF ps(1)] by (rule runs_mono) (use io in fastforce)
  ultimately show "\<exists>z t. rt_inv z s t \<and> sorted1 (inorder t) \<and>
    map_of (inorder t) = map_commands keep_old cs Map.empty \<and> verifyRBProperties s = Some True \<and>
    inOrder s = Some (entries t) \<and> map (\<lambda>(k, v, c). (k, v)) (entries t) = inorder t \<and>
    (length (inorder t) < 2 ^ 31 \<longrightarrow> levelOrder s = Some (map (\<lambda>d. tier d t) [0..<tree_height t])) \<and>
    rt_min s = Some (if t = Leaf then Inl Tree_is_empty else Inr (fst (hd (inorder t)))) \<and>
    rt_max s = Some (if t = Leaf then Inl Tree_is_empty else Inr (fst (last (inorder t)))) \<and>
    (rt_empty s \<longleftrightarrow> t = Leaf) \<and> rt_height s = Some (int (tree_height t)) \<and>
    tree_height t \<le> 2 * ilog2 (Suc (length (inorder t))) \<and>
    runs (rt_modify k v s) (\<lambda>s'. map_option (map (\<lambda>(k, v, c). (k, v))) (inOrder s') =
      Some (if k \<in> fst ` set (inorder t) then upd_list k v (inorder t) else inorder t)) \<and>
    runs (cleanTree s) (\<lambda>s'. inOrder s' = Some [])"
    using t(1) srt ps(2) verifyRBProperties_ok [OF h] rb inOrder_ok [OF h] entries_inorder [of t] rt_min_ok [OF h] rt_max_ok [OF h]
      rt_empty_ok [OF h] levelOrder_ok [OF h] rbt_height [OF rb] t(2) empty
    by (intro exI [of _ z] exI [of _ t] conjI impI) simp_all
qed

theorem rt_observers_correct_witness:
  "runs (run_commands rt_insert rt_remove [Insert 2 20, Insert 1 10] (rt_new (0::int))) (\<lambda>s. verifyRBProperties s = Some True \<and>
     (\<exists>z t. rt_inv z s t \<and> map_of (inorder t) = [1 \<mapsto> 10, 2 \<mapsto> 20] \<and>
       (length (inorder t) < 2 ^ 31 \<longrightarrow> levelOrder s = Some (map (\<lambda>d. tier d t) [0..<tree_height t]))))"
  by (rule runs_mono [OF rt_observers_correct [of "[Insert 2 20, Insert 1 10]" 0 0 0]])
    (elim exE conjE, intro conjI exI, assumption+, simp add: keep_old_def fun_eq_iff, assumption)

end
