(* ===== verification/Sentinel_Test.thy ===== *)
theory Sentinel_Test
  imports Sentinel_Map
begin

text \<open>
  \<open>testRBTree\<close>, the test program of \<open>Red_Black_Tree/TesTRBT.cpp\<close>, with \<open>int\<close> for the type parameter. What it writes is
  kept as data: the entries of the two traversals, the verdicts, the values found; the headings are left out.
  An exception of \<open>get\<close>, \<open>min\<close> or \<open>max\<close> ends the program.
\<close>

section \<open>The program\<close>

datatype rt_output =
    InOrder "(int \<times> int \<times> color) list"
  | LevelOrder "(int \<times> int \<times> color) list list"
  | Verified bool
  | Found int int
  | MinKey int
  | MaxKey int

definition test_keys :: "int list" where "test_keys = [11, 9, 7, 6, 41, 23, 89, 1]"
definition test_values :: "int list" where "test_values = [7, 3, 18, 10, 22, 8, 11, 26]"

fun insert_loop :: "int list \<Rightarrow> int list \<Rightarrow> int rt \<Rightarrow> int rt option" where
  "insert_loop ks [] s = Some s"
| "insert_loop [] (v # vs) s = None"
| "insert_loop (k # ks) (v # vs) s = do { s \<leftarrow> rt_insert k v s; insert_loop ks vs s }"

text \<open>An exception, which nobody catches, ends the program.\<close>

definition attempt :: "(rt_error + 'a) option \<Rightarrow> ('a \<Rightarrow> (rt_error + 'b) option) \<Rightarrow> (rt_error + 'b) option" where
  "attempt r f = do { x \<leftarrow> r; (case x of Inl e \<Rightarrow> Some (Inl e) | Inr v \<Rightarrow> f v) }"

text \<open>The last part of the program, from the removal on; \<open>clear_walk\<close> is the destructor of the tree.\<close>

definition test_removal :: "int rt \<Rightarrow> rt_output list option" where
  "test_removal tree = do {
     tree \<leftarrow> rt_remove 23 tree;
     a \<leftarrow> inOrder tree;
     tree \<leftarrow> rt_modify 1 21 tree;
     b \<leftarrow> inOrder tree;
     ok \<leftarrow> verifyRBProperties tree;
     u \<leftarrow> clear_walk (rt_root tree) tree;
     Some [InOrder a, InOrder b, Verified ok] }"

definition testRBTree :: "(rt_error + rt_output list) option" where
  "testRBTree = do {
     tree \<leftarrow> insert_loop test_keys test_values (rt_new 0);
     a \<leftarrow> inOrder tree;
     l \<leftarrow> levelOrder tree;
     ok \<leftarrow> verifyRBProperties tree;
     attempt (rt_get 9 tree) (\<lambda>g9. attempt (rt_get 7 tree) (\<lambda>g7. attempt (rt_min tree) (\<lambda>mn. attempt (rt_max tree) (\<lambda>mx. do {
       rest \<leftarrow> test_removal tree;
       Some (Inr ([InOrder a, LevelOrder l, Verified ok, Found 9 g9, Found 7 g7, MinKey mn, MaxKey mx] @ rest)) })))) }"

section \<open>The outcome\<close>

text \<open>The test program of the sentinel tree runs without an exception and reports: the eight inserted pairs
  in key order, the tree level by level, the red-black properties verified, 3 for the key 9 and 18 for the key 7, 1 and
  89 as the least and greatest key; after the removal of 23 the other seven pairs, after the modification the
  new value 21 of the key 1, and the properties verified again.\<close>

theorem testRBTree_output:
  "testRBTree = Some (Inr
    [InOrder [(1, 26, RED), (6, 10, BLACK), (7, 18, RED), (9, 3, BLACK), (11, 7, BLACK), (23, 8, RED), (41, 22, BLACK), (89, 11, RED)],
     LevelOrder [[(9, 3, BLACK)], [(6, 10, BLACK), (23, 8, RED)], [(1, 26, RED), (7, 18, RED), (11, 7, BLACK), (41, 22, BLACK)],
       [(89, 11, RED)]],
     Verified True, Found 9 3, Found 7 18, MinKey 1, MaxKey 89,
     InOrder [(1, 26, RED), (6, 10, BLACK), (7, 18, RED), (9, 3, BLACK), (11, 7, BLACK), (41, 22, RED), (89, 11, BLACK)],
     InOrder [(1, 21, RED), (6, 10, BLACK), (7, 18, RED), (9, 3, BLACK), (11, 7, BLACK), (41, 22, RED), (89, 11, BLACK)],
     Verified True])"
  by code_simp

end
