(* ===== verification/BPlusTree.thy ===== *)
theory BPlusTree
  imports Prelude
begin

text \<open>
  \<open>class BPlusTree<K, V>\<close> of \<open>B+Tree/BplusTree.cpp\<close> (\<open>KV_Store/BplusTree.cpp\<close> is the same
  file).

  Nodes live in a heap; an internal node has keys and child pointers, a leaf has keys, values and
  the pointer to the next leaf. Reading a vector out of range, a null or dangling pointer, an
  indeterminate variable, or a loop that never ends, has no value (\<open>None\<close>).
  \<open>std::lower_bound\<close> and \<open>std::binary_search\<close> are given their meaning on sorted ranges, which
  is all the class uses them on.

  This theory defines the class; \<open>BPlusTree_Proofs\<close> proves what holds of it and what does not.
\<close>

section \<open>Nodes\<close>

datatype ('k, 'v) bnode =
    InternalNode "'k list" "addr list"
  | LeafNode "'k list" "'v list" "addr option"

record ('k, 'v) bptree =
  degree :: nat
  bp_root :: "addr option"
  first_leaf :: "addr option"
  bp_heap :: "addr \<rightharpoonup> ('k, 'v) bnode"
  bp_next :: addr

definition bp_new :: "int \<Rightarrow> ('k, 'v) bptree" where
  "bp_new deg = \<lparr>degree = nat (max 2 deg), bp_root = None, first_leaf = None, bp_heap = Map.empty, bp_next = 0\<rparr>"

definition vec_at :: "'a list \<Rightarrow> nat \<Rightarrow> 'a option" where
  "vec_at xs i = (if i < length xs then Some (xs ! i) else None)"

fun node_keys :: "('k, 'v) bnode \<Rightarrow> 'k list" where
  "node_keys (InternalNode ks cs) = ks"
| "node_keys (LeafNode ks vs nx) = ks"

fun is_leaf :: "('k, 'v) bnode \<Rightarrow> bool" where
  "is_leaf (InternalNode ks cs) = False"
| "is_leaf (LeafNode ks vs nx) = True"

text \<open>\<open>2 * degree_ref - 1\<close> is computed in \<open>int\<close>: from degree \<open>2^30\<close> on the product overflows, which has no value.\<close>

definition is_full :: "nat \<Rightarrow> ('k, 'v) bnode \<Rightarrow> bool option" where
  "is_full d n = (if 2 * int d > 2147483647 then None else Some (length (node_keys n) \<ge> 2 * d - 1))"

lemma is_full_ok: "d < 2 ^ 30 \<Longrightarrow> is_full d n = Some (2 * d - 1 \<le> length (node_keys n))"
  by (simp add: is_full_def)

definition is_underflow :: "nat \<Rightarrow> ('k, 'v) bnode \<Rightarrow> bool" where
  "is_underflow d n \<longleftrightarrow> length (node_keys n) < d - 1"

definition can_borrow :: "nat \<Rightarrow> ('k, 'v) bnode \<Rightarrow> bool" where
  "can_borrow d n \<longleftrightarrow> length (node_keys n) > d - 1"

fun find_child_index :: "'k::linorder \<Rightarrow> 'k list \<Rightarrow> nat" where
  "find_child_index k [] = 0"
| "find_child_index k (x # xs) = (if k > x then Suc (find_child_index k xs) else 0)"

definition lower_bound :: "'k::linorder list \<Rightarrow> 'k \<Rightarrow> nat" where
  "lower_bound ks k = length (takeWhile (\<lambda>x. x < k) ks)"

section \<open>Leaves\<close>

definition leaf_insert_key :: "'k::linorder \<Rightarrow> 'v \<Rightarrow> ('k, 'v) bnode \<Rightarrow> ('k, 'v) bnode option" where
  "leaf_insert_key k v n = (case n of InternalNode ks cs \<Rightarrow> None
     | LeafNode ks vs nx \<Rightarrow> do {
         let idx = lower_bound ks k;
         ks \<leftarrow> insert_at idx k ks;
         vs \<leftarrow> insert_at idx v vs;
         Some (LeafNode ks vs nx) })"

definition leaf_remove_key :: "'k::linorder \<Rightarrow> ('k, 'v) bnode \<Rightarrow> ('k, 'v) bnode option" where
  "leaf_remove_key k n = (case n of InternalNode ks cs \<Rightarrow> None
     | LeafNode ks vs nx \<Rightarrow>
         let idx = lower_bound ks k in
         if idx < length ks \<and> ks ! idx = k then do {
           ks \<leftarrow> erase_at idx ks;
           vs \<leftarrow> erase_at idx vs;
           Some (LeafNode ks vs nx) }
         else Some n)"

fun leaf_contains :: "'k \<Rightarrow> ('k, 'v) bnode \<Rightarrow> bool" where
  "leaf_contains k (LeafNode ks vs nx) = (k \<in> set ks)"
| "leaf_contains k (InternalNode ks cs) = False"

definition leaf_find :: "'k::linorder \<Rightarrow> ('k, 'v) bnode \<Rightarrow> 'v option option" where
  "leaf_find k n = (case n of InternalNode ks cs \<Rightarrow> None
     | LeafNode ks vs nx \<Rightarrow>
         let idx = lower_bound ks k in
         if idx < length ks \<and> ks ! idx = k then map_option Some (vec_at vs idx) else Some None)"

text \<open>The \<open>for\<close> loop of \<open>LeafNode::range_query\<close> over one leaf: it appends to the result until a key
  is past the range, which ends the query (\<open>True\<close>).\<close>

fun range_for :: "'k::linorder \<Rightarrow> 'k \<Rightarrow> 'k list \<Rightarrow> 'v list \<Rightarrow> 'v list \<Rightarrow> ('v list \<times> bool) option" where
  "range_for lo hi [] vs res = Some (res, False)"
| "range_for lo hi (k # ks) vs res =
     (if k \<ge> lo \<and> k \<le> hi then
        (case vs of [] \<Rightarrow> None | v # vs' \<Rightarrow> range_for lo hi ks vs' (res @ [v]))
      else if k > hi then Some (res, True)
      else range_for lo hi ks (tl vs) res)"

partial_function (option) leaf_range :: "'k::linorder \<Rightarrow> 'k \<Rightarrow> addr option \<Rightarrow> 'v list \<Rightarrow>
    ('k, 'v) bptree \<Rightarrow> 'v list option" where
  "leaf_range lo hi leaf res s =
     (case leaf of None \<Rightarrow> Some res
      | Some a \<Rightarrow> (case bp_heap s a of
          Some (LeafNode ks vs nx) \<Rightarrow> do {
            (res, done) \<leftarrow> range_for lo hi ks vs res;
            (if done then Some res else leaf_range lo hi nx res s) }
        | _ \<Rightarrow> None))"

section \<open>Splitting\<close>

definition leaf_split :: "addr \<Rightarrow> ('k, 'v) bptree \<Rightarrow> (addr \<times> ('k, 'v) bptree) option" where
  "leaf_split a s = (case bp_heap s a of
     Some (LeafNode ks vs nx) \<Rightarrow>
       let new_leaf = bp_next s; mid = length ks div 2 in
       if mid \<le> length vs then
         Some (new_leaf, s\<lparr>bp_heap := (bp_heap s)
           (new_leaf \<mapsto> LeafNode (drop mid ks) (drop mid vs) nx,
            a \<mapsto> LeafNode (take mid ks) (take mid vs) (Some new_leaf)), bp_next := Suc new_leaf\<rparr>)
       else None
   | _ \<Rightarrow> None)"

definition internal_split :: "addr \<Rightarrow> ('k, 'v) bptree \<Rightarrow> (addr \<times> ('k, 'v) bptree) option" where
  "internal_split a s = (case bp_heap s a of
     Some (InternalNode ks cs) \<Rightarrow> do {
       let new_right = bp_next s;
       let mid = length ks div 2;
       mid_key \<leftarrow> vec_at ks mid;
       (if mid + 1 \<le> length cs then
          Some (new_right, s\<lparr>bp_heap := (bp_heap s)
            (new_right \<mapsto> InternalNode (drop (mid + 1) ks) (drop (mid + 1) cs),
             a \<mapsto> InternalNode (take mid ks) (take (mid + 1) cs)), bp_next := Suc new_right\<rparr>)
        else None) }
   | _ \<Rightarrow> None)"

definition insert_child :: "nat \<Rightarrow> 'k \<Rightarrow> addr \<Rightarrow> ('k, 'v) bnode \<Rightarrow> ('k, 'v) bnode option" where
  "insert_child idx k child n = (case n of
     InternalNode ks cs \<Rightarrow>
       if idx < length ks then do {
         ks \<leftarrow> insert_at idx k ks;
         cs \<leftarrow> insert_at (idx + 1) child cs;
         Some (InternalNode ks cs) }
       else Some (InternalNode (ks @ [k]) (cs @ [child]))
   | LeafNode ks vs nx \<Rightarrow> None)"

definition update_node :: "addr \<Rightarrow> (('k, 'v) bnode \<Rightarrow> ('k, 'v) bnode option) \<Rightarrow>
    ('k, 'v) bptree \<Rightarrow> ('k, 'v) bptree option" where
  "update_node a f s = do {
     n \<leftarrow> bp_heap s a;
     n \<leftarrow> f n;
     Some (s\<lparr>bp_heap := (bp_heap s)(a \<mapsto> n)\<rparr>) }"

section \<open>Insertion\<close>

text \<open>Lines 244 to 259: a full child is split and the new node linked into the parent. The key
  promoted from an internal child is read at \<open>keys[keys.size()]\<close>.\<close>

definition split_child :: "addr \<Rightarrow> nat \<Rightarrow> addr \<Rightarrow> ('k, 'v) bptree \<Rightarrow> ('k, 'v) bptree option" where
  "split_child node idx child s = do {
     n \<leftarrow> bp_heap s child;
     (if is_leaf n then do {
        (new_leaf, s) \<leftarrow> leaf_split child s;
        m \<leftarrow> bp_heap s new_leaf;
        promote_key \<leftarrow> vec_at (node_keys m) 0;
        update_node node (insert_child idx promote_key new_leaf) s }
      else do {
        (new_internal, s) \<leftarrow> internal_split child s;
        m \<leftarrow> bp_heap s child;
        promote_key \<leftarrow> vec_at (node_keys m) (length (node_keys m));
        update_node node (insert_child idx promote_key new_internal) s }) }"

partial_function (option) insert_nonfull :: "addr \<Rightarrow> 'k::linorder \<Rightarrow> 'v \<Rightarrow>
    ('k, 'v) bptree \<Rightarrow> ('k, 'v) bptree option" where
  "insert_nonfull node k v s = (case bp_heap s node of None \<Rightarrow> None
     | Some (LeafNode ks vs nx) \<Rightarrow> update_node node (leaf_insert_key k v) s
     | Some (InternalNode ks cs) \<Rightarrow> do {
         let idx = find_child_index k ks;
         child \<leftarrow> vec_at cs idx;
         n \<leftarrow> bp_heap s child;
         full \<leftarrow> is_full (degree s) n;
         (idx, s) \<leftarrow> (if full then do {
             s \<leftarrow> split_child node idx child s;
             m \<leftarrow> bp_heap s node;
             x \<leftarrow> vec_at (node_keys m) idx;
             Some (if k > x then idx + 1 else idx, s) }
           else Some (idx, s));
         m \<leftarrow> bp_heap s node;
         (case m of InternalNode ks cs \<Rightarrow> do {
            child \<leftarrow> vec_at cs idx;
            insert_nonfull child k v s }
          | LeafNode ks vs nx \<Rightarrow> None) })"

text \<open>Lines 417 to 442: a full root is split below a new root.\<close>

definition split_root :: "addr \<Rightarrow> ('k, 'v) bptree \<Rightarrow> ('k, 'v) bptree option" where
  "split_root r s = do {
     n \<leftarrow> bp_heap s r;
     (if is_leaf n then do {
        (new_leaf, s) \<leftarrow> leaf_split r s;
        m \<leftarrow> bp_heap s new_leaf;
        promote_key \<leftarrow> vec_at (node_keys m) 0;
        Some (s\<lparr>bp_root := Some (bp_next s), bp_heap := (bp_heap s)
          (bp_next s \<mapsto> InternalNode [promote_key] [r, new_leaf]), bp_next := Suc (bp_next s)\<rparr>) }
      else do {
        (new_internal, s) \<leftarrow> internal_split r s;
        (case bp_heap s r of
           Some (InternalNode ks cs) \<Rightarrow> do {
             promote_key \<leftarrow> vec_at ks (length ks div 2);
             ks \<leftarrow> erase_at (length ks div 2) ks;
             Some (s\<lparr>bp_root := Some (bp_next s), bp_heap := (bp_heap s)
               (r \<mapsto> InternalNode ks cs,
                bp_next s \<mapsto> InternalNode [promote_key] [r, new_internal]), bp_next := Suc (bp_next s)\<rparr>) }
         | _ \<Rightarrow> None) }) }"

definition bp_insert :: "'k::linorder \<Rightarrow> 'v \<Rightarrow> ('k, 'v) bptree \<Rightarrow> ('k, 'v) bptree option" where
  "bp_insert k v s = (case bp_root s of
     None \<Rightarrow> do {
       leaf \<leftarrow> leaf_insert_key k v (LeafNode [] [] None);
       Some (s\<lparr>bp_root := Some (bp_next s), first_leaf := Some (bp_next s),
         bp_heap := (bp_heap s)(bp_next s \<mapsto> leaf), bp_next := Suc (bp_next s)\<rparr>) }
   | Some r \<Rightarrow> do {
       n \<leftarrow> bp_heap s r;
       full \<leftarrow> is_full (degree s) n;
       s \<leftarrow> (if full then split_root r s else Some s);
       r \<leftarrow> bp_root s;
       insert_nonfull r k v s })"

section \<open>Removal\<close>

text \<open>Lines 284 to 299: an empty leaf child is unlinked from its parent.\<close>

definition drop_empty_leaf :: "nat \<Rightarrow> addr \<Rightarrow> ('k, 'v) bnode \<Rightarrow> ('k, 'v) bptree \<Rightarrow>
    ('k, 'v) bnode option" where
  "drop_empty_leaf idx child n s = do {
     c \<leftarrow> bp_heap s child;
     (case n of InternalNode ks cs \<Rightarrow>
        if is_leaf c \<and> node_keys c = [] then do {
          cs \<leftarrow> erase_at idx cs;
          ks \<leftarrow> (if idx > 0 then erase_at (idx - 1) ks
                 else if ks \<noteq> [] then erase_at 0 ks else Some ks);
          Some (InternalNode ks cs) }
        else Some n
      | LeafNode ks vs nx \<Rightarrow> None) }"

partial_function (option) remove_recursive :: "addr \<Rightarrow> 'k::linorder \<Rightarrow>
    ('k, 'v) bptree \<Rightarrow> (bool \<times> ('k, 'v) bptree) option" where
  "remove_recursive node k s = (case bp_heap s node of None \<Rightarrow> None
     | Some (LeafNode ks vs nx) \<Rightarrow> do {
         let had_key = leaf_contains k (LeafNode ks vs nx :: ('k, 'v) bnode);
         s \<leftarrow> update_node node (leaf_remove_key k) s;
         n \<leftarrow> bp_heap s node;
         Some (had_key \<and> is_underflow (degree s) n, s) }
     | Some (InternalNode ks cs) \<Rightarrow> do {
         let idx = find_child_index k ks;
         child \<leftarrow> vec_at cs idx;
         (child_underflow, s) \<leftarrow> remove_recursive child k s;
         n \<leftarrow> bp_heap s node;
         n \<leftarrow> (if child_underflow then drop_empty_leaf idx child n s else Some n);
         Some (is_underflow (degree s) n, s\<lparr>bp_heap := (bp_heap s)(node \<mapsto> n)\<rparr>) })"

definition bp_remove :: "'k::linorder \<Rightarrow> ('k, 'v) bptree \<Rightarrow> ('k, 'v) bptree option" where
  "bp_remove k s = (case bp_root s of None \<Rightarrow> Some s
     | Some r \<Rightarrow> do {
         (u, s) \<leftarrow> remove_recursive r k s;
         n \<leftarrow> bp_heap s r;
         (case n of
            LeafNode ks vs nx \<Rightarrow>
              Some (if ks = [] then s\<lparr>bp_root := None, first_leaf := None\<rparr> else s)
          | InternalNode ks cs \<Rightarrow>
              Some (if ks = [] \<and> length cs = 1 then s\<lparr>bp_root := Some (cs ! 0)\<rparr> else s)) })"

section \<open>Queries\<close>

partial_function (option) find_leaf_from :: "'k::linorder \<Rightarrow> addr \<Rightarrow> ('k, 'v) bptree \<Rightarrow> addr option option" where
  "find_leaf_from k node s = (case bp_heap s node of None \<Rightarrow> None
     | Some (LeafNode ks vs nx) \<Rightarrow> Some (Some node)
     | Some (InternalNode ks cs) \<Rightarrow>
         let idx = find_child_index k ks in
         if idx \<ge> length cs then Some None else find_leaf_from k (cs ! idx) s)"

definition find_leaf :: "'k::linorder \<Rightarrow> ('k, 'v) bptree \<Rightarrow> addr option option" where
  "find_leaf k s = (case bp_root s of None \<Rightarrow> Some None | Some r \<Rightarrow> find_leaf_from k r s)"

definition bp_find :: "'k::linorder \<Rightarrow> ('k, 'v) bptree \<Rightarrow> 'v option option" where
  "bp_find k s = do {
     leaf \<leftarrow> find_leaf k s;
     (case leaf of None \<Rightarrow> Some None
      | Some a \<Rightarrow> do { n \<leftarrow> bp_heap s a; leaf_find k n }) }"

definition bp_contains :: "'k::linorder \<Rightarrow> ('k, 'v) bptree \<Rightarrow> bool option" where
  "bp_contains k s = map_option (\<lambda>r. r \<noteq> None) (bp_find k s)"

definition range_query :: "'k::linorder \<Rightarrow> 'k \<Rightarrow> ('k, 'v) bptree \<Rightarrow> 'v list option" where
  "range_query lo hi s = (if bp_root s = None then Some [] else do {
     leaf \<leftarrow> find_leaf lo s;
     (if leaf \<noteq> None then leaf_range lo hi leaf [] s else Some []) })"

partial_function (option) height_loop :: "int \<Rightarrow> addr option \<Rightarrow> ('k, 'v) bptree \<Rightarrow> int option" where
  "height_loop h node s = (case node of None \<Rightarrow> Some (h + 1)
     | Some a \<Rightarrow> (case bp_heap s a of None \<Rightarrow> None
        | Some (LeafNode ks vs nx) \<Rightarrow> Some (h + 1)
        | Some (InternalNode ks cs) \<Rightarrow>
            if cs \<noteq> [] then height_loop (h + 1) (Some (cs ! 0)) s else Some (h + 1)))"

definition bp_height :: "('k, 'v) bptree \<Rightarrow> int option" where
  "bp_height s = height_loop 0 (bp_root s) s"

partial_function (option) size_loop :: "size_t \<Rightarrow> addr option \<Rightarrow> ('k, 'v) bptree \<Rightarrow> size_t option" where
  "size_loop count leaf s = (case leaf of None \<Rightarrow> Some count
     | Some a \<Rightarrow> (case bp_heap s a of
          Some (LeafNode ks vs nx) \<Rightarrow> size_loop (count + of_nat (length ks)) nx s
        | _ \<Rightarrow> None))"

definition bp_size :: "('k, 'v) bptree \<Rightarrow> size_t option" where
  "bp_size s = size_loop 0 (first_leaf s) s"

section \<open>The validator\<close>

text \<open>\<open>min_key\<close>, \<open>max_key\<close> and \<open>first\<close> are reference parameters; a key that was never assigned is
  \<open>None\<close>, and reading it is undefined.\<close>

type_synonym 'k bounds = "'k option \<times> 'k option \<times> bool"

fun ascending :: "'k::linorder list \<Rightarrow> bool" where
  "ascending (x # y # zs) \<longleftrightarrow> \<not> y \<le> x \<and> ascending (y # zs)"
| "ascending _ \<longleftrightarrow> True"

text \<open>A message of the validator, as printed at a level of the tree.\<close>

definition says :: "string \<Rightarrow> int \<Rightarrow> string" where
  "says msg level = msg @ '' level '' @ show_int level"

text \<open>Lines 343 to 363: the checks of a leaf. A check gives the lines it prints, its result and the bounds.\<close>

definition validate_leaf :: "int \<Rightarrow> 'k::linorder list \<Rightarrow> 'k bounds \<Rightarrow> (string list \<times> bool \<times> 'k bounds) option" where
  "validate_leaf level ks b = (case b of (mn, mx, first) \<Rightarrow>
     if ks = [] then Some ([says ''Error: Empty leaf node at'' level], False, b)
     else if \<not> ascending ks then Some ([says ''Error: Leaf keys not sorted at'' level], False, b)
     else if first then Some ([], True, Some (hd ks), Some (last ks), False)
     else do {
       m \<leftarrow> mx;
       (if hd ks \<le> m then Some ([says ''Error: Leaf key range overlap at'' level], False, b)
        else Some ([], True, mn, Some (last ks), first)) })"

text \<open>Lines 385 to 396 for child \<open>i\<close>: the comparisons with the separators on both sides.\<close>

definition separators_ok :: "int \<Rightarrow> 'k::linorder list \<Rightarrow> nat \<Rightarrow> 'k bounds \<Rightarrow> (string list \<times> bool) option" where
  "separators_ok level ks i b = (case b of (mn, mx, first) \<Rightarrow> do {
     over \<leftarrow> (if i < length ks then do { m \<leftarrow> mx; Some (m > ks ! i) } else Some False);
     (if over then Some ([says ''Error: Child max key > split key at'' level], False)
      else do {
        under \<leftarrow> (if i > 0 then do { m \<leftarrow> mn; x \<leftarrow> vec_at ks (i - 1); Some (m \<le> x) } else Some False);
        Some (if under then ([says ''Error: Child min key <= previous split key at'' level], False) else ([], True)) }) })"

fun validate_children :: "(addr \<Rightarrow> 'k bounds \<Rightarrow> (string list \<times> bool \<times> 'k bounds) option) \<Rightarrow> int \<Rightarrow> 'k::linorder list \<Rightarrow>
    nat \<Rightarrow> addr list \<Rightarrow> 'k bounds \<Rightarrow> (string list \<times> bool) option" where
  "validate_children v level ks i [] b = Some ([], True)"
| "validate_children v level ks i (c # cs) b = do {
     (ls, ok, b) \<leftarrow> v c b;
     (if \<not> ok then Some (ls, False) else do {
        (ls', sep) \<leftarrow> separators_ok level ks i b;
        (if \<not> sep then Some (ls @ ls', False) else do {
           (ls'', ok) \<leftarrow> validate_children v level ks (Suc i) cs b;
           Some (ls @ ls' @ ls'', ok) }) }) }"

text \<open>Lines 324 to 334: the size of a node other than the root; a full node is only warned about.\<close>

definition validate_fill :: "int \<Rightarrow> addr \<Rightarrow> ('k, 'v) bnode \<Rightarrow> ('k, 'v) bptree \<Rightarrow> (string list \<times> bool) option" where
  "validate_fill level node n s =
     (if Some node = bp_root s then Some ([], True)
      else if is_underflow (degree s) n then Some ([says ''Error: Node underflow at'' level], False)
      else do {
        full \<leftarrow> is_full (degree s) n;
        Some (if full then [says ''Warning: Node full at'' level] else [], True) })"

text \<open>The recursion is bounded by \<open>fuel\<close>, the number of levels; nodes with children deeper than
  that have no value.\<close>

fun validate_node :: "nat \<Rightarrow> addr \<Rightarrow> int \<Rightarrow> ('k::linorder, 'v) bptree \<Rightarrow> 'k bounds \<Rightarrow>
    (string list \<times> bool \<times> 'k bounds) option" where
  "validate_node 0 node level s b = None"
| "validate_node (Suc fuel) node level s b = do {
     n \<leftarrow> bp_heap s node;
     (ls, ok) \<leftarrow> validate_fill level node n s;
     (if \<not> ok then Some (ls, False, b)
      else do {
        (ls', ok, b) \<leftarrow> (case n of
            LeafNode ks vs nx \<Rightarrow> validate_leaf level ks b
          | InternalNode ks cs \<Rightarrow>
              if cs = [] then Some ([says ''Error: Internal node has no children at'' level], False, b)
              else if length ks \<noteq> length cs - 1 then
                Some ([says ''Error: Key count mismatch at internal node'' level], False, b)
              else do {
                (ls', ok) \<leftarrow> validate_children (\<lambda>c b. validate_node fuel c (level + 1) s b) level ks 0 cs (None, None, True);
                Some (ls', ok, b) });
        Some (ls @ ls', ok, b) }) }"

definition bp_validate :: "nat \<Rightarrow> ('k::linorder, 'v) bptree \<Rightarrow> (string list \<times> bool) option" where
  "bp_validate fuel s = (case bp_root s of None \<Rightarrow> Some ([], True)
     | Some r \<Rightarrow> do {
         (ls, ok, b) \<leftarrow> validate_node fuel r 0 s (None, None, True);
         Some (ls, ok) })"

text \<open>The equations of the loops, for evaluation.\<close>

declare
  leaf_range.simps [code] and
  insert_nonfull.simps [code] and
  remove_recursive.simps [code] and
  find_leaf_from.simps [code] and
  height_loop.simps [code] and
  size_loop.simps [code]

end
