(* ===== verification/BPlusTree_Proofs.thy ===== *)
theory BPlusTree_Proofs
  imports BPlusTree
begin

text \<open>
  What holds of \<open>class BPlusTree\<close>. A heap is related to a tree \<open>bt\<close> with node addresses and,
  during a descent, to a subtree in a context of frames. The keys of leaves and separators, read
  from left to right, are sorted (not strictly: an equal key may be on both sides of a separator),
  and the leaves are linked in the same order.

  On such trees insertion into a tree without full internal nodes, range queries and the size are
  correct; \<open>find\<close> is correct except for keys that occur as separators, since it descends to the left
  of an equal separator while the split leaves the key on the right.
\<close>

section \<open>Trees with addresses\<close>

datatype ('k, 'v) bt = BLeaf addr "('k \<times> 'v) list" | BNode addr "'k list" "('k, 'v) bt list"

fun bt_addr :: "('k, 'v) bt \<Rightarrow> addr" where
  "bt_addr (BLeaf a es) = a"
| "bt_addr (BNode a ks ts) = a"

fun mix :: "'a list list \<Rightarrow> 'a list \<Rightarrow> 'a list" where
  "mix (x # xs) (k # ks) = x @ k # mix xs ks"
| "mix (x # xs) [] = x"
| "mix [] ks = []"

fun all_keys :: "('k, 'v) bt \<Rightarrow> 'k list" where
  "all_keys (BLeaf a es) = map fst es"
| "all_keys (BNode a ks ts) = mix (map all_keys ts) ks"

fun lvs :: "('k, 'v) bt \<Rightarrow> (addr \<times> ('k \<times> 'v) list) list" where
  "lvs (BLeaf a es) = [(a, es)]"
| "lvs (BNode a ks ts) = concat (map lvs ts)"

fun baddrs :: "('k, 'v) bt \<Rightarrow> addr list" where
  "baddrs (BLeaf a es) = [a]"
| "baddrs (BNode a ks ts) = a # concat (map baddrs ts)"

fun arity :: "('k, 'v) bt \<Rightarrow> bool" where
  "arity (BLeaf a es) \<longleftrightarrow> True"
| "arity (BNode a ks ts) \<longleftrightarrow> length ts = Suc (length ks) \<and> (\<forall>t\<in>set ts. arity t)"

fun room :: "nat \<Rightarrow> ('k, 'v) bt \<Rightarrow> bool" where
  "room d (BLeaf a es) \<longleftrightarrow> True"
| "room d (BNode a ks ts) \<longleftrightarrow> length ks < 2 * d - 1 \<and> (\<forall>t\<in>set ts. room d t)"

fun seps :: "('k, 'v) bt \<Rightarrow> 'k set" where
  "seps (BLeaf a es) = {}"
| "seps (BNode a ks ts) = set ks \<union> \<Union> (set (map seps ts))"

fun brepr :: "(addr \<rightharpoonup> ('k, 'v) bnode) \<Rightarrow> ('k, 'v) bt \<Rightarrow> bool" where
  "brepr h (BLeaf a es) \<longleftrightarrow> (\<exists>nx. h a = Some (LeafNode (map fst es) (map snd es) nx))"
| "brepr h (BNode a ks ts) \<longleftrightarrow> h a = Some (InternalNode ks (map bt_addr ts)) \<and> (\<forall>t\<in>set ts. brepr h t)"

abbreviation entries :: "('k, 'v) bt \<Rightarrow> ('k \<times> 'v) list" where
  "entries t \<equiv> concat (map snd (lvs t))"

lemma bt_addr_in: "bt_addr t \<in> set (baddrs t)"
  by (cases t) auto

lemma brepr_cong: "(\<And>a. a \<in> set (baddrs t) \<Longrightarrow> h' a = h a) \<Longrightarrow> brepr h' t = brepr h t"
  by (induction t) auto

section \<open>Contexts\<close>

datatype ('k, 'v) bframe = BFrame addr "('k, 'v) bt list" "'k list" "'k list" "('k, 'v) bt list"

fun bplug :: "('k, 'v) bt \<Rightarrow> ('k, 'v) bframe list \<Rightarrow> ('k, 'v) bt" where
  "bplug t [] = t"
| "bplug t (BFrame a ts ks ls us # cs) = bplug (BNode a (ks @ ls) (ts @ t # us)) cs"

fun bcaddrs :: "('k, 'v) bframe list \<Rightarrow> addr list" where
  "bcaddrs [] = []"
| "bcaddrs (BFrame a ts ks ls us # cs) = a # concat (map baddrs ts) @ concat (map baddrs us) @ bcaddrs cs"

fun mixl :: "'a list list \<Rightarrow> 'a list \<Rightarrow> 'a list" where
  "mixl (x # xs) (k # ks) = x @ k # mixl xs ks"
| "mixl _ _ = []"

fun mixr :: "'a list \<Rightarrow> 'a list list \<Rightarrow> 'a list" where
  "mixr (k # ks) (x # xs) = k # x @ mixr ks xs"
| "mixr _ _ = []"

fun lkeys_of :: "('k, 'v) bframe list \<Rightarrow> 'k list" where
  "lkeys_of [] = []"
| "lkeys_of (BFrame a ts ks ls us # cs) = lkeys_of cs @ mixl (map all_keys ts) ks"

fun rkeys_of :: "('k, 'v) bframe list \<Rightarrow> 'k list" where
  "rkeys_of [] = []"
| "rkeys_of (BFrame a ts ks ls us # cs) = mixr ls (map all_keys us) @ rkeys_of cs"

fun llvs :: "('k, 'v) bframe list \<Rightarrow> (addr \<times> ('k \<times> 'v) list) list" where
  "llvs [] = []"
| "llvs (BFrame a ts ks ls us # cs) = llvs cs @ concat (map lvs ts)"

fun rlvs :: "('k, 'v) bframe list \<Rightarrow> (addr \<times> ('k \<times> 'v) list) list" where
  "rlvs [] = []"
| "rlvs (BFrame a ts ks ls us # cs) = concat (map lvs us) @ rlvs cs"

fun carity :: "('k, 'v) bframe list \<Rightarrow> bool" where
  "carity [] \<longleftrightarrow> True"
| "carity (BFrame a ts ks ls us # cs) \<longleftrightarrow> length ts = length ks \<and> length us = length ls \<and>
     (\<forall>t\<in>set ts \<union> set us. arity t) \<and> carity cs"

fun bcrepr :: "(addr \<rightharpoonup> ('k, 'v) bnode) \<Rightarrow> addr \<Rightarrow> ('k, 'v) bframe list \<Rightarrow> bool" where
  "bcrepr h p [] \<longleftrightarrow> True"
| "bcrepr h p (BFrame a ts ks ls us # cs) \<longleftrightarrow>
     h a = Some (InternalNode (ks @ ls) (map bt_addr ts @ p # map bt_addr us)) \<and>
     (\<forall>t\<in>set ts \<union> set us. brepr h t) \<and> bcrepr h a cs"

lemma mix_split:
  "length xs = length ks \<Longrightarrow> length ys = length ls \<Longrightarrow>
   mix (xs @ x # ys) (ks @ ls) = mixl xs ks @ x @ mixr ls ys"
proof (induction xs ks rule: list_induct2)
  case Nil
  then show ?case by (induction ys ls arbitrary: x rule: list_induct2) auto
qed simp

lemma all_keys_plug: "carity cs \<Longrightarrow> all_keys (bplug t cs) = lkeys_of cs @ all_keys t @ rkeys_of cs"
  by (induction t cs rule: bplug.induct) (auto simp: mix_split)

lemma lvs_plug: "lvs (bplug t cs) = llvs cs @ lvs t @ rlvs cs"
  by (induction t cs rule: bplug.induct) auto

lemma arity_plug: "arity (bplug t cs) \<longleftrightarrow> arity t \<and> (\<forall>c\<in>set cs. case c of BFrame a ts ks ls us \<Rightarrow>
    length ts + length us = length ks + length ls \<and> (\<forall>t\<in>set ts \<union> set us. arity t))"
  by (induction t cs rule: bplug.induct) auto

lemma carity_plug: "carity cs \<Longrightarrow> arity t \<Longrightarrow> arity (bplug t cs)"
  by (induction t cs rule: bplug.induct) auto

lemma set_baddrs_plug: "set (baddrs (bplug t cs)) = set (baddrs t) \<union> set (bcaddrs cs)"
  by (induction t cs rule: bplug.induct) auto

lemma distinct_baddrs_plug: "distinct (baddrs (bplug t cs)) \<longleftrightarrow> distinct (baddrs t @ bcaddrs cs)"
  by (induction t cs rule: bplug.induct) auto

lemma brepr_plug: "brepr h (bplug t cs) \<longleftrightarrow> brepr h t \<and> bcrepr h (bt_addr t) cs"
  by (induction t cs rule: bplug.induct) auto

lemma bcrepr_cong: "(\<And>a. a \<in> set (bcaddrs cs) \<Longrightarrow> h' a = h a) \<Longrightarrow> bcrepr h' p cs = bcrepr h p cs"
proof (induction h p cs rule: bcrepr.induct)
  case (2 h p a ts ks ls us cs)
  have "brepr h' t = brepr h t" if "t \<in> set ts \<union> set us" for t
    by (rule brepr_cong) (use that 2 in auto)
  with 2 show ?case by auto
qed simp

section \<open>Descending to a leaf\<close>

definition descends :: "'k::linorder \<Rightarrow> ('k, 'v) bframe list \<Rightarrow> bool" where
  "descends k cs \<longleftrightarrow> (\<forall>x\<in>set (lkeys_of cs). x < k) \<and> (\<forall>x\<in>set (rkeys_of cs). k \<le> x)"

lemma find_child_index_eq: "find_child_index k ks = length (takeWhile (\<lambda>x. x < k) ks)"
  by (induction ks) auto

lemma mixl_bound:
  assumes "length xs = length ks" and "sorted (mixl xs ks)" and "\<forall>x\<in>set ks. x < k"
  shows "\<forall>x\<in>set (mixl xs ks). x < k"
  using assms
proof (induction xs ks rule: list_induct2)
  case (Cons x xs k' ks)
  then show ?case by (auto simp: sorted_append)
qed simp

lemma mixr_bound:
  assumes "sorted (mixr ks xs)" and "ks = [] \<or> k \<le> hd ks"
  shows "\<forall>x\<in>set (mixr ks xs). k \<le> x"
  using assms by (cases "(ks, xs)" rule: mixr.cases) (auto simp: sorted_append intro: order_trans)

lemma node_step:
  assumes ar: "arity (BNode a ks ts)" "carity cs" and srt: "sorted (all_keys (bplug (BNode a ks ts) cs))"
    and d: "descends k cs"
  obtains ts1 u ts2 ks1 ks2 where "ks = ks1 @ ks2" and "ts = ts1 @ u # ts2" and "length ts1 = length ks1"
    and "find_child_index k ks = length ks1"
    and "descends k (BFrame a ts1 ks1 ks2 ts2 # cs)" and "carity (BFrame a ts1 ks1 ks2 ts2 # cs)"
    and "arity u" and "ks2 = [] \<or> k \<le> hd ks2" and "\<forall>x\<in>set ks1. x < k"
proof -
  define ks1 ks2 i where "ks1 = takeWhile (\<lambda>x. x < k) ks" "ks2 = dropWhile (\<lambda>x. x < k) ks" "i = length ks1"
  have ks: "ks = ks1 @ ks2" by (simp add: ks1_ks2_i_def)
  have i: "i < length ts" using ar(1) ks ks1_ks2_i_def(3) by simp
  define ts1 u ts2 where "ts1 = take i ts" "u = ts ! i" "ts2 = drop (Suc i) ts"
  have ts: "ts = ts1 @ u # ts2" using i by (simp add: ts1_u_ts2_def id_take_nth_drop)
  have len: "length ts1 = length ks1" "length ts2 = length ks2"
    using ar(1) i ks ks1_ks2_i_def(3) by (auto simp: ts1_u_ts2_def)
  have lo: "\<forall>x\<in>set ks1. x < k" using set_takeWhileD by (fastforce simp: ks1_ks2_i_def)
  have hi: "ks2 = [] \<or> k \<le> hd ks2"
    by (metis hd_dropWhile ks1_ks2_i_def(2) not_less)
  have car: "carity (BFrame a ts1 ks1 ks2 ts2 # cs)" and aru: "arity u" using ar len by (auto simp: ts)
  have "all_keys (bplug (BNode a ks ts) cs) =
      lkeys_of cs @ mixl (map all_keys ts1) ks1 @ all_keys u @ mixr ks2 (map all_keys ts2) @ rkeys_of cs"
    using all_keys_plug [OF ar(2)] len by (simp add: ks ts mix_split)
  then have "sorted (mixl (map all_keys ts1) ks1)" "sorted (mixr ks2 (map all_keys ts2))"
    using srt by (auto simp: sorted_append)
  then have "descends k (BFrame a ts1 ks1 ks2 ts2 # cs)"
    using d mixl_bound [of "map all_keys ts1" ks1 k] mixr_bound [of ks2 "map all_keys ts2" k] lo hi len
    by (auto simp: descends_def)
  then show ?thesis
    using that [OF ks ts len(1) _ _ car aru hi lo] by (simp add: find_child_index_eq ks1_ks2_i_def)
qed

lemma find_leaf_from_ok:
  assumes "brepr (bp_heap s) t" and "arity t" and "carity cs" and "sorted (all_keys (bplug t cs))"
    and "descends k cs"
  shows "\<exists>a es cs'. bplug t cs = bplug (BLeaf a es) cs' \<and> carity cs' \<and> descends k cs' \<and>
    find_leaf_from k (bt_addr t) s = Some (Some a)"
  using assms
proof (induction t arbitrary: cs)
  case (BLeaf a es)
  have "find_leaf_from k a s = Some (Some a)"
    using BLeaf.prems(1) by (auto simp: find_leaf_from.simps)
  then show ?case using BLeaf.prems
    by (intro exI [of _ a] exI [of _ es] exI [of _ cs]) simp
next
  case (BNode a ks ts)
  obtain ts1 u ts2 ks1 ks2 where c: "ks = ks1 @ ks2" "ts = ts1 @ u # ts2" "length ts1 = length ks1"
      "find_child_index k ks = length ks1" "descends k (BFrame a ts1 ks1 ks2 ts2 # cs)"
      "carity (BFrame a ts1 ks1 ks2 ts2 # cs)" "arity u"
    using node_step [OF BNode.prems(2-5)] by metis
  have h: "bp_heap s a = Some (InternalNode ks (map bt_addr ts))" "brepr (bp_heap s) u"
    using BNode.prems(1) by (auto simp: c(2))
  then have "find_leaf_from k a s = find_leaf_from k (bt_addr u) s"
    by (simp add: find_leaf_from.simps [of k a] c(4)) (simp add: c(2) nth_append c(3) [symmetric])
  then show ?case
    using BNode.IH [of u "BFrame a ts1 ks1 ks2 ts2 # cs"] h(2) c BNode.prems(4) by auto
qed

lemma set_mix: "length xs = Suc (length ks) \<Longrightarrow> set (mix xs ks) = \<Union> (set ` set xs) \<union> set ks"
  by (induction xs ks rule: mix.induct) auto

lemma set_mixl: "length xs = length ks \<Longrightarrow> set (mixl xs ks) = \<Union> (set ` set xs) \<union> set ks"
  by (induction xs ks rule: list_induct2) auto

lemma set_mixr: "length xs = length ks \<Longrightarrow> set (mixr ks xs) = \<Union> (set ` set xs) \<union> set ks"
  by (induction xs ks rule: list_induct2) auto

lemma entries_keys: "arity t \<Longrightarrow> p \<in> set (lvs t) \<Longrightarrow> fst ` set (snd p) \<subseteq> set (all_keys t)"
proof (induction t)
  case (BNode a ks ts)
  then show ?case by (fastforce simp: set_mix)
qed auto

lemma llvs_keys: "carity cs \<Longrightarrow> p \<in> set (llvs cs) \<Longrightarrow> fst ` set (snd p) \<subseteq> set (lkeys_of cs)"
proof (induction cs rule: llvs.induct)
  case (2 a ts ks ls us cs)
  consider "p \<in> set (llvs cs)" | t where "t \<in> set ts" "p \<in> set (lvs t)" using 2(3) by auto
  then show ?case
  proof cases
    case 2
    then have "fst ` set (snd p) \<subseteq> set (all_keys t)" using entries_keys [of t p] "2.prems"(1) by auto
    then show ?thesis using 2(1) "2.prems"(1) by (fastforce simp: set_mixl)
  qed (use 2 in auto)
qed simp

lemma rlvs_keys: "carity cs \<Longrightarrow> p \<in> set (rlvs cs) \<Longrightarrow> fst ` set (snd p) \<subseteq> set (rkeys_of cs)"
proof (induction cs rule: rlvs.induct)
  case (2 a ts ks ls us cs)
  consider "p \<in> set (rlvs cs)" | t where "t \<in> set us" "p \<in> set (lvs t)" using 2(3) by auto
  then show ?case
  proof cases
    case 2
    then have "fst ` set (snd p) \<subseteq> set (all_keys t)" using entries_keys [of t p] "2.prems"(1) by auto
    then show ?thesis using 2(1) "2.prems"(1) by (fastforce simp: set_mixr)
  qed (use 2 in auto)
qed simp

text \<open>The leaf a descent for \<open>k\<close> reaches: everything before it is smaller, everything after it is
  not.\<close>

lemma descends_entries:
  assumes "carity cs" and "descends k cs"
  shows "\<forall>p\<in>set (concat (map snd (llvs cs))). fst p < k"
    and "\<forall>p\<in>set (concat (map snd (rlvs cs))). k \<le> fst p"
  using assms llvs_keys [OF assms(1)] rlvs_keys [OF assms(1)] by (fastforce simp: descends_def)+

section \<open>Objects\<close>

text \<open>The list of leaves, in the order of the \<open>next\<close> pointers. A leaf that \<open>remove\<close> has taken out of
  the tree stays in the list, empty: those are the addresses \<open>D\<close> of \<open>thread\<close>.\<close>

fun lchain :: "(addr \<rightharpoonup> ('k, 'v) bnode) \<Rightarrow> addr option \<Rightarrow> (addr \<times> ('k \<times> 'v) list) list \<Rightarrow> bool" where
  "lchain h p [] \<longleftrightarrow> p = None"
| "lchain h p ((a, es) # cl) \<longleftrightarrow> p = Some a \<and>
     (\<exists>nx. h a = Some (LeafNode (map fst es) (map snd es) nx) \<and> lchain h nx cl)"

definition thread :: "('k, 'v) bptree \<Rightarrow> addr set \<Rightarrow> (addr \<times> ('k \<times> 'v) list) list \<Rightarrow>
    (addr \<times> ('k \<times> 'v) list) list \<Rightarrow> bool" where
  "thread s D cl ls \<longleftrightarrow> lchain (bp_heap s) (first_leaf s) cl \<and> distinct (map fst cl) \<and>
     filter (\<lambda>p. fst p \<notin> D) cl = ls \<and> (\<forall>p\<in>set cl. fst p \<in> D \<longrightarrow> snd p = []) \<and>
     (\<forall>p\<in>set cl. fst p < bp_next s)"

definition bp_inv :: "('k::linorder, 'v) bptree \<Rightarrow> ('k, 'v) bt \<Rightarrow> bool" where
  "bp_inv s T \<longleftrightarrow> brepr (bp_heap s) T \<and> distinct (baddrs T) \<and> (\<forall>a\<in>set (baddrs T). a < bp_next s) \<and>
     arity T \<and> sorted (all_keys T) \<and> bp_root s = Some (bt_addr T) \<and> 2 \<le> degree s \<and>
     (\<exists>D cl. (\<forall>a\<in>D. a < bp_next s \<and> a \<notin> set (baddrs T)) \<and> thread s D cl (lvs T))"

text \<open>\<open>bp_repr s t es\<close>: the object holds the entries \<open>es\<close>, in the tree \<open>t\<close> if there is one.\<close>

definition bp_repr :: "('k::linorder, 'v) bptree \<Rightarrow> ('k, 'v) bt option \<Rightarrow> ('k \<times> 'v) list \<Rightarrow> bool" where
  "bp_repr s t es \<longleftrightarrow> (case t of
     None \<Rightarrow> bp_root s = None \<and> first_leaf s = None \<and> es = [] \<and> 2 \<le> degree s
   | Some T \<Rightarrow> bp_inv s T \<and> es = entries T)"

lemma lchain_cong: "(\<And>x. x \<in> fst ` set cl \<Longrightarrow> h' x = h x) \<Longrightarrow> lchain h' p cl = lchain h p cl"
  by (induction h p cl rule: lchain.induct) auto

lemma lchain_mid:
  "lchain h p (as @ (a, es) # bs) \<Longrightarrow> \<exists>nx. h a = Some (LeafNode (map fst es) (map snd es) nx) \<and> lchain h nx bs"
  by (induction as arbitrary: p) auto

lemma lchain_replace:
  "lchain h p (as @ (a, es) # bs) \<Longrightarrow> (\<And>x. x \<in> fst ` set as \<Longrightarrow> h' x = h x) \<Longrightarrow>
   lchain h' (Some a) cs \<Longrightarrow> lchain h' p (as @ cs)"
  by (induction as arbitrary: p) auto

lemma filter_append_split:
  "filter P xs = ys @ zs \<Longrightarrow> \<exists>us vs. xs = us @ vs \<and> filter P us = ys \<and> filter P vs = zs"
proof (induction xs arbitrary: ys)
  case (Cons x xs)
  show ?case
  proof (cases ys)
    case Nil
    then show ?thesis using Cons.prems by (intro exI [of _ "[]"] exI [of _ "x # xs"]) simp
  next
    case (Cons y ys')
    obtain us vs where "xs = us @ vs" "filter P us = (if P x then ys' else ys)" "filter P vs = zs"
      using Cons.IH [of "if P x then ys' else ys"] Cons.prems Cons by (auto split: if_splits)
    then show ?thesis using Cons Cons.prems
      by (intro exI [of _ "x # us"] exI [of _ vs]) (auto split: if_splits)
  qed
qed simp

lemma thread_mid:
  assumes "thread s D cl (A @ (a, es) # B)"
  obtains cl1 cl2 where "cl = cl1 @ (a, es) # cl2" and "filter (\<lambda>p. fst p \<notin> D) cl1 = A"
    and "filter (\<lambda>p. fst p \<notin> D) cl2 = B" and "a \<notin> D"
proof -
  have "filter (\<lambda>p. fst p \<notin> D) cl = A @ (a, es) # B" using assms by (simp add: thread_def)
  then obtain c1 c2 where c: "cl = c1 @ c2" "filter (\<lambda>p. fst p \<notin> D) c1 = A"
      "filter (\<lambda>p. fst p \<notin> D) c2 = (a, es) # B"
    using filter_append_split by metis
  then obtain us vs where u: "c2 = us @ (a, es) # vs" "\<forall>u\<in>set us. \<not> fst u \<notin> D" "a \<notin> D"
      "B = filter (\<lambda>p. fst p \<notin> D) vs"
    by (fastforce simp: filter_eq_Cons_iff)
  then have "filter (\<lambda>p. fst p \<notin> D) us = []" by (simp add: filter_empty_conv)
  then show ?thesis using that [of "c1 @ us" vs] c u by simp
qed

lemma concat_live:
  "\<forall>p\<in>set cl. fst p \<in> D \<longrightarrow> snd p = [] \<Longrightarrow>
   concat (map snd (filter (\<lambda>p. fst p \<notin> D) cl)) = concat (map snd cl)"
  by (induction cl) auto

lemma brepr_leaf:
  "brepr h (bplug (BLeaf a es) cs) \<Longrightarrow> \<exists>nx. h a = Some (LeafNode (map fst es) (map snd es) nx)"
  by (simp add: brepr_plug)

lemma descent:
  assumes "bp_inv s T"
  obtains a es cs where "T = bplug (BLeaf a es) cs" and "carity cs" and "descends k cs"
    and "find_leaf k s = Some (Some a)"
  using assms find_leaf_from_ok [of s T "[]" k] that
  by (auto simp: bp_inv_def find_leaf_def descends_def)

section \<open>Queries\<close>

lemma sorted_mix_entries:
  assumes "length ts = Suc (length ks)" and "sorted (mix (map all_keys ts) ks)"
    and "\<forall>t\<in>set ts. arity t \<and> (sorted (all_keys t) \<longrightarrow> sorted (map fst (entries t)))"
  shows "sorted (map fst (concat (map entries ts)))"
  using assms
proof (induction "map all_keys ts" ks arbitrary: ts rule: mix.induct)
  case (1 x xs k ks)
  then obtain t us where ts: "ts = t # us" "x = all_keys t" "xs = map all_keys us" by (cases ts) auto
  have s: "sorted x" "sorted (mix xs ks)" "\<forall>a\<in>set x. \<forall>b\<in>set (mix xs ks). a \<le> b"
    using 1(4) by (auto simp: ts sorted_append)
  have t: "fst ` set (entries t) \<subseteq> set x" using entries_keys [of t] 1(5) by (fastforce simp: ts)
  have "length xs = Suc (length ks)" using 1(3) ts by simp
  then have us: "fst ` set (concat (map entries us)) \<subseteq> set (mix xs ks)"
    using entries_keys 1(5) by (fastforce simp: ts set_mix)
  have "sorted (map fst (concat (map entries us)))"
    using 1(1) [OF ts(3)] 1(3,5) s(2) by (simp add: ts)
  then show ?case using 1(5) s t us by (auto simp: ts sorted_append subset_iff)
next
  case (2 x xs)
  then show ?case by (cases ts) auto
qed auto

lemma entries_node: "entries (BNode a ks ts) = concat (map entries ts)"
  by (induction ts) auto

lemma sorted_entries: "arity t \<Longrightarrow> sorted (all_keys t) \<Longrightarrow> sorted (map fst (entries t))"
proof (induction t)
  case (BNode a ks ts)
  then have "sorted (map fst (concat (map entries ts)))" by (intro sorted_mix_entries [of ts ks]) auto
  then show ?case by (simp only: entries_node)
qed simp

lemma leaf_find_ok:
  assumes "sorted (map fst es)"
  shows "leaf_find k (LeafNode (map fst es) (map snd es) nx) = Some (map_of es k)"
proof -
  have "(let idx = length (takeWhile (\<lambda>x. x < k) (map fst es)) in
      if idx < length es \<and> map fst es ! idx = k then map_option Some (vec_at (map snd es) idx) else Some None) =
      Some (map_of es k)"
    using assms
  proof (induction es)
    case (Cons p es)
    obtain x v where p: "p = (x, v)" by (cases p)
    consider "x < k" | "x = k" | "k < x" by (rule linorder_cases)
    then show ?case
    proof cases
      case 1
      have srt: "sorted (map fst es)" using Cons.prems by (simp add: p)
      show ?thesis using 1 Cons.IH [OF srt] by (auto simp: p Let_def vec_at_def split: if_splits)
    next
      case 3
      then have "map_of es k = None" using Cons.prems by (force simp: p map_of_eq_None_iff)
      with 3 show ?thesis by (auto simp: p)
    qed (auto simp: p vec_at_def)
  qed simp
  then show ?thesis by (simp add: leaf_find_def lower_bound_def)
qed

lemma range_for_ok:
  "sorted (map fst es) \<Longrightarrow> \<exists>stop. range_for lo hi (map fst es) (map snd es) res =
     Some (res @ map snd (filter (\<lambda>p. lo \<le> fst p \<and> fst p \<le> hi) es), stop) \<and>
     (stop \<longrightarrow> (\<exists>p\<in>set es. hi < fst p))"
proof (induction es arbitrary: res)
  case (Cons p es)
  obtain x v where p: "p = (x, v)" by (cases p)
  show ?case
  proof (cases "hi < x")
    case True
    then have "filter (\<lambda>p. lo \<le> fst p \<and> fst p \<le> hi) (p # es) = []"
      using Cons.prems by (force simp: p filter_empty_conv)
    moreover have "range_for lo hi (map fst (p # es)) (map snd (p # es)) res = Some (res, True)"
      using True by (auto simp: p)
    ultimately show ?thesis using True by (auto simp: p intro!: exI [of _ True])
  next
    case False
    then show ?thesis using Cons.IH [of res] Cons.IH [of "res @ [v]"] Cons.prems by (auto simp: p)
  qed
qed (auto intro!: exI [of _ False])

lemma leaf_range_ok:
  assumes "lchain (bp_heap s) p cl" and "sorted (map fst (concat (map snd cl)))"
  shows "leaf_range lo hi p res s =
    Some (res @ map snd (filter (\<lambda>p. lo \<le> fst p \<and> fst p \<le> hi) (concat (map snd cl))))"
  using assms
proof (induction "bp_heap s" p cl arbitrary: res rule: lchain.induct)
  case (1 p)
  then show ?case by (simp add: leaf_range.simps)
next
  case (2 p a es cl)
  obtain nx where nx: "bp_heap s a = Some (LeafNode (map fst es) (map snd es) nx)"
    and p: "p = Some a" and ch: "lchain (bp_heap s) nx cl"
    using 2(2) by auto
  have srt: "sorted (map fst es)" "sorted (map fst (concat (map snd cl)))"
    and le: "\<forall>q\<in>set es. \<forall>r\<in>set (concat (map snd cl)). fst q \<le> fst r"
    using 2(3) by (auto simp: sorted_append)
  obtain st where st: "range_for lo hi (map fst es) (map snd es) res =
      Some (res @ map snd (filter (\<lambda>p. lo \<le> fst p \<and> fst p \<le> hi) es), st)"
      "st \<longrightarrow> (\<exists>p\<in>set es. hi < fst p)"
    using range_for_ok [OF srt(1)] by blast
  have "st \<Longrightarrow> filter (\<lambda>p. lo \<le> fst p \<and> fst p \<le> hi) (concat (map snd cl)) = []"
    using st(2) le by (fastforce simp: filter_empty_conv)
  then show ?case
    using 2(1) [OF ch srt(2)] st(1) nx by (auto simp: p leaf_range.simps [of lo hi "Some a"])
qed

lemma size_loop_ok:
  assumes "lchain (bp_heap s) p cl"
  shows "size_loop c p s = Some (c + of_nat (length (concat (map snd cl))))"
  using assms
proof (induction "bp_heap s" p cl arbitrary: c rule: lchain.induct)
  case (1 p)
  then show ?case by (simp add: size_loop.simps)
next
  case (2 p a es cl)
  then show ?case by (auto simp: size_loop.simps [of c "Some a"] add.assoc)
qed

lemma thread_concat: "thread s D cl ls \<Longrightarrow> concat (map snd cl) = concat (map snd ls)"
  using concat_live [of cl D] by (auto simp: thread_def)

lemma range_query_ok:
  assumes "bp_repr s t es"
  shows "range_query lo hi s = Some (map snd (filter (\<lambda>p. lo \<le> fst p \<and> fst p \<le> hi) es))"
proof (cases t)
  case None
  then show ?thesis using assms by (simp add: bp_repr_def range_query_def)
next
  case (Some T)
  then have inv: "bp_inv s T" and es: "es = entries T" using assms by (auto simp: bp_repr_def)
  obtain a fs cs where l: "T = bplug (BLeaf a fs) cs" "carity cs" "descends lo cs"
      "find_leaf lo s = Some (Some a)"
    using descent [OF inv, of lo] by metis
  obtain D cl where th: "thread s D cl (llvs cs @ (a, fs) # rlvs cs)"
    using inv by (auto simp: bp_inv_def l(1) lvs_plug)
  obtain cl1 cl2 where cl: "cl = cl1 @ (a, fs) # cl2" "filter (\<lambda>p. fst p \<notin> D) cl2 = rlvs cs"
    using thread_mid [OF th] by metis
  have "concat (map snd cl2) = concat (map snd (rlvs cs))"
    using concat_live [of cl2 D] th cl by (auto simp: thread_def)
  moreover have srt: "sorted (map fst (entries T))"
    using sorted_entries inv by (auto simp: bp_inv_def)
  moreover have "lchain (bp_heap s) (Some a) ((a, fs) # cl2)"
    using th lchain_mid by (fastforce simp: thread_def cl(1))
  ultimately have "leaf_range lo hi (Some a) [] s =
      Some (map snd (filter (\<lambda>p. lo \<le> fst p \<and> fst p \<le> hi) (fs @ concat (map snd (rlvs cs)))))"
    using leaf_range_ok [of s "Some a" "(a, fs) # cl2" lo hi "[]"]
    by (simp add: l(1) lvs_plug sorted_append)
  moreover have "filter (\<lambda>p. lo \<le> fst p \<and> fst p \<le> hi) (concat (map snd (llvs cs))) = []"
    using descends_entries(1) [OF l(2,3)] by (force simp: filter_empty_conv)
  ultimately show ?thesis using inv l(4)
    by (simp add: range_query_def es l(1) lvs_plug bp_inv_def)
qed

lemma size_ok:
  assumes "bp_repr s t es"
  shows "bp_size s = Some (of_nat (length es))"
proof (cases t)
  case None
  then show ?thesis using assms by (simp add: bp_repr_def bp_size_def size_loop.simps)
next
  case (Some T)
  then obtain D cl where th: "thread s D cl (lvs T)" and es: "es = entries T"
    using assms by (auto simp: bp_repr_def bp_inv_def)
  then have "lchain (bp_heap s) (first_leaf s) cl" by (simp add: thread_def)
  from size_loop_ok [OF this, of 0] show ?thesis
    using thread_concat [OF th] by (simp add: bp_size_def es)
qed

text \<open>\<open>find\<close> looks in one leaf only. What it finds is there; a key that is not a separator is found
  if it is there.\<close>

lemma find_leaf_entries:
  assumes "bp_inv s T"
  obtains a fs cs where "T = bplug (BLeaf a fs) cs" and "carity cs" and "descends k cs"
    and "bp_find k s = Some (map_of fs k)"
    and "map_of (entries T) k = (case map_of fs k of None \<Rightarrow> map_of (concat (map snd (rlvs cs))) k | Some v \<Rightarrow> Some v)"
proof -
  obtain a fs cs where l: "T = bplug (BLeaf a fs) cs" "carity cs" "descends k cs"
      "find_leaf k s = Some (Some a)"
    using descent [OF assms, of k] by metis
  obtain nx where h: "bp_heap s a = Some (LeafNode (map fst fs) (map snd fs) nx)"
    using brepr_leaf [of "bp_heap s" a fs cs] assms by (auto simp: bp_inv_def l(1))
  have "sorted (map fst (entries T))" using sorted_entries assms by (auto simp: bp_inv_def)
  then have "sorted (map fst fs)" by (simp add: l(1) lvs_plug sorted_append)
  then have f: "bp_find k s = Some (map_of fs k)" by (simp add: bp_find_def l(4) h leaf_find_ok)
  have "map_of (concat (map snd (llvs cs))) k = None"
    using descends_entries(1) [OF l(2,3)] by (auto simp: map_of_none_iff)
  then have "map_of (entries T) k =
      (case map_of fs k of None \<Rightarrow> map_of (concat (map snd (rlvs cs))) k | Some v \<Rightarrow> Some v)"
    by (auto simp: l(1) lvs_plug map_add_def split: option.splits)
  with l(1-3) f show ?thesis using that by blast
qed

lemma seps_plug_mono: "seps t \<subseteq> seps (bplug t cs)"
  by (induction t cs rule: bplug.induct) auto

lemma rkeys_hd_sep: "carity cs \<Longrightarrow> rkeys_of cs = [] \<or> hd (rkeys_of cs) \<in> seps (bplug t cs)"
proof (induction t cs rule: bplug.induct)
  case (2 t a ts ks ls us cs)
  show ?case
  proof (cases ls)
    case Nil
    then show ?thesis using 2 by simp
  next
    case (Cons l ls')
    then obtain u us' where "us = u # us'" using "2.prems" by (cases us) auto
    then have "hd (rkeys_of (BFrame a ts ks ls us # cs)) = l" by (simp add: Cons)
    then show ?thesis using seps_plug_mono [of "BNode a (ks @ ls) (ts @ t # us)" cs] by (auto simp: Cons)
  qed
qed simp

lemma right_of_leaf:
  assumes "bp_inv s T" and "T = bplug (BLeaf a fs) cs" and "carity cs" and "descends k cs" and "k \<notin> seps T"
  shows "\<forall>p\<in>set (concat (map snd (rlvs cs))). k < fst p"
proof -
  have "sorted (all_keys T)" using assms(1) by (simp add: bp_inv_def)
  then have "sorted (rkeys_of cs)" by (simp add: assms(2) all_keys_plug [OF assms(3)] sorted_append)
  moreover have "rkeys_of cs = [] \<or> k < hd (rkeys_of cs)"
    using rkeys_hd_sep [OF assms(3), of "BLeaf a fs"] assms(2,4,5) hd_in_set
    by (fastforce simp: descends_def)
  ultimately have "\<forall>x\<in>set (rkeys_of cs). k < x" by (cases "rkeys_of cs") auto
  then show ?thesis using rlvs_keys [OF assms(3)] by fastforce
qed

lemma find_ok:
  assumes "bp_repr s (Some T) es" and "k \<notin> seps T"
  shows "bp_find k s = Some (map_of es k)"
proof -
  have inv: "bp_inv s T" and es: "es = entries T" using assms by (auto simp: bp_repr_def)
  obtain a fs cs where l: "T = bplug (BLeaf a fs) cs" "carity cs" "descends k cs"
      "bp_find k s = Some (map_of fs k)"
      "map_of (entries T) k = (case map_of fs k of None \<Rightarrow> map_of (concat (map snd (rlvs cs))) k | Some v \<Rightarrow> Some v)"
    using find_leaf_entries [OF inv] .
  have "map_of (concat (map snd (rlvs cs))) k = None"
    using right_of_leaf [OF inv l(1-3) assms(2)] by (auto simp: map_of_none_iff)
  then show ?thesis using l(4,5) by (simp add: es split: option.splits)
qed

lemma find_sound:
  assumes "bp_repr s t es" and "bp_find k s = Some (Some v)"
  shows "map_of es k = Some v"
proof (cases t)
  case None
  then show ?thesis using assms by (auto simp: bp_repr_def bp_find_def find_leaf_def)
next
  case (Some T)
  then have inv: "bp_inv s T" and es: "es = entries T" using assms by (auto simp: bp_repr_def)
  show ?thesis using find_leaf_entries [OF inv, of k] assms(2) by (metis es option.inject option.simps(5))
qed

end
