(* ===== verification/BPlusTree_Insert.thy ===== *)
theory BPlusTree_Insert
  imports BPlusTree_Proofs
begin

text \<open>
  Insertion into a B+ tree. Leaves are split as they fill up; as long as the root is not a full
  internal node the new entry is added before the entries with the same key and every other entry
  stays.
\<close>

section \<open>Entries\<close>

text \<open>The new entry goes before the entries with the same key.\<close>

definition ins_before :: "'k::linorder \<Rightarrow> 'v \<Rightarrow> ('k \<times> 'v) list \<Rightarrow> ('k \<times> 'v) list" where
  "ins_before k v es = takeWhile (\<lambda>p. fst p < k) es @ (k, v) # dropWhile (\<lambda>p. fst p < k) es"

lemma ins_before_mid:
  assumes "\<forall>p\<in>set as. fst p < k" and "\<forall>p\<in>set cs. k \<le> fst p"
  shows "ins_before k v (as @ bs @ cs) = as @ ins_before k v bs @ cs"
proof -
  have "takeWhile (\<lambda>p. fst p < k) cs = []" "dropWhile (\<lambda>p. fst p < k) cs = cs"
    using assms(2) by (cases cs; auto)+
  then have "ins_before k v (bs @ cs) = ins_before k v bs @ cs"
    by (induction bs) (auto simp: ins_before_def)
  then show ?thesis using assms(1) by (simp add: ins_before_def)
qed

lemma set_ins_before: "set (ins_before k v es) = insert (k, v) (set es)"
proof -
  have "set (takeWhile (\<lambda>p. fst p < k) es @ dropWhile (\<lambda>p. fst p < k) es) = set es" by simp
  then show ?thesis by (auto simp: ins_before_def simp del: takeWhile_dropWhile_id)
qed

lemma length_ins_before: "length (ins_before k v es) = Suc (length es)"
proof -
  have "length (takeWhile (\<lambda>p. fst p < k) es @ dropWhile (\<lambda>p. fst p < k) es) = length es" by simp
  then show ?thesis by (auto simp: ins_before_def simp del: takeWhile_dropWhile_id)
qed

lemma sorted_ins_before: "sorted (map fst es) \<Longrightarrow> sorted (map fst (ins_before k v es))"
proof (induction es)
  case (Cons p es)
  then show ?case
  proof (cases "fst p < k")
    case True
    then have "ins_before k v (p # es) = p # ins_before k v es" by (simp add: ins_before_def)
    then show ?thesis using Cons True by (auto simp: set_ins_before)
  next
    case False
    then have "ins_before k v (p # es) = (k, v) # p # es" by (simp add: ins_before_def)
    then show ?thesis using Cons.prems False by auto
  qed
qed (simp add: ins_before_def)

lemma insert_at_ins_before:
  "insert_at (length (takeWhile (\<lambda>p. fst p < k) es)) (f (k, v)) (map f es) = Some (map f (ins_before k v es))"
proof -
  have "map f es = map f (takeWhile (\<lambda>p. fst p < k) es) @ map f (dropWhile (\<lambda>p. fst p < k) es)"
    by (simp flip: map_append)
  then show ?thesis
    using insert_at_append [of "map f (takeWhile (\<lambda>p. fst p < k) es)" "f (k, v)"] by (simp add: ins_before_def)
qed

lemma leaf_insert_key_ok:
  "leaf_insert_key k v (LeafNode (map fst es) (map snd es) nx) =
   Some (LeafNode (map fst (ins_before k v es)) (map snd (ins_before k v es)) nx)"
  using insert_at_ins_before [of k es fst v] insert_at_ins_before [of k es snd v]
  by (simp add: leaf_insert_key_def lower_bound_def takeWhile_map o_def)

lemma bt_addr_plug: "bt_addr t = bt_addr t' \<Longrightarrow> bt_addr (bplug t cs) = bt_addr (bplug t' cs)"
proof (induction t cs arbitrary: t' rule: bplug.induct)
  case (2 t a ts ks ls us cs)
  show ?case by (simp add: 2(1) [of "BNode a (ks @ ls) (ts @ t' # us)"])
qed simp

lemma set_leaf_ok:
  assumes inv: "bp_inv s (bplug (BLeaf a es) cs)" and car: "carity cs"
    and h: "bp_heap s a = Some (LeafNode (map fst es) (map snd es) nx)"
    and srt: "sorted (lkeys_of cs @ map fst es' @ rkeys_of cs)"
  shows "bp_inv (s\<lparr>bp_heap := (bp_heap s)(a \<mapsto> LeafNode (map fst es') (map snd es') nx)\<rparr>) (bplug (BLeaf a es') cs)"
proof -
  let ?h = "(bp_heap s)(a \<mapsto> LeafNode (map fst es') (map snd es') nx)"
  let ?s = "s\<lparr>bp_heap := ?h\<rparr>"
  have d: "a \<notin> set (bcaddrs cs)" using inv by (auto simp: bp_inv_def distinct_baddrs_plug)
  have cr: "bcrepr (bp_heap s) a cs" using inv by (simp add: bp_inv_def brepr_plug)
  have "bcrepr ?h a cs" using cr by (subst bcrepr_cong [of _ _ "bp_heap s"]) (use d in auto)
  moreover obtain D cl where th: "thread s D cl (llvs cs @ (a, es) # rlvs cs)"
    and D: "\<forall>x\<in>D. x < bp_next s \<and> x \<notin> set (baddrs (bplug (BLeaf a es) cs))"
    using inv by (auto simp: bp_inv_def lvs_plug)
  obtain cl1 cl2 where cl: "cl = cl1 @ (a, es) # cl2" "filter (\<lambda>p. fst p \<notin> D) cl1 = llvs cs"
      "filter (\<lambda>p. fst p \<notin> D) cl2 = rlvs cs" "a \<notin> D"
    using thread_mid [OF th] by metis
  have ds: "a \<notin> fst ` set cl1" "a \<notin> fst ` set cl2" using th by (auto simp: thread_def cl(1) rev_image_eqI)
  have ch: "lchain (bp_heap s) (first_leaf s) (cl1 @ (a, es) # cl2)" using th by (simp add: thread_def cl(1))
  have "lchain ?h nx cl2"
    using lchain_mid [OF ch] h by (subst lchain_cong [of _ _ "bp_heap s"]) (use ds in auto)
  then have "lchain ?h (Some a) ((a, es') # cl2)" by simp
  then have "lchain ?h (first_leaf s) (cl1 @ (a, es') # cl2)"
    by (intro lchain_replace [OF ch]) (use ds in auto)
  then have "thread ?s D (cl1 @ (a, es') # cl2) (llvs cs @ (a, es') # rlvs cs)"
    using th cl by (auto simp: thread_def)
  ultimately show ?thesis
    using inv D srt bt_addr_plug [of "BLeaf a es'" "BLeaf a es" cs]
    by (fastforce simp: bp_inv_def brepr_plug distinct_baddrs_plug set_baddrs_plug carity_plug [OF car]
      all_keys_plug [OF car] lvs_plug)
qed

text \<open>Splitting a full leaf below an internal node.\<close>

lemma split_leaf_thread:
  assumes th: "thread s D cl (A @ (a, es) # B)" and D: "\<forall>x\<in>D. x < bp_next s"
    and h: "bp_heap s a = Some (LeafNode (map fst es) (map snd es) nx)"
    and es: "es = e1 @ e2"
    and s': "first_leaf s' = first_leaf s" "bp_next s' = Suc (bp_next s)"
      "bp_heap s' a = Some (LeafNode (map fst e1) (map snd e1) (Some (bp_next s)))"
      "bp_heap s' (bp_next s) = Some (LeafNode (map fst e2) (map snd e2) nx)"
      "\<And>x. x \<in> fst ` set cl \<Longrightarrow> x \<noteq> a \<Longrightarrow> bp_heap s' x = bp_heap s x"
  shows "\<exists>cl'. thread s' D cl' (A @ (a, e1) # (bp_next s, e2) # B)"
proof -
  obtain cl1 cl2 where cl: "cl = cl1 @ (a, es) # cl2" "filter (\<lambda>p. fst p \<notin> D) cl1 = A"
      "filter (\<lambda>p. fst p \<notin> D) cl2 = B" "a \<notin> D"
    using thread_mid [OF th] by metis
  have ds: "a \<notin> fst ` set cl1" "a \<notin> fst ` set cl2" using th by (auto simp: thread_def cl(1) rev_image_eqI)
  have fresh: "bp_next s \<notin> fst ` set cl" "bp_next s \<notin> D" using th D by (auto simp: thread_def)
  have ch: "lchain (bp_heap s) (first_leaf s) (cl1 @ (a, es) # cl2)" using th by (simp add: thread_def cl(1))
  have "lchain (bp_heap s') nx cl2"
    using lchain_mid [OF ch] h by (subst lchain_cong [of _ _ "bp_heap s"]) (use ds s'(5) cl(1) in auto)
  then have "lchain (bp_heap s') (Some a) ((a, e1) # (bp_next s, e2) # cl2)" using s'(3,4) by simp
  then have "lchain (bp_heap s') (first_leaf s') (cl1 @ (a, e1) # (bp_next s, e2) # cl2)"
    unfolding s'(1) by (intro lchain_replace [OF ch]) (use ds s'(5) cl(1) in auto)
  then have "thread s' D (cl1 @ (a, e1) # (bp_next s, e2) # cl2) (A @ (a, e1) # (bp_next s, e2) # B)"
    using th cl fresh by (auto simp: thread_def s'(2) less_Suc_eq)
  then show ?thesis ..
qed

lemma halves:
  assumes "2 \<le> d" and "2 * d - 1 \<le> length es"
  obtains e1 e2 where "es = e1 @ e2" and "length e1 = length es div 2" and "e2 \<noteq> []"
  using that [of "take (length es div 2) es" "drop (length es div 2) es"] assms by auto

text \<open>What a split does to the heap: the halves \<open>e1\<close> and \<open>e2\<close> of leaf \<open>a\<close>.\<close>

lemma leaf_split_eq:
  assumes "bp_heap s a = Some (LeafNode (map fst (e1 @ e2)) (map snd (e1 @ e2)) nx)"
    and "length e1 = length (e1 @ e2) div 2"
  shows "leaf_split a s = Some (bp_next s, s\<lparr>bp_heap := (bp_heap s)
    (bp_next s \<mapsto> LeafNode (map fst e2) (map snd e2) nx,
     a \<mapsto> LeafNode (map fst e1) (map snd e1) (Some (bp_next s))), bp_next := Suc (bp_next s)\<rparr>)"
proof -
  have "(length e1 + length e2) div 2 = length e1" using assms(2) by simp
  then show ?thesis using assms(1) by (simp add: leaf_split_def Let_def)
qed

lemma insert_child_ok:
  assumes "length cs = length ks1" and "length ds = length ks2"
  shows "insert_child (length ks1) p n (InternalNode (ks1 @ ks2) (cs @ c # ds)) =
    Some (InternalNode (ks1 @ p # ks2) (cs @ c # n # ds))"
  using assms insert_at_append [of "cs @ [c]" n ds] insert_at_append [of ks1 p ks2]
  by (cases "ks2 = []") (auto simp: insert_child_def)

lemma sorted_promote:
  assumes "sorted (xs @ map fst e1 @ map fst e2 @ ys)" and "e2 \<noteq> []"
  shows "sorted (xs @ map fst e1 @ fst (hd e2) # map fst e2 @ ys)"
  using assms by (cases e2) (auto simp: sorted_append)

lemma lchain_leaf: "lchain h p cl \<Longrightarrow> x \<in> fst ` set cl \<Longrightarrow> \<exists>ks vs nx. h x = Some (LeafNode ks vs nx)"
  by (induction h p cl rule: lchain.induct) force+

lemma split_repr:
  assumes rep: "brepr h (bplug (BNode a (ks1 @ ks2) (ts1 @ BLeaf c es # ts2)) cs)"
    and dist: "distinct (a # concat (map baddrs ts1) @ c # concat (map baddrs ts2) @ bcaddrs cs)"
    and fresh: "n \<notin> set (concat (map baddrs ts1) @ concat (map baddrs ts2) @ bcaddrs cs)"
    and h': "h' a = Some (InternalNode (ks1 @ p # ks2) (map bt_addr ts1 @ c # n # map bt_addr ts2))"
      "h' c = Some (LeafNode (map fst e1) (map snd e1) (Some n))"
      "h' n = Some (LeafNode (map fst e2) (map snd e2) nx)"
      "\<And>x. x \<noteq> a \<Longrightarrow> x \<noteq> c \<Longrightarrow> x \<noteq> n \<Longrightarrow> h' x = h x"
  shows "brepr h' (bplug (BNode a (ks1 @ p # ks2) (ts1 @ BLeaf c e1 # BLeaf n e2 # ts2)) cs)"
proof -
  have br: "brepr h' t" if "t \<in> set ts1 \<union> set ts2" for t
  proof -
    have "a \<notin> set (baddrs t)" "c \<notin> set (baddrs t)" "n \<notin> set (baddrs t)" using that dist fresh by auto
    moreover have "brepr h t" using rep that by (auto simp: brepr_plug)
    ultimately show ?thesis by (subst brepr_cong [of _ _ h]) (use h'(4) in metis)+
  qed
  have "a \<notin> set (bcaddrs cs)" "c \<notin> set (bcaddrs cs)" "n \<notin> set (bcaddrs cs)" using dist fresh by auto
  moreover have "bcrepr h a cs" using rep by (simp add: brepr_plug)
  ultimately have "bcrepr h' a cs" by (subst bcrepr_cong [of _ _ h]) (use h'(4) in metis)+
  then show ?thesis using br h'(1-3) by (auto simp: brepr_plug)
qed

lemma split_inv:
  assumes inv: "bp_inv s (bplug (BNode a (ks1 @ ks2) (ts1 @ BLeaf c es # ts2)) cs)"
    and car: "carity (BFrame a ts1 ks1 ks2 ts2 # cs)"
    and hc: "bp_heap s c = Some (LeafNode (map fst es) (map snd es) nx)"
    and e: "es = e1 @ e2" "e2 \<noteq> []"
    and s': "degree s' = degree s" "first_leaf s' = first_leaf s" "bp_root s' = bp_root s"
      "bp_next s' = Suc (bp_next s)"
      "bp_heap s' a = Some (InternalNode (ks1 @ fst (hd e2) # ks2) (map bt_addr ts1 @ c # bp_next s # map bt_addr ts2))"
      "bp_heap s' c = Some (LeafNode (map fst e1) (map snd e1) (Some (bp_next s)))"
      "bp_heap s' (bp_next s) = Some (LeafNode (map fst e2) (map snd e2) nx)"
      "\<And>x. x \<noteq> a \<Longrightarrow> x \<noteq> c \<Longrightarrow> x \<noteq> bp_next s \<Longrightarrow> bp_heap s' x = bp_heap s x"
  shows "bp_inv s' (bplug (BNode a (ks1 @ fst (hd e2) # ks2) (ts1 @ BLeaf c e1 # BLeaf (bp_next s) e2 # ts2)) cs)"
    (is "bp_inv s' ?T'")
proof -
  let ?T = "bplug (BNode a (ks1 @ ks2) (ts1 @ BLeaf c es # ts2)) cs"
  let ?as = "a # concat (map baddrs ts1) @ c # concat (map baddrs ts2) @ bcaddrs cs"
  have dist: "distinct ?as" using inv by (simp add: bp_inv_def distinct_baddrs_plug)
  have lt: "\<forall>x\<in>set ?as. x < bp_next s" using inv by (simp add: bp_inv_def set_baddrs_plug)
  have fresh: "bp_next s \<notin> set ?as" using lt by blast
  have rep: "brepr (bp_heap s') ?T'"
    by (rule split_repr [OF _ dist _ s'(5-8)]) (use inv fresh in \<open>auto simp: bp_inv_def\<close>)
  obtain D cl where D: "\<forall>x\<in>D. x < bp_next s \<and> x \<notin> set (baddrs ?T)"
    and th: "thread s D cl ((llvs cs @ concat (map lvs ts1)) @ (c, es) # (concat (map lvs ts2) @ rlvs cs))"
    using inv by (auto simp: bp_inv_def lvs_plug)
  have ha: "bp_heap s a = Some (InternalNode (ks1 @ ks2) (map bt_addr ts1 @ c # map bt_addr ts2))"
    using inv by (simp add: bp_inv_def brepr_plug)
  have "bp_heap s' x = bp_heap s x" if "x \<in> fst ` set cl" "x \<noteq> c" for x
  proof (rule s'(8))
    show "x \<noteq> a" using lchain_leaf [of "bp_heap s" "first_leaf s" cl x] th that(1) ha by (auto simp: thread_def)
    show "x \<noteq> bp_next s" using th that(1) by (auto simp: thread_def)
  qed (use that in simp)
  then obtain cl' where th': "thread s' D cl' (lvs ?T')"
    using split_leaf_thread [OF th _ hc e(1) s'(2,4,6,7)] D by (auto simp: lvs_plug)
  have "sorted (all_keys ?T)" using inv by (simp add: bp_inv_def)
  moreover have "all_keys ?T = lkeys_of (BFrame a ts1 ks1 ks2 ts2 # cs) @ map fst e1 @ map fst e2 @
      rkeys_of (BFrame a ts1 ks1 ks2 ts2 # cs)"
    using all_keys_plug [OF car, of "BLeaf c es"] by (simp add: e)
  moreover have car': "carity (BFrame a ts1 ks1 (fst (hd e2) # ks2) (BLeaf (bp_next s) e2 # ts2) # cs)"
    using car by auto
  moreover have "all_keys ?T' = lkeys_of (BFrame a ts1 ks1 ks2 ts2 # cs) @ map fst e1 @ fst (hd e2) # map fst e2 @
      rkeys_of (BFrame a ts1 ks1 ks2 ts2 # cs)"
    using all_keys_plug [OF car', of "BLeaf c e1"] by simp
  ultimately have srt: "sorted (all_keys ?T')" using sorted_promote e(2) by metis
  have ar: "arity ?T'" using carity_plug [OF car', of "BLeaf c e1"] by simp
  have root: "bp_root s' = Some (bt_addr ?T')"
    using inv bt_addr_plug [of "BNode a (ks1 @ ks2) (ts1 @ BLeaf c es # ts2)"
      "BNode a (ks1 @ fst (hd e2) # ks2) (ts1 @ BLeaf c e1 # BLeaf (bp_next s) e2 # ts2)" cs]
    by (simp add: bp_inv_def s'(3))
  have "distinct (baddrs ?T')" using dist fresh by (auto simp: distinct_baddrs_plug)
  moreover have "\<forall>x\<in>set (baddrs ?T'). x < bp_next s'" using lt by (auto simp: set_baddrs_plug s'(4) less_Suc_eq)
  moreover have "\<forall>x\<in>D. x < bp_next s' \<and> x \<notin> set (baddrs ?T')"
    using D by (auto simp: set_baddrs_plug s'(4))
  ultimately show ?thesis using rep ar srt root th' inv by (auto simp: bp_inv_def s'(1))
qed

lemma split_child_ok:
  assumes inv: "bp_inv s (bplug (BNode a (ks1 @ ks2) (ts1 @ BLeaf c es # ts2)) cs)"
    and car: "carity (BFrame a ts1 ks1 ks2 ts2 # cs)"
    and full: "2 * degree s - 1 \<le> length es"
  shows "\<exists>s' e1 e2. split_child a (length ks1) c s = Some s' \<and> es = e1 @ e2 \<and> length e1 = length es div 2 \<and>
    e2 \<noteq> [] \<and> degree s' = degree s \<and>
    bp_inv s' (bplug (BNode a (ks1 @ fst (hd e2) # ks2) (ts1 @ BLeaf c e1 # BLeaf (bp_next s) e2 # ts2)) cs)"
proof -
  let ?n = "bp_next s"
  have deg: "2 \<le> degree s" using inv by (simp add: bp_inv_def)
  obtain e1 e2 where e: "es = e1 @ e2" "length e1 = length es div 2" "e2 \<noteq> []"
    using halves [OF deg full] .
  let ?p = "fst (hd e2)"
  let ?T = "bplug (BNode a (ks1 @ ?p # ks2) (ts1 @ BLeaf c e1 # BLeaf ?n e2 # ts2)) cs"
  obtain nx where hc: "bp_heap s c = Some (LeafNode (map fst es) (map snd es) nx)"
    and ha: "bp_heap s a = Some (InternalNode (ks1 @ ks2) (map bt_addr ts1 @ c # map bt_addr ts2))"
    using inv by (auto simp: bp_inv_def brepr_plug)
  have dist: "distinct (a # concat (map baddrs ts1) @ c # concat (map baddrs ts2) @ bcaddrs cs)"
    using inv by (simp add: bp_inv_def distinct_baddrs_plug)
  have lt: "a < ?n" "c < ?n" using inv by (auto simp: bp_inv_def set_baddrs_plug)
  define s1 where "s1 = s\<lparr>bp_heap := (bp_heap s)(?n \<mapsto> LeafNode (map fst e2) (map snd e2) nx,
     c \<mapsto> LeafNode (map fst e1) (map snd e1) (Some ?n)), bp_next := Suc ?n\<rparr>"
  define s2 where "s2 = s1\<lparr>bp_heap := (bp_heap s1)
     (a \<mapsto> InternalNode (ks1 @ ?p # ks2) (map bt_addr ts1 @ c # ?n # map bt_addr ts2))\<rparr>"
  have sp: "leaf_split c s = Some (?n, s1)"
    unfolding s1_def by (rule leaf_split_eq) (use hc e in auto)
  have ne: "c \<noteq> ?n" "a \<noteq> ?n" "a \<noteq> c" using lt dist by auto
  have len: "length (map bt_addr ts1) = length ks1" "length (map bt_addr ts2) = length ks2"
    using car by auto
  have "split_child a (length ks1) c s = Some s2"
    using sp hc ha ne e(3)
    by (simp add: split_child_def s1_def s2_def update_node_def vec_at_def hd_map hd_conv_nth insert_child_ok [OF len])
  moreover have "bp_inv s2 ?T"
    by (rule split_inv [OF inv car hc e(1,3)]) (use ne in \<open>simp_all add: s1_def s2_def\<close>)
  ultimately show ?thesis using e by (auto simp: s2_def s1_def)
qed

lemma insert_leaf_ok:
  assumes inv: "bp_inv s (bplug (BLeaf a es) cs)" and car: "carity cs" and d: "descends k cs"
  shows "\<exists>s'. insert_nonfull a k v s = Some s' \<and> degree s' = degree s \<and>
    bp_inv s' (bplug (BLeaf a (ins_before k v es)) cs) \<and>
    entries (bplug (BLeaf a (ins_before k v es)) cs) = ins_before k v (entries (bplug (BLeaf a es) cs))"
proof -
  obtain nx where h: "bp_heap s a = Some (LeafNode (map fst es) (map snd es) nx)"
    using brepr_leaf [of "bp_heap s" a es cs] inv by (auto simp: bp_inv_def)
  have "sorted (lkeys_of cs @ map fst es @ rkeys_of cs)"
    using inv all_keys_plug [OF car, of "BLeaf a es"] by (simp add: bp_inv_def)
  then have "sorted (lkeys_of cs @ map fst (ins_before k v es) @ rkeys_of cs)"
    using d sorted_ins_before [of es k v] by (fastforce simp: sorted_append descends_def set_ins_before)
  note inv' = set_leaf_ok [OF inv car h this]
  have "insert_nonfull a k v s = Some (s\<lparr>bp_heap := (bp_heap s)
      (a \<mapsto> LeafNode (map fst (ins_before k v es)) (map snd (ins_before k v es)) nx)\<rparr>)"
    by (simp add: insert_nonfull.simps [of a] h update_node_def leaf_insert_key_ok)
  moreover have "entries (bplug (BLeaf a (ins_before k v es)) cs) = ins_before k v (entries (bplug (BLeaf a es) cs))"
    using ins_before_mid [OF descends_entries [OF car d]] by (simp add: lvs_plug)
  ultimately show ?thesis using inv' by simp
qed

text \<open>A tree of at most two levels. The split of an internal node loses a key, so a tree of more
  levels is never well formed; \<open>fits\<close> bounds the leaves and \<open>pot\<close> the number of leaves by the
  number of insertions.\<close>

fun flat :: "('k, 'v) bt \<Rightarrow> bool" where
  "flat (BLeaf a es) \<longleftrightarrow> True"
| "flat (BNode a ks ts) \<longleftrightarrow> ks \<noteq> [] \<and> (\<forall>t\<in>set ts. \<exists>c es. t = BLeaf c es)"

fun root_full :: "nat \<Rightarrow> ('k, 'v) bt \<Rightarrow> bool" where
  "root_full d (BLeaf a es) \<longleftrightarrow> False"
| "root_full d (BNode a ks ts) \<longleftrightarrow> 2 * d - 1 \<le> length ks"

definition fits :: "nat \<Rightarrow> ('k, 'v) bt \<Rightarrow> bool" where
  "fits d T \<longleftrightarrow> (\<forall>p\<in>set (lvs T). length (snd p) \<le> 2 * d - 1)"

definition pot :: "nat \<Rightarrow> ('k, 'v) bt \<Rightarrow> nat" where
  "pot d T = (d - 1) * (length (lvs T) - 1) + sum_list (map (\<lambda>p. length (snd p) - d) (lvs T))"

lemma pot_insert:
  assumes "lvs T = A @ (c, es) # B" and "lvs T' = A @ (c, ins_before k v es) # B"
    and "length es < 2 * d - 1" and "fits d T"
  shows "fits d T' \<and> pot d T' \<le> Suc (pot d T)"
  using assms by (auto simp: fits_def pot_def length_ins_before)

lemma pot_split:
  assumes "lvs T = A @ (c, e1 @ e2) # B" and "lvs T' = A @ (c, e1) # (n, e2) # B"
    and "2 * d - 1 \<le> length (e1 @ e2)" and "length e1 = length (e1 @ e2) div 2" and "fits d T" and "2 \<le> d"
  shows "fits d T' \<and> pot d T' \<le> pot d T \<and> length e1 < 2 * d - 1 \<and> length e2 < 2 * d - 1"
proof -
  have l: "length (e1 @ e2) = 2 * d - 1" using assms(1,3,5) by (auto simp: fits_def)
  have "length e1 = (2 * d - 1) div 2" by (subst assms(4)) (simp only: l)
  then have "length e1 = d - 1" "length e2 = d" using l assms(6) by auto
  then show ?thesis using assms(1,2,5,6) by (auto simp: fits_def pot_def)
qed

definition inserted :: "'k::linorder \<Rightarrow> 'v \<Rightarrow> nat \<Rightarrow> ('k, 'v) bt \<Rightarrow> ('k, 'v) bptree \<Rightarrow> bool" where
  "inserted k v d T s' \<longleftrightarrow> (\<exists>T'. bp_inv s' T' \<and> flat T' \<and> entries T' = ins_before k v (entries T) \<and>
     degree s' = d \<and> fits d T' \<and> pot d T' \<le> Suc (pot d T))"

lemma insert_below_ok:
  assumes inv: "bp_inv s (bplug (BLeaf c es) cs)" and car: "carity cs" and d: "descends k cs"
    and fl: "\<And>u. flat (bplug (BLeaf c u) cs)" and fit: "fits (degree s) (bplug (BLeaf c es) cs)"
    and lt: "length es < 2 * degree s - 1"
  shows "runs (insert_nonfull c k v s) (inserted k v (degree s) (bplug (BLeaf c es) cs))"
proof -
  let ?T' = "bplug (BLeaf c (ins_before k v es)) cs"
  obtain s' where "insert_nonfull c k v s = Some s'" "degree s' = degree s" "bp_inv s' ?T'"
      "entries ?T' = ins_before k v (entries (bplug (BLeaf c es) cs))"
    using insert_leaf_ok [OF inv car d] by metis
  moreover have "fits (degree s) ?T' \<and> pot (degree s) ?T' \<le> Suc (pot (degree s) (bplug (BLeaf c es) cs))"
    by (rule pot_insert [OF _ _ lt fit]) (simp_all add: lvs_plug)
  ultimately show ?thesis using fl by (auto simp: inserted_def)
qed

lemma mixl_snoc: "length xs = length ks \<Longrightarrow> mixl (xs @ [x]) (ks @ [k]) = mixl xs ks @ x @ [k]"
  by (induction xs ks rule: list_induct2) auto

lemma inserted_mono:
  "runs m (inserted k v d T1) \<Longrightarrow> entries T1 = entries T \<Longrightarrow> pot d T1 \<le> pot d T \<Longrightarrow> runs m (inserted k v d T)"
  by (fastforce simp: runs_iff inserted_def)

lemma insert_half_ok:
  assumes inv: "bp_inv s T" and T: "T = BNode a (ks1 @ p # ks2) (ts1 @ BLeaf c e1 # BLeaf n e2 # ts2)"
    and car: "carity [BFrame a ts1 ks1 ks2 ts2]" and d: "descends k [BFrame a ts1 ks1 ks2 ts2]"
    and fl: "flat T" and fit: "fits (degree s) T"
    and lt: "length e1 < 2 * degree s - 1" "length e2 < 2 * degree s - 1"
  shows "runs (insert_nonfull (if p < k then n else c) k v s) (inserted k v (degree s) T)"
proof (cases "p < k")
  case True
  let ?F = "[BFrame a (ts1 @ [BLeaf c e1]) (ks1 @ [p]) ks2 ts2]"
  have T': "T = bplug (BLeaf n e2) ?F" by (simp add: T)
  have len: "length ts1 = length ks1" using car by simp
  have car': "carity ?F" using car by auto
  have "sorted (lkeys_of ?F @ map fst e2 @ rkeys_of ?F)"
    using inv unfolding T' bp_inv_def all_keys_plug [OF car'] by simp
  then have d': "descends k ?F"
    using d True by (auto simp: descends_def mixl_snoc len sorted_append)
  have "flat (bplug (BLeaf n u) ?F)" for u using fl by (auto simp: T)
  from insert_below_ok [OF inv [unfolded T'] car' d' this fit [unfolded T'] lt(2)]
  show ?thesis using True by (simp only: T' if_True)
next
  case False
  let ?F = "[BFrame a ts1 ks1 (p # ks2) (BLeaf n e2 # ts2)]"
  have T': "T = bplug (BLeaf c e1) ?F" by (simp add: T)
  have car': "carity ?F" using car by auto
  have "sorted (lkeys_of ?F @ map fst e1 @ rkeys_of ?F)"
    using inv unfolding T' bp_inv_def all_keys_plug [OF car'] by simp
  then have "\<forall>x\<in>set (rkeys_of ?F). p \<le> x" by (auto simp: sorted_append)
  then have "\<forall>x\<in>set (rkeys_of ?F). k \<le> x" using False by (meson not_less order_trans)
  then have d': "descends k ?F" using d by (simp add: descends_def)
  have "flat (bplug (BLeaf c u) ?F)" for u using fl by (auto simp: T)
  from insert_below_ok [OF inv [unfolded T'] car' d' this fit [unfolded T'] lt(1)]
  show ?thesis using False by (simp only: T' if_False)
qed

text \<open>The child of an internal root a descent goes to, with the frame around it.\<close>

lemma flat_step:
  assumes inv: "bp_inv s (BNode a ks ts)" and fl: "flat (BNode a ks ts)"
  obtains ks1 ks2 ts1 c es ts2 where "ks = ks1 @ ks2" and "ts = ts1 @ BLeaf c es # ts2"
    and "length ts1 = length ks1" and "find_child_index k ks = length ks1"
    and "descends k [BFrame a ts1 ks1 ks2 ts2]" and "carity [BFrame a ts1 ks1 ks2 ts2]"
    and "bp_heap s a = Some (InternalNode ks (map bt_addr ts1 @ c # map bt_addr ts2))"
    and "vec_at (map bt_addr ts1 @ c # map bt_addr ts2) (length ks1) = Some c" and "a \<noteq> c"
    and "BNode a ks ts = bplug (BLeaf c es) [BFrame a ts1 ks1 ks2 ts2]"
proof -
  let ?T = "BNode a ks ts"
  have "arity ?T" "sorted (all_keys (bplug ?T []))" "carity []" "descends k []"
    using inv by (auto simp: bp_inv_def descends_def)
  then obtain ts1 u ts2 ks1 ks2 where c: "ks = ks1 @ ks2" "ts = ts1 @ u # ts2" "length ts1 = length ks1"
      "find_child_index k ks = length ks1" "descends k [BFrame a ts1 ks1 ks2 ts2]"
      "carity [BFrame a ts1 ks1 ks2 ts2]"
    using node_step [of a ks ts "[]" k] by metis
  obtain c es where u: "u = BLeaf c es" using fl c(2) by auto
  have "bp_heap s a = Some (InternalNode ks (map bt_addr ts1 @ c # map bt_addr ts2))" "a \<noteq> c"
    using inv by (auto simp: bp_inv_def c(2) u)
  moreover have "vec_at (map bt_addr ts1 @ c # map bt_addr ts2) (length ks1) = Some c"
    by (simp add: vec_at_def c(3) [symmetric] nth_append)
  ultimately show ?thesis using that [OF c(1) _ c(3-6)] by (simp add: c(1,2) u)
qed

lemma insert_node_ok:
  assumes inv: "bp_inv s (BNode a ks ts)" and fl: "flat (BNode a ks ts)" and fit: "fits (degree s) (BNode a ks ts)"
    and small: "degree s < 2 ^ 30"
  shows "runs (insert_nonfull a k v s) (inserted k v (degree s) (BNode a ks ts))"
proof -
  let ?T = "BNode a ks ts"
  obtain ks1 ks2 ts1 c es ts2 where c: "ks = ks1 @ ks2" "ts = ts1 @ BLeaf c es # ts2"
      "length ts1 = length ks1" "find_child_index k ks = length ks1"
      "descends k [BFrame a ts1 ks1 ks2 ts2]" "carity [BFrame a ts1 ks1 ks2 ts2]"
    and ha: "bp_heap s a = Some (InternalNode ks (map bt_addr ts1 @ c # map bt_addr ts2))"
    and at: "vec_at (map bt_addr ts1 @ c # map bt_addr ts2) (length ks1) = Some c"
    and T: "?T = bplug (BLeaf c es) [BFrame a ts1 ks1 ks2 ts2]"
    using flat_step [OF inv fl] .
  let ?F = "[BFrame a ts1 ks1 ks2 ts2]"
  obtain nx where hc: "bp_heap s c = Some (LeafNode (map fst es) (map snd es) nx)"
    using inv by (auto simp: bp_inv_def c)
  show ?thesis
  proof (cases "2 * degree s - 1 \<le> length es")
    case False
    then have "insert_nonfull a k v s = insert_nonfull c k v s"
      by (simp add: insert_nonfull.simps [of a] ha c(4) at hc is_full_ok [OF small])
    moreover have "flat (bplug (BLeaf c u) ?F)" for u using fl by (auto simp: c(1,2))
    ultimately show ?thesis
      using insert_below_ok [OF inv [unfolded T] c(6,5) _ fit [unfolded T]] False by (simp only: T not_le)
  next
    case True
    obtain s1 e1 e2 where s1: "split_child a (length ks1) c s = Some s1" and e: "es = e1 @ e2"
        "length e1 = length es div 2" "e2 \<noteq> []" and deg: "degree s1 = degree s" and
        inv1: "bp_inv s1 (BNode a (ks1 @ fst (hd e2) # ks2) (ts1 @ BLeaf c e1 # BLeaf (bp_next s) e2 # ts2))"
      using split_child_ok [of s a ks1 ks2 ts1 c es ts2 "[]"] inv [unfolded c(1,2)] c(6) True
      by (simp only: bplug.simps) blast
    let ?p = "fst (hd e2)" and ?n = "bp_next s"
    let ?T1 = "BNode a (ks1 @ ?p # ks2) (ts1 @ BLeaf c e1 # BLeaf ?n e2 # ts2)"
    have h1: "bp_heap s1 a = Some (InternalNode (ks1 @ ?p # ks2) (map bt_addr ts1 @ c # ?n # map bt_addr ts2))"
      using inv1 by (simp add: bp_inv_def)
    have at1: "vec_at (map bt_addr ts1 @ c # ?n # map bt_addr ts2) (length ks1) = Some c"
      "vec_at (map bt_addr ts1 @ c # ?n # map bt_addr ts2) (Suc (length ks1)) = Some ?n"
      "vec_at (ks1 @ ?p # ks2) (length ks1) = Some ?p"
      by (simp_all add: vec_at_def c(3) [symmetric] nth_append)
    have step: "insert_nonfull a k v s = insert_nonfull (if ?p < k then ?n else c) k v s1"
      using True by (simp add: insert_nonfull.simps [of a] ha c(4) at hc is_full_ok [OF small] s1 h1 at1)
    have fit1: "fits (degree s) ?T1" "pot (degree s) ?T1 \<le> pot (degree s) ?T" "length e1 < 2 * degree s - 1"
        "length e2 < 2 * degree s - 1"
      using pot_split [OF _ _ True [unfolded e(1)] e(2) [unfolded e(1)] fit,
          of "concat (map lvs ts1)" c "concat (map lvs ts2)" ?T1 ?n] inv
      by (simp_all add: c(2) bp_inv_def e(1))
    have ent: "entries ?T1 = entries ?T" by (simp add: c(2) e(1))
    have srt: "sorted (all_keys ?T1)" using inv1 by (simp add: bp_inv_def)
    have "flat ?T1" using fl by (auto simp: c(2))
    from insert_half_ok [OF inv1 refl c(6,5) this, of v]
    have "runs (insert_nonfull a k v s) (inserted k v (degree s) ?T1)"
      using fit1 by (simp only: step deg)
    then show ?thesis using fit1(2) by (rule inserted_mono [OF _ ent])
  qed
qed

text \<open>A full leaf root is split below a new root.\<close>

lemma split_root_ok:
  assumes inv: "bp_inv s (BLeaf a es)" and full: "2 * degree s - 1 \<le> length es"
  shows "\<exists>s' e1 e2. split_root a s = Some s' \<and> es = e1 @ e2 \<and> length e1 = length es div 2 \<and> e2 \<noteq> [] \<and>
    degree s' = degree s \<and> bp_root s' = Some (Suc (bp_next s)) \<and>
    bp_inv s' (BNode (Suc (bp_next s)) [fst (hd e2)] [BLeaf a e1, BLeaf (bp_next s) e2])"
proof -
  let ?n = "bp_next s"
  have deg: "2 \<le> degree s" using inv by (simp add: bp_inv_def)
  obtain e1 e2 where e: "es = e1 @ e2" "length e1 = length es div 2" "e2 \<noteq> []"
    using halves [OF deg full] .
  obtain nx where h: "bp_heap s a = Some (LeafNode (map fst es) (map snd es) nx)"
    using inv by (auto simp: bp_inv_def)
  have lt: "a < ?n" using inv by (simp add: bp_inv_def)
  define s' where "s' = s\<lparr>bp_root := Some (Suc ?n), bp_heap := (bp_heap s)
     (?n \<mapsto> LeafNode (map fst e2) (map snd e2) nx, a \<mapsto> LeafNode (map fst e1) (map snd e1) (Some ?n),
      Suc ?n \<mapsto> InternalNode [fst (hd e2)] [a, ?n]), bp_next := Suc (Suc ?n)\<rparr>"
  have sp: "leaf_split a s = Some (?n, s\<lparr>bp_heap := (bp_heap s)(?n \<mapsto> LeafNode (map fst e2) (map snd e2) nx,
      a \<mapsto> LeafNode (map fst e1) (map snd e1) (Some ?n)), bp_next := Suc ?n\<rparr>)"
    by (rule leaf_split_eq) (use h e in auto)
  have "split_root a s = Some s'"
    using lt e(3) by (simp add: split_root_def h sp vec_at_def s'_def hd_map hd_conv_nth)
  moreover have "bp_inv s' (BNode (Suc ?n) [fst (hd e2)] [BLeaf a e1, BLeaf ?n e2])"
  proof -
    obtain D cl where D: "\<forall>x\<in>D. x < ?n \<and> x \<noteq> a" and th: "thread s D cl ([] @ (a, es) # [])"
      using inv by (auto simp: bp_inv_def)
    define s1 where "s1 = s'\<lparr>bp_next := Suc ?n\<rparr>"
    have ne: "x \<noteq> Suc ?n \<and> x \<noteq> ?n" if "x \<in> fst ` set cl" for x using th that by (auto simp: thread_def)
    obtain cl' where "thread s1 D cl' ([] @ (a, e1) # (?n, e2) # [])"
      using split_leaf_thread [OF th _ h e(1), of s1] D ne lt by (auto simp: s1_def s'_def)
    then have "thread s' D cl' [(a, e1), (?n, e2)]" by (auto simp: thread_def s1_def s'_def)
    moreover have "sorted (map fst es)" using inv by (simp add: bp_inv_def)
    then have "sorted (map fst e1 @ fst (hd e2) # map fst e2)"
      using sorted_promote [of "[]" e1 e2 "[]"] e by simp
    ultimately show ?thesis using inv lt D by (fastforce simp: bp_inv_def s'_def)
  qed
  ultimately show ?thesis using e by (auto simp: s'_def)
qed

lemma insert_empty_ok:
  assumes "bp_repr s None []"
  shows "\<exists>s'. bp_insert k v s = Some s' \<and> degree s' = degree s \<and> bp_inv s' (BLeaf (bp_next s) [(k, v)])"
proof -
  have "leaf_insert_key k v (LeafNode [] [] None) = Some (LeafNode [k] [v] None)"
    by (simp add: leaf_insert_key_def lower_bound_def insert_at_def)
  then show ?thesis using assms
    by (auto simp: bp_repr_def bp_insert_def bp_inv_def thread_def
      intro!: exI [of _ "{}"] exI [of _ "[(bp_next s, [(k, v)])]"])
qed

text \<open>The number of leaves is bounded by the potential, so that the root is not full as long as few
  entries were inserted.\<close>

definition bp_tree_ok :: "nat \<Rightarrow> nat \<Rightarrow> ('k, 'v) bt option \<Rightarrow> bool" where
  "bp_tree_ok d n t \<longleftrightarrow> (case t of None \<Rightarrow> True | Some T \<Rightarrow> flat T \<and> fits d T \<and> pot d T \<le> n)"

lemma insert_leaf_root_ok:
  assumes inv: "bp_inv s (BLeaf a fs)" and fit: "fits (degree s) (BLeaf a fs)" and small: "degree s < 2 ^ 30"
  shows "runs (bp_insert k v s) (inserted k v (degree s) (BLeaf a fs))"
proof -
  have root: "bp_root s = Some a" and deg2: "2 \<le> degree s" using inv by (simp_all add: bp_inv_def)
  obtain nx where h: "bp_heap s a = Some (LeafNode (map fst fs) (map snd fs) nx)"
    using inv by (auto simp: bp_inv_def)
  show ?thesis
  proof (cases "2 * degree s - 1 \<le> length fs")
    case False
    then have "bp_insert k v s = insert_nonfull a k v s"
      by (simp add: bp_insert_def root h is_full_ok [OF small])
    moreover have "runs (insert_nonfull a k v s) (inserted k v (degree s) (bplug (BLeaf a fs) []))"
      by (rule insert_below_ok) (use inv fit False in \<open>auto simp: descends_def\<close>)
    ultimately show ?thesis by simp
  next
    case True
    let ?n = "bp_next s"
    obtain s1 e1 e2 where s1: "split_root a s = Some s1" and e: "fs = e1 @ e2" "length e1 = length fs div 2"
        "e2 \<noteq> []" and deg: "degree s1 = degree s" and rt: "bp_root s1 = Some (Suc ?n)"
        and inv1: "bp_inv s1 (BNode (Suc ?n) [fst (hd e2)] [BLeaf a e1, BLeaf ?n e2])"
      using split_root_ok [OF inv True] by blast
    let ?T1 = "BNode (Suc ?n) [fst (hd e2)] [BLeaf a e1, BLeaf ?n e2]"
    have run: "bp_insert k v s = insert_nonfull (Suc ?n) k v s1"
      using True by (simp add: bp_insert_def root h is_full_ok [OF small] s1 rt)
    have "lvs (BLeaf a fs) = [] @ (a, e1 @ e2) # []" "lvs ?T1 = [] @ (a, e1) # (?n, e2) # []"
      by (simp_all add: e(1))
    note p = pot_split [OF this True [unfolded e(1)] e(2) [unfolded e(1)] fit deg2]
    have "runs (insert_nonfull (Suc ?n) k v s1) (inserted k v (degree s1) ?T1)"
      by (rule insert_node_ok [OF inv1]) (use p deg small in auto)
    then have "runs (bp_insert k v s) (inserted k v (degree s) ?T1)" by (simp only: run deg)
    then show ?thesis by (rule inserted_mono) (use p e(1) in simp_all)
  qed
qed

lemma bp_insert_ok:
  assumes rep: "bp_repr s t es" and ok: "bp_tree_ok (degree s) n t"
    and small: "degree s < 2 ^ 30"
    and nf: "\<forall>T. t = Some T \<longrightarrow> \<not> root_full (degree s) T"
  shows "runs (bp_insert k v s) (\<lambda>s'. \<exists>T'. bp_repr s' (Some T') (ins_before k v es) \<and>
    degree s' = degree s \<and> bp_tree_ok (degree s) (Suc n) (Some T'))"
proof (cases t)
  case None
  then have e: "es = []" "2 \<le> degree s" "bp_repr s None []" using rep by (auto simp: bp_repr_def)
  then obtain s' where s': "bp_insert k v s = Some s'" "degree s' = degree s"
      "bp_inv s' (BLeaf (bp_next s) [(k, v)])"
    using insert_empty_ok [OF e(3)] by metis
  then have "bp_repr s' (Some (BLeaf (bp_next s) [(k, v)])) (ins_before k v es)"
    by (simp add: e(1) bp_repr_def ins_before_def)
  moreover have "bp_tree_ok (degree s) (Suc n) (Some (BLeaf (bp_next s) [(k, v)]))"
    using e(2) by (simp add: bp_tree_ok_def fits_def pot_def)
  ultimately show ?thesis using s'(2) by (auto simp: s'(1))
next
  case (Some T)
  have inv: "bp_inv s T" and es: "es = entries T" and fl: "flat T" and fit: "fits (degree s) T"
    and pot: "pot (degree s) T \<le> n" using rep ok Some by (auto simp: bp_repr_def bp_tree_ok_def)
  have "runs (bp_insert k v s) (inserted k v (degree s) T)"
  proof (cases T)
    case (BNode a ks ts)
    have "bp_insert k v s = insert_nonfull a k v s"
      using inv nf Some by (simp add: bp_insert_def BNode bp_inv_def is_full_ok [OF small])
    then show ?thesis using insert_node_ok [of s a ks ts k v] inv fl fit small by (simp add: BNode)
  next
    case (BLeaf a fs)
    then show ?thesis using insert_leaf_root_ok [of s a fs k v] inv fit small by simp
  qed
  then show ?thesis
  proof (rule runs_mono)
    fix s' assume "inserted k v (degree s) T s'"
    then obtain T' where "bp_inv s' T'" "flat T'" "entries T' = ins_before k v (entries T)"
        "degree s' = degree s" "fits (degree s) T'" "pot (degree s) T' \<le> Suc (pot (degree s) T)"
      by (auto simp: inserted_def)
    then show "\<exists>T'. bp_repr s' (Some T') (ins_before k v es) \<and> degree s' = degree s \<and>
        bp_tree_ok (degree s) (Suc n) (Some T')"
      using pot by (intro exI [of _ T']) (simp add: bp_repr_def es bp_tree_ok_def)
  qed
qed

lemma root_not_full:
  assumes rep: "bp_repr s (Some T) es" and ok: "bp_tree_ok (degree s) n (Some T)"
    and n: "n < (degree s - 1) * (2 * degree s - 1)"
  shows "\<not> root_full (degree s) T"
proof (cases T)
  case (BNode a ks ts)
  have d: "2 \<le> degree s" and ar: "length ts = Suc (length ks)" using rep by (auto simp: bp_repr_def bp_inv_def BNode)
  have "length (lvs T) = length ts"
  proof -
    have "map length (map lvs ts) = map (\<lambda>_. 1) ts" using ok by (auto simp: bp_tree_ok_def BNode)
    then show ?thesis by (simp add: BNode length_concat map_replicate_const sum_list_replicate)
  qed
  then have "(degree s - 1) * length ks \<le> n" using ok ar by (simp add: bp_tree_ok_def pot_def)
  then have "(degree s - 1) * length ks < (degree s - 1) * (2 * degree s - 1)" using n by (rule le_less_trans)
  then show ?thesis by (simp only: BNode root_full.simps mult_less_cancel1 not_le)
qed simp

end
