(* ===== verification/BPlusTree_Remove.thy ===== *)
theory BPlusTree_Remove
  imports BPlusTree_Insert
begin

text \<open>
  Removal from a B+ tree of at most two levels, and the properties of \<open>class BPlusTree\<close>.
  A leaf that becomes empty leaves the tree and stays in the list of leaves.
\<close>

section \<open>Removal\<close>

lemma del_list_within:
  "k \<notin> fst ` set as \<Longrightarrow> k \<notin> fst ` set cs \<Longrightarrow> del_list k (as @ bs @ cs) = as @ del_list k bs @ cs"
proof (induction as)
  case Nil
  then show ?case by (induction bs) (auto simp: del_list_absent)
qed auto

lemma set_del_list_subset: "set (del_list k es) \<subseteq> set es"
  by (induction k es rule: del_list.induct) auto

lemma sorted_del_list: "sorted (map fst es) \<Longrightarrow> sorted (map fst (del_list k es))"
proof (induction k es rule: del_list.induct)
  case (2 k a b ps)
  then show ?case using set_del_list_subset [of k ps] by auto
qed simp

lemma leaf_remove_key_ok:
  assumes "sorted (map fst es)"
  shows "leaf_remove_key k (LeafNode (map fst es) (map snd es) nx) =
    Some (LeafNode (map fst (del_list k es)) (map snd (del_list k es)) nx)"
proof -
  define as bs where "as = takeWhile (\<lambda>p. fst p < k) es" "bs = dropWhile (\<lambda>p. fst p < k) es"
  have es: "es = as @ bs" by (simp add: as_bs_def)
  have lo: "\<forall>p\<in>set as. fst p < k" using set_takeWhileD by (fastforce simp: as_bs_def)
  have idx: "lower_bound (map fst es) k = length as" by (simp add: lower_bound_def takeWhile_map o_def as_bs_def)
  show ?thesis
  proof (cases "bs \<noteq> [] \<and> fst (hd bs) = k")
    case True
    then obtain v cs where bs: "bs = (k, v) # cs" by (cases bs) auto
    have "del_list k es = as @ cs" using lo by (simp add: es bs) (induction as, auto)
    then show ?thesis
      using erase_at_append [of "map fst as" k "map fst cs"] erase_at_append [of "map snd as" v "map snd cs"]
      by (simp add: leaf_remove_key_def idx) (simp add: es bs nth_append)
  next
    case False
    have "bs = [] \<or> k < fst (hd bs)"
      using False hd_dropWhile [of "\<lambda>p. fst p < k" es] by (fastforce simp: as_bs_def)
    then have "\<forall>p\<in>set bs. k < fst p" using assms by (cases bs) (auto simp: es sorted_append)
    then have "del_list k es = es" using lo by (intro del_list_absent) (auto simp: es)
    moreover have "\<not> (length as < length es \<and> map fst es ! length as = k)"
      using False by (cases bs) (auto simp: es nth_append)
    ultimately show ?thesis by (auto simp: leaf_remove_key_def idx Let_def)
  qed
qed

lemma remove_leaf_ok:
  assumes inv: "bp_inv s (bplug (BLeaf a es) cs)" and car: "carity cs"
  shows "\<exists>s'. remove_recursive a k s = Some (k \<in> fst ` set es \<and> length (del_list k es) < degree s - 1, s') \<and>
    degree s' = degree s \<and> bp_inv s' (bplug (BLeaf a (del_list k es)) cs) \<and>
    (\<exists>n. s' = s\<lparr>bp_heap := (bp_heap s)(a \<mapsto> n)\<rparr>)"
proof -
  obtain nx where h: "bp_heap s a = Some (LeafNode (map fst es) (map snd es) nx)"
    using brepr_leaf [of "bp_heap s" a es cs] inv by (auto simp: bp_inv_def)
  have srt: "sorted (lkeys_of cs @ map fst es @ rkeys_of cs)"
    using inv all_keys_plug [OF car, of "BLeaf a es"] by (simp add: bp_inv_def)
  then have se: "sorted (map fst es)" by (simp add: sorted_append)
  have "sorted (lkeys_of cs @ map fst (del_list k es) @ rkeys_of cs)"
    using srt sorted_del_list [OF se, of k] set_del_list_subset [of k es] by (fastforce simp: sorted_append)
  note inv' = set_leaf_ok [OF inv car h this]
  have "remove_recursive a k s = Some (k \<in> fst ` set es \<and> length (del_list k es) < degree s - 1,
      s\<lparr>bp_heap := (bp_heap s)(a \<mapsto> LeafNode (map fst (del_list k es)) (map snd (del_list k es)) nx)\<rparr>)"
    by (simp add: remove_recursive.simps [of a] h update_node_def leaf_remove_key_ok [OF se] is_underflow_def)
  then show ?thesis using inv' by auto
qed

text \<open>The parent of an empty leaf loses the leaf and the separator beside it.\<close>

definition drop_key :: "'k list \<Rightarrow> 'k list \<Rightarrow> 'k list" where
  "drop_key ks1 ks2 = (if ks1 \<noteq> [] then butlast ks1 @ ks2 else tl ks2)"

lemma drop_empty_leaf_ok:
  assumes "length cs1 = length ks1" and "ks1 @ ks2 \<noteq> []" and "bp_heap s c = Some (LeafNode [] vs nx)"
  shows "drop_empty_leaf (length ks1) c (InternalNode (ks1 @ ks2) (cs1 @ c # cs2)) s =
    Some (InternalNode (drop_key ks1 ks2) (cs1 @ cs2))"
proof (cases ks1 rule: rev_cases)
  case Nil
  then show ?thesis using assms by (cases ks2) (auto simp: drop_empty_leaf_def drop_key_def erase_at_def)
next
  case (snoc ks x)
  then show ?thesis
    using assms erase_at_append [of cs1 c cs2] erase_at_append [of ks x ks2]
    by (simp add: drop_empty_leaf_def drop_key_def)
qed

lemma sorted_drop:
  assumes "length xs = length ks1" and "length ys = length ks2" and "ks1 @ ks2 \<noteq> []"
    and "sorted (mixl xs ks1 @ mixr ks2 ys)"
  shows "sorted (mix (xs @ ys) (drop_key ks1 ks2)) \<and> length (xs @ ys) = Suc (length (drop_key ks1 ks2))"
proof (cases ks1 rule: rev_cases)
  case Nil
  then obtain x ks y zs where "ks2 = x # ks" "ys = y # zs" using assms(2,3) by (cases ks2; cases ys) auto
  then show ?thesis using assms Nil mix_split [of "[]" "[]" zs ks y] by (simp add: drop_key_def)
next
  case (snoc ks x)
  then obtain zs y where z: "xs = zs @ [y]" "length zs = length ks" using assms(1) by (cases xs rule: rev_cases) auto
  then show ?thesis using assms snoc mix_split [of zs ks ys ks2 y]
    by (auto simp: drop_key_def mixl_snoc sorted_append)
qed

lemma drop_thread:
  assumes "thread s D cl (A @ (c, []) # B)"
  shows "thread s (insert c D) cl (A @ B)"
proof -
  obtain cl1 cl2 where cl: "cl = cl1 @ (c, []) # cl2" "filter (\<lambda>p. fst p \<notin> D) cl1 = A"
      "filter (\<lambda>p. fst p \<notin> D) cl2 = B"
    using thread_mid [OF assms] by metis
  have "distinct (map fst cl)" using assms by (simp add: thread_def)
  then have "c \<notin> fst ` set cl1" "c \<notin> fst ` set cl2" by (simp_all add: cl(1))
  then have ds: "\<forall>p\<in>set cl1 \<union> set cl2. fst p \<noteq> c" by (auto simp: image_iff)
  have "filter (\<lambda>p. fst p \<notin> insert c D) cl1 = filter (\<lambda>p. fst p \<notin> D) cl1"
    by (rule filter_cong) (use ds in auto)
  moreover have "filter (\<lambda>p. fst p \<notin> insert c D) cl2 = filter (\<lambda>p. fst p \<notin> D) cl2"
    by (rule filter_cong) (use ds in auto)
  ultimately have "filter (\<lambda>p. fst p \<notin> insert c D) cl = A @ B" using cl(2,3) by (simp add: cl(1))
  moreover have "\<forall>p\<in>set cl. fst p \<in> insert c D \<longrightarrow> snd p = []"
    using assms ds by (auto simp: thread_def cl(1))
  ultimately show ?thesis using assms by (simp add: thread_def)
qed

lemma drop_inv:
  assumes inv: "bp_inv s (BNode a (ks1 @ ks2) (ts1 @ BLeaf c [] # ts2))"
    and car: "carity [BFrame a ts1 ks1 ks2 ts2]" and ne: "ks1 @ ks2 \<noteq> []"
  shows "bp_inv (s\<lparr>bp_heap := (bp_heap s)(a \<mapsto> InternalNode (drop_key ks1 ks2) (map bt_addr (ts1 @ ts2)))\<rparr>)
    (BNode a (drop_key ks1 ks2) (ts1 @ ts2))" (is "bp_inv ?s ?T")
proof -
  let ?h = "(bp_heap s)(a \<mapsto> InternalNode (drop_key ks1 ks2) (map bt_addr (ts1 @ ts2)))"
  have len: "length ts1 = length ks1" "length ts2 = length ks2" using car by auto
  have dist: "distinct (a # concat (map baddrs ts1) @ c # concat (map baddrs ts2))"
    using inv by (simp add: bp_inv_def)
  have br: "brepr ?h t" if "t \<in> set ts1 \<union> set ts2" for t
  proof -
    have "a \<notin> set (baddrs t)" using that dist by auto
    moreover have "brepr (bp_heap s) t" using inv that by (auto simp: bp_inv_def)
    ultimately show ?thesis by (subst brepr_cong [of _ _ "bp_heap s"]) auto
  qed
  have "sorted (mixl (map all_keys ts1) ks1 @ mixr ks2 (map all_keys ts2))"
    using inv len by (simp add: bp_inv_def mix_split)
  then have srt: "sorted (all_keys ?T)" "length (ts1 @ ts2) = Suc (length (drop_key ks1 ks2))"
    using sorted_drop [of "map all_keys ts1" ks1 "map all_keys ts2" ks2] len ne by auto
  obtain D cl where D: "\<forall>x\<in>D. x < bp_next s \<and> x \<notin> set (baddrs (BNode a (ks1 @ ks2) (ts1 @ BLeaf c [] # ts2)))"
    and "thread s D cl (lvs (BNode a (ks1 @ ks2) (ts1 @ BLeaf c [] # ts2)))"
    using inv unfolding bp_inv_def by blast
  then have th: "thread s D cl (concat (map lvs ts1) @ (c, []) # concat (map lvs ts2))" by simp
  have ha: "bp_heap s a = Some (InternalNode (ks1 @ ks2) (map bt_addr (ts1 @ BLeaf c [] # ts2)))"
    using inv by (simp add: bp_inv_def)
  have "a \<notin> fst ` set cl"
    using th lchain_leaf [of "bp_heap s" "first_leaf s" cl a] ha by (auto simp: thread_def)
  then have "lchain ?h (first_leaf s) cl"
    using th by (subst lchain_cong [of _ _ "bp_heap s"]) (auto simp: thread_def)
  then have th': "thread ?s (insert c D) cl (lvs ?T)"
    using drop_thread [OF th] by (simp add: thread_def)
  have "c < bp_next s" using inv by (simp add: bp_inv_def)
  then have D': "\<forall>x\<in>insert c D. x < bp_next ?s \<and> x \<notin> set (baddrs ?T)" using D dist by auto
  have "brepr (bp_heap ?s) ?T" "distinct (baddrs ?T)" "arity ?T" using br dist srt car by auto
  moreover have "\<forall>x\<in>set (baddrs ?T). x < bp_next ?s" "bp_root ?s = Some (bt_addr ?T)" "2 \<le> degree ?s"
    using inv by (auto simp: bp_inv_def)
  ultimately show ?thesis using srt(1) D' th' unfolding bp_inv_def by blast
qed

lemma shrink_inv:
  assumes inv: "bp_inv s (BNode a [] [BLeaf c es])"
  shows "bp_inv (s\<lparr>bp_root := Some c\<rparr>) (BLeaf c es)"
  using inv by (auto simp: bp_inv_def thread_def)

definition shrunk :: "nat \<Rightarrow> ('k, 'v) bt \<Rightarrow> ('k, 'v) bt \<Rightarrow> bool" where
  "shrunk d T T' \<longleftrightarrow> (fits d T \<longrightarrow> fits d T') \<and> pot d T' \<le> pot d T"

lemma length_del_list: "length (del_list k es) \<le> length es"
  by (induction k es rule: del_list.induct) auto

lemma shrunk_del:
  assumes "lvs T = A @ (c, es) # B" and "lvs T' = A @ (c, del_list k es) # B"
  shows "shrunk d T T'"
  using assms length_del_list [of k es] by (auto simp: shrunk_def fits_def pot_def diff_le_mono)

lemma shrunk_drop:
  assumes "lvs T = A @ (c, es) # B" and "lvs T' = A @ B"
  shows "shrunk d T T'"
  using assms by (auto simp: shrunk_def fits_def pot_def algebra_simps trans_le_add1 intro!: add_mono mult_le_mono2)

lemma shrunk_trans: "shrunk d T T' \<Longrightarrow> shrunk d T' T'' \<Longrightarrow> shrunk d T T''"
  by (auto simp: shrunk_def)

lemma entries_del:
  assumes "carity cs" and "descends k cs" and "\<forall>p\<in>set (concat (map snd (rlvs cs))). k < fst p"
  shows "entries (bplug (BLeaf c (del_list k es)) cs) = del_list k (entries (bplug (BLeaf c es) cs))"
proof -
  have "k \<notin> fst ` set (concat (map snd (llvs cs)))" using descends_entries(1) [OF assms(1,2)] by (auto simp del: set_concat)
  moreover have "k \<notin> fst ` set (concat (map snd (rlvs cs)))" using assms(3) by (auto simp del: set_concat)
  ultimately show ?thesis by (simp add: lvs_plug del_list_within del: set_concat)
qed

text \<open>Removal below an internal root. The entry is removed, when its key is not a separator.\<close>

lemma remove_node_ok:
  assumes inv: "bp_inv s (BNode a ks ts)" and fl: "flat (BNode a ks ts)" and k: "k \<notin> seps (BNode a ks ts)"
  shows "\<exists>u s' ks' ts'. remove_recursive a k s = Some (u, s') \<and> degree s' = degree s \<and>
    bp_inv s' (BNode a ks' ts') \<and> (\<forall>t\<in>set ts'. \<exists>c es. t = BLeaf c es) \<and>
    entries (BNode a ks' ts') = del_list k (entries (BNode a ks ts)) \<and>
    shrunk (degree s) (BNode a ks ts) (BNode a ks' ts')"
proof -
  let ?T = "BNode a ks ts"
  obtain ks1 ks2 ts1 c es ts2 where c: "ks = ks1 @ ks2" "ts = ts1 @ BLeaf c es # ts2"
      "length ts1 = length ks1" "find_child_index k ks = length ks1"
      "descends k [BFrame a ts1 ks1 ks2 ts2]" "carity [BFrame a ts1 ks1 ks2 ts2]"
    and ha: "bp_heap s a = Some (InternalNode ks (map bt_addr ts1 @ c # map bt_addr ts2))"
    and at: "vec_at (map bt_addr ts1 @ c # map bt_addr ts2) (length ks1) = Some c" and ac: "a \<noteq> c"
    and T: "?T = bplug (BLeaf c es) [BFrame a ts1 ks1 ks2 ts2]"
    using flat_step [OF inv fl] .
  let ?F = "[BFrame a ts1 ks1 ks2 ts2]"
  let ?es = "del_list k es"
  obtain s1 n where s1: "remove_recursive c k s = Some (k \<in> fst ` set es \<and> length ?es < degree s - 1, s1)"
      "degree s1 = degree s" "bp_inv s1 (bplug (BLeaf c ?es) ?F)" "s1 = s\<lparr>bp_heap := (bp_heap s)(c \<mapsto> n)\<rparr>"
    using remove_leaf_ok [OF inv [unfolded T] c(6)] by metis
  have ha1: "bp_heap s1 a = Some (InternalNode ks (map bt_addr ts1 @ c # map bt_addr ts2))"
    using ha ac s1(4) by simp
  have ent: "entries (bplug (BLeaf c ?es) ?F) = del_list k (entries ?T)"
    unfolding T by (rule entries_del [OF c(6,5) right_of_leaf [OF inv T c(6,5) k]])
  have sh: "shrunk (degree s) ?T (bplug (BLeaf c ?es) ?F)"
    unfolding T by (rule shrunk_del [of _ "llvs ?F" c es "rlvs ?F"]) (simp_all add: lvs_plug)
  show ?thesis
  proof (cases "k \<in> fst ` set es \<and> length ?es < degree s - 1 \<and> ?es = []")
    case False
    obtain nx where hc: "bp_heap s1 c = Some (LeafNode (map fst ?es) (map snd ?es) nx)"
      using brepr_leaf [of "bp_heap s1" c ?es ?F] s1(3) by (auto simp: bp_inv_def)
    have "s1\<lparr>bp_heap := (bp_heap s1)(a \<mapsto> InternalNode ks (map bt_addr ts1 @ c # map bt_addr ts2))\<rparr> = s1"
      using ha1 by (simp add: fun_upd_idem)
    moreover have "drop_empty_leaf (length ks1) c (InternalNode ks (map bt_addr ts1 @ c # map bt_addr ts2)) s1 =
        Some (InternalNode ks (map bt_addr ts1 @ c # map bt_addr ts2))" if "?es \<noteq> []"
      using that by (simp add: drop_empty_leaf_def hc)
    ultimately obtain w where "remove_recursive a k s = Some (w, s1)"
      using False by (cases "k \<in> fst ` set es \<and> length ?es < degree s - 1")
        (auto simp: remove_recursive.simps [of a] ha c(4) at s1(1) ha1)
    then show ?thesis using s1(2,3) ent sh fl
      by (intro exI [of _ w] exI [of _ s1] exI [of _ ks] exI [of _ "ts1 @ BLeaf c ?es # ts2"]) (auto simp: c(1,2))
  next
    case True
    then have es0: "?es = []" by simp
    have inv1: "bp_inv s1 (BNode a (ks1 @ ks2) (ts1 @ BLeaf c [] # ts2))" using s1(3) es0 by simp
    have ne: "ks1 @ ks2 \<noteq> []" using fl c(1) by simp
    have hc: "\<exists>vs nx. bp_heap s1 c = Some (LeafNode [] vs nx)" using inv1 by (auto simp: bp_inv_def)
    let ?s = "s1\<lparr>bp_heap := (bp_heap s1)(a \<mapsto> InternalNode (drop_key ks1 ks2) (map bt_addr (ts1 @ ts2)))\<rparr>"
    have "drop_empty_leaf (length ks1) c (InternalNode ks (map bt_addr ts1 @ c # map bt_addr ts2)) s1 =
        Some (InternalNode (drop_key ks1 ks2) (map bt_addr (ts1 @ ts2)))"
      using hc ne drop_empty_leaf_ok [of "map bt_addr ts1" ks1 ks2 s1 c _ _ "map bt_addr ts2"] c(3)
      by (auto simp: c(1))
    then obtain w where w: "remove_recursive a k s = Some (w, ?s)"
      using True by (auto simp: remove_recursive.simps [of a] ha c(4) at s1(1) ha1)
    have "shrunk (degree s) (bplug (BLeaf c ?es) ?F) (BNode a (drop_key ks1 ks2) (ts1 @ ts2))"
      by (rule shrunk_drop [of _ "concat (map lvs ts1)" c ?es "concat (map lvs ts2)"]) simp_all
    then have "shrunk (degree s) ?T (BNode a (drop_key ks1 ks2) (ts1 @ ts2))" by (rule shrunk_trans [OF sh])
    then show ?thesis
      using w drop_inv [OF inv1 c(6) ne] s1(2) ent fl es0
      by (intro exI [of _ w] exI [of _ ?s] exI [of _ "drop_key ks1 ks2"] exI [of _ "ts1 @ ts2"]) (auto simp: c(2))
  qed
qed

lemma bp_remove_leaf_root:
  assumes rep: "bp_repr s (Some T) es" and fl: "flat T" and k: "k \<notin> seps T" and BLeaf: "T = BLeaf a fs"
  shows "runs (bp_remove k s) (\<lambda>s'. \<exists>t'. bp_repr s' t' (del_list k es) \<and> degree s' = degree s \<and>
    (\<forall>n. bp_tree_ok (degree s) n (Some T) \<longrightarrow> bp_tree_ok (degree s) n t'))"
proof -
  have inv: "bp_inv s T" and es: "es = entries T" using rep by (auto simp: bp_repr_def)
  obtain s1 u where s1: "remove_recursive a k s = Some (u, s1)" "degree s1 = degree s"
      "bp_inv s1 (BLeaf a (del_list k fs))"
    using remove_leaf_ok [of s a fs "[]" k] inv by (auto simp: BLeaf)
  then obtain nx where h: "bp_heap s1 a = Some (LeafNode (map fst (del_list k fs)) (map snd (del_list k fs)) nx)"
    by (auto simp: bp_inv_def)
  have root: "bp_root s = Some a" using inv by (simp add: bp_inv_def BLeaf)
  show ?thesis
  proof (cases "del_list k fs = []")
    case True
    then have "bp_remove k s = Some (s1\<lparr>bp_root := None, first_leaf := None\<rparr>)"
      using s1(1) h by (simp add: bp_remove_def root)
    then show ?thesis using True s1(2,3) es
      by (auto simp: bp_repr_def BLeaf bp_inv_def bp_tree_ok_def intro!: exI [of _ None])
  next
    case False
    then have "bp_remove k s = Some s1" using s1(1) h by (simp add: bp_remove_def root)
    moreover have "shrunk (degree s) T (BLeaf a (del_list k fs))"
      by (rule shrunk_del [of _ "[]" a fs "[]"]) (simp_all add: BLeaf)
    ultimately show ?thesis using s1(2,3) es
      by (auto simp: bp_repr_def BLeaf bp_tree_ok_def shrunk_def intro!: exI [of _ "Some (BLeaf a (del_list k fs))"])
  qed
qed

lemma bp_remove_node_root:
  assumes rep: "bp_repr s (Some T) es" and fl: "flat T" and k: "k \<notin> seps T" and BNode: "T = BNode a ks ts"
  shows "runs (bp_remove k s) (\<lambda>s'. \<exists>t'. bp_repr s' t' (del_list k es) \<and> degree s' = degree s \<and>
    (\<forall>n. bp_tree_ok (degree s) n (Some T) \<longrightarrow> bp_tree_ok (degree s) n t'))"
proof -
  have inv: "bp_inv s T" and es: "es = entries T" using rep by (auto simp: bp_repr_def)
  obtain u s1 ks' ts' where s1: "remove_recursive a k s = Some (u, s1)" "degree s1 = degree s"
      "bp_inv s1 (BNode a ks' ts')" "\<forall>t\<in>set ts'. \<exists>c es. t = BLeaf c es"
      "entries (BNode a ks' ts') = del_list k es" "shrunk (degree s) T (BNode a ks' ts')"
    using remove_node_ok [of s a ks ts k] inv fl k es by (auto simp: BNode)
  have h: "bp_heap s1 a = Some (InternalNode ks' (map bt_addr ts'))" "length ts' = Suc (length ks')"
    using s1(3) by (auto simp: bp_inv_def)
  have root: "bp_root s = Some a" using inv by (simp add: bp_inv_def BNode)
  show ?thesis
  proof (cases "ks' = []")
    case True
    then obtain c fs where ts': "ts' = [BLeaf c fs]" using h(2) s1(4) by (cases ts') auto
    then have "bp_remove k s = Some (s1\<lparr>bp_root := Some c\<rparr>)"
      using s1(1) h True by (simp add: bp_remove_def root)
    moreover have "bp_inv (s1\<lparr>bp_root := Some c\<rparr>) (BLeaf c fs)"
      using shrink_inv s1(3) True ts' by metis
    moreover have "bp_tree_ok (degree s) n (Some (BLeaf c fs))" if "bp_tree_ok (degree s) n (Some T)" for n
      using that s1(6) by (auto simp: bp_tree_ok_def shrunk_def fits_def pot_def ts')
    ultimately show ?thesis using s1(2,5) ts'
      by (auto simp: bp_repr_def intro!: exI [of _ "Some (BLeaf c fs)"])
  next
    case False
    then have "bp_remove k s = Some s1" using s1(1) h by (simp add: bp_remove_def root)
    moreover have "flat (BNode a ks' ts')" using s1(4) False by simp
    ultimately show ?thesis using s1
      by (auto simp: bp_repr_def bp_tree_ok_def shrunk_def intro!: exI [of _ "Some (BNode a ks' ts')"])
  qed
qed

lemma bp_remove_ok:
  assumes rep: "bp_repr s (Some T) es" and fl: "flat T" and k: "k \<notin> seps T"
  shows "runs (bp_remove k s) (\<lambda>s'. \<exists>t'. bp_repr s' t' (del_list k es) \<and> degree s' = degree s \<and>
    (\<forall>n. bp_tree_ok (degree s) n (Some T) \<longrightarrow> bp_tree_ok (degree s) n t'))"
  using bp_remove_leaf_root [OF assms] bp_remove_node_root [OF assms] by (cases T) simp_all

end
