(* ===== verification/BPlusTree_Props.thy ===== *)
theory BPlusTree_Props
  imports BPlusTree_Remove
begin

text \<open>
  The properties of \<open>class BPlusTree\<close>: what its operations do as long as the tree has at most two
  levels, and where they depart from the contract of an ordered multimap.
\<close>

section \<open>The contract of a bounded ordered multimap\<close>

fun insert_all :: "('k \<Rightarrow> 'v \<Rightarrow> 's \<Rightarrow> 's option) \<Rightarrow> ('k \<times> 'v) list \<Rightarrow> 's \<Rightarrow> 's option" where
  "insert_all ins [] s = Some s"
| "insert_all ins ((k, v) # ps) s = ins k v s \<bind> insert_all ins ps"

text \<open>\<open>R n s es\<close>: after at most \<open>n\<close> insertions the object \<open>s\<close> holds the entries \<open>es\<close>. Insertion is
  promised for the first \<open>cap\<close> entries only.\<close>

locale bounded_multimap =
  fixes R :: "nat \<Rightarrow> 's \<Rightarrow> ('k::linorder \<times> 'v) list \<Rightarrow> bool"
    and cap :: nat
    and ins :: "'k \<Rightarrow> 'v \<Rightarrow> 's \<Rightarrow> 's option"
    and range_q :: "'k \<Rightarrow> 'k \<Rightarrow> 's \<Rightarrow> 'v list option"
  assumes ins_law: "R n s es \<Longrightarrow> n < cap \<Longrightarrow> runs (ins k v s) (\<lambda>s'. R (Suc n) s' (ins_before k v es))"
    and range_law: "R n s es \<Longrightarrow> range_q lo hi s = Some (map snd (filter (\<lambda>p. lo \<le> fst p \<and> fst p \<le> hi) es))"
begin

lemma insert_all_ok:
  "R n s es \<Longrightarrow> n + length ps \<le> cap \<Longrightarrow>
   runs (insert_all ins ps s) (\<lambda>s'. R (n + length ps) s' (fold (\<lambda>(k, v). ins_before k v) ps es))"
proof (induction ps arbitrary: n s es)
  case (Cons p ps)
  obtain k v where p: "p = (k, v)" by (cases p)
  from Cons.prems have "runs (ins k v s) (\<lambda>s'. R (Suc n) s' (ins_before k v es))" by (intro ins_law) auto
  then obtain s' where s': "ins k v s = Some s'" "R (Suc n) s' (ins_before k v es)" by (rule runsE)
  from Cons.IH [OF s'(2)] Cons.prems(2) show ?case by (simp add: p s'(1))
qed simp

lemma insert_all_range:
  assumes "R 0 s []" and "length ps \<le> cap"
  shows "runs (insert_all ins ps s) (\<lambda>s'. range_q lo hi s' =
    Some (map snd (filter (\<lambda>p. lo \<le> fst p \<and> fst p \<le> hi) (fold (\<lambda>(k, v). ins_before k v) ps []))))"
  using insert_all_ok [OF assms(1), of ps] assms(2) range_law by (auto elim!: runs_mono)

end

definition bp_state :: "nat \<Rightarrow> nat \<Rightarrow> ('k::linorder, 'v) bptree \<Rightarrow> ('k \<times> 'v) list \<Rightarrow> bool" where
  "bp_state d n s es \<longleftrightarrow> degree s = d \<and> d < 2 ^ 30 \<and> (\<exists>t. bp_repr s t es \<and> bp_tree_ok d n t)"

definition bp_capacity :: "nat \<Rightarrow> nat" where
  "bp_capacity d = (d - 1) * (2 * d - 1)"

lemma bp_state_insert:
  assumes "bp_state d n s es" and "n < bp_capacity d"
  shows "runs (bp_insert k v s) (\<lambda>s'. bp_state d (Suc n) s' (ins_before k v es))"
proof -
  obtain t where t: "bp_repr s t es" "bp_tree_ok (degree s) n t" "degree s = d" and small: "degree s < 2 ^ 30"
    using assms(1) by (auto simp: bp_state_def)
  have "\<forall>T. t = Some T \<longrightarrow> \<not> root_full (degree s) T"
    using root_not_full [of s _ es n] t assms(2) by (auto simp: bp_capacity_def)
  from bp_insert_ok [OF t(1,2) small this] show ?thesis
    by (rule runs_mono) (use t(3) small in \<open>auto simp: bp_state_def\<close>)
qed

lemma length_fold_ins_before: "length (fold (\<lambda>(k, v). ins_before k v) ps es) = length ps + length es"
  by (induction ps arbitrary: es) (auto simp: length_ins_before)

interpretation bp: bounded_multimap "bp_state d" "bp_capacity d" bp_insert range_query for d
proof
  show "bp_state d n s es \<Longrightarrow> n < bp_capacity d \<Longrightarrow>
      runs (bp_insert k v s) (\<lambda>s'. bp_state d (Suc n) s' (ins_before k v es))" for n s es k v
    by (rule bp_state_insert)
  show "bp_state d n s es \<Longrightarrow> range_query lo hi s = Some (map snd (filter (\<lambda>p. lo \<le> fst p \<and> fst p \<le> hi) es))"
    for n s es lo hi
    using range_query_ok by (auto simp: bp_state_def)
qed





section \<open>The split of the first leaf\<close>

lemma insert_splits_leaf:
  assumes inv: "bp_inv s (BLeaf a es)" and len: "length es = 2 * degree s - 1"
    and e: "es = e1 @ (p, w) # e2" "length e1 = degree s - 1" and small: "degree s < 2 ^ 30"
  shows "runs (bp_insert k v s) (\<lambda>s'. \<exists>m n f1 f2. bp_inv s' (BNode m [p] [BLeaf a f1, BLeaf n f2]) \<and>
    f1 = (if p < k then e1 else ins_before k v e1) \<and> f1 @ f2 = ins_before k v es)"
proof -
  let ?n = "bp_next s"
  have d: "2 \<le> degree s" and root: "bp_root s = Some a" using inv by (auto simp: bp_inv_def)
  obtain nx where h: "bp_heap s a = Some (LeafNode (map fst es) (map snd es) nx)"
    using inv by (auto simp: bp_inv_def)
  have half: "length es div 2 = degree s - 1" using len d by simp
  have "2 * degree s - 1 \<le> length es" using len by simp
  from split_root_ok [OF inv this] obtain s1 g1 g2 where s1: "split_root a s = Some s1" "es = g1 @ g2"
      "length g1 = length es div 2" "degree s1 = degree s" "bp_root s1 = Some (Suc ?n)"
      "bp_inv s1 (BNode (Suc ?n) [fst (hd g2)] [BLeaf a g1, BLeaf ?n g2])"
    by blast
  have g: "g1 = e1" "g2 = (p, w) # e2" using s1(2,3) e half by (auto simp: append_eq_append_conv)
  let ?T = "BNode (Suc ?n) [p] [BLeaf a e1, BLeaf ?n ((p, w) # e2)]"
  have inv1: "bp_inv s1 ?T" using s1(6) by (simp add: g)
  obtain n1 n2 where h1: "bp_heap s1 (Suc ?n) = Some (InternalNode [p] [a, ?n])"
      "bp_heap s1 a = Some (LeafNode (map fst e1) (map snd e1) n1)"
      "bp_heap s1 ?n = Some (LeafNode (p # map fst e2) (w # map snd e2) n2)"
    using inv1 by (auto simp: bp_inv_def)
  have small1: "degree s1 < 2 ^ 30" using small s1(4) by simp
  have nf: "length e1 < 2 * degree s1 - 1" "Suc (length e2) < 2 * degree s1 - 1"
    using len e d s1(4) by (auto simp: e)
  have run: "bp_insert k v s = insert_nonfull (if p < k then ?n else a) k v s1"
    using nf by (simp add: bp_insert_def root h len is_full_ok [OF small] is_full_ok [OF small1] s1(1,5) insert_nonfull.simps [of "Suc ?n"] h1 vec_at_def)
  have srt: "sorted (map fst e1 @ p # p # map fst e2)" using inv1 by (simp add: bp_inv_def)
  have ent: "entries ?T = es" by (simp add: e)
  show ?thesis
  proof (cases "p < k")
    case True
    let ?F = "[BFrame (Suc ?n) [BLeaf a e1] [p] [] []]"
    have "descends k ?F" using srt True by (auto simp: descends_def sorted_append)
    with insert_leaf_ok [of s1 ?n "(p, w) # e2" ?F k v] inv1 ent obtain s' where
      "insert_nonfull ?n k v s1 = Some s'" "e1 @ ins_before k v ((p, w) # e2) = ins_before k v es"
      "bp_inv s' (BNode (Suc ?n) [p] [BLeaf a e1, BLeaf ?n (ins_before k v ((p, w) # e2))])"
      by auto
    then show ?thesis unfolding run runs_iff using True by (simp only: if_True) blast
  next
    case False
    let ?F = "[BFrame (Suc ?n) [] [] [p] [BLeaf ?n ((p, w) # e2)]]"
    have "\<forall>x\<in>set (rkeys_of ?F). p \<le> x" using srt by (auto simp: sorted_append)
    then have "descends k ?F" using False by (auto simp: descends_def)
    with insert_leaf_ok [of s1 a e1 ?F k v] inv1 ent obtain s' where
      "insert_nonfull a k v s1 = Some s'" "ins_before k v e1 @ (p, w) # e2 = ins_before k v es"
      "bp_inv s' (BNode (Suc ?n) [p] [BLeaf a (ins_before k v e1), BLeaf ?n ((p, w) # e2)])"
      by auto
    then show ?thesis unfolding run runs_iff using False by (simp only: if_False) blast
  qed
qed

lemma find_left_of_separator:
  assumes "bp_inv s (BNode m [p] [BLeaf a f1, BLeaf n f2])"
  shows "bp_find p s = Some (map_of f1 p)"
proof -
  obtain nx where h: "bp_heap s m = Some (InternalNode [p] [a, n])"
      "bp_heap s a = Some (LeafNode (map fst f1) (map snd f1) nx)" and root: "bp_root s = Some m"
    using assms by (auto simp: bp_inv_def)
  have "sorted (map fst f1)" using assms by (auto simp: bp_inv_def sorted_append)
  moreover have "find_leaf p s = Some (Some a)"
    by (simp add: find_leaf_def root find_leaf_from.simps [of p m] find_leaf_from.simps [of p a] h)
  ultimately show ?thesis by (simp add: bp_find_def h(2) leaf_find_ok)
qed

lemma filter_ins_before: "\<not> P (k, v) \<Longrightarrow> filter P (ins_before k v es) = filter P es"
  by (induction es) (auto simp: ins_before_def)

section \<open>Properties\<close>

text \<open>
  C22. A new tree of degree \<open>d\<close> below \<open>2^30\<close>, from where on \<open>2 * degree_ref - 1\<close> overflows, accepts any \<open>(d - 1)(2 d - 1)\<close> insertions: each terminates without
  undefined behaviour, leaves split and the root grows as needed, and afterwards every range query
  returns exactly the values of the keys in the range, in key order (the latest first among equal
  keys), and \<open>size()\<close> is the number of entries.
\<close>

theorem bp_inserts_correct:
  assumes "length ps \<le> bp_capacity (nat (max 2 deg))" and "deg < 2 ^ 30"
  shows "runs (insert_all bp_insert ps (bp_new deg)) (\<lambda>s.
    range_query lo hi s =
      Some (map snd (filter (\<lambda>p. lo \<le> fst p \<and> fst p \<le> hi) (fold (\<lambda>(k, v). ins_before k v) ps []))) \<and>
    bp_size s = Some (of_nat (length ps)))"
proof -
  let ?d = "nat (max 2 deg)"
  have "bp_state ?d 0 (bp_new deg) []"
    by (use assms(2) in \<open>auto simp: bp_state_def bp_new_def bp_repr_def bp_tree_ok_def nat_less_iff intro!: exI [of _ None]\<close>)
  from bp.insert_all_ok [OF this, of ps] assms(1)
  have "runs (insert_all bp_insert ps (bp_new deg))
      (\<lambda>s. bp_state ?d (length ps) s (fold (\<lambda>(k, v). ins_before k v) ps []))" by simp
  then show ?thesis
    by (rule runs_mono) (auto simp: bp_state_def range_query_ok size_ok length_fold_ins_before)
qed

theorem bp_inserts_correct_witness:
  "runs (insert_all bp_insert [(5::int, ''e''), (2, ''b''), (9, ''i''), (5, ''E''), (7, ''g''), (1, ''a'')] (bp_new 3))
    (\<lambda>s. range_query 2 7 s = Some [''b'', ''E'', ''e'', ''g''] \<and> bp_size s = Some 6)"
proof -
  let ?ps = "[(5::int, ''e''), (2, ''b''), (9, ''i''), (5, ''E''), (7, ''g''), (1, ''a'')]"
  have "length ?ps \<le> bp_capacity (nat (max 2 3))" by (simp add: bp_capacity_def)
  from bp_inserts_correct [OF this, of 2 7] show ?thesis by (simp add: ins_before_def)
qed





text \<open>
  C25. The key a leaf split promotes can no longer be found or removed: after an insertion has split
  the full leaf root of a tree whose degree is below \<open>2^30\<close> (so that the test for a full node does not overflow), \<open>find\<close> of the promoted key \<open>p\<close> returns null and \<open>contains\<close> false although a range
  query still returns its value. \<open>find_child_index\<close> goes left of an equal separator and the split
  keeps the promoted key on the right.
\<close>

theorem bp_promoted_key_lost:
  assumes "bp_inv s (BLeaf a es)" and "length es = 2 * degree s - 1" and "sorted1 es"
    and "es = e1 @ (p, w) # e2" and "length e1 = degree s - 1" and "k \<noteq> p" and "degree s < 2 ^ 30"
  shows "runs (bp_insert k v s) (\<lambda>s'. bp_find p s' = Some None \<and> bp_contains p s' = Some False \<and>
    range_query p p s' = Some [w])"
proof (rule runs_mono [OF insert_splits_leaf [OF assms(1,2,4,5,7)]])
  fix s' assume "\<exists>m n f1 f2. bp_inv s' (BNode m [p] [BLeaf a f1, BLeaf n f2]) \<and>
    f1 = (if p < k then e1 else ins_before k v e1) \<and> f1 @ f2 = ins_before k v es"
  then obtain m n f1 f2 where f: "bp_inv s' (BNode m [p] [BLeaf a f1, BLeaf n f2])"
      "f1 = (if p < k then e1 else ins_before k v e1)" "f1 @ f2 = ins_before k v es" by blast
  have "p \<notin> fst ` set f1"
    using assms(3,6) by (auto simp: f(2) assms(4) sorted_wrt_append set_ins_before)
  then have find: "bp_find p s' = Some None"
    using find_left_of_separator [OF f(1)] by (simp add: map_of_eq_None_iff)
  have "bp_repr s' (Some (BNode m [p] [BLeaf a f1, BLeaf n f2])) (ins_before k v es)"
    using f(1,3) by (simp add: bp_repr_def)
  moreover have "filter (\<lambda>q. p \<le> fst q \<and> fst q \<le> p) (ins_before k v es) = [(p, w)]"
  proof -
    have "filter (\<lambda>q. p \<le> fst q \<and> fst q \<le> p) e1 = []" "filter (\<lambda>q. p \<le> fst q \<and> fst q \<le> p) e2 = []"
      using assms(3) by (fastforce simp: assms(4) sorted_wrt_append filter_empty_conv)+
    then show ?thesis using assms(6) by (subst filter_ins_before) (auto simp: assms(4))
  qed
  ultimately have "range_query p p s' = Some [w]" by (simp add: range_query_ok)
  with find show "bp_find p s' = Some None \<and> bp_contains p s' = Some False \<and> range_query p p s' = Some [w]"
    by (simp add: bp_contains_def)
qed

theorem bp_promoted_key_lost_witness:
  "runs (insert_all bp_insert [(1::int, ''a''), (4, ''d''), (6, ''f'')] (bp_new 2))
    (\<lambda>s. runs (bp_insert 8 ''h'' s) (\<lambda>s'. bp_find 4 s' = Some None \<and> range_query 4 4 s' = Some [''d'']))"
proof -
  have "runs (insert_all bp_insert [(1::int, ''a''), (4, ''d''), (6, ''f'')] (bp_new 2))
    (\<lambda>s. degree s = 2 \<and> bp_root s = Some 0 \<and> first_leaf s = Some 0 \<and> bp_next s = 1 \<and>
      bp_heap s 0 = Some (LeafNode [1, 4, 6] [''a'', ''d'', ''f''] None))"
    by code_simp
  then show ?thesis
  proof (rule runs_mono)
    fix s :: "(int, string) bptree"
    let ?es = "[(1::int, ''a''), (4, ''d''), (6, ''f'')]"
    assume s: "degree s = 2 \<and> bp_root s = Some 0 \<and> first_leaf s = Some 0 \<and> bp_next s = 1 \<and>
      bp_heap s 0 = Some (LeafNode [1, 4, 6] [''a'', ''d'', ''f''] None)"
    then have inv: "bp_inv s (BLeaf 0 ?es)"
      by (auto simp: bp_inv_def thread_def intro!: exI [of _ "{}"] exI [of _ "[(0, ?es)]"])
    have "?es = [(1, ''a'')] @ (4, ''d'') # [(6, ''f'')]" by simp
    from bp_promoted_key_lost [OF inv _ _ this, of 8 "''h''"] s
    show "runs (bp_insert 8 ''h'' s) (\<lambda>s'. bp_find 4 s' = Some None \<and> range_query 4 4 s' = Some [''d''])"
      by (auto elim!: runs_mono)
  qed
qed

text \<open>
  \<open>validate()\<close> rejects every well-formed tree that has an internal root: \<open>child_min\<close> keeps the
  first key of the first leaf, so that the comparison with the first separator fails at the second
  child.
\<close>

lemma bp_validate_rejects:
  assumes "bp_repr s (Some (BNode a ks ts)) es" and "flat (BNode a ks ts)" and "degree s < 2 ^ 30"
  shows "\<exists>ls. bp_validate 2 s = Some (ls, False)"
proof -
  have inv: "bp_inv s (BNode a ks ts)" using assms(1) by (simp add: bp_repr_def)
  have ar: "length ts = Suc (length ks)" and root: "bp_root s = Some a" using inv by (auto simp: bp_inv_def)
  obtain k0 ks' where ks: "ks = k0 # ks'" using assms(2) by (cases ks) auto
  obtain c0 e0 c1 e1 ts' where ts: "ts = BLeaf c0 e0 # BLeaf c1 e1 # ts'"
    using ar assms(2) by (cases ts; cases "tl ts") (auto simp: ks)
  have ha: "bp_heap s a = Some (InternalNode ks (c0 # c1 # map bt_addr ts'))"
    using inv by (simp add: bp_inv_def ts)
  obtain n0 n1 where h: "bp_heap s c0 = Some (LeafNode (map fst e0) (map snd e0) n0)"
      "bp_heap s c1 = Some (LeafNode (map fst e1) (map snd e1) n1)"
    using inv by (auto simp: bp_inv_def ts)
  have "sorted (map fst e0 @ k0 # mix (map all_keys (BLeaf c1 e1 # ts')) ks')"
    using inv by (simp add: bp_inv_def ts ks)
  then have min: "e0 \<noteq> [] \<Longrightarrow> hd (map fst e0) \<le> k0" by (cases e0) auto
  have "\<exists>ls. validate_node 2 a 0 s (None, None, True) = Some (ls, False, (None, None, True))"
    using ar min by (auto simp: numeral_2_eq_2 root ha h ks ts validate_fill_def is_full_ok [OF assms(3)] validate_leaf_def separators_ok_def vec_at_def split: if_splits)
  then show ?thesis by (auto simp: bp_validate_def root)
qed

text \<open>
  C26. An insertion that reaches a full internal node below the root has undefined behaviour: the key
  to promote is read at \<open>keys[keys.size()]\<close>.
\<close>

theorem bp_internal_split_undefined:
  assumes "bp_heap s node = Some (InternalNode ks cs)" and "vec_at cs (find_child_index k ks) = Some child"
    and "bp_heap s child = Some (InternalNode ks' cs')" and "2 * degree s - 1 \<le> length ks'"
  shows "insert_nonfull node k v s = None"
proof -
  have "split_child node idx child s = None" for idx
    using assms(3) by (auto simp: split_child_def internal_split_def vec_at_def Let_def)
  then show ?thesis using assms by (simp add: insert_nonfull.simps [of node] is_full_def)
qed

theorem bp_internal_split_undefined_witness:
  "runs (insert_all bp_insert (map (\<lambda>i. (i, i)) [1..8]) (bp_new 2 :: (int, int) bptree))
    (\<lambda>s. bp_insert 9 9 s = None)"
proof -
  have "runs (insert_all bp_insert (map (\<lambda>i. (i, i)) [1..8]) (bp_new 2 :: (int, int) bptree))
    (\<lambda>s. degree s = 2 \<and> bp_root s = Some 6 \<and> bp_heap s 6 = Some (InternalNode [2] [2, 5]) \<and>
      bp_heap s 5 = Some (InternalNode [4, 5, 6] [3, 4, 7, 8]))"
    by code_simp
  then show ?thesis
  proof (rule runs_mono)
    fix s :: "(int, int) bptree"
    assume s: "degree s = 2 \<and> bp_root s = Some 6 \<and> bp_heap s 6 = Some (InternalNode [2] [2, 5]) \<and>
      bp_heap s 5 = Some (InternalNode [4, 5, 6] [3, 4, 7, 8])"
    then have "insert_nonfull 6 9 9 s = None"
      by (intro bp_internal_split_undefined [of s 6 "[2]" "[2, 5]" 9 5 "[4, 5, 6]" "[3, 4, 7, 8]"])
        (auto simp: vec_at_def)
    then show "bp_insert 9 9 s = None" using s by (simp add: bp_insert_def is_full_def)
  qed
qed

end
