(* ===== verification/BPlusTree_Test.thy ===== *)
theory BPlusTree_Test
  imports BPlusTree
begin

text \<open>
  The printing functions of \<open>class BPlusTree\<close> and \<open>test_bplustree\<close>, the test program of \<open>B+Tree/BplusTree.cpp\<close>. The
  output is the list of its lines. \<open>validate\<close> gets the number of allocated nodes as its bound on the
  levels. Test 6 takes its numbers from a generator \<open>rng\<close>, a function of the number of calls so far.
\<close>

section \<open>Printing\<close>







section \<open>The tests\<close>


















section \<open>What the tests show\<close>



end
