(* ===== verification/LRUCache.thy ===== *)
theory LRUCache
  imports Prelude
begin

text \<open>
  \<open>class LRUCacheWithTTL\<close> of \<open>LRU_with_TTL/LRUCache.cpp\<close>.

  The \<open>std::list\<close> of nodes is the list \<open>cache\<close>, most recently used first; every node has an
  identity, which is what a list iterator denotes, and \<open>key_map\<close> maps keys to identities.
  Dereferencing or erasing an identity that is no longer in the list, and \<open>back\<close> of an empty
  list, are undefined behaviour (\<open>None\<close>). Each call of \<open>steady_clock::now\<close> is an argument of the
  method that makes it, in the order of the calls; time is in nanoseconds.

  The abstract value of a cache is the list of its nodes by recency. \<open>get\<close> and \<open>put\<close> are
  proved to refine operations on that list; the only way \<open>get\<close> goes wrong is an entry that
  expires between its two clock readings (lines 54 to 56 use an erased iterator).
\<close>

section \<open>The class\<close>

record lru_node =
  lkey :: cint
  lvalue :: cint
  expire_time :: int

record lru =
  ttl :: int
  capacity :: cint
  cache :: "(nat \<times> lru_node) list"
  key_map :: "cint \<rightharpoonup> nat"
  next_id :: nat

definition deadline :: "int \<Rightarrow> int \<Rightarrow> int" where
  "deadline now ttl_seconds = now + ttl_seconds * 1000000000"

definition make_lru_node :: "cint \<Rightarrow> cint \<Rightarrow> int \<Rightarrow> int \<Rightarrow> lru_node" where
  "make_lru_node k v t now = \<lparr>lkey = k, lvalue = v, expire_time = deadline now t\<rparr>"

definition lru_new :: "cint \<Rightarrow> cint \<Rightarrow> lru" where
  "lru_new c t = \<lparr>ttl = sint t, capacity = c, cache = [], key_map = Map.empty, next_id = 0\<rparr>"

fun clean_loop :: "int \<Rightarrow> (nat \<times> lru_node) list \<Rightarrow> (cint \<rightharpoonup> nat) \<Rightarrow>
    (nat \<times> lru_node) list \<times> (cint \<rightharpoonup> nat)" where
  "clean_loop now [] m = ([], m)"
| "clean_loop now ((i, n) # xs) m =
     (if expire_time n \<le> now then clean_loop now xs (m(lkey n := None))
      else let (ys, m') = clean_loop now xs m in ((i, n) # ys, m'))"

definition clean_expire :: "int \<Rightarrow> lru \<Rightarrow> lru" where
  "clean_expire now s = (let (xs, m) = clean_loop now (cache s) (key_map s)
     in s\<lparr>cache := xs, key_map := m\<rparr>)"

definition is_expired :: "int \<Rightarrow> lru_node \<Rightarrow> bool" where
  "is_expired now n \<longleftrightarrow> expire_time n \<le> now"

text \<open>Iterators: dereference, assignment through, erase, and \<open>splice\<close> to the front.\<close>

definition deref :: "nat \<Rightarrow> lru \<Rightarrow> lru_node option" where
  "deref i s = map_of (cache s) i"

definition assign :: "nat \<Rightarrow> (lru_node \<Rightarrow> lru_node) \<Rightarrow> lru \<Rightarrow> lru option" where
  "assign i f s = (case deref i s of None \<Rightarrow> None
     | Some n \<Rightarrow> Some (s\<lparr>cache := map (\<lambda>(j, m). if j = i then (j, f m) else (j, m)) (cache s)\<rparr>))"

definition erase_node :: "nat \<Rightarrow> lru \<Rightarrow> lru option" where
  "erase_node i s = (case deref i s of None \<Rightarrow> None
     | Some n \<Rightarrow> Some (s\<lparr>cache := filter (\<lambda>(j, m). j \<noteq> i) (cache s)\<rparr>))"

definition splice_front :: "nat \<Rightarrow> lru \<Rightarrow> lru option" where
  "splice_front i s = (case deref i s of None \<Rightarrow> None
     | Some n \<Rightarrow> Some (s\<lparr>cache := (i, n) # filter (\<lambda>(j, m). j \<noteq> i) (cache s)\<rparr>))"

definition lru_get :: "cint \<Rightarrow> int \<Rightarrow> int \<Rightarrow> lru \<Rightarrow> (cint \<times> lru) option" where
  "lru_get k now1 now2 s0 = do {
     let s = clean_expire now1 s0;
     (case key_map s k of None \<Rightarrow> Some (- 1, s)
      | Some i \<Rightarrow> do {
          n \<leftarrow> deref i s;
          (if is_expired now2 n then do {
             s \<leftarrow> erase_node i s;
             m \<leftarrow> deref i s;
             Some (- 1, s\<lparr>key_map := (key_map s)(lkey m := None)\<rparr>) }
           else do {
             s \<leftarrow> splice_front i s;
             n \<leftarrow> deref i s;
             Some (lvalue n, s) }) }) }"

text \<open>\<open>cache.size() == capacity\<close> compares a \<open>size_t\<close> with an \<open>int\<close>, which is sign-extended.\<close>

definition at_capacity :: "lru \<Rightarrow> bool" where
  "at_capacity s \<longleftrightarrow> (of_nat (length (cache s)) :: size_t) = word_of_int (sint (capacity s))"

definition evict :: "lru \<Rightarrow> lru option" where
  "evict s = (if cache s = [] then None
     else Some (s\<lparr>key_map := (key_map s)(lkey (snd (last (cache s))) := None),
       cache := butlast (cache s)\<rparr>))"

text \<open>The two branches of \<open>put\<close>: a new key (lines 69 to 75) and an existing one (77 to 79).\<close>

definition put_new :: "cint \<Rightarrow> cint \<Rightarrow> int \<Rightarrow> lru \<Rightarrow> lru option" where
  "put_new k v now s = do {
     s \<leftarrow> (if at_capacity s then evict s else Some s);
     let i = next_id s;
     Some (s\<lparr>cache := (i, make_lru_node k v (ttl s) now) # cache s,
       key_map := (key_map s)(k \<mapsto> i), next_id := Suc i\<rparr>) }"

definition put_existing :: "nat \<Rightarrow> cint \<Rightarrow> int \<Rightarrow> lru \<Rightarrow> lru option" where
  "put_existing i v now s = do {
     s \<leftarrow> assign i (\<lambda>n. n\<lparr>lvalue := v\<rparr>) s;
     s \<leftarrow> assign i (\<lambda>n. n\<lparr>expire_time := deadline now (ttl s)\<rparr>) s;
     splice_front i s }"

definition lru_put :: "cint \<Rightarrow> cint \<Rightarrow> int \<Rightarrow> int \<Rightarrow> lru \<Rightarrow> lru option" where
  "lru_put k v now1 now2 s0 =
     (let s = clean_expire now1 s0 in
      case key_map s k of None \<Rightarrow> put_new k v now2 s | Some i \<Rightarrow> put_existing i v now2 s)"

section \<open>The abstract cache\<close>

text \<open>A cache is its nodes by recency; keys are distinct.\<close>

definition entries :: "lru \<Rightarrow> lru_node list" where
  "entries s = map snd (cache s)"

definition lookup :: "cint \<Rightarrow> lru_node list \<Rightarrow> lru_node option" where
  "lookup k es = find (\<lambda>n. lkey n = k) es"

definition alive :: "int \<Rightarrow> lru_node list \<Rightarrow> lru_node list" where
  "alive now es = filter (\<lambda>n. now < expire_time n) es"

definition without :: "cint \<Rightarrow> lru_node list \<Rightarrow> lru_node list" where
  "without k es = filter (\<lambda>n. lkey n \<noteq> k) es"

definition spec_get :: "cint \<Rightarrow> int \<Rightarrow> lru_node list \<Rightarrow> cint \<times> lru_node list" where
  "spec_get k now es = (case lookup k (alive now es) of None \<Rightarrow> (- 1, alive now es)
     | Some n \<Rightarrow> (lvalue n, n # without k (alive now es)))"

definition spec_put :: "nat \<Rightarrow> lru_node \<Rightarrow> int \<Rightarrow> lru_node list \<Rightarrow> lru_node list" where
  "spec_put cap n now es =
     (let as = alive now es in
      if lookup (lkey n) as = None then n # (if length as = cap then butlast as else as)
      else n # without (lkey n) as)"

section \<open>The invariant\<close>

text \<open>Identities and keys are distinct, and \<open>key_map\<close> is exactly the index of the list.\<close>

definition index_of :: "(nat \<times> lru_node) list \<Rightarrow> cint \<rightharpoonup> nat" where
  "index_of xs = map_of (map (\<lambda>(i, n). (lkey n, i)) xs)"

definition lru_wf :: "lru \<Rightarrow> bool" where
  "lru_wf s \<longleftrightarrow> distinct (map fst (cache s)) \<and> distinct (map lkey (entries s)) \<and>
     key_map s = index_of (cache s) \<and> (\<forall>i\<in>fst ` set (cache s). i < next_id s) \<and>
     0 < sint (capacity s) \<and> int (length (cache s)) \<le> sint (capacity s)"

lemma index_of_Cons: "index_of ((i, n) # xs) = (index_of xs)(lkey n \<mapsto> i)"
  by (simp add: index_of_def)

lemma index_of_None: "index_of xs k = None \<longleftrightarrow> k \<notin> lkey ` snd ` set xs"
  by (induction xs) (auto simp: index_of_def)

lemma index_of_split:
  assumes "index_of xs k = Some i" and "distinct (map (lkey \<circ> snd) xs)"
  obtains ys n zs where "xs = ys @ (i, n) # zs" and "lkey n = k"
    and "k \<notin> lkey ` snd ` set ys" and "k \<notin> lkey ` snd ` set zs"
proof -
  have "(k, i) \<in> set (map (\<lambda>(i, n). (lkey n, i)) xs)"
    using assms(1) unfolding index_of_def by (rule map_of_SomeD)
  then obtain n where "(i, n) \<in> set xs" "lkey n = k" by auto
  moreover from this obtain ys zs where "xs = ys @ (i, n) # zs" by (meson split_list)
  ultimately show ?thesis using assms(2) that [of ys n zs] by (auto simp: image_image)
qed

definition expired_at :: "int \<Rightarrow> cint \<Rightarrow> (nat \<times> lru_node) list \<Rightarrow> bool" where
  "expired_at now k xs \<longleftrightarrow> (\<exists>p\<in>set xs. lkey (snd p) = k \<and> expire_time (snd p) \<le> now)"

lemma expired_at_Cons:
  "expired_at now k (p # xs) \<longleftrightarrow> lkey (snd p) = k \<and> expire_time (snd p) \<le> now \<or> expired_at now k xs"
  by (auto simp: expired_at_def)

lemma clean_loop_fst: "fst (clean_loop now xs m) = filter (\<lambda>p. now < expire_time (snd p)) xs"
proof (induction xs arbitrary: m)
  case (Cons p xs)
  then show ?case by (cases p) (simp add: split_beta not_less)
qed simp

lemma clean_loop_snd: "snd (clean_loop now xs m) k = (if expired_at now k xs then None else m k)"
proof (induction xs arbitrary: m)
  case (Cons p xs)
  then show ?case by (cases p) (simp add: split_beta expired_at_Cons)
qed (simp add: expired_at_def)

lemma index_of_clean:
  "distinct (map (lkey \<circ> snd) xs) \<Longrightarrow> index_of (filter (\<lambda>p. now < expire_time (snd p)) xs) k =
     (if expired_at now k xs then None else index_of xs k)"
proof (induction xs)
  case (Cons p xs)
  obtain i n where p: "p = (i, n)" by (cases p)
  have "index_of (filter (\<lambda>p. now < expire_time (snd p)) xs) (lkey n) = None"
       "\<not> expired_at now (lkey n) xs"
    using Cons.prems by (force simp: index_of_None p expired_at_def)+
  then show ?case using Cons by (auto simp: p index_of_Cons expired_at_Cons not_less)
qed (simp add: index_of_def expired_at_def)

lemma alive_entries: "alive now (map snd xs) = map snd (filter (\<lambda>p. now < expire_time (snd p)) xs)"
  by (simp add: alive_def filter_map o_def)

lemma clean_expire_eq:
  assumes "lru_wf s"
  shows "clean_expire now s = s\<lparr>cache := filter (\<lambda>p. now < expire_time (snd p)) (cache s),
    key_map := index_of (filter (\<lambda>p. now < expire_time (snd p)) (cache s))\<rparr>"
proof -
  have "snd (clean_loop now (cache s) (key_map s)) = index_of (filter (\<lambda>p. now < expire_time (snd p)) (cache s))"
    using assms by (auto simp: clean_loop_snd index_of_clean lru_wf_def entries_def)
  then show ?thesis
    using clean_loop_fst [of now "cache s" "key_map s"] by (simp add: clean_expire_def split_beta)
qed

lemma clean_expire_wf:
  assumes "lru_wf s"
  shows "lru_wf (clean_expire now s)" and "entries (clean_expire now s) = alive now (entries s)"
    and "capacity (clean_expire now s) = capacity s" and "ttl (clean_expire now s) = ttl s"
proof -
  have "int (length (filter (\<lambda>p. now < expire_time (snd p)) (cache s))) \<le> int (length (cache s))" by simp
  then have "lru_wf s \<Longrightarrow> int (length (filter (\<lambda>p. now < expire_time (snd p)) (cache s))) \<le> sint (capacity s)"
    unfolding lru_wf_def by linarith
  moreover have "distinct (map lkey (map snd (filter (\<lambda>p. now < expire_time (snd p)) (cache s))))"
    using assms by (simp add: lru_wf_def entries_def distinct_map_filter)
  ultimately show "lru_wf (clean_expire now s)"
    using assms by (auto simp: clean_expire_eq [OF assms] lru_wf_def entries_def distinct_map_filter)
qed (simp_all add: clean_expire_eq [OF assms] entries_def alive_entries)

lemma lookup_None: "lookup k es = None \<longleftrightarrow> k \<notin> lkey ` set es"
  by (auto simp: lookup_def find_None_iff)

lemma lookup_split:
  "k \<notin> lkey ` set es \<Longrightarrow> lkey n = k \<Longrightarrow> lookup k (es @ n # fs) = Some n"
  by (induction es) (auto simp: lookup_def)

lemma without_absent: "k \<notin> lkey ` set es \<Longrightarrow> without k es = es"
  by (auto simp: without_def filter_id_conv)

text \<open>The situation at a key: absent from index and list, or at one place of both.\<close>

lemma key_cases:
  assumes "lru_wf s"
  obtains (absent) "key_map s k = None" "lookup k (entries s) = None"
  | (present) i n ys zs where "key_map s k = Some i" "cache s = ys @ (i, n) # zs" "lkey n = k"
      "lookup k (entries s) = Some n" "without k (entries s) = map snd (ys @ zs)"
      "i \<notin> fst ` set (ys @ zs)" "k \<notin> lkey ` snd ` set (ys @ zs)"
proof (cases "key_map s k")
  case None
  then show ?thesis
    using assms by (intro absent) (auto simp: lru_wf_def entries_def lookup_None index_of_None)
next
  case (Some i)
  then obtain ys n zs where xs: "cache s = ys @ (i, n) # zs" "lkey n = k"
      "k \<notin> lkey ` snd ` set ys" "k \<notin> lkey ` snd ` set zs"
    using assms index_of_split [of "cache s" k i] by (auto simp: lru_wf_def entries_def)
  then have "lookup k (entries s) = Some n" "without k (entries s) = map snd (ys @ zs)"
    using without_absent [of k "map snd ys"] without_absent [of k "map snd zs"]
    by (simp_all add: entries_def lookup_split) (simp add: without_def)
  then show ?thesis using present [OF Some xs(1,2)] assms xs by (auto simp: lru_wf_def)
qed

section \<open>The methods refine the abstract cache\<close>

definition refines :: "lru \<Rightarrow> lru_node list \<Rightarrow> lru \<Rightarrow> bool" where
  "refines s es s' \<longleftrightarrow> lru_wf s' \<and> entries s' = es \<and> capacity s' = capacity s \<and> ttl s' = ttl s"

lemma index_of_move: "lkey n \<notin> lkey ` snd ` set ys \<Longrightarrow> index_of (ys @ (i, n) # zs) = index_of ((i, n) # ys @ zs)"
proof (induction ys)
  case (Cons p ys)
  then show ?case by (cases p) (auto simp: index_of_Cons)
qed simp

lemma erase_split:
  "i \<notin> fst ` set (ys @ zs) \<Longrightarrow> filter (\<lambda>(j, m). j \<noteq> i) (ys @ (i, n) # zs) = ys @ zs"
proof -
  assume "i \<notin> fst ` set (ys @ zs)"
  then have "\<forall>x\<in>set ys. case x of (j, m) \<Rightarrow> j \<noteq> i" "\<forall>x\<in>set zs. case x of (j, m) \<Rightarrow> j \<noteq> i" by force+
  then show ?thesis by (simp only: filter_append filter_True filter.simps) simp
qed

lemma deref_split:
  "cache s = ys @ (i, n) # zs \<Longrightarrow> i \<notin> fst ` set (ys @ zs) \<Longrightarrow> deref i s = Some n"
  by (force simp: deref_def map_add_def split: option.splits dest: map_of_SomeD)

lemma splice_front_ok:
  assumes wf: "lru_wf s" and xs: "cache s = ys @ (i, n) # zs" "i \<notin> fst ` set (ys @ zs)"
    "lkey n \<notin> lkey ` snd ` set (ys @ zs)"
  shows "splice_front i s = Some (s\<lparr>cache := (i, n) # ys @ zs\<rparr>)"
    and "refines s (n # map snd (ys @ zs)) (s\<lparr>cache := (i, n) # ys @ zs\<rparr>)"
proof -
  show "splice_front i s = Some (s\<lparr>cache := (i, n) # ys @ zs\<rparr>)"
    using deref_split [OF xs(1,2)] erase_split [OF xs(2)] by (simp add: splice_front_def xs(1))
  show "refines s (n # map snd (ys @ zs)) (s\<lparr>cache := (i, n) # ys @ zs\<rparr>)"
    using wf xs index_of_move [of n ys i zs] by (auto simp: refines_def lru_wf_def entries_def)
qed

lemma lru_get_ok:
  assumes wf: "lru_wf s" and race: "\<And>n. lookup k (alive now1 (entries s)) = Some n \<Longrightarrow> now2 < expire_time n"
  shows "\<exists>s'. lru_get k now1 now2 s = Some (fst (spec_get k now1 (entries s)), s') \<and>
    refines s (snd (spec_get k now1 (entries s))) s'"
proof -
  let ?s = "clean_expire now1 s"
  note clean = clean_expire_wf [OF wf, of now1]
  show ?thesis
  proof (rule key_cases [OF clean(1), of k])
    assume "key_map ?s k = None" "lookup k (entries ?s) = None"
    then show ?thesis using clean by (simp add: lru_get_def spec_get_def refines_def)
  next
    fix i n ys zs
    assume p: "key_map ?s k = Some i" "cache ?s = ys @ (i, n) # zs" "lkey n = k"
      "lookup k (entries ?s) = Some n" "without k (entries ?s) = map snd (ys @ zs)"
      "i \<notin> fst ` set (ys @ zs)" "k \<notin> lkey ` snd ` set (ys @ zs)"
    have "\<not> is_expired now2 n" using race p(4) clean(2) by (simp add: is_expired_def not_le)
    moreover have "deref i ?s = Some n" by (rule deref_split [OF p(2,6)])
    moreover have "deref i (?s\<lparr>cache := (i, n) # ys @ zs\<rparr>) = Some n" by (simp add: deref_def)
    ultimately show ?thesis
      using p splice_front_ok [OF clean(1) p(2,6)] clean
      by (auto simp: lru_get_def spec_get_def refines_def)
  qed
qed

lemma lru_get_race:
  assumes wf: "lru_wf s" and n: "lookup k (alive now1 (entries s)) = Some n" "expire_time n \<le> now2"
  shows "lru_get k now1 now2 s = None"
proof -
  let ?s = "clean_expire now1 s"
  note clean = clean_expire_wf [OF wf, of now1]
  show ?thesis
  proof (rule key_cases [OF clean(1), of k])
    assume "key_map ?s k = None" "lookup k (entries ?s) = None"
    then show ?thesis using n clean(2) by simp
  next
    fix i m ys zs
    assume p: "key_map ?s k = Some i" "cache ?s = ys @ (i, m) # zs" "lookup k (entries ?s) = Some m"
      "i \<notin> fst ` set (ys @ zs)"
    have "deref i ?s = Some m" by (rule deref_split [OF p(2,4)])
    moreover have "erase_node i ?s = Some (?s\<lparr>cache := ys @ zs\<rparr>)"
      using calculation erase_split [OF p(4)] by (simp add: erase_node_def p(2))
    moreover have "deref i (?s\<lparr>cache := ys @ zs\<rparr>) = None"
      using p(4) by (auto simp: deref_def map_of_eq_None_iff)
    ultimately show ?thesis using p(1,3) n clean(2) by (simp add: lru_get_def is_expired_def)
  qed
qed

lemma at_capacity_iff:
  assumes "lru_wf s"
  shows "at_capacity s \<longleftrightarrow> length (cache s) = nat (sint (capacity s))"
proof -
  have c: "sint (capacity s) < 2 ^ 31" using sint_lt [of "capacity s"] by simp
  have l: "int (length (cache s)) \<le> sint (capacity s)" "0 < sint (capacity s)"
    using assms by (auto simp: lru_wf_def)
  have "uint (of_nat (length (cache s)) :: size_t) = int (length (cache s))"
    using c l by (simp add: unsigned_of_nat take_bit_int_eq_self flip: take_bit_of_nat)
  moreover have "uint (word_of_int (sint (capacity s)) :: size_t) = sint (capacity s)"
    using c l unfolding uint_word_of_int by simp
  ultimately show ?thesis using l by (auto simp: at_capacity_def word_uint_eq_iff)
qed

lemma index_of_append: "index_of (xs @ ys) = index_of ys ++ index_of xs"
  by (simp add: index_of_def)

lemma evict_ok:
  assumes wf: "lru_wf s" and ne: "cache s \<noteq> []"
  shows "runs (evict s) (\<lambda>s'. refines s (butlast (entries s)) s' \<and> next_id s' = next_id s)"
proof -
  obtain xs i n where xs: "cache s = xs @ [(i, n)]" using ne by (metis append_butlast_last_id surj_pair)
  have "(index_of (xs @ [(i, n)]))(lkey n := None) = index_of xs"
    using wf index_of_None [of xs "lkey n"]
    by (auto simp: xs lru_wf_def entries_def index_of_append fun_eq_iff index_of_def map_add_def
        split: option.splits)
  then show ?thesis using wf
    by (auto simp: evict_def xs refines_def lru_wf_def entries_def butlast_append)
qed

lemma cons_ok:
  assumes wf: "lru_wf s" and k: "key_map s (lkey n) = None"
    and room: "int (length (cache s)) < sint (capacity s)"
  shows "refines s (n # entries s) (s\<lparr>cache := (next_id s, n) # cache s,
    key_map := (key_map s)(lkey n \<mapsto> next_id s), next_id := Suc (next_id s)\<rparr>)"
  using wf k room
  by (auto simp: refines_def lru_wf_def entries_def index_of_Cons index_of_None)

lemma refines_trans: "refines s es s1 \<Longrightarrow> refines s1 fs s2 \<Longrightarrow> refines s fs s2"
  by (simp add: refines_def)

lemma put_new_ok:
  assumes wf: "lru_wf s" and k: "key_map s k = None"
  shows "runs (put_new k v now s) (refines s (make_lru_node k v (ttl s) now #
    (if length (entries s) = nat (sint (capacity s)) then butlast (entries s) else entries s)))"
proof -
  let ?n = "make_lru_node k v (ttl s) now"
  have n: "lkey ?n = k" by (simp add: make_lru_node_def)
  show ?thesis
  proof (cases "at_capacity s")
    case True
    then have l: "length (cache s) = nat (sint (capacity s))" and ne: "cache s \<noteq> []"
      using at_capacity_iff [OF wf] wf by (auto simp: lru_wf_def)
    obtain s1 where s1: "evict s = Some s1" "refines s (butlast (entries s)) s1"
      using evict_ok [OF wf ne] by (auto elim!: runsE)
    have "key_map s1 k = None"
      using s1 k by (auto simp: evict_def ne)
    moreover have "length (cache s1) = length (cache s) - 1"
      using s1(2) by (metis entries_def length_butlast length_map refines_def)
    ultimately have "refines s1 (?n # entries s1) (s1\<lparr>cache := (next_id s1, ?n) # cache s1,
        key_map := (key_map s1)(lkey ?n \<mapsto> next_id s1), next_id := Suc (next_id s1)\<rparr>)"
      using s1(2) l wf n by (intro cons_ok) (auto simp: refines_def lru_wf_def)
    then show ?thesis using True s1 l n refines_trans [OF s1(2)]
      by (auto simp: put_new_def entries_def refines_def Let_def)
  next
    case False
    then have "int (length (cache s)) < sint (capacity s)"
      using at_capacity_iff [OF wf] wf by (auto simp: lru_wf_def)
    then show ?thesis using cons_ok [OF wf, of ?n] k n False at_capacity_iff [OF wf]
      by (simp add: put_new_def entries_def Let_def)
  qed
qed

lemma put_existing_ok:
  assumes wf: "lru_wf s" and xs: "cache s = ys @ (i, n) # zs" "i \<notin> fst ` set (ys @ zs)"
    "lkey n \<notin> lkey ` snd ` set (ys @ zs)"
  shows "runs (put_existing i v now s) (refines s (make_lru_node (lkey n) v (ttl s) now # map snd (ys @ zs)))"
proof -
  have other: "map (\<lambda>(j, m). if j = i then (j, f m) else (j, m)) (ys @ (i, m) # zs) = ys @ (i, f m) # zs" for f m
    using xs(2) by (force intro!: map_idI)
  let ?m = "make_lru_node (lkey n) v (ttl s) now"
  let ?s = "s\<lparr>cache := ys @ (i, ?m) # zs\<rparr>"
  let ?s1 = "s\<lparr>cache := ys @ (i, n\<lparr>lvalue := v\<rparr>) # zs\<rparr>"
  have "assign i (\<lambda>n. n\<lparr>lvalue := v\<rparr>) s = Some ?s1"
    using deref_split [OF xs(1,2)] other by (simp add: assign_def xs(1))
  moreover have "assign i (\<lambda>n. n\<lparr>expire_time := deadline now (ttl s)\<rparr>) ?s1 = Some ?s"
    using deref_split [of ?s1, OF _ xs(2)] other by (simp add: assign_def make_lru_node_def)
  moreover have "lru_wf ?s" using wf xs
    by (auto simp: lru_wf_def entries_def make_lru_node_def index_of_append index_of_Cons)
  moreover have "lkey ?m = lkey n" by (simp add: make_lru_node_def)
  ultimately show ?thesis using splice_front_ok [of ?s ys i ?m zs] xs by (auto simp: put_existing_def refines_def)
qed

lemma refines_clean:
  assumes "lru_wf s" and "runs m (refines (clean_expire now s) es)" and "es = fs"
  shows "\<exists>s'. m = Some s' \<and> refines s fs s'"
  using assms(2,3) clean_expire_wf(3,4) [OF assms(1), of now] by (auto simp: runs_iff refines_def)

lemma lru_put_ok:
  assumes wf: "lru_wf s"
  shows "\<exists>s'. lru_put k v now1 now2 s = Some s' \<and>
    refines s (spec_put (nat (sint (capacity s))) (make_lru_node k v (ttl s) now2) now1 (entries s)) s'"
proof -
  let ?s = "clean_expire now1 s" and ?n = "make_lru_node k v (ttl s) now2"
  note clean = clean_expire_wf [OF wf, of now1]
  have n: "lkey ?n = k" by (simp add: make_lru_node_def)
  show ?thesis
  proof (rule key_cases [OF clean(1), of k])
    assume a: "key_map ?s k = None" "lookup k (entries ?s) = None"
    then show ?thesis using refines_clean [OF wf put_new_ok [OF clean(1) a(1), of v now2] refl]
      unfolding clean by (simp add: lru_put_def spec_put_def Let_def n)
  next
    fix i n ys zs
    assume p: "key_map ?s k = Some i" "cache ?s = ys @ (i, n) # zs" "lkey n = k"
      "lookup k (entries ?s) = Some n" "without k (entries ?s) = map snd (ys @ zs)"
      "i \<notin> fst ` set (ys @ zs)" "k \<notin> lkey ` snd ` set (ys @ zs)"
    have keys: "lkey n \<notin> lkey ` snd ` set (ys @ zs)" using p(3,7) by simp
    show ?thesis using refines_clean [OF wf put_existing_ok [OF clean(1) p(2,6) keys, of v now2] refl] p(3-5)
      by (simp add: lru_put_def p(1) spec_put_def Let_def n clean)
  qed
qed

section \<open>Sequences of calls\<close>

text \<open>Calls with their clock readings; a run collects what its \<open>get\<close> calls return.\<close>

datatype lru_op = GetAt cint int int | PutAt cint cint int int

fun lru_step :: "lru_op \<Rightarrow> lru \<Rightarrow> (cint list \<times> lru) option" where
  "lru_step (GetAt k now1 now2) s = do { (v, s) \<leftarrow> lru_get k now1 now2 s; Some ([v], s) }"
| "lru_step (PutAt k v now1 now2) s = do { s \<leftarrow> lru_put k v now1 now2 s; Some ([], s) }"

fun lru_run :: "lru_op list \<Rightarrow> lru \<Rightarrow> (cint list \<times> lru) option" where
  "lru_run [] s = Some ([], s)"
| "lru_run (op # ops) s = do { (r, s) \<leftarrow> lru_step op s; (rs, s) \<leftarrow> lru_run ops s; Some (r @ rs, s) }"

fun op_key :: "lru_op \<Rightarrow> cint" where
  "op_key (GetAt k now1 now2) = k"
| "op_key (PutAt k v now1 now2) = k"

fun op_now :: "lru_op \<Rightarrow> int" where
  "op_now (GetAt k now1 now2) = now1"
| "op_now (PutAt k v now1 now2) = now1"

text \<open>The same calls on the list of entries. \<open>None\<close> is the race of \<open>get\<close>: its entry is alive at the first and expired at
  the second reading of the clock.\<close>

definition raced :: "cint \<Rightarrow> int \<Rightarrow> int \<Rightarrow> lru_node list \<Rightarrow> bool" where
  "raced k now1 now2 es \<longleftrightarrow> (case lookup k (alive now1 es) of None \<Rightarrow> False | Some n \<Rightarrow> expire_time n \<le> now2)"

fun spec_step :: "nat \<Rightarrow> int \<Rightarrow> lru_op \<Rightarrow> lru_node list \<Rightarrow> (cint list \<times> lru_node list) option" where
  "spec_step cap t (GetAt k now1 now2) es =
     (if raced k now1 now2 es then None else Some ([fst (spec_get k now1 es)], snd (spec_get k now1 es)))"
| "spec_step cap t (PutAt k v now1 now2) es = Some ([], spec_put cap (make_lru_node k v t now2) now1 es)"

fun spec_calls :: "nat \<Rightarrow> int \<Rightarrow> lru_op list \<Rightarrow> lru_node list \<Rightarrow> (cint list \<times> lru_node list) option" where
  "spec_calls cap t [] es = Some ([], es)"
| "spec_calls cap t (op # ops) es = do {
     (r, es) \<leftarrow> spec_step cap t op es;
     (rs, es) \<leftarrow> spec_calls cap t ops es;
     Some (r @ rs, es) }"

definition agrees :: "lru \<Rightarrow> (cint list \<times> lru) option \<Rightarrow> (cint list \<times> lru_node list) option \<Rightarrow> bool" where
  "agrees s x y \<longleftrightarrow> (case y of None \<Rightarrow> x = None | Some (rs, es) \<Rightarrow> \<exists>s'. x = Some (rs, s') \<and> refines s es s')"

lemma lookup_SomeD: "lookup k es = Some n \<Longrightarrow> n \<in> set es \<and> lkey n = k"
  by (induction es) (auto simp: lookup_def split: if_splits)

lemma lru_step_ok:
  assumes "lru_wf s"
  shows "agrees s (lru_step op s) (spec_step (nat (sint (capacity s))) (ttl s) op (entries s))"
proof (cases op)
  case (GetAt k now1 now2)
  show ?thesis
  proof (cases "raced k now1 now2 (entries s)")
    case True
    then obtain n where "lookup k (alive now1 (entries s)) = Some n" "expire_time n \<le> now2"
      by (auto simp: raced_def split: option.splits)
    then show ?thesis using lru_get_race [OF assms] GetAt True by (simp add: agrees_def)
  next
    case False
    then have "now2 < expire_time n" if "lookup k (alive now1 (entries s)) = Some n" for n
      using that by (auto simp: raced_def)
    then show ?thesis using lru_get_ok [OF assms, of k now1 now2] GetAt False by (auto simp: agrees_def)
  qed
next
  case (PutAt k v now1 now2)
  then show ?thesis using lru_put_ok [OF assms, of k v now1 now2] by (auto simp: agrees_def)
qed

lemma lru_run_ok:
  "lru_wf s \<Longrightarrow> agrees s (lru_run ops s) (spec_calls (nat (sint (capacity s))) (ttl s) ops (entries s))"
proof (induction ops arbitrary: s)
  case Nil
  then show ?case by (simp add: agrees_def refines_def)
next
  case (Cons op ops)
  let ?cap = "nat (sint (capacity s))"
  show ?case
  proof (cases "spec_step ?cap (ttl s) op (entries s)")
    case None
    then show ?thesis using lru_step_ok [OF Cons.prems, of op] by (simp add: agrees_def)
  next
    case (Some p)
    obtain r es where p: "p = (r, es)" by (cases p)
    then obtain s1 where s1: "lru_step op s = Some (r, s1)" "refines s es s1"
      using lru_step_ok [OF Cons.prems, of op] Some by (auto simp: agrees_def)
    have "agrees s1 (lru_run ops s1) (spec_calls ?cap (ttl s) ops es)" using Cons.IH [of s1] s1(2) by (simp add: refines_def)
    then show ?thesis using s1 Some p
      by (cases "spec_calls ?cap (ttl s) ops es") (auto simp: agrees_def refines_def)
  qed
qed

text \<open>A node is retained when only nodes with keys in \<open>K\<close> are more recent.\<close>

definition retained :: "cint set \<Rightarrow> lru_node \<Rightarrow> lru_node list \<Rightarrow> bool" where
  "retained K n es \<longleftrightarrow> (\<exists>pre post. es = pre @ n # post \<and> lkey ` set pre \<subseteq> K)"

lemma retained_alive: "retained K n es \<Longrightarrow> now < expire_time n \<Longrightarrow> retained K n (alive now es)"
proof -
  assume "retained K n es" and now: "now < expire_time n"
  then obtain pre post where es: "es = pre @ n # post" "lkey ` set pre \<subseteq> K" by (auto simp: retained_def)
  then have "alive now es = alive now pre @ n # alive now post" "lkey ` set (alive now pre) \<subseteq> K"
    using now by (auto simp: alive_def)
  then show ?thesis unfolding retained_def by blast
qed

lemma retained_front:
  "retained K n es \<Longrightarrow> lkey m \<in> K \<Longrightarrow> lkey n \<noteq> k \<Longrightarrow> retained K n (m # without k es)"
proof -
  assume "retained K n es" and m: "lkey m \<in> K" "lkey n \<noteq> k"
  then obtain pre post where es: "es = pre @ n # post" "lkey ` set pre \<subseteq> K" by (auto simp: retained_def)
  then have "m # without k es = (m # without k pre) @ n # without k post"
      "lkey ` set (m # without k pre) \<subseteq> K"
    using m by (auto simp: without_def)
  then show ?thesis unfolding retained_def by blast
qed

lemma retained_evict:
  assumes r: "retained K n es" and d: "distinct (map lkey es)" and m: "lkey m \<in> K" "lkey m \<notin> lkey ` set es"
    and K: "finite K" "card K < cap"
  shows "retained K n (m # (if length es = cap then butlast es else es))"
proof -
  obtain pre post where es: "es = pre @ n # post" "lkey ` set pre \<subseteq> K" using r by (auto simp: retained_def)
  have "card (set (lkey m # map lkey pre)) = Suc (length pre)"
    using d m(2) by (subst distinct_card) (auto simp: es)
  moreover have "card (set (lkey m # map lkey pre)) \<le> card K"
    using es(2) m(1) K(1) by (intro card_mono) auto
  ultimately have "length es = cap \<Longrightarrow> post \<noteq> []" using K(2) es(1) by auto
  then have "(if length es = cap then butlast es else es) = pre @ n # (if length es = cap then butlast post else post)"
    by (auto simp: es butlast_append)
  then have "m # (if length es = cap then butlast es else es) =
      (m # pre) @ n # (if length es = cap then butlast post else post)" "lkey ` set (m # pre) \<subseteq> K"
    using es(2) m(1) by auto
  then show ?thesis unfolding retained_def by blast
qed

lemma spec_step_retained:
  assumes r: "retained K n es" and d: "distinct (map lkey es)" and j: "op_key op \<in> K" "lkey n \<notin> K"
    and K: "finite K" "card K < cap" and t: "op_now op < expire_time n" and st: "spec_step cap tt op es = Some (rs, es')"
  shows "retained K n es'"
proof (cases op)
  case (GetAt k now1 now2)
  then show ?thesis using retained_alive [OF r, of now1] retained_front [of K n "alive now1 es" _ k] t j st
    by (auto simp: spec_get_def dest: lookup_SomeD split: option.splits if_splits)
next
  case (PutAt k v now1 now2)
  let ?m = "make_lru_node k v tt now2" and ?as = "alive now1 es"
  have m: "lkey ?m = k" "lkey n \<noteq> k" using j PutAt by (auto simp: make_lru_node_def)
  have "retained K n ?as" "distinct (map lkey ?as)"
    using retained_alive [OF r, of now1] d t PutAt by (auto simp: alive_def distinct_map_filter)
  then show ?thesis using PutAt m j K st retained_evict [of K n ?as ?m cap] retained_front [of K n ?as ?m k]
    by (auto simp: spec_put_def Let_def lookup_None)
qed

lemma spec_run_retained:
  assumes "lru_wf s" and "retained K n (entries s)" and "lkey n \<notin> K" and "finite K"
    and "card K < nat (sint (capacity s))"
    and "\<forall>op\<in>set ops. op_key op \<in> K \<and> op_now op < expire_time n"
    and "spec_calls (nat (sint (capacity s))) (ttl s) ops (entries s) = Some (rs, es)"
  shows "retained K n es"
  using assms
proof (induction ops arbitrary: s rs)
  case (Cons op ops)
  let ?cap = "nat (sint (capacity s))"
  obtain r es1 rs1 where st: "spec_step ?cap (ttl s) op (entries s) = Some (r, es1)"
      "spec_calls ?cap (ttl s) ops es1 = Some (rs1, es)"
    using Cons.prems(7) by (auto simp: bind_eq_Some_conv)
  obtain s1 where s1: "refines s es1 s1"
    using lru_step_ok [OF Cons.prems(1), of op] st(1) by (auto simp: agrees_def)
  have "retained K n es1"
    using spec_step_retained [OF Cons.prems(2) _ _ Cons.prems(3-5) _ st(1)] Cons.prems(1,6) by (simp add: lru_wf_def)
  then show ?case using Cons.IH [of s1 rs1] Cons.prems(3-6) s1 st(2) by (simp add: refines_def)
qed simp

lemma lookup_retained: "retained K n es \<Longrightarrow> lkey n \<notin> K \<Longrightarrow> lookup (lkey n) es = Some n"
  by (force simp: retained_def intro!: lookup_split)

lemma retained_put: "retained K n (spec_put cap n now es)"
proof -
  have "retained K n (n # fs)" for fs unfolding retained_def by (rule exI [of _ "[]"]) simp
  then show ?thesis by (simp add: spec_put_def Let_def)
qed


section \<open>The program\<close>

text \<open>\<open>main\<close> (lines 84 to 100); \<open>clock\<close> gives the readings in their order, the sleep comes before the tenth.\<close>

definition lru_main :: "(nat \<Rightarrow> int) \<Rightarrow> cint list option" where
  "lru_main clock = do {
     s \<leftarrow> lru_put 1 1 (clock 0) (clock 1) (lru_new 2 2);
     s \<leftarrow> lru_put 2 2 (clock 2) (clock 3) s;
     (a, s) \<leftarrow> lru_get 1 (clock 4) (clock 5) s;
     s \<leftarrow> lru_put 3 3 (clock 6) (clock 7) s;
     (b, s) \<leftarrow> lru_get 2 (clock 8) (clock 9) s;
     (c, s) \<leftarrow> lru_get 1 (clock 10) (clock 11) s;
     Some [a, b, c] }"

text \<open>As its comments say, the program prints 1, -1 and -1, if what comes before the sleep takes less than the
  two seconds of the time to live.\<close>

theorem lru_main_output:
  assumes mono: "\<And>i j. i \<le> j \<Longrightarrow> clock i \<le> clock j" and fast: "clock 9 < clock 1 + 2000000000"
    and sleep: "clock 9 + 3000000000 \<le> clock 10"
  shows "lru_main clock = Some [1, - 1, - 1]"
proof -
  have t: "clock 1 \<le> clock 2" "clock 2 \<le> clock 3" "clock 3 \<le> clock 4" "clock 4 \<le> clock 5" "clock 5 \<le> clock 6" "clock 6 \<le> clock 7"
      "clock 7 \<le> clock 8" "clock 8 \<le> clock 9" "clock 10 \<le> clock 11" by (rule mono; simp)+
  have e: "clock 2 < clock 1 + 2000000000" "clock 4 < clock 1 + 2000000000" "clock 4 < clock 3 + 2000000000"
      "clock 5 < clock 1 + 2000000000" "clock 6 < clock 1 + 2000000000" "clock 6 < clock 3 + 2000000000"
      "clock 8 < clock 1 + 2000000000" "clock 8 < clock 7 + 2000000000"
      "clock 1 + 2000000000 \<le> clock 10" "clock 7 + 2000000000 \<le> clock 10"
    using t fast sleep by linarith+
  show ?thesis using e
    by (simp add: lru_main_def lru_put_def lru_get_def lru_new_def clean_expire_def put_new_def at_capacity_def evict_def
        make_lru_node_def deadline_def deref_def splice_front_def is_expired_def)
qed

section \<open>Properties\<close>

definition cache21 :: lru where
  "cache21 = \<lparr>ttl = 2, capacity = 2, cache = [(1, \<lparr>lkey = 2, lvalue = 22, expire_time = 200\<rparr>),
     (0, \<lparr>lkey = 1, lvalue = 11, expire_time = 100\<rparr>)], key_map = [1 \<mapsto> 0, 2 \<mapsto> 1], next_id = 2\<rparr>"

lemma cache21_wf: "lru_wf cache21"
  by (auto simp: lru_wf_def cache21_def entries_def index_of_def)

text \<open>C8. On a well-formed cache \<open>get\<close> drops the entries expired at its first clock reading, returns
  the value of the entry of the key or \<open>-1\<close>, and makes that entry the most recent one. It fails in one case: when
  the entry is alive at the first clock reading and expired at the second, the node is erased and then read through
  its dangling iterator.\<close>

theorem lru_get_refines:
  assumes "lru_wf s"
  shows "if \<exists>n. lookup k (alive now1 (entries s)) = Some n \<and> expire_time n \<le> now2 then lru_get k now1 now2 s = None
    else \<exists>s'. lru_get k now1 now2 s = Some (fst (spec_get k now1 (entries s)), s') \<and>
      lru_wf s' \<and> entries s' = snd (spec_get k now1 (entries s))"
proof -
  have "lru_get k now1 now2 s = None" if "\<exists>n. lookup k (alive now1 (entries s)) = Some n \<and> expire_time n \<le> now2"
    using that lru_get_race [OF assms] by blast
  moreover have "\<exists>s'. lru_get k now1 now2 s = Some (fst (spec_get k now1 (entries s)), s') \<and>
      lru_wf s' \<and> entries s' = snd (spec_get k now1 (entries s))"
    if "\<not> (\<exists>n. lookup k (alive now1 (entries s)) = Some n \<and> expire_time n \<le> now2)"
    using that lru_get_ok [OF assms, of k now1 now2] by (auto simp: refines_def not_le)
  ultimately show ?thesis by simp
qed

theorem lru_get_refines_witness:
  "(\<exists>s'. lru_get 1 50 60 cache21 = Some (11, s') \<and> lru_wf s' \<and> map lkey (entries s') = [1, 2]) \<and>
   lru_get 1 99 100 cache21 = None"
  using lru_get_refines [OF cache21_wf, of 1 50 60] lru_get_refines [OF cache21_wf, of 1 99 100]
  by (simp add: cache21_def entries_def alive_def lookup_def spec_get_def without_def) auto

text \<open>C9. On a well-formed cache \<open>put\<close> always returns: it drops expired entries, replaces an existing
  entry or adds a new one in front, and when the cache is full it evicts exactly the least
  recently used entry; the number of entries never exceeds the capacity.\<close>

theorem lru_put_refines:
  assumes "lru_wf s"
  shows "\<exists>s'. lru_put k v now1 now2 s = Some s' \<and> lru_wf s' \<and>
    int (length (entries s')) \<le> sint (capacity s) \<and>
    entries s' = spec_put (nat (sint (capacity s))) (make_lru_node k v (ttl s) now2) now1 (entries s)"
  using lru_put_ok [OF assms, of k v now1 now2] by (auto simp: refines_def lru_wf_def entries_def)

theorem lru_put_refines_witness:
  "\<exists>s'. lru_put 3 33 50 50 cache21 = Some s' \<and> lru_wf s' \<and> map lkey (entries s') = [3, 2]"
  using lru_put_refines [OF cache21_wf, of 3 33 50 50]
  by (simp add: cache21_def entries_def alive_def lookup_def spec_put_def make_lru_node_def) auto

text \<open>C10. Least-recently-used retention: after \<open>put(k, v)\<close>, calls on fewer than \<open>capacity\<close> distinct
  other keys, which all begin before the entry's deadline and none of which is a \<open>get\<close> whose entry expires between its
  two readings of the clock, leave the entry in the cache, and \<open>get(k)\<close> before the deadline returns \<open>v\<close>.\<close>

theorem lru_retention:
  assumes "lru_wf s" and "k \<notin> op_key ` set ops"
    and "int (card (op_key ` set ops)) < sint (capacity s)"
    and "\<forall>op\<in>set ops. op_now op < deadline now2 (ttl s)"
    and "spec_calls (nat (sint (capacity s))) (ttl s) ops
      (spec_put (nat (sint (capacity s))) (make_lru_node k v (ttl s) now2) now1 (entries s)) = Some (rs, es)"
    and "now3 < deadline now2 (ttl s)" and "now4 < deadline now2 (ttl s)"
  shows "\<exists>s1 s2 s3. lru_put k v now1 now2 s = Some s1 \<and> lru_run ops s1 = Some (rs, s2) \<and>
    lru_get k now3 now4 s2 = Some (v, s3)"
proof -
  let ?n = "make_lru_node k v (ttl s) now2" and ?K = "op_key ` set ops"
  have n: "lkey ?n = k" "expire_time ?n = deadline now2 (ttl s)" "lvalue ?n = v"
    by (simp_all add: make_lru_node_def)
  have card: "card ?K < nat (sint (capacity s))" using assms(3) by linarith
  have ops: "\<forall>op\<in>set ops. op_key op \<in> ?K \<and> op_now op < expire_time ?n" using assms(4) n(2) by simp
  obtain s1 where s1: "lru_put k v now1 now2 s = Some s1" "lru_wf s1" "capacity s1 = capacity s" "ttl s1 = ttl s"
      "entries s1 = spec_put (nat (sint (capacity s))) ?n now1 (entries s)"
    using lru_put_ok [OF assms(1), of k v now1 now2] by (auto simp: refines_def)
  have calls: "spec_calls (nat (sint (capacity s1))) (ttl s1) ops (entries s1) = Some (rs, es)" using assms(5) s1 by simp
  obtain s2 where s2: "lru_run ops s1 = Some (rs, s2)" "lru_wf s2" "entries s2 = es"
    using lru_run_ok [OF s1(2), of ops] calls by (auto simp: agrees_def refines_def)
  have ret: "retained ?K ?n es"
    using spec_run_retained [OF s1(2) _ _ _ _ ops calls] retained_put s1(3,5) assms(2) card n(1) by simp
  then have "lookup k (alive now3 (entries s2)) = Some ?n"
    using lookup_retained [OF retained_alive [OF ret]] n assms(2,6) s2(3) by simp
  then have "\<exists>s3. lru_get k now3 now4 s2 = Some (v, s3)"
    using lru_get_ok [OF s2(2), of k now3 now4] n assms(7) by (auto simp: spec_get_def)
  then show ?thesis using s1(1) s2(1) by blast
qed

theorem lru_retention_witness:
  "\<exists>s1 s2 s3. lru_put 7 77 10 11 cache21 = Some s1 \<and> lru_run [GetAt 2 20 21, PutAt 2 5 30 31] s1 = Some ([22], s2) \<and>
    lru_get 7 40 41 s2 = Some (77, s3)"
  by (rule lru_retention [OF cache21_wf])
    (auto simp: cache21_def deadline_def entries_def spec_put_def spec_get_def raced_def alive_def lookup_def without_def make_lru_node_def Let_def)



end
