(* ===== verification/Simple_Slab.thy ===== *)
theory Simple_Slab
  imports Prelude "HOL-Library.Signed_Division"
begin

text \<open>
  The fixed-size block allocator of \<open>KV_Store/simple_slab.c\<close>.

  Memory is a map from addresses to pointer-sized cells: \<open>*(char**)p\<close> reads or writes the cell
  at \<open>p\<close>, which must be 8-aligned and inside memory the program owns; anything else is undefined
  behaviour (\<open>None\<close>). The null pointer is 0. \<open>malloc\<close> is standard library: \<open>init_slab\<close> takes the
  address it returned (0 for failure) and owns \<open>KV_PAGE_SIZE\<close> fresh bytes from there. \<open>int\<close>
  fields are integers whose arithmetic is undefined when it leaves the 32-bit range.

  The free list is threaded through the free blocks. It ends not at a null link but at the end
  marker behind the last block, which \<open>free_count\<close> keeps from being handed out.
\<close>

section \<open>The allocator\<close>

type_synonym mem = "addr \<rightharpoonup> addr"

definition KV_PAGE_SIZE :: nat where
  "KV_PAGE_SIZE = 4096"

record slab_t =
  block_size :: int
  free_count :: int
  first_free :: addr
  slab_mem :: addr

definition read_ptr :: "addr \<Rightarrow> mem \<Rightarrow> addr option" where
  "read_ptr p m = (if p mod 8 = 0 then m p else None)"

definition write_ptr :: "addr \<Rightarrow> addr \<Rightarrow> mem \<Rightarrow> mem option" where
  "write_ptr p v m = (if p mod 8 = 0 \<and> m p \<noteq> None then Some (m(p \<mapsto> v)) else None)"

text \<open>The memory after \<open>malloc(size)\<close> returned \<open>a\<close>: its cells hold arbitrary values \<open>junk\<close>.\<close>

definition fresh_cells :: "addr \<Rightarrow> nat \<Rightarrow> (addr \<Rightarrow> addr) \<Rightarrow> mem \<Rightarrow> mem" where
  "fresh_cells a n junk m = (\<lambda>p. if a \<le> p \<and> p + 8 \<le> a + n then Some (junk p) else m p)"

definition check_int :: "int \<Rightarrow> int option" where
  "check_int i = (if - (2 ^ 31) \<le> i \<and> i < 2 ^ 31 then Some i else None)"

text \<open>Pointer arithmetic \<open>ptr + block_size\<close>; a negative result is not an address.\<close>

definition ptr_add :: "addr \<Rightarrow> int \<Rightarrow> addr option" where
  "ptr_add p d = (if 0 \<le> int p + d then Some (nat (int p + d)) else None)"

text \<open>The \<open>for\<close> loop of \<open>init_slab\<close> with \<open>i\<close> iterations to go.\<close>

fun init_links :: "nat \<Rightarrow> int \<Rightarrow> addr \<Rightarrow> mem \<Rightarrow> (addr \<times> mem) option" where
  "init_links 0 bs p m = Some (p, m)"
| "init_links (Suc i) bs p m = do {
     q \<leftarrow> ptr_add p bs;
     m \<leftarrow> write_ptr p q m;
     init_links i bs q m }"

definition init_slab :: "slab_t option \<Rightarrow> int \<Rightarrow> addr \<Rightarrow> (addr \<Rightarrow> addr) \<Rightarrow> mem \<Rightarrow>
    (int \<times> slab_t option \<times> mem) option" where
  "init_slab sp bs malloced junk m =
     (case sp of None \<Rightarrow> Some (- 1, None, m)
      | Some s \<Rightarrow>
          if bs = 0 then None
          else do {
            let s = s\<lparr>block_size := bs\<rparr>;
            let s = s\<lparr>free_count := int KV_PAGE_SIZE sdiv bs\<rparr>;
            let s = s\<lparr>first_free := malloced\<rparr>;
            (if malloced = 0 then Some (- 1, Some s, m)
             else do {
               let m = fresh_cells malloced KV_PAGE_SIZE junk m;
               let s = s\<lparr>slab_mem := first_free s\<rparr>;
               (p, m) \<leftarrow> init_links (nat (free_count s)) bs (first_free s) m;
               m \<leftarrow> write_ptr p 0 m;
               Some (0, Some s, m) }) })"

definition alloc_slab :: "slab_t option \<Rightarrow> mem \<Rightarrow> (addr \<times> slab_t option) option" where
  "alloc_slab sp m =
     (case sp of None \<Rightarrow> Some (0, None)
      | Some s \<Rightarrow>
          if free_count s = 0 then Some (0, Some s)
          else do {
            let ptr = first_free s;
            q \<leftarrow> read_ptr ptr m;
            n \<leftarrow> check_int (free_count s - 1);
            Some (ptr, Some (s\<lparr>first_free := q, free_count := n\<rparr>)) })"

definition free_slab :: "slab_t option \<Rightarrow> addr \<Rightarrow> mem \<Rightarrow> (slab_t option \<times> mem) option" where
  "free_slab sp ptr m =
     (case sp of None \<Rightarrow> None
      | Some s \<Rightarrow> do {
          m \<leftarrow> write_ptr ptr (first_free s) m;
          n \<leftarrow> check_int (free_count s + 1);
          Some (Some (s\<lparr>first_free := ptr, free_count := n\<rparr>), m) })"

text \<open>\<open>delete_slab\<close> frees the page: its cells are gone.\<close>

definition delete_slab :: "slab_t option \<Rightarrow> mem \<Rightarrow> mem" where
  "delete_slab sp m =
     (case sp of None \<Rightarrow> m
      | Some s \<Rightarrow> (\<lambda>p. if slab_mem s \<le> p \<and> p + 8 \<le> slab_mem s + KV_PAGE_SIZE then None else m p))"

section \<open>Block pools\<close>

text \<open>The contract of a pool of blocks: \<open>pool s free used\<close> says which blocks are free, most
  recently freed first, and which are in use.\<close>

fun alloc_n :: "('s \<Rightarrow> (addr \<times> 's) option) \<Rightarrow> nat \<Rightarrow> 's \<Rightarrow> (addr list \<times> 's) option" where
  "alloc_n alloc 0 s = Some ([], s)"
| "alloc_n alloc (Suc n) s = do {
     (p, s) \<leftarrow> alloc s;
     (ps, s) \<leftarrow> alloc_n alloc n s;
     Some (p # ps, s) }"

text \<open>The calls of a client, which may also store into the blocks it holds. A run returns the pointers of its
  allocations, null included.\<close>

datatype pool_op = Alloc | Free addr | Store addr addr

fun pool_run :: "('s \<Rightarrow> (addr \<times> 's) option) \<Rightarrow> (addr \<Rightarrow> 's \<Rightarrow> 's option) \<Rightarrow> (addr \<Rightarrow> addr \<Rightarrow> 's \<Rightarrow> 's option) \<Rightarrow>
    pool_op list \<Rightarrow> 's \<Rightarrow> (addr list \<times> 's) option" where
  "pool_run alloc free store [] s = Some ([], s)"
| "pool_run alloc free store (Alloc # ops) s = do {
     (p, s) \<leftarrow> alloc s;
     (ps, s) \<leftarrow> pool_run alloc free store ops s;
     Some (p # ps, s) }"
| "pool_run alloc free store (Free b # ops) s = do { s \<leftarrow> free b s; pool_run alloc free store ops s }"
| "pool_run alloc free store (Store q v # ops) s = do { s \<leftarrow> store q v s; pool_run alloc free store ops s }"

text \<open>The same calls on the list of free blocks, the set of blocks in use and the data stored in them; a free of a block that
  is not in use, and a store outside the blocks in use, have no meaning.\<close>

definition cell :: "nat \<Rightarrow> addr \<Rightarrow> addr \<Rightarrow> bool" where
  "cell bs b q \<longleftrightarrow> q mod 8 = 0 \<and> b \<le> q \<and> q + 8 \<le> b + bs"

type_synonym pool_spec = "addr list \<times> addr set \<times> (addr \<rightharpoonup> addr)"

fun spec_run :: "nat \<Rightarrow> pool_op list \<Rightarrow> pool_spec \<Rightarrow> (addr list \<times> pool_spec) option" where
  "spec_run bs [] (fs, us, d) = Some ([], fs, us, d)"
| "spec_run bs (Alloc # ops) ([], us, d) = map_option (\<lambda>(ps, x). (0 # ps, x)) (spec_run bs ops ([], us, d))"
| "spec_run bs (Alloc # ops) (b # fs, us, d) = map_option (\<lambda>(ps, x). (b # ps, x)) (spec_run bs ops (fs, insert b us, d))"
| "spec_run bs (Free b # ops) (fs, us, d) =
     (if b \<in> us then spec_run bs ops (b # fs, us - {b}, \<lambda>q. if cell bs b q then None else d q) else None)"
| "spec_run bs (Store q v # ops) (fs, us, d) =
     (if \<exists>b\<in>us. cell bs b q then spec_run bs ops (fs, us, d(q \<mapsto> v)) else None)"

text \<open>The data of the client is in memory, inside its blocks.\<close>

definition holds_data :: "nat \<Rightarrow> mem \<Rightarrow> addr set \<Rightarrow> (addr \<rightharpoonup> addr) \<Rightarrow> bool" where
  "holds_data bs m us d \<longleftrightarrow> (\<forall>q v. d q = Some v \<longrightarrow> m q = Some v \<and> (\<exists>b\<in>us. cell bs b q))"

lemma spec_run_conserves:
  "spec_run bs ops (fs, us, d) = Some (ps, fs', us', d') \<Longrightarrow> set fs' \<union> us' = set fs \<union> us"
  by (induction bs ops "(fs, us, d)" arbitrary: fs us d ps rule: spec_run.induct) (auto split: if_splits)

locale block_pool =
  fixes alloc :: "'s \<Rightarrow> (addr \<times> 's) option"
    and free :: "addr \<Rightarrow> 's \<Rightarrow> 's option"
    and pool :: "'s \<Rightarrow> addr list \<Rightarrow> addr set \<Rightarrow> bool"
  assumes pool_disjoint: "pool s fs us \<Longrightarrow> distinct fs \<and> set fs \<inter> us = {} \<and> finite us \<and> 0 \<notin> set fs \<union> us"
    and alloc_none: "pool s [] us \<Longrightarrow> alloc s = Some (0, s)"
    and alloc_some: "pool s (b # fs) us \<Longrightarrow> runs (alloc s) (\<lambda>(p, s'). p = b \<and> pool s' fs (insert b us))"
    and free_used: "pool s fs us \<Longrightarrow> b \<in> us \<Longrightarrow> runs (free b s) (\<lambda>s'. pool s' (b # fs) (us - {b}))"
begin

lemma free_alloc:
  assumes "pool s fs us" and "b \<in> us"
  shows "runs (free b s) (\<lambda>s'. runs (alloc s') (\<lambda>(p, s''). p = b \<and> pool s'' fs us))"
  using free_used [OF assms] assms(2) by (auto elim!: runs_mono dest!: alloc_some simp: insert_absorb)

lemma alloc_n_pool:
  "pool s fs us \<Longrightarrow> n \<le> length fs \<Longrightarrow>
   runs (alloc_n alloc n s) (\<lambda>(ps, s'). ps = take n fs \<and> pool s' (drop n fs) (us \<union> set (take n fs)))"
proof (induction n arbitrary: s fs us)
  case (Suc n)
  then obtain b fs' where fs: "fs = b # fs'" by (cases fs) auto
  then obtain s1 where s1: "alloc s = Some (b, s1)" "pool s1 fs' (insert b us)"
    using alloc_some Suc.prems(1) by (fastforce elim!: runsE)
  then show ?case using Suc.IH [OF s1(2)] Suc.prems(2) by (auto simp: fs elim!: runsE)
qed simp

lemma alloc_exhausts:
  assumes "pool s fs us"
  shows "runs (alloc_n alloc (length fs) s) (\<lambda>(ps, s'). ps = fs \<and> alloc s' = Some (0, s'))"
  using alloc_n_pool [OF assms, of "length fs"] by (auto elim!: runs_mono dest: alloc_none)

end

text \<open>A pool in memory: \<open>load\<close> reads a cell, a store changes one cell of a block in use, an allocation no cell, and a free
  at most the first one of its block.\<close>

locale client_pool = block_pool +
  fixes bs :: nat
    and store :: "addr \<Rightarrow> addr \<Rightarrow> 'a \<Rightarrow> 'a option"
    and load :: "'a \<Rightarrow> addr \<rightharpoonup> addr"
  assumes store_used: "pool s fs us \<Longrightarrow> b \<in> us \<Longrightarrow> cell bs b q \<Longrightarrow>
      runs (store q v s) (\<lambda>s'. pool s' fs us \<and> load s' = (load s)(q \<mapsto> v))"
    and alloc_load: "pool s fs us \<Longrightarrow> alloc s = Some (p, s') \<Longrightarrow> load s' = load s"
    and free_load: "pool s fs us \<Longrightarrow> b \<in> us \<Longrightarrow> free b s = Some s' \<Longrightarrow> \<not> cell bs b q \<Longrightarrow> load s' q = load s q"
begin

lemma run_pool:
  "pool s fs us \<Longrightarrow> holds_data bs (load s) us d \<Longrightarrow> spec_run bs ops (fs, us, d) = Some (ps, fs', us', d') \<Longrightarrow>
   runs (pool_run alloc free store ops s) (\<lambda>(rs, s'). rs = ps \<and> pool s' fs' us' \<and> holds_data bs (load s') us' d')"
proof (induction ops arbitrary: s fs us d ps)
  case (Cons op ops)
  note pool = Cons.prems(1) and data = Cons.prems(2)
  show ?case
  proof (cases op)
    case Alloc
    obtain r fs1 us1 s1 where s1: "alloc s = Some (r, s1)" "pool s1 fs1 us1" "us \<subseteq> us1"
      and run: "map_option (\<lambda>(ps, x). (r # ps, x)) (spec_run bs ops (fs1, us1, d)) = Some (ps, fs', us', d')"
    proof (cases fs)
      case Nil
      then show ?thesis using that [of 0 s "[]" us] alloc_none [of s us] pool Cons.prems(3) by (simp add: Alloc)
    next
      case (Cons b gs)
      then obtain s1 where "alloc s = Some (b, s1)" "pool s1 gs (insert b us)" using alloc_some [of s b gs us] pool by (auto elim!: runsE)
      then show ?thesis using that [of b s1 gs "insert b us"] Cons.prems(3) Cons \<open>spec_run bs (op # ops) _ = _\<close> by (auto simp: Alloc)
    qed
    have "holds_data bs (load s1) us1 d" using data alloc_load [OF pool s1(1)] s1(3) unfolding holds_data_def by (metis subsetD)
    note data1 = this
    obtain ps1 where ps1: "spec_run bs ops (fs1, us1, d) = Some (ps1, fs', us', d')" "ps = r # ps1" using run by auto
    show ?thesis
    proof (rule runsE [OF Cons.IH [OF s1(2) data1 ps1(1)]])
      fix x assume "pool_run alloc free store ops s1 = Some x" "case x of (rs, s') \<Rightarrow> rs = ps1 \<and> pool s' fs' us' \<and> holds_data bs (load s') us' d'"
      then show ?thesis using s1(1) ps1(2) by (cases x) (simp add: Alloc)
    qed
  next
    case (Free b)
    then have b: "b \<in> us" and run: "spec_run bs ops (b # fs, us - {b}, \<lambda>q. if cell bs b q then None else d q) = Some (ps, fs', us', d')"
      using Cons.prems(3) by (auto split: if_splits)
    obtain s1 where s1: "free b s = Some s1" "pool s1 (b # fs) (us - {b})" using free_used [OF pool b] by (auto elim!: runsE)
    have "holds_data bs (load s1) (us - {b}) (\<lambda>q. if cell bs b q then None else d q)"
      using data free_load [OF pool b s1(1)] by (simp add: holds_data_def) (metis Diff_iff singletonD)
    then show ?thesis using Cons.IH [OF s1(2)] run s1(1) by (simp add: Free)
  next
    case (Store q v)
    then obtain b where b: "b \<in> us" "cell bs b q" and run: "spec_run bs ops (fs, us, d(q \<mapsto> v)) = Some (ps, fs', us', d')"
      using Cons.prems(3) by (auto split: if_splits)
    obtain s1 where s1: "store q v s = Some s1" "pool s1 fs us" "load s1 = (load s)(q \<mapsto> v)"
      using store_used [OF pool b] by (auto elim!: runsE)
    have "holds_data bs (load s1) us (d(q \<mapsto> v))" using data b s1(3) by (auto simp: holds_data_def)
    then show ?thesis using Cons.IH [OF s1(2)] run s1(1) by (simp add: Store)
  qed
qed simp

end

section \<open>The slab is a block pool\<close>

fun chain :: "mem \<Rightarrow> addr \<Rightarrow> addr list \<Rightarrow> addr \<Rightarrow> bool" where
  "chain m p [] e \<longleftrightarrow> p = e"
| "chain m p (b # bs) e \<longleftrightarrow> p = b \<and> (\<exists>q. m b = Some q \<and> chain m q bs e)"

lemma chain_upd [simp]: "b \<notin> set bs \<Longrightarrow> chain (m(b := v)) p bs e = chain m p bs e"
  by (induction m p bs e rule: chain.induct) auto

definition blocks :: "slab_t \<Rightarrow> addr list" where
  "blocks s = map (\<lambda>i. slab_mem s + i * nat (block_size s)) [0..<KV_PAGE_SIZE div nat (block_size s)]"

definition slab_ok :: "slab_t \<Rightarrow> mem \<Rightarrow> bool" where
  "slab_ok s m \<longleftrightarrow> 8 \<le> block_size s \<and> nat (block_size s) mod 8 = 0 \<and> slab_mem s mod 8 = 0 \<and>
     0 < slab_mem s \<and> (\<forall>b\<in>set (blocks s). m b \<noteq> None) \<and>
     (\<forall>q. slab_mem s \<le> q \<and> q + 8 \<le> slab_mem s + KV_PAGE_SIZE \<longrightarrow> m q \<noteq> None)"

definition slab_pool :: "slab_t option \<times> mem \<Rightarrow> addr list \<Rightarrow> addr set \<Rightarrow> bool" where
  "slab_pool = (\<lambda>(sp, m) fs us. \<exists>s. sp = Some s \<and> slab_ok s m \<and> distinct fs \<and> set fs \<inter> us = {} \<and>
     set fs \<union> us = set (blocks s) \<and> free_count s = int (length fs) \<and>
     chain m (first_free s) fs (slab_mem s + KV_PAGE_SIZE div nat (block_size s) * nat (block_size s)))"

abbreviation slab_alloc :: "slab_t option \<times> mem \<Rightarrow> (addr \<times> slab_t option \<times> mem) option" where
  "slab_alloc \<equiv> \<lambda>(sp, m). map_option (\<lambda>(p, sp'). (p, sp', m)) (alloc_slab sp m)"

abbreviation slab_store :: "addr \<Rightarrow> addr \<Rightarrow> slab_t option \<times> mem \<Rightarrow> (slab_t option \<times> mem) option" where
  "slab_store q v \<equiv> \<lambda>(sp, m). map_option (\<lambda>m. (sp, m)) (write_ptr q v m)"

abbreviation slab_free :: "addr \<Rightarrow> slab_t option \<times> mem \<Rightarrow> (slab_t option \<times> mem) option" where
  "slab_free b \<equiv> \<lambda>(sp, m). free_slab sp b m"

lemma blocks_upd [simp]: "blocks (s\<lparr>first_free := p, free_count := n\<rparr>) = blocks s"
  by (simp add: blocks_def)

lemma slab_ok_block: "slab_ok s m \<Longrightarrow> b \<in> set (blocks s) \<Longrightarrow> b mod 8 = 0 \<and> 0 < b"
  by (auto simp: slab_ok_def blocks_def mod_add_eq [symmetric] mod_mult_right_eq [symmetric])

lemma length_blocks: "length (blocks s) \<le> 4096"
  by (simp add: blocks_def KV_PAGE_SIZE_def)

lemma length_free:
  assumes "distinct fs" and "set fs \<subseteq> set (blocks s)"
  shows "length fs \<le> 4096"
proof -
  have "length fs = card (set fs)" using assms(1) by (simp add: distinct_card)
  also have "\<dots> \<le> card (set (blocks s))" using assms(2) by (simp add: card_mono)
  also have "\<dots> \<le> 4096" using card_length [of "blocks s"] length_blocks [of s] by linarith
  finally show ?thesis .
qed

lemma slab_alloc_some:
  assumes "slab_pool (sp, m) (b # fs) us"
  shows "runs (slab_alloc (sp, m)) (\<lambda>(p, sp', m'). p = b \<and> m' = m \<and> slab_pool (sp', m') fs (insert b us))"
proof -
  obtain s where s: "sp = Some s" "slab_ok s m" "set (b # fs) \<union> us = set (blocks s)"
      "free_count s = int (length (b # fs))" "first_free s = b" "distinct (b # fs)" "set (b # fs) \<inter> us = {}"
    and c: "chain m b (b # fs) (slab_mem s + KV_PAGE_SIZE div nat (block_size s) * nat (block_size s))"
    using assms by (auto simp: slab_pool_def)
  obtain q where q: "m b = Some q" "chain m q fs (slab_mem s + KV_PAGE_SIZE div nat (block_size s) * nat (block_size s))"
    using c by auto
  have "length (b # fs) \<le> 4096" using length_free [of "b # fs" s] s(3,6) by blast
  then have "check_int (free_count s - 1) = Some (int (length fs))"
    using s(4) by (simp add: check_int_def)
  moreover have "read_ptr b m = Some q" using slab_ok_block [OF s(2), of b] s(3) q by (auto simp: read_ptr_def)
  ultimately show ?thesis using s q by (auto simp: alloc_slab_def slab_pool_def slab_ok_def)
qed

lemma slab_free_used:
  assumes "slab_pool (sp, m) fs us" and "b \<in> us"
  shows "runs (slab_free b (sp, m)) (\<lambda>st. slab_pool st (b # fs) (us - {b}))"
proof -
  obtain s where s: "sp = Some s" "slab_ok s m" "set fs \<union> us = set (blocks s)"
      "free_count s = int (length fs)" "distinct fs" "set fs \<inter> us = {}"
    and c: "chain m (first_free s) fs (slab_mem s + KV_PAGE_SIZE div nat (block_size s) * nat (block_size s))"
    using assms(1) by (auto simp: slab_pool_def)
  have b: "b \<in> set (blocks s)" "b \<notin> set fs" using s assms(2) by auto
  have "write_ptr b (first_free s) m = Some (m(b \<mapsto> first_free s))"
    using slab_ok_block [OF s(2) b(1)] s(2) b(1) by (auto simp: write_ptr_def slab_ok_def)
  moreover have "length fs \<le> 4096" using length_free [of fs s] s(3,5) by blast
  then have "check_int (free_count s + 1) = Some (int (length (b # fs)))"
    using s(4) by (simp add: check_int_def)
  ultimately show ?thesis using s c b by (auto simp: free_slab_def slab_pool_def slab_ok_def)
qed

definition slab_bs :: "slab_t option \<times> mem \<Rightarrow> nat" where
  "slab_bs st = (case fst st of None \<Rightarrow> 0 | Some s \<Rightarrow> nat (block_size s))"

text \<open>Cells of one block: no other block starts inside it.\<close>

lemma block_apart:
  assumes "b \<in> set (blocks s)" and "c \<in> set (blocks s)" and "b \<noteq> c" and "b \<le> q" and "q < b + nat (block_size s)"
  shows "q \<noteq> c"
proof
  let ?bs = "nat (block_size s)"
  assume "q = c"
  obtain i j where ij: "b = slab_mem s + i * ?bs" "c = slab_mem s + j * ?bs"
    using assms(1,2) by (auto simp: blocks_def)
  then have "i * ?bs \<le> j * ?bs" "j * ?bs < Suc i * ?bs" using assms(4,5) \<open>q = c\<close> by auto
  then have "i \<le> j" "j < Suc i" by (auto simp del: mult_Suc)
  then show False using ij assms(3) by simp
qed

lemma page_cell:
  assumes "slab_ok s m" and "b \<in> set (blocks s)" and "cell (nat (block_size s)) b q"
  shows "m q \<noteq> None"
proof -
  obtain i where i: "b = slab_mem s + i * nat (block_size s)" "i < KV_PAGE_SIZE div nat (block_size s)"
    using assms(2) unfolding blocks_def by fastforce
  have "Suc i * nat (block_size s) \<le> KV_PAGE_SIZE div nat (block_size s) * nat (block_size s)"
    using i(2) by (intro mult_right_mono) auto
  also have "\<dots> \<le> KV_PAGE_SIZE" by simp
  finally show ?thesis using assms(1,3) i(1) by (auto simp: slab_ok_def cell_def)
qed

lemma slab_store_used:
  assumes "slab_pool st fs us" and "b \<in> us" and "cell (slab_bs st) b q"
  shows "runs (slab_store q v st) (\<lambda>st'. slab_pool st' fs us \<and> slab_bs st' = slab_bs st \<and> snd st' = (snd st)(q \<mapsto> v))"
proof -
  obtain s m where st: "st = (Some s, m)" "slab_ok s m" "set fs \<union> us = set (blocks s)" "set fs \<inter> us = {}"
    using assms(1) by (cases st) (auto simp: slab_pool_def)
  have b: "b \<in> set (blocks s)" using st(3) assms(2) by auto
  have c: "cell (nat (block_size s)) b q" using assms(3) by (simp add: st(1) slab_bs_def)
  then have "write_ptr q v m = Some (m(q \<mapsto> v))" using page_cell [OF st(2) b] by (auto simp: write_ptr_def cell_def)
  moreover have "q \<notin> set fs" using block_apart [OF b, of _ q] c st(3,4) assms(2) by (auto simp: cell_def)
  then have "slab_pool (Some s, m(q \<mapsto> v)) fs us" using assms(1) by (auto simp: st(1) slab_pool_def slab_ok_def)
  ultimately show ?thesis by (simp add: st(1) slab_bs_def)
qed

lemma slab_free_load:
  assumes "slab_pool st fs us" and "slab_free b st = Some st'"
  shows "slab_bs st' = slab_bs st" and "q \<noteq> b \<Longrightarrow> snd st' q = snd st q"
  using assms by (cases st; auto simp: slab_pool_def free_slab_def bind_eq_Some_conv write_ptr_def slab_bs_def split: if_splits)+

lemma slab_alloc_load:
  assumes "slab_alloc st = Some (p, st')"
  shows "slab_bs st' = slab_bs st" and "snd st' = snd st"
  using assms by (cases st; auto simp: alloc_slab_def bind_eq_Some_conv slab_bs_def Let_def split: option.splits if_splits)+

interpretation slab: client_pool slab_alloc slab_free "\<lambda>st fs us. slab_pool st fs us \<and> slab_bs st = bs" bs slab_store snd for bs
proof
  fix st st' :: "slab_t option \<times> mem" and fs us b c q v p
  obtain sp m where st: "st = (sp, m)" by (cases st)
  show "slab_pool st fs us \<and> slab_bs st = bs \<Longrightarrow> distinct fs \<and> set fs \<inter> us = {} \<and> finite us \<and> 0 \<notin> set fs \<union> us"
    using slab_ok_block by (auto simp: slab_pool_def st) (metis finite_Un finite_set, blast+)
  show "slab_pool st [] us \<and> slab_bs st = bs \<Longrightarrow> slab_alloc st = Some (0, st)"
    by (auto simp: slab_pool_def st alloc_slab_def)
  show "slab_pool st (b # fs) us \<and> slab_bs st = bs \<Longrightarrow>
      runs (slab_alloc st) (\<lambda>(p, s'). p = b \<and> slab_pool s' fs (insert b us) \<and> slab_bs s' = bs)"
    using slab_alloc_some [of sp m b fs us] slab_alloc_load(1) [of st] by (fastforce simp: st elim!: runsE)
  show "slab_pool st fs us \<and> slab_bs st = bs \<Longrightarrow> b \<in> us \<Longrightarrow>
      runs (slab_free b st) (\<lambda>s'. slab_pool s' (b # fs) (us - {b}) \<and> slab_bs s' = bs)"
    using slab_free_used [of sp m fs us b] slab_free_load(1) [of st fs us b] by (fastforce simp: st elim!: runsE)
  show "slab_pool st fs us \<and> slab_bs st = bs \<Longrightarrow> b \<in> us \<Longrightarrow> cell bs b q \<Longrightarrow>
      runs (slab_store q v st) (\<lambda>s'. (slab_pool s' fs us \<and> slab_bs s' = bs) \<and> snd s' = (snd st)(q \<mapsto> v))"
    using slab_store_used [of st fs us b q v] by (auto elim!: runsE)
  show "slab_pool st fs us \<and> slab_bs st = bs \<Longrightarrow> slab_alloc st = Some (p, st') \<Longrightarrow> snd st' = snd st"
    using slab_alloc_load(2) by blast
  show "slab_pool st fs us \<and> slab_bs st = bs \<Longrightarrow> b \<in> us \<Longrightarrow> slab_free b st = Some st' \<Longrightarrow> \<not> cell bs b q \<Longrightarrow> snd st' q = snd st q"
  proof -
    assume a: "slab_pool st fs us \<and> slab_bs st = bs" "b \<in> us" "slab_free b st = Some st'" "\<not> cell bs b q"
    obtain s where s: "sp = Some s" "slab_ok s m" "set fs \<union> us = set (blocks s)" using a(1) by (auto simp: slab_pool_def st)
    have "cell bs b b" using slab_ok_block [OF s(2), of b] s a(1,2) by (auto simp: cell_def slab_ok_def slab_bs_def st)
    then have "q \<noteq> b" using a(4) by blast
    then show ?thesis using slab_free_load(2) [OF _ a(3)] a(1) by blast
  qed
qed

section \<open>Initialisation\<close>

lemma init_links_ok:
  assumes "\<forall>i\<le>n. (p + i * bs) mod 8 = 0" and "\<forall>i<n. m (p + i * bs) \<noteq> None" and "0 < bs"
  shows "\<exists>m'. init_links n (int bs) p m = Some (p + n * bs, m') \<and> dom m' = dom m \<and>
    chain m' p (map (\<lambda>i. p + i * bs) [0..<n]) (p + n * bs) \<and> (\<forall>a<p. m' a = m a)"
  using assms
proof (induction n arbitrary: p m)
  case (Suc n)
  have w: "write_ptr p (p + bs) m = Some (m(p \<mapsto> p + bs))"
    using Suc.prems(1,2) by (auto simp: write_ptr_def dest: spec [of _ 0])
  have a: "ptr_add p (int bs) = Some (p + bs)" by (simp add: ptr_add_def nat_int_add)
  have e: "p + bs + i * bs = p + Suc i * bs" for i by simp
  have "\<forall>i\<le>n. (p + bs + i * bs) mod 8 = 0" unfolding e using Suc.prems(1) by auto
  moreover have "\<forall>i<n. (m(p \<mapsto> p + bs)) (p + bs + i * bs) \<noteq> None"
    unfolding e using Suc.prems(2) by (metis Suc_mono fun_upd_other option.discI fun_upd_apply)
  ultimately obtain m' where m': "init_links n (int bs) (p + bs) (m(p \<mapsto> p + bs)) = Some (p + bs + n * bs, m')"
      "dom m' = dom (m(p \<mapsto> p + bs))"
      "chain m' (p + bs) (map (\<lambda>i. p + bs + i * bs) [0..<n]) (p + bs + n * bs)"
      "\<forall>a<p + bs. m' a = (m(p \<mapsto> p + bs)) a"
    using Suc.IH [of "p + bs" "m(p \<mapsto> p + bs)"] Suc.prems(3) by blast
  have l: "map (\<lambda>i. p + i * bs) [0..<Suc n] = p # map (\<lambda>i. p + bs + i * bs) [0..<n]"
    by (simp only: upt_conv_Cons [OF zero_less_Suc] map_Suc_upt [symmetric]) (simp add: o_def e)
  have "m' p = Some (p + bs)" "p \<in> dom m" using m'(4) Suc.prems(2,3) by (auto dest: spec [of _ 0])
  then show ?case using m' w a l Suc.prems(3) by (auto simp: add.assoc)
qed simp

lemma free_count_div: "0 < bs \<Longrightarrow> int KV_PAGE_SIZE sdiv int bs = int (KV_PAGE_SIZE div bs)"
  by (simp add: signed_divide_int_def KV_PAGE_SIZE_def zdiv_int)

lemma page_offset:
  assumes "i < KV_PAGE_SIZE div bs" and "8 \<le> bs"
  shows "i * bs + 8 \<le> KV_PAGE_SIZE"
proof -
  have "Suc i * bs \<le> KV_PAGE_SIZE div bs * bs" using assms(1) by (intro mult_right_mono) auto
  also have "\<dots> \<le> KV_PAGE_SIZE" by simp
  finally show ?thesis using assms(2) by simp
qed

text \<open>The links of a fresh page, up to and including the end marker's address.\<close>

lemma fresh_links:
  assumes bs: "8 \<le> bs" "bs mod 8 = 0" and a: "a mod 8 = 0"
  obtains m' where "init_links (KV_PAGE_SIZE div bs) (int bs) a (fresh_cells a KV_PAGE_SIZE junk m) =
      Some (a + KV_PAGE_SIZE div bs * bs, m')"
    and "dom m' = dom (fresh_cells a KV_PAGE_SIZE junk m)"
    and "chain m' a (map (\<lambda>i. a + i * bs) [0..<KV_PAGE_SIZE div bs]) (a + KV_PAGE_SIZE div bs * bs)"
proof -
  have "(a + i * bs) mod 8 = 0" for i
    using bs(2) a by (simp add: mod_add_eq [symmetric] mod_mult_right_eq [symmetric])
  moreover have "fresh_cells a KV_PAGE_SIZE junk m (a + i * bs) \<noteq> None" if "i < KV_PAGE_SIZE div bs" for i
    using page_offset [OF that bs(1)] by (simp add: fresh_cells_def)
  ultimately show ?thesis
    using init_links_ok [of "KV_PAGE_SIZE div bs" a bs "fresh_cells a KV_PAGE_SIZE junk m"] bs(1) that by auto
qed

lemma end_marker_inside:
  assumes "8 \<le> bs" and "bs mod 8 = 0" and "KV_PAGE_SIZE mod bs \<noteq> 0"
  shows "KV_PAGE_SIZE div bs * bs + 8 \<le> KV_PAGE_SIZE"
proof -
  have "8 dvd KV_PAGE_SIZE mod bs"
    using assms(2) by (simp add: KV_PAGE_SIZE_def dvd_mod_iff mod_eq_0_iff_dvd)
  then have "8 \<le> KV_PAGE_SIZE mod bs" using assms(3) by (auto dest: dvd_imp_le)
  then show ?thesis using div_mult_mod_eq [of KV_PAGE_SIZE bs] by linarith
qed

lemma init_slab_divides:
  assumes bs: "8 \<le> bs" "bs mod 8 = 0" "KV_PAGE_SIZE mod bs = 0" and a: "a mod 8 = 0" "0 < a"
  obtains s' m' where "dom m' = dom (fresh_cells a KV_PAGE_SIZE junk m)"
    and "init_slab (Some s) (int bs) a junk m =
      (if m (a + KV_PAGE_SIZE) = None then None else Some (0, Some s', m'(a + KV_PAGE_SIZE \<mapsto> 0)))"
proof -
  have e: "a + KV_PAGE_SIZE div bs * bs = a + KV_PAGE_SIZE" using bs(3) by auto
  obtain m' where m': "init_links (KV_PAGE_SIZE div bs) (int bs) a (fresh_cells a KV_PAGE_SIZE junk m) =
        Some (a + KV_PAGE_SIZE, m')" "dom m' = dom (fresh_cells a KV_PAGE_SIZE junk m)"
    using fresh_links [OF bs(1,2) a(1)] e by metis
  have fc: "int KV_PAGE_SIZE sdiv int bs = int (KV_PAGE_SIZE div bs)" using free_count_div bs(1) by simp
  have out: "m' (a + KV_PAGE_SIZE) = None \<longleftrightarrow> m (a + KV_PAGE_SIZE) = None"
  proof -
    have "m' (a + KV_PAGE_SIZE) = None \<longleftrightarrow> fresh_cells a KV_PAGE_SIZE junk m (a + KV_PAGE_SIZE) = None"
      using m'(2) by (metis domIff)
    then show ?thesis by (simp add: fresh_cells_def)
  qed
  have al: "(a + KV_PAGE_SIZE) mod 8 = 0" using a(1) by (simp add: KV_PAGE_SIZE_def mod_add_eq [symmetric])
  show ?thesis
    by (rule that [OF m'(2), of "s\<lparr>block_size := int bs, free_count := int (KV_PAGE_SIZE div bs),
          first_free := a, slab_mem := a\<rparr>"])
      (use m'(1) bs(1) a(2) fc out al in \<open>auto simp: init_slab_def Let_def write_ptr_def\<close>)
qed

section \<open>Properties\<close>

lemma init_slab_fits:
  assumes bs: "8 \<le> bs" "bs mod 8 = 0" "KV_PAGE_SIZE mod bs \<noteq> 0" and a: "a mod 8 = 0" "0 < a"
  shows "\<exists>s' m'. init_slab (Some s) (int bs) a junk m = Some (0, Some s', m') \<and>
    slab_pool (Some s', m') (map (\<lambda>i. a + i * bs) [0..<KV_PAGE_SIZE div bs]) {}"
proof -
  let ?e = "a + KV_PAGE_SIZE div bs * bs" and ?fs = "map (\<lambda>i. a + i * bs) [0..<KV_PAGE_SIZE div bs]"
  obtain m' where m': "init_links (KV_PAGE_SIZE div bs) (int bs) a (fresh_cells a KV_PAGE_SIZE junk m) = Some (?e, m')"
      "dom m' = dom (fresh_cells a KV_PAGE_SIZE junk m)" "chain m' a ?fs ?e"
    using fresh_links [OF bs(1,2) a(1)] by blast
  let ?s = "s\<lparr>block_size := int bs, free_count := int (KV_PAGE_SIZE div bs), first_free := a, slab_mem := a\<rparr>"
  have fc: "int KV_PAGE_SIZE sdiv int bs = int (KV_PAGE_SIZE div bs)" using free_count_div bs(1) by simp
  have e: "?e mod 8 = 0" "m' ?e \<noteq> None" "?e \<notin> set ?fs"
    using bs a end_marker_inside [OF bs] m'(2)
    by (auto simp: mod_add_eq [symmetric] mod_mult_right_eq [symmetric] fresh_cells_def domIff [symmetric])
  have "init_slab (Some s) (int bs) a junk m = Some (0, Some ?s, m'(?e \<mapsto> 0))"
    using m'(1) e(1,2) bs a fc by (auto simp: init_slab_def Let_def write_ptr_def)
  moreover have fs: "blocks ?s = ?fs" by (simp add: blocks_def)
  moreover have "distinct ?fs" using bs(1) by (simp add: distinct_map inj_on_def)
  moreover have "\<forall>b\<in>set ?fs. m' b \<noteq> None"
    using m'(2) page_offset [OF _ bs(1)] by (auto simp: fresh_cells_def domIff [symmetric])
  moreover have "\<forall>q. a \<le> q \<and> q + 8 \<le> a + KV_PAGE_SIZE \<longrightarrow> m' q \<noteq> None"
    using m'(2) by (auto simp: fresh_cells_def domIff [symmetric])
  ultimately show ?thesis using m'(3) e(3) bs a
    by (auto simp: slab_pool_def slab_ok_def)
qed

lemma init_slab_overflow:
  assumes "8 \<le> bs" and "bs mod 8 = 0" and "KV_PAGE_SIZE mod bs = 0" and "a mod 8 = 0" and "0 < a"
  shows "if m (a + KV_PAGE_SIZE) = None then init_slab (Some s) (int bs) a junk m = None
    else \<exists>s' m'. init_slab (Some s) (int bs) a junk m = Some (0, s', m') \<and> m' (a + KV_PAGE_SIZE) = Some 0"
  by (rule init_slab_divides [OF assms, of junk m s]) auto

text \<open>C12. \<open>init_slab\<close> for a block size that is a multiple of 8. If it does not divide the page size, the slab owns
  \<open>KV_PAGE_SIZE / block_size\<close> free blocks, in address order. If it does (16, 32, 64, ...), the end marker goes into the
  eight bytes behind the page: undefined behaviour if they do not belong to the program, and otherwise the data
  stored there is lost.\<close>

theorem init_slab_correct:
  assumes "8 \<le> bs" and "bs mod 8 = 0" and "a mod 8 = 0" and "0 < a"
  shows "if KV_PAGE_SIZE mod bs \<noteq> 0
    then \<exists>s' m'. init_slab (Some s) (int bs) a junk m = Some (0, Some s', m') \<and>
      slab_pool (Some s', m') (map (\<lambda>i. a + i * bs) [0..<KV_PAGE_SIZE div bs]) {}
    else if m (a + KV_PAGE_SIZE) = None then init_slab (Some s) (int bs) a junk m = None
    else \<exists>s' m'. init_slab (Some s) (int bs) a junk m = Some (0, s', m') \<and> m' (a + KV_PAGE_SIZE) = Some 0"
proof (cases "KV_PAGE_SIZE mod bs = 0")
  case True
  then show ?thesis using init_slab_overflow [OF assms(1,2) True assms(3,4), of m s junk] by simp
next
  case False
  then show ?thesis using init_slab_fits [OF assms(1,2) False assms(3,4), of s junk m] by simp
qed

definition slab0 :: slab_t where
  "slab0 = \<lparr>block_size = 0, free_count = 0, first_free = 0, slab_mem = 0\<rparr>"

theorem init_slab_correct_witness:
  "(\<exists>s' m'. init_slab (Some slab0) (int 1360) 8192 (\<lambda>p. 0) Map.empty = Some (0, Some s', m') \<and>
    slab_pool (Some s', m') [8192, 9552, 10912] {}) \<and> init_slab (Some slab0) (int 16) 8192 (\<lambda>p. 0) Map.empty = None"
  using init_slab_correct [of 1360 8192 slab0 "\<lambda>p. 0" Map.empty] init_slab_correct [of 16 8192 slab0 "\<lambda>p. 0" Map.empty]
  by (simp add: KV_PAGE_SIZE_def upt_rec)

text \<open>C13. Any sequence of allocations, of frees of blocks in use and of stores into blocks in use returns. Each
  allocation returns the block at the front of the free list, the one freed last, and null if none is free; the free
  list and the set of blocks in use stay a partition of the blocks of the page. Every value that was stored in a block is
  still there, unless it was overwritten or the block was freed: neither the allocator nor another client's stores
  disturb it, and stores do not disturb the allocator.\<close>

theorem slab_run_correct:
  assumes "slab_pool st fs us" and "spec_run (slab_bs st) ops (fs, us, Map.empty) = Some (ps, fs', us', d)"
  shows "\<exists>st'. pool_run slab_alloc slab_free slab_store ops st = Some (ps, st') \<and> slab_pool st' fs' us' \<and>
    distinct fs' \<and> set fs' \<inter> us' = {} \<and> set fs' \<union> us' = set fs \<union> us \<and>
    (\<forall>q v. d q = Some v \<longrightarrow> snd st' q = Some v)"
proof -
  have "holds_data (slab_bs st) (snd st) us Map.empty" by (simp add: holds_data_def)
  then obtain st' where st': "pool_run slab_alloc slab_free slab_store ops st = Some (ps, st')" "slab_pool st' fs' us'"
      "slab_bs st' = slab_bs st" "holds_data (slab_bs st) (snd st') us' d"
    using slab.run_pool [of st fs us "slab_bs st" Map.empty ops ps fs' us' d] assms by (auto elim!: runsE)
  then show ?thesis using slab.pool_disjoint [of st' fs' us' "slab_bs st"] spec_run_conserves [OF assms(2)]
    by (auto simp: holds_data_def)
qed

definition slab2 :: "slab_t option \<times> mem" where
  "slab2 = (Some \<lparr>block_size = 2040, free_count = 2, first_free = 8, slab_mem = 8\<rparr>,
     (\<lambda>q. if q < 4104 then Some 0 else None)(8 \<mapsto> 2048, 2048 \<mapsto> 4088, 4088 \<mapsto> 0))"

lemma slab2_blocks: "blocks \<lparr>block_size = 2040, free_count = n, first_free = p, slab_mem = 8\<rparr> = [8, 2048]"
  by (simp add: blocks_def KV_PAGE_SIZE_def numeral_2_eq_2 upt_conv_Cons)

lemma slab2_pool: "slab_pool slab2 [8, 2048] {}"
  by (simp add: slab2_def slab_pool_def slab_ok_def slab2_blocks KV_PAGE_SIZE_def)

theorem slab_run_correct_witness:
  "\<exists>st'. pool_run slab_alloc slab_free slab_store [Alloc, Alloc, Alloc, Store 16 99, Store 2048 1, Free 2048, Alloc] slab2 =
      Some ([8, 2048, 0, 2048], st') \<and> slab_pool st' [] {8, 2048} \<and> snd st' 16 = Some 99"
  using slab_run_correct [OF slab2_pool, of "[Alloc, Alloc, Alloc, Store 16 99, Store 2048 1, Free 2048, Alloc]"]
  by (force simp: slab2_def slab_bs_def cell_def insert_Diff_if)

text \<open>A slab with \<open>n\<close> free blocks serves exactly \<open>n\<close> further allocations, each a different block, and then returns
  null.\<close>

lemma slab_exhaustion:
  assumes "slab_pool st fs us"
  shows "\<exists>st'. alloc_n slab_alloc (length fs) st = Some (fs, st') \<and> distinct fs \<and> slab_alloc st' = Some (0, st')"
  using slab.alloc_exhausts [of st fs us "slab_bs st"] slab.pool_disjoint [of st fs us "slab_bs st"] assms by (auto elim!: runsE)

end
