(* ===== verification/Fifo_System.thy ===== *)
theory Fifo_System
  imports Prelude
begin

text \<open>
  The contract of a concurrent queue: in every reachable state, what went in is what came out
  followed by what is inside, in order. What clients rely on follows once for all: outputs are a
  prefix of the inputs, nothing is duplicated, nothing is lost once the queue is empty.
\<close>

locale fifo_system =
  fixes reach :: "'s \<Rightarrow> bool"
    and ins :: "'s \<Rightarrow> 'v list"
    and outs :: "'s \<Rightarrow> 'v list"
    and inside :: "'s \<Rightarrow> 'v list \<Rightarrow> bool"
  assumes balance: "reach s \<Longrightarrow> \<exists>vs. inside s vs \<and> ins s = outs s @ vs"
    and inside_unique: "inside s vs \<Longrightarrow> inside s ws \<Longrightarrow> vs = ws"
begin

lemma outs_prefix: "reach s \<Longrightarrow> outs s = take (length (outs s)) (ins s)"
  using balance by fastforce

lemma outs_distinct: "reach s \<Longrightarrow> distinct (ins s) \<Longrightarrow> distinct (outs s)"
  using balance by fastforce

lemma drained: "reach s \<Longrightarrow> inside s [] \<Longrightarrow> outs s = ins s"
  using balance inside_unique by fastforce

lemma next_out: "reach s \<Longrightarrow> inside s (v # vs) \<Longrightarrow> ins s ! length (outs s) = v"
  using balance inside_unique by (metis nth_append_length)

end

end
