(* ===== verification/LockfreeQueue.thy ===== *)
theory LockfreeQueue
  imports Fifo_System
begin

text \<open>
  \<open>class LockfreeQueue\<close> of \<open>atomic/LockfreeQueue.cpp\<close>, a Michael-Scott queue.

  Any number of threads run \<open>enqueue\<close> and \<open>dequeue\<close>; every load, compare-exchange and the move out
  of a node is one step of one thread, and steps of different threads interleave arbitrarily
  (the atomics are taken to be sequentially consistent). A thread's control state \<open>pc\<close> names the
  line it is about to execute with its local variables. \<open>compare_exchange_weak\<close> may fail
  spuriously, as the first argument of \<open>thread_step\<close> says. Nodes stay in the heap: a
  \<open>shared_ptr\<close> only frees what nobody can reach.

  \<open>std::move(next_ptr->data)\<close> leaves \<open>moved x\<close> behind in the node; for trivially copyable types
  this is \<open>x\<close> itself. For those the queue is proved to be a linearizable FIFO queue; for others the
  value can be lost, because it is moved out before the compare-exchange decides.
\<close>

section \<open>The queue and its threads\<close>

record 'v qnode =
  qdata :: 'v
  qnext :: "addr option"

record 'v lfq =
  q_head :: addr
  q_tail :: addr
  q_heap :: "addr \<rightharpoonup> 'v qnode"
  q_fresh :: addr

datatype 'v pc =
    Idle
  | E44 addr
  | E45 addr addr
  | E48 addr addr "addr option"
  | E51 addr addr
  | E57 addr addr
  | E65 addr addr addr
  | EnqDone
  | D76
  | D77 addr
  | D78 addr addr
  | D81 addr addr "addr option"
  | D87 addr addr
  | D94 addr addr
  | D95 addr addr 'v
  | DeqDone "'v option"

text \<open>History variables: the order in which operations take effect, and whether a dequeuing thread
  saw the queue empty when it loaded \<open>next\<close>.\<close>

datatype 'v event = Enqueued 'v | Dequeued 'v

record 'v qsys =
  queue :: "'v lfq"
  pcs :: "nat \<Rightarrow> 'v pc"
  hist :: "'v event list"
  saw_empty :: "nat \<Rightarrow> bool"

definition queue_new :: "'v \<Rightarrow> 'v lfq" where
  "queue_new d = \<lparr>q_head = 0, q_tail = 0, q_heap = [0 \<mapsto> \<lparr>qdata = d, qnext = None\<rparr>], q_fresh = 1\<rparr>"

definition qsys_new :: "'v \<Rightarrow> 'v qsys" where
  "qsys_new d = \<lparr>queue = queue_new d, pcs = (\<lambda>_. Idle), hist = [], saw_empty = (\<lambda>_. False)\<rparr>"

fun ready :: "'v pc \<Rightarrow> bool" where
  "ready Idle = True"
| "ready EnqDone = True"
| "ready (DeqDone r) = True"
| "ready _ = False"

definition goto :: "nat \<Rightarrow> 'v pc \<Rightarrow> 'v qsys \<Rightarrow> 'v qsys" where
  "goto t p s = s\<lparr>pcs := (pcs s)(t := p)\<rparr>"

definition set_next :: "addr \<Rightarrow> addr \<Rightarrow> 'v lfq \<Rightarrow> 'v lfq" where
  "set_next a n q = q\<lparr>q_heap := (case q_heap q a of None \<Rightarrow> q_heap q
     | Some x \<Rightarrow> (q_heap q)(a \<mapsto> x\<lparr>qnext := Some n\<rparr>))\<rparr>"

definition set_data :: "addr \<Rightarrow> 'v \<Rightarrow> 'v lfq \<Rightarrow> 'v lfq" where
  "set_data a v q = q\<lparr>q_heap := (case q_heap q a of None \<Rightarrow> q_heap q
     | Some x \<Rightarrow> (q_heap q)(a \<mapsto> x\<lparr>qdata := v\<rparr>))\<rparr>"

text \<open>\<open>tail.compare_exchange_weak(expected, desired)\<close> with its result ignored, as all three uses
  do.\<close>

definition cas_tail :: "bool \<Rightarrow> addr \<Rightarrow> addr \<Rightarrow> 'v lfq \<Rightarrow> 'v lfq" where
  "cas_tail spurious expected desired q =
     (if \<not> spurious \<and> q_tail q = expected then q\<lparr>q_tail := desired\<rparr> else q)"

definition enqueue_call :: "nat \<Rightarrow> 'v \<Rightarrow> 'v qsys \<Rightarrow> 'v qsys" where
  "enqueue_call t v s = (let q = queue s; n = q_fresh q in
     goto t (E44 n) (s\<lparr>queue := q\<lparr>q_heap := (q_heap q)(n \<mapsto> \<lparr>qdata = v, qnext = None\<rparr>),
       q_fresh := Suc n\<rparr>\<rparr>))"

definition dequeue_call :: "nat \<Rightarrow> 'v qsys \<Rightarrow> 'v qsys" where
  "dequeue_call t s = goto t D76 s"

fun enqueue_step :: "bool \<Rightarrow> nat \<Rightarrow> 'v pc \<Rightarrow> 'v qsys \<Rightarrow> 'v qsys option" where
  "enqueue_step b t (E44 new) s = Some (goto t (E45 new (q_tail (queue s))) s)"
| "enqueue_step b t (E45 new tp) s = do {
     x \<leftarrow> q_heap (queue s) tp;
     Some (goto t (E48 new tp (qnext x)) s) }"
| "enqueue_step b t (E48 new tp nx) s =
     Some (goto t (if tp = q_tail (queue s)
       then (case nx of None \<Rightarrow> E51 new tp | Some y \<Rightarrow> E65 new tp y) else E44 new) s)"
| "enqueue_step b t (E51 new tp) s = do {
     x \<leftarrow> q_heap (queue s) tp;
     y \<leftarrow> q_heap (queue s) new;
     (if \<not> b \<and> qnext x = None
      then Some (goto t (E57 new tp) (s\<lparr>queue := set_next tp new (queue s),
        hist := hist s @ [Enqueued (qdata y)]\<rparr>))
      else Some (goto t (E44 new) s)) }"
| "enqueue_step b t (E57 new tp) s =
     Some (goto t EnqDone (s\<lparr>queue := cas_tail b tp new (queue s)\<rparr>))"
| "enqueue_step b t (E65 new tp y) s =
     Some (goto t (E44 new) (s\<lparr>queue := cas_tail b tp y (queue s)\<rparr>))"
| "enqueue_step b t _ s = None"

fun dequeue_step :: "('v \<Rightarrow> 'v) \<Rightarrow> bool \<Rightarrow> nat \<Rightarrow> 'v pc \<Rightarrow> 'v qsys \<Rightarrow> 'v qsys option" where
  "dequeue_step moved b t D76 s = Some (goto t (D77 (q_head (queue s))) s)"
| "dequeue_step moved b t (D77 hp) s = Some (goto t (D78 hp (q_tail (queue s))) s)"
| "dequeue_step moved b t (D78 hp tp) s = do {
     x \<leftarrow> q_heap (queue s) hp;
     y \<leftarrow> q_heap (queue s) (q_head (queue s));
     Some (goto t (D81 hp tp (qnext x)) (s\<lparr>saw_empty := (saw_empty s)(t := qnext y = None)\<rparr>)) }"
| "dequeue_step moved b t (D81 hp tp nx) s =
     Some (goto t (if hp \<noteq> q_head (queue s) then D76
       else if hp = tp then (case nx of None \<Rightarrow> DeqDone None | Some y \<Rightarrow> D87 tp y)
       else (case nx of None \<Rightarrow> D76 | Some y \<Rightarrow> D94 hp y)) s)"
| "dequeue_step moved b t (D87 tp y) s =
     Some (goto t D76 (s\<lparr>queue := cas_tail b tp y (queue s)\<rparr>))"
| "dequeue_step moved b t (D94 hp y) s = do {
     x \<leftarrow> q_heap (queue s) y;
     Some (goto t (D95 hp y (qdata x)) (s\<lparr>queue := set_data y (moved (qdata x)) (queue s)\<rparr>)) }"
| "dequeue_step moved b t (D95 hp y v) s =
     (if \<not> b \<and> q_head (queue s) = hp
      then Some (goto t (DeqDone (Some v)) (s\<lparr>queue := (queue s)\<lparr>q_head := y\<rparr>,
        hist := hist s @ [Dequeued v]\<rparr>))
      else Some (goto t D76 s))"
| "dequeue_step moved b t _ s = None"

fun enqueuing :: "'v pc \<Rightarrow> bool" where
  "enqueuing (E44 n) = True"
| "enqueuing (E45 n t) = True"
| "enqueuing (E48 n t x) = True"
| "enqueuing (E51 n t) = True"
| "enqueuing (E57 n t) = True"
| "enqueuing (E65 n t y) = True"
| "enqueuing _ = False"

definition thread_step :: "('v \<Rightarrow> 'v) \<Rightarrow> bool \<Rightarrow> nat \<Rightarrow> 'v qsys \<Rightarrow> 'v qsys option" where
  "thread_step moved b t s = (if enqueuing (pcs s t) then enqueue_step b t (pcs s t) s
     else dequeue_step moved b t (pcs s t) s)"

text \<open>\<open>empty\<close> loads \<open>head\<close>, \<open>tail\<close> and the head's link one after the other, from the states at
  those three moments.\<close>

definition q_is_empty :: "'v lfq \<Rightarrow> 'v lfq \<Rightarrow> 'v lfq \<Rightarrow> bool option" where
  "q_is_empty q1 q2 q3 = (let hp = q_head q1 in
     if hp = q_tail q2 then do { x \<leftarrow> q_heap q3 hp; Some (qnext x = None) } else Some False)"

section \<open>Reachable states\<close>

inductive reachable :: "('v \<Rightarrow> 'v) \<Rightarrow> 'v \<Rightarrow> 'v qsys \<Rightarrow> bool" for moved d where
  start: "reachable moved d (qsys_new d)"
| call_enqueue: "reachable moved d s \<Longrightarrow> ready (pcs s t) \<Longrightarrow> reachable moved d (enqueue_call t v s)"
| call_dequeue: "reachable moved d s \<Longrightarrow> ready (pcs s t) \<Longrightarrow> reachable moved d (dequeue_call t s)"
| step: "reachable moved d s \<Longrightarrow> thread_step moved b t s = Some s' \<Longrightarrow> reachable moved d s'"

fun enqs :: "'v event list \<Rightarrow> 'v list" where
  "enqs [] = []"
| "enqs (Enqueued v # es) = v # enqs es"
| "enqs (Dequeued v # es) = enqs es"

fun deqs :: "'v event list \<Rightarrow> 'v list" where
  "deqs [] = []"
| "deqs (Enqueued v # es) = deqs es"
| "deqs (Dequeued v # es) = v # deqs es"

lemma enqs_append [simp]: "enqs (xs @ ys) = enqs xs @ enqs ys"
  by (induction xs rule: enqs.induct) auto

lemma deqs_append [simp]: "deqs (xs @ ys) = deqs xs @ deqs ys"
  by (induction xs rule: deqs.induct) auto

text \<open>The values in the queue, read off the links behind the dummy node.\<close>

fun linked :: "(addr \<rightharpoonup> 'v qnode) \<Rightarrow> addr \<Rightarrow> 'v list \<Rightarrow> bool" where
  "linked h a [] \<longleftrightarrow> (\<exists>x. h a = Some x \<and> qnext x = None)"
| "linked h a (v # vs) \<longleftrightarrow> (\<exists>x b y. h a = Some x \<and> qnext x = Some b \<and> h b = Some y \<and> qdata y = v \<and> linked h b vs)"

section \<open>The invariant\<close>

text \<open>\<open>ns\<close> are the linked nodes in order, \<open>vs\<close> their data; \<open>hi\<close> and \<open>ti\<close> are the positions of
  \<open>head\<close> and \<open>tail\<close>.\<close>

definition shared_inv :: "addr list \<Rightarrow> 'v list \<Rightarrow> nat \<Rightarrow> nat \<Rightarrow> 'v qsys \<Rightarrow> bool" where
  "shared_inv ns vs hi ti s \<longleftrightarrow> (let q = queue s in
     distinct ns \<and> length vs = length ns \<and> hi \<le> ti \<and> ti < length ns \<and> length ns \<le> ti + 2 \<and>
     q_head q = ns ! hi \<and> q_tail q = ns ! ti \<and>
     (\<forall>i<length ns. q_heap q (ns ! i) = Some \<lparr>qdata = vs ! i,
        qnext = (if Suc i < length ns then Some (ns ! Suc i) else None)\<rparr>) \<and>
     (\<forall>a\<in>set ns. a < q_fresh q) \<and>
     enqs (hist s) = tl vs \<and> deqs (hist s) = take hi (tl vs))"

text \<open>What the local variables of a thread point at.\<close>

definition pos :: "addr list \<Rightarrow> nat \<Rightarrow> addr \<Rightarrow> bool" where
  "pos ns i a \<longleftrightarrow> i < length ns \<and> ns ! i = a"

fun local_inv :: "addr list \<Rightarrow> 'v list \<Rightarrow> nat \<Rightarrow> nat \<Rightarrow> bool \<Rightarrow> 'v pc \<Rightarrow> bool" where
  "local_inv ns vs hi ti e (E45 n t) \<longleftrightarrow> (\<exists>i\<le>ti. pos ns i t)"
| "local_inv ns vs hi ti e (E48 n t x) \<longleftrightarrow>
     (\<exists>i\<le>ti. pos ns i t \<and> (\<forall>y. x = Some y \<longrightarrow> pos ns (Suc i) y))"
| "local_inv ns vs hi ti e (E51 n t) \<longleftrightarrow> (\<exists>i\<le>ti. pos ns i t)"
| "local_inv ns vs hi ti e (E57 n t) \<longleftrightarrow> (\<exists>i\<le>ti. pos ns i t \<and> pos ns (Suc i) n)"
| "local_inv ns vs hi ti e (E65 n t y) \<longleftrightarrow> (\<exists>i\<le>ti. pos ns i t \<and> pos ns (Suc i) y)"
| "local_inv ns vs hi ti e (D77 h) \<longleftrightarrow> (\<exists>i\<le>hi. pos ns i h)"
| "local_inv ns vs hi ti e (D78 h t) \<longleftrightarrow> (\<exists>i\<le>hi. \<exists>j\<le>ti. i \<le> j \<and> pos ns i h \<and> pos ns j t)"
| "local_inv ns vs hi ti e (D81 h t x) \<longleftrightarrow> (\<exists>i\<le>hi. \<exists>j\<le>ti. i \<le> j \<and> pos ns i h \<and> pos ns j t \<and>
     (\<forall>y. x = Some y \<longrightarrow> pos ns (Suc i) y) \<and> (x = None \<and> i = hi \<longrightarrow> e))"
| "local_inv ns vs hi ti e (D87 t y) \<longleftrightarrow> (\<exists>i\<le>ti. pos ns i t \<and> pos ns (Suc i) y)"
| "local_inv ns vs hi ti e (D94 h y) \<longleftrightarrow> (\<exists>i\<le>hi. Suc i \<le> ti \<and> pos ns i h \<and> pos ns (Suc i) y)"
| "local_inv ns vs hi ti e (D95 h y v) \<longleftrightarrow>
     (\<exists>i\<le>hi. Suc i \<le> ti \<and> pos ns i h \<and> pos ns (Suc i) y \<and> vs ! Suc i = v)"
| "local_inv ns vs hi ti e (DeqDone r) \<longleftrightarrow> (r = None \<longrightarrow> e)"
| "local_inv ns vs hi ti e _ \<longleftrightarrow> True"

text \<open>The node a thread has made and not linked yet.\<close>

fun owned :: "'v pc \<Rightarrow> addr option" where
  "owned (E44 n) = Some n"
| "owned (E45 n t) = Some n"
| "owned (E48 n t x) = Some n"
| "owned (E51 n t) = Some n"
| "owned (E65 n t y) = Some n"
| "owned _ = None"

definition own_inv :: "addr list \<Rightarrow> 'v qsys \<Rightarrow> bool" where
  "own_inv ns s \<longleftrightarrow>
     (\<forall>t n. owned (pcs s t) = Some n \<longrightarrow> n \<notin> set ns \<and> n < q_fresh (queue s) \<and>
       (\<exists>v. q_heap (queue s) n = Some \<lparr>qdata = v, qnext = None\<rparr>)) \<and>
     (\<forall>t u n. owned (pcs s t) = Some n \<longrightarrow> owned (pcs s u) = Some n \<longrightarrow> t = u)"

definition qinv :: "addr list \<Rightarrow> 'v list \<Rightarrow> nat \<Rightarrow> nat \<Rightarrow> 'v qsys \<Rightarrow> bool" where
  "qinv ns vs hi ti s \<longleftrightarrow> shared_inv ns vs hi ti s \<and> own_inv ns s \<and>
     (\<forall>t. local_inv ns vs hi ti (saw_empty s t) (pcs s t))"

definition queue_inv :: "'v qsys \<Rightarrow> bool" where
  "queue_inv s \<longleftrightarrow> (\<exists>ns vs hi ti. qinv ns vs hi ti s)"

lemma queue_invI: "qinv ns vs hi ti s \<Longrightarrow> queue_inv s"
  unfolding queue_inv_def by blast

lemma pos_append: "pos ns i a \<Longrightarrow> pos (ns @ ms) i a"
  by (simp add: pos_def nth_append)

lemma local_inv_mono:
  assumes "local_inv ns vs hi ti e p" and "hi \<le> hi'" and "ti \<le> ti'"
  shows "local_inv ns vs hi' ti' e p"
proof (cases p)
  case (D81 h t x)
  with assms obtain i j where "i \<le> hi" "j \<le> ti" "i \<le> j" "pos ns i h" "pos ns j t"
      "\<forall>y. x = Some y \<longrightarrow> pos ns (Suc i) y" "x = None \<and> i = hi \<longrightarrow> e" by auto
  moreover from this have "i \<le> hi'" "j \<le> ti'" "x = None \<and> i = hi' \<longrightarrow> e" using assms(2,3) by auto
  ultimately show ?thesis unfolding D81 local_inv.simps by blast
qed (use assms in \<open>simp; meson le_trans\<close>)+

lemma local_inv_append:
  assumes "local_inv ns vs hi ti e p" and "ti < length ns" and "length vs = length ns"
  shows "local_inv (ns @ ms) (vs @ ws) hi ti e p"
proof (cases p)
  case (D95 h y v)
  with assms show ?thesis by (auto simp: nth_append pos_def)
qed (use assms in \<open>simp; meson pos_append\<close>)+

lemma pos_inj: "distinct ns \<Longrightarrow> pos ns i a \<Longrightarrow> pos ns j a \<Longrightarrow> i = j"
  by (auto simp: pos_def nth_eq_iff_index_eq)

lemma shared_pos:
  assumes "shared_inv ns vs hi ti s"
  shows "pos ns hi (q_head (queue s))" and "pos ns ti (q_tail (queue s))" and "distinct ns"
  using assms by (auto simp: shared_inv_def pos_def Let_def)

lemma shared_node:
  assumes "shared_inv ns vs hi ti s" and "pos ns i a"
  shows "q_heap (queue s) a = Some \<lparr>qdata = vs ! i, qnext = (if Suc i < length ns then Some (ns ! Suc i) else None)\<rparr>"
  using assms by (auto simp: shared_inv_def pos_def Let_def)

text \<open>Effects of the steps: moving a thread, swinging the tail, linking a node, advancing the head.\<close>

lemma qinv_goto:
  assumes "qinv ns vs hi ti s" and "owned p = owned (pcs s t) \<or> owned p = None"
    and "local_inv ns vs hi ti (saw_empty s t) p"
  shows "qinv ns vs hi ti (goto t p s)"
  using assms by (auto simp: qinv_def goto_def shared_inv_def own_inv_def Let_def) metis+

lemma qinv_cas_tail:
  assumes inv: "qinv ns vs hi ti s" and i: "i \<le> ti" "pos ns i a" "pos ns (Suc i) b"
  obtains ti' where "ti \<le> ti'" and "qinv ns vs hi ti' (s\<lparr>queue := cas_tail c a b (queue s)\<rparr>)"
proof (cases "\<not> c \<and> q_tail (queue s) = a")
  case True
  have sh: "shared_inv ns vs hi ti s" using inv by (simp add: qinv_def)
  then have "i = ti" using pos_inj [OF shared_pos(3,2) [OF sh]] i(2) True by blast
  then have "shared_inv ns vs hi (Suc ti) (s\<lparr>queue := cas_tail c a b (queue s)\<rparr>)"
    using sh i(3) True by (auto simp: shared_inv_def cas_tail_def pos_def Let_def)
  then have "qinv ns vs hi (Suc ti) (s\<lparr>queue := cas_tail c a b (queue s)\<rparr>)"
    using inv local_inv_mono [of ns vs hi ti _ _ hi "Suc ti"] True
    by (auto simp: qinv_def own_inv_def cas_tail_def)
  then show ?thesis using that [of "Suc ti"] by simp
next
  case False
  then show ?thesis using inv that [of ti] by (auto simp: cas_tail_def)
qed

lemma qinv_head:
  assumes inv: "qinv ns vs hi ti s" and i: "i \<le> hi" "Suc i \<le> ti" "pos ns i (q_head (queue s))" "pos ns (Suc i) y"
  shows "qinv ns vs (Suc hi) ti (s\<lparr>queue := (queue s)\<lparr>q_head := y\<rparr>, hist := hist s @ [Dequeued (vs ! Suc i)]\<rparr>)"
proof -
  have sh: "shared_inv ns vs hi ti s" using inv by (simp add: qinv_def)
  have "i = hi" using pos_inj [OF shared_pos(3,1) [OF sh] i(3)] by simp
  moreover from this have "hi < length (tl vs)" "vs ! Suc hi = tl vs ! hi"
    using sh i(2,4) by (auto simp: shared_inv_def pos_def Let_def nth_tl)
  ultimately have "shared_inv ns vs (Suc hi) ti (s\<lparr>queue := (queue s)\<lparr>q_head := y\<rparr>,
      hist := hist s @ [Dequeued (vs ! Suc i)]\<rparr>)"
    using sh i by (auto simp: shared_inv_def pos_def Let_def take_Suc_conv_app_nth)
  then show ?thesis
    using inv local_inv_mono [of ns vs hi ti _ _ "Suc hi" ti] by (auto simp: qinv_def own_inv_def)
qed

lemma qinv_local: "qinv ns vs hi ti s \<Longrightarrow> local_inv ns vs hi ti (saw_empty s t) (pcs s t)"
  by (simp add: qinv_def)

lemma own_node:
  "own_inv ns s \<Longrightarrow> owned (pcs s t) = Some n \<Longrightarrow> n \<notin> set ns \<and> n < q_fresh (queue s) \<and>
     (\<exists>v. q_heap (queue s) n = Some \<lparr>qdata = v, qnext = None\<rparr>)"
  by (simp add: own_inv_def)

lemma own_inj: "own_inv ns s \<Longrightarrow> owned (pcs s t) = Some n \<Longrightarrow> owned (pcs s u) = Some n \<Longrightarrow> t = u"
  unfolding own_inv_def by blast

lemma shared_link:
  assumes sh: "shared_inv ns vs hi ti s" and a: "pos ns i a" and last: "Suc i = length ns"
    and n: "n \<notin> set ns" "n < q_fresh (queue s)" "q_heap (queue s) n = Some \<lparr>qdata = v, qnext = None\<rparr>"
    and ti: "ti = i"
  shows "shared_inv (ns @ [n]) (vs @ [v]) hi ti
    (s\<lparr>queue := set_next a n (queue s), hist := hist s @ [Enqueued v]\<rparr>)"
proof -
  have heap: "q_heap (set_next a n (queue s)) = (q_heap (queue s))(a \<mapsto> \<lparr>qdata = vs ! i, qnext = Some n\<rparr>)"
    using shared_node [OF sh a] by (simp add: set_next_def)
  have len: "length vs = length ns" "vs \<noteq> []" using sh by (auto simp: shared_inv_def Let_def)
  have na: "n \<noteq> a" using a n(1) by (auto simp: pos_def)
  have nodes: "(q_heap (set_next a n (queue s))) ((ns @ [n]) ! j) = Some \<lparr>qdata = (vs @ [v]) ! j,
      qnext = (if Suc j < length (ns @ [n]) then Some ((ns @ [n]) ! Suc j) else None)\<rparr>"
    if j: "j < length (ns @ [n])" for j
  proof -
    consider "j = length ns" | "j = i" | "Suc j < length ns" using j last by fastforce
    then show ?thesis
    proof cases
      case 1
      then show ?thesis using n(3) na len(1) heap by (simp add: nth_append)
    next
      case 2
      then show ?thesis using a last len(1) heap by (auto simp: nth_append pos_def)
    next
      case 3
      then have "pos ns j (ns ! j)" "ns ! j \<noteq> a"
        using pos_inj [OF shared_pos(3) [OF sh] a, of j] last by (auto simp: pos_def)
      then show ?thesis using shared_node [OF sh, of j "ns ! j"] 3 len(1) heap by (simp add: nth_append)
    qed
  qed
  show ?thesis using sh n last nodes len ti
    by (auto simp: shared_inv_def Let_def set_next_def nth_append)
qed

lemma qinv_link:
  assumes inv: "qinv ns vs hi ti s" and pc: "pcs s t = E51 n a"
    and x: "q_heap (queue s) a = Some x" "qnext x = None"
    and y: "q_heap (queue s) n = Some y"
  shows "\<exists>ns vs. qinv ns vs hi ti (goto t (E57 n a)
    (s\<lparr>queue := set_next a n (queue s), hist := hist s @ [Enqueued (qdata y)]\<rparr>))"
proof -
  have sh: "shared_inv ns vs hi ti s" and own: "own_inv ns s" using inv by (auto simp: qinv_def)
  obtain i where i: "i \<le> ti" "pos ns i a" using qinv_local [OF inv, of t] pc by auto
  have last: "Suc i = length ns" "ti = i"
    using shared_node [OF sh i(2)] x i sh by (auto simp: pos_def shared_inv_def Let_def split: if_splits)
  have n: "n \<notin> set ns" "n < q_fresh (queue s)" "q_heap (queue s) n = Some \<lparr>qdata = qdata y, qnext = None\<rparr>"
    using own_node [OF own, of t n] pc y by auto
  let ?s = "s\<lparr>queue := set_next a n (queue s), hist := hist s @ [Enqueued (qdata y)]\<rparr>"
  have "shared_inv (ns @ [n]) (vs @ [qdata y]) hi ti ?s" by (rule shared_link [OF sh i(2) last(1) n last(2)])
  then have "shared_inv (ns @ [n]) (vs @ [qdata y]) hi ti (goto t (E57 n a) ?s)"
    by (simp add: shared_inv_def goto_def Let_def)
  moreover have "own_inv (ns @ [n]) (goto t (E57 n a) ?s)"
  proof -
    have "m \<noteq> n \<and> m \<noteq> a" if "owned (pcs s u) = Some m" "u \<noteq> t" for u m
      using own_inj [OF own, of u m t] own_node [OF own that(1)] that pc i(2) by (auto simp: pos_def)
    moreover have "owned (pcs (goto t (E57 n a) ?s) u) = (if u = t then None else owned (pcs s u))" for u
      by (simp add: goto_def)
    moreover have "q_fresh (queue (goto t (E57 n a) ?s)) = q_fresh (queue s)"
        "q_heap (queue (goto t (E57 n a) ?s)) = (q_heap (queue s))(a \<mapsto> x\<lparr>qnext := Some n\<rparr>)"
      using x(1) by (simp_all add: goto_def set_next_def)
    ultimately show ?thesis using own_node [OF own] own_inj [OF own] unfolding own_inv_def by auto
  qed
  moreover have "local_inv (ns @ [n]) (vs @ [qdata y]) hi ti (saw_empty s u) (pcs (goto t (E57 n a) ?s) u)" for u
  proof (cases "u = t")
    case True
    have "pos (ns @ [n]) (Suc i) n" using last(1) by (simp add: pos_def)
    then show ?thesis using True i pos_append [OF i(2), of "[n]"] by (auto simp: goto_def)
  next
    case False
    have "length vs = length ns" "ti < length ns" using sh by (auto simp: shared_inv_def Let_def)
    then show ?thesis using local_inv_append [OF qinv_local [OF inv, of u], of "[n]" "[qdata y]"] False
      by (simp add: goto_def)
  qed
  moreover have "saw_empty (goto t (E57 n a) ?s) = saw_empty s" by (simp add: goto_def)
  ultimately show ?thesis unfolding qinv_def by metis
qed

lemma qinv_new: "qinv [0] [d] 0 0 (qsys_new d)"
  by (auto simp: qinv_def shared_inv_def own_inv_def qsys_new_def queue_new_def Let_def)

lemma qinv_enqueue_call:
  assumes inv: "qinv ns vs hi ti s" and ready: "ready (pcs s t)"
  shows "qinv ns vs hi ti (enqueue_call t v s)"
proof -
  let ?n = "q_fresh (queue s)" and ?s = "enqueue_call t v s"
  have sh: "shared_inv ns vs hi ti s" and own: "own_inv ns s" using inv by (auto simp: qinv_def)
  have f: "?n \<notin> set ns" using sh by (auto simp: shared_inv_def Let_def)
  have eq: "q_heap (queue ?s) = (q_heap (queue s))(?n \<mapsto> \<lparr>qdata = v, qnext = None\<rparr>)"
      "q_fresh (queue ?s) = Suc ?n" "pcs ?s = (pcs s)(t := E44 ?n)" "hist ?s = hist s"
      "q_head (queue ?s) = q_head (queue s)" "q_tail (queue ?s) = q_tail (queue s)"
      "saw_empty ?s = saw_empty s"
    by (simp_all add: enqueue_call_def goto_def Let_def)
  have "\<forall>i<length ns. ns ! i \<noteq> ?n" using f nth_mem by metis
  then have "shared_inv ns vs hi ti ?s"
    using sh unfolding shared_inv_def Let_def eq by (auto simp: less_Suc_eq)
  moreover have "own_inv ns ?s"
    unfolding own_inv_def eq
    using own_node [OF own] own_inj [OF own] f by (auto simp: less_Suc_eq dest: less_imp_neq)
  moreover have "local_inv ns vs hi ti (saw_empty ?s u) (pcs ?s u)" for u
    using qinv_local [OF inv, of u] by (simp add: eq)
  ultimately show ?thesis by (simp add: qinv_def)
qed

lemma qinv_dequeue_call: "qinv ns vs hi ti s \<Longrightarrow> qinv ns vs hi ti (dequeue_call t s)"
  by (simp add: dequeue_call_def qinv_goto)

lemma enqueue_step_inv:
  assumes inv: "qinv ns vs hi ti s" and en: "enqueuing (pcs s t)"
  shows "runs (enqueue_step b t (pcs s t) s) queue_inv"
proof -
  have sh: "shared_inv ns vs hi ti s" and own: "own_inv ns s" using inv by (auto simp: qinv_def)
  note loc = qinv_local [OF inv, of t]
  show ?thesis
  proof (cases "pcs s t")
    case (E44 n)
    have "qinv ns vs hi ti (goto t (E45 n (q_tail (queue s))) s)"
      by (rule qinv_goto [OF inv]) (use E44 shared_pos(2) [OF sh] in auto)
    then show ?thesis by (auto simp: E44 queue_inv_def)
  next
    case (E45 n a)
    then obtain i where i: "i \<le> ti" "pos ns i a" using loc by auto
    have "qinv ns vs hi ti (goto t (E48 n a (if Suc i < length ns then Some (ns ! Suc i) else None)) s)"
      by (rule qinv_goto [OF inv]) (use E45 i in \<open>auto simp: pos_def split: if_splits\<close>)
    from queue_invI [OF this] show ?thesis using shared_node [OF sh i(2)] by (simp add: E45)
  next
    case (E48 n a x)
    have "qinv ns vs hi ti (goto t (if a = q_tail (queue s)
        then (case x of None \<Rightarrow> E51 n a | Some y \<Rightarrow> E65 n a y) else E44 n) s)"
      by (rule qinv_goto [OF inv]) (use loc in \<open>auto simp: E48 split: option.split\<close>)
    from queue_invI [OF this] show ?thesis by (simp add: E48)
  next
    case (E51 n a)
    then obtain i where i: "pos ns i a" using loc by auto
    obtain y where y: "q_heap (queue s) n = Some y" using own_node [OF own, of t n] E51 by auto
    have "qinv ns vs hi ti (goto t (E44 n) s)" by (rule qinv_goto [OF inv]) (simp_all add: E51)
    then show ?thesis
      using qinv_link [OF inv E51 shared_node [OF sh i] _ y] shared_node [OF sh i] y
      by (auto simp: E51 intro: queue_invI)
  next
    case (E57 n a)
    then obtain i where i: "i \<le> ti" "pos ns i a" "pos ns (Suc i) n" using loc by auto
    obtain ti' where "qinv ns vs hi ti' (s\<lparr>queue := cas_tail b a n (queue s)\<rparr>)"
      using qinv_cas_tail [OF inv i] by blast
    then have "qinv ns vs hi ti' (goto t EnqDone (s\<lparr>queue := cas_tail b a n (queue s)\<rparr>))"
      by (rule qinv_goto) simp_all
    then show ?thesis by (auto simp: E57 queue_inv_def)
  next
    case (E65 n a y)
    then obtain i where i: "i \<le> ti" "pos ns i a" "pos ns (Suc i) y" using loc by auto
    obtain ti' where "qinv ns vs hi ti' (s\<lparr>queue := cas_tail b a y (queue s)\<rparr>)"
      using qinv_cas_tail [OF inv i] by blast
    then have "qinv ns vs hi ti' (goto t (E44 n) (s\<lparr>queue := cas_tail b a y (queue s)\<rparr>))"
      by (rule qinv_goto) (simp_all add: E65)
    then show ?thesis by (auto simp: E65 queue_inv_def)
  qed (use en in simp_all)
qed

lemma set_data_same: "q_heap q a = Some x \<Longrightarrow> set_data a (qdata x) q = q"
  by (simp add: set_data_def fun_upd_idem)

lemma qinv_saw: "qinv ns vs hi ti s \<Longrightarrow> (\<forall>e. local_inv ns vs hi ti e (pcs s t)) \<Longrightarrow>
    qinv ns vs hi ti (s\<lparr>saw_empty := (saw_empty s)(t := e)\<rparr>)"
  by (auto simp: qinv_def shared_inv_def own_inv_def Let_def)

text \<open>The load of the link and the comparison that follows it.\<close>

lemma dequeue_load_next:
  assumes inv: "qinv ns vs hi ti s" and D78: "pcs s t = D78 h tp"
  shows "runs (dequeue_step moved b t (D78 h tp) s) queue_inv"
proof -
  have sh: "shared_inv ns vs hi ti s" and le: "hi \<le> ti"
    using inv by (auto simp: qinv_def shared_inv_def Let_def)
  note loc = qinv_local [OF inv, of t]
  from loc D78 obtain i j where i: "i \<le> hi" "j \<le> ti" "i \<le> j" "pos ns i h" "pos ns j tp" by auto
  let ?x = "if Suc i < length ns then Some (ns ! Suc i) else None"
  let ?e = "\<not> Suc hi < length ns"
  let ?s = "s\<lparr>saw_empty := (saw_empty s)(t := ?e)\<rparr>"
  have "\<forall>y. ?x = Some y \<longrightarrow> pos ns (Suc i) y" "?x = None \<and> i = hi \<longrightarrow> ?e" by (auto simp: pos_def)
  with i have new: "local_inv ns vs hi ti ?e (D81 h tp ?x)" unfolding local_inv.simps by blast
  have old: "local_inv ns vs hi ti e (D78 h tp)" for e using i by auto
  have "qinv ns vs hi ti (goto t (D81 h tp ?x) ?s)"
    by (rule qinv_goto [OF qinv_saw [OF inv]]) (use D78 new old in simp_all)
  from queue_invI [OF this] show ?thesis
    using shared_node [OF sh i(4)] shared_node [OF sh shared_pos(1) [OF sh]]
    by (auto split: if_splits)
qed

lemma dequeue_compare:
  assumes inv: "qinv ns vs hi ti s" and D81: "pcs s t = D81 h tp x"
  shows "runs (dequeue_step moved b t (D81 h tp x) s) queue_inv"
proof -
  have sh: "shared_inv ns vs hi ti s" and le: "hi \<le> ti"
    using inv by (auto simp: qinv_def shared_inv_def Let_def)
  note loc = qinv_local [OF inv, of t]
  from loc D81 obtain i j where i: "i \<le> hi" "j \<le> ti" "i \<le> j" "pos ns i h" "pos ns j tp"
      "\<forall>y. x = Some y \<longrightarrow> pos ns (Suc i) y" "x = None \<and> i = hi \<longrightarrow> saw_empty s t" by auto
  have hd: "h = q_head (queue s) \<Longrightarrow> i = hi" using pos_inj [OF shared_pos(3) [OF sh] i(4)] shared_pos(1) [OF sh] by blast
  have aid: "\<exists>k\<le>ti. pos ns k h \<and> pos ns (Suc k) y" if "x = Some y" for y
    using i(1,4,6) le that by (intro exI [of _ i]) auto
  have eq: "h \<noteq> tp \<Longrightarrow> Suc i \<le> ti"
  proof -
    assume "h \<noteq> tp"
    then have "i \<noteq> j" using i(4,5) by (auto simp: pos_def)
    then show ?thesis using i(2,3) by simp
  qed
  have "qinv ns vs hi ti (goto t (if h \<noteq> q_head (queue s) then D76
     else if h = tp then (case x of None \<Rightarrow> DeqDone None | Some y \<Rightarrow> D87 tp y)
     else (case x of None \<Rightarrow> D76 | Some y \<Rightarrow> D94 h y)) s)"
    by (rule qinv_goto [OF inv]) (use i hd eq aid in \<open>auto split: option.split\<close>)
  then show ?thesis by (auto intro: queue_invI)
qed

lemma dequeue_step_inv:
  assumes inv: "qinv ns vs hi ti s" and de: "\<not> enqueuing (pcs s t)" "\<not> ready (pcs s t)"
    and moved: "\<And>v. moved v = v"
  shows "runs (dequeue_step moved b t (pcs s t) s) queue_inv"
proof -
  have sh: "shared_inv ns vs hi ti s" and own: "own_inv ns s" and le: "hi \<le> ti"
    using inv by (auto simp: qinv_def shared_inv_def Let_def)
  note loc = qinv_local [OF inv, of t]
  show ?thesis
  proof (cases "pcs s t")
    case D76
    have "qinv ns vs hi ti (goto t (D77 (q_head (queue s))) s)"
      by (rule qinv_goto [OF inv]) (use shared_pos(1) [OF sh] in auto)
    then show ?thesis by (auto simp: D76 intro: queue_invI)
  next
    case (D77 h)
    then obtain i where i: "i \<le> hi" "pos ns i h" using loc by auto
    have "qinv ns vs hi ti (goto t (D78 h (q_tail (queue s))) s)"
      by (rule qinv_goto [OF inv]) (use i le shared_pos(2) [OF sh] in \<open>auto intro: le_trans\<close>)
    then show ?thesis by (auto simp: D77 intro: queue_invI)
  next
    case (D78 h tp)
    show ?thesis unfolding D78 by (rule dequeue_load_next [OF inv D78])
  next
    case (D81 h tp x)
    show ?thesis unfolding D81 by (rule dequeue_compare [OF inv D81])
  next
    case (D87 tp y)
    then obtain i where i: "i \<le> ti" "pos ns i tp" "pos ns (Suc i) y" using loc by auto
    obtain ti' where "qinv ns vs hi ti' (s\<lparr>queue := cas_tail b tp y (queue s)\<rparr>)"
      using qinv_cas_tail [OF inv i] by blast
    then have "qinv ns vs hi ti' (goto t D76 (s\<lparr>queue := cas_tail b tp y (queue s)\<rparr>))"
      by (rule qinv_goto) simp_all
    then show ?thesis by (auto simp: D87 intro: queue_invI)
  next
    case (D94 h y)
    then obtain i where i: "i \<le> hi" "Suc i \<le> ti" "pos ns i h" "pos ns (Suc i) y" using loc by auto
    have "qinv ns vs hi ti (goto t (D95 h y (vs ! Suc i)) s)"
      by (rule qinv_goto [OF inv]) (use i in auto)
    then show ?thesis using shared_node [OF sh i(4)] set_data_same [OF shared_node [OF sh i(4)]] moved
      by (auto simp: D94 intro: queue_invI)
  next
    case (D95 h y v)
    then obtain i where i: "i \<le> hi" "Suc i \<le> ti" "pos ns i h" "pos ns (Suc i) y" "vs ! Suc i = v"
      using loc by auto
    have "qinv ns vs hi ti (goto t D76 s)" by (rule qinv_goto [OF inv]) simp_all
    moreover have "qinv ns vs (Suc hi) ti (goto t (DeqDone (Some v)) (s\<lparr>queue := (queue s)\<lparr>q_head := y\<rparr>,
        hist := hist s @ [Dequeued v]\<rparr>))" if "q_head (queue s) = h"
      using qinv_head [OF inv i(1,2) _ i(4)] that i(3,5) by (intro qinv_goto) auto
    ultimately show ?thesis by (auto simp: D95 intro: queue_invI)
  qed (use de in simp_all)
qed

lemma thread_step_inv:
  assumes "queue_inv s" and "\<not> ready (pcs s t)" and "\<And>v. moved v = v"
  shows "runs (thread_step moved b t s) queue_inv"
  using assms enqueue_step_inv dequeue_step_inv [where moved = moved]
  by (auto simp: thread_step_def queue_inv_def)

lemma thread_step_active: "thread_step moved b t s = Some s' \<Longrightarrow> \<not> ready (pcs s t)"
  by (cases "pcs s t") (auto simp: thread_step_def)

lemma reachable_inv:
  assumes "reachable moved d s" and "\<And>v. moved v = v"
  shows "queue_inv s"
  using assms(1)
proof induction
  case start
  then show ?case using qinv_new by (rule queue_invI)
next
  case (call_enqueue s t v)
  then obtain ns vs hi ti where "qinv ns vs hi ti s" unfolding queue_inv_def by blast
  from queue_invI [OF qinv_enqueue_call [OF this call_enqueue.hyps(2)]] show ?case .
next
  case (call_dequeue s t)
  then obtain ns vs hi ti where "qinv ns vs hi ti s" unfolding queue_inv_def by blast
  from queue_invI [OF qinv_dequeue_call [OF this]] show ?case .
next
  case (step s b t s')
  then show ?case
    using thread_step_inv [of s t moved b] thread_step_active [of moved b t s s'] assms(2) by simp
qed

section \<open>The queue as a FIFO system\<close>

lemma shared_linked:
  assumes sh: "shared_inv ns vs hi ti s"
  shows "pos ns i a \<Longrightarrow> linked (q_heap (queue s)) a (drop (Suc i) vs)"
proof (induction "length ns - i" arbitrary: i a)
  case 0
  then show ?case by (simp add: pos_def)
next
  case (Suc m)
  have len: "length vs = length ns" using sh by (simp add: shared_inv_def Let_def)
  note n = shared_node [OF sh Suc.prems]
  show ?case
  proof (cases "Suc i < length ns")
    case True
    then have next_pos: "pos ns (Suc i) (ns ! Suc i)" by (simp add: pos_def)
    have "drop (Suc i) vs = vs ! Suc i # drop (Suc (Suc i)) vs" using True len by (simp add: Cons_nth_drop_Suc)
    then show ?thesis using n shared_node [OF sh next_pos] True Suc.hyps(1) [OF _ next_pos] Suc.hyps(2) by simp
  next
    case False
    then show ?thesis using n len by simp
  qed
qed

lemma linked_unique: "linked h a vs \<Longrightarrow> linked h a ws \<Longrightarrow> vs = ws"
proof (induction h a vs arbitrary: ws rule: linked.induct)
  case (1 h a)
  then show ?case by (cases ws) auto
next
  case (2 h a v vs)
  then show ?case by (cases ws) auto
qed

lemma queue_inv_balance:
  assumes "queue_inv s"
  shows "\<exists>vs. linked (q_heap (queue s)) (q_head (queue s)) vs \<and> enqs (hist s) = deqs (hist s) @ vs"
proof -
  obtain ns vs hi ti where sh: "shared_inv ns vs hi ti s" using assms by (auto simp: queue_inv_def qinv_def)
  then have "enqs (hist s) = deqs (hist s) @ drop (Suc hi) vs"
    by (simp add: shared_inv_def Let_def drop_Suc)
  then show ?thesis using shared_linked [OF sh shared_pos(1) [OF sh]] by blast
qed

interpretation lfq: fifo_system "reachable (\<lambda>v. v) d" "\<lambda>s. enqs (hist s)" "\<lambda>s. deqs (hist s)"
  "\<lambda>s vs. linked (q_heap (queue s)) (q_head (queue s)) vs"
  by unfold_locales (auto intro!: queue_inv_balance reachable_inv intro: linked_unique)

section \<open>Running a thread alone\<close>

fun solo :: "('v \<Rightarrow> 'v) \<Rightarrow> nat \<Rightarrow> nat \<Rightarrow> 'v qsys \<Rightarrow> 'v qsys option" where
  "solo moved 0 t s = Some s"
| "solo moved (Suc n) t s = do { s \<leftarrow> thread_step moved False t s; solo moved n t s }"

lemma solo_enqueue_last:
  assumes inv: "qinv ns vs hi ti s" and pc: "pcs s t = E44 n" and last: "Suc ti = length ns"
  shows "\<exists>s'. solo moved 5 t s = Some s' \<and> pcs s' t = EnqDone"
proof -
  have sh: "shared_inv ns vs hi ti s" and own: "own_inv ns s" using inv by (auto simp: qinv_def)
  obtain y where "q_heap (queue s) n = Some y" using own_node [OF own, of t n] pc by auto
  then show ?thesis using shared_node [OF sh shared_pos(2) [OF sh]] last pc
    by (simp add: eval_nat_numeral thread_step_def goto_def)
qed

lemma solo_enqueue_help:
  assumes inv: "qinv ns vs hi ti s" and pc: "pcs s t = E44 n" and lag: "Suc ti < length ns"
  shows "\<exists>s'. solo moved 4 t s = Some s' \<and> qinv ns vs hi (Suc ti) s' \<and> pcs s' t = E44 n"
proof -
  have sh: "shared_inv ns vs hi ti s" using inv by (simp add: qinv_def)
  let ?q = "cas_tail False (q_tail (queue s)) (ns ! Suc ti) (queue s)"
  have p: "pos ns (Suc ti) (ns ! Suc ti)" using lag by (simp add: pos_def)
  obtain ti' where ti': "qinv ns vs hi ti' (s\<lparr>queue := ?q\<rparr>)"
    using qinv_cas_tail [OF inv le_refl shared_pos(2) [OF sh] p] by blast
  then have "pos ns ti' (ns ! Suc ti)"
    using shared_pos(2) [of ns vs hi ti' "s\<lparr>queue := ?q\<rparr>"] by (simp add: qinv_def cas_tail_def)
  then have "ti' = Suc ti" using pos_inj [OF shared_pos(3) [OF sh] _ p] by blast
  then have "qinv ns vs hi (Suc ti) (goto t (E44 n) (s\<lparr>queue := ?q\<rparr>))"
    using ti' by (auto intro!: qinv_goto simp: pc)
  then show ?thesis using shared_node [OF sh shared_pos(2) [OF sh]] lag pc
    by (simp add: eval_nat_numeral thread_step_def goto_def)
qed

lemma solo_add: "solo moved (m + n) t s = Option.bind (solo moved m t s) (solo moved n t)"
proof (induction m arbitrary: s)
  case (Suc m)
  then show ?case by (cases "thread_step moved False t s") simp_all
qed simp

lemma solo_dequeue_empty:
  assumes inv: "qinv ns vs hi ti s" and pc: "pcs s t = D76" and e: "Suc hi = length ns"
  shows "\<exists>s'. solo moved 4 t s = Some s' \<and> pcs s' t = DeqDone None"
proof -
  have sh: "shared_inv ns vs hi ti s" using inv by (simp add: qinv_def)
  moreover from this have "ti = hi" using e by (auto simp: shared_inv_def Let_def)
  ultimately have "q_tail (queue s) = q_head (queue s)" by (simp add: shared_inv_def Let_def)
  then show ?thesis using shared_node [OF sh shared_pos(1) [OF sh]] e pc
    by (simp add: eval_nat_numeral thread_step_def goto_def)
qed

lemma solo_dequeue_some:
  assumes inv: "qinv ns vs hi ti s" and pc: "pcs s t = D76" and ne: "hi < ti"
  shows "\<exists>s'. solo moved 6 t s = Some s' \<and> pcs s' t = DeqDone (Some (vs ! Suc hi))"
proof -
  have sh: "shared_inv ns vs hi ti s" using inv by (simp add: qinv_def)
  have "q_tail (queue s) \<noteq> q_head (queue s)"
    using pos_inj [OF shared_pos(3,1) [OF sh], of ti] shared_pos(2) [OF sh] ne by auto
  moreover have l: "Suc hi < length ns" using ne sh by (auto simp: shared_inv_def Let_def)
  then have "pos ns (Suc hi) (ns ! Suc hi)" by (simp add: pos_def)
  ultimately show ?thesis using shared_node [OF sh shared_pos(1) [OF sh]] shared_node [OF sh] l pc
    by (simp add: eval_nat_numeral thread_step_def goto_def set_data_def)
qed

lemma solo_dequeue_help:
  assumes inv: "qinv ns vs hi ti s" and pc: "pcs s t = D76" and lag: "Suc ti < length ns" "hi = ti"
  shows "\<exists>s'. solo moved 5 t s = Some s' \<and> qinv ns vs hi (Suc ti) s' \<and> pcs s' t = D76"
proof -
  have sh: "shared_inv ns vs hi ti s" using inv by (simp add: qinv_def)
  let ?q = "cas_tail False (q_tail (queue s)) (ns ! Suc ti) (queue s)"
  let ?s = "s\<lparr>saw_empty := (saw_empty s)(t := False)\<rparr>"
  have p: "pos ns (Suc ti) (ns ! Suc ti)" using lag by (simp add: pos_def)
  have invs: "qinv ns vs hi ti ?s" by (rule qinv_saw [OF inv]) (simp add: pc)
  obtain ti' where ti': "qinv ns vs hi ti' (?s\<lparr>queue := ?q\<rparr>)"
    using qinv_cas_tail [OF invs le_refl _ p, of "q_tail (queue s)" False] shared_pos(2) [OF sh] by auto
  then have "pos ns ti' (ns ! Suc ti)"
    using shared_pos(2) [of ns vs hi ti' "?s\<lparr>queue := ?q\<rparr>"] by (simp add: qinv_def cas_tail_def)
  then have "ti' = Suc ti" using pos_inj [OF shared_pos(3) [OF sh] _ p] by blast
  then have "qinv ns vs hi (Suc ti) (goto t D76 (?s\<lparr>queue := ?q\<rparr>))"
    using ti' by (auto intro!: qinv_goto)
  moreover have "q_tail (queue s) = q_head (queue s)" using lag sh by (auto simp: shared_inv_def Let_def)
  ultimately show ?thesis using shared_node [OF sh shared_pos(1) [OF sh]] lag pc
    by (simp add: eval_nat_numeral thread_step_def goto_def)
qed

text \<open>Schedules, for concrete executions: a call or a step of one thread.\<close>

datatype 'v action = CallEnqueue nat 'v | CallDequeue nat | Run bool nat

fun act :: "('v \<Rightarrow> 'v) \<Rightarrow> 'v action \<Rightarrow> 'v qsys \<Rightarrow> 'v qsys option" where
  "act moved (CallEnqueue t v) s = (if ready (pcs s t) then Some (enqueue_call t v s) else None)"
| "act moved (CallDequeue t) s = (if ready (pcs s t) then Some (dequeue_call t s) else None)"
| "act moved (Run b t) s = thread_step moved b t s"

fun schedule :: "('v \<Rightarrow> 'v) \<Rightarrow> 'v action list \<Rightarrow> 'v qsys \<Rightarrow> 'v qsys option" where
  "schedule moved [] s = Some s"
| "schedule moved (a # as) s = do { s \<leftarrow> act moved a s; schedule moved as s }"

lemma schedule_reachable:
  "reachable moved d s \<Longrightarrow> schedule moved as s = Some s' \<Longrightarrow> reachable moved d s'"
proof (induction as arbitrary: s)
  case (Cons a as)
  then obtain s1 where s1: "act moved a s = Some s1" "schedule moved as s1 = Some s'"
    by (auto simp: bind_eq_Some_conv)
  then have "reachable moved d s1"
    using Cons.prems(1) by (cases a) (auto split: if_splits intro: reachable.intros)
  then show ?case using Cons.IH s1(2) by blast
qed simp

lemma called: "reachable moved d (dequeue_call t (qsys_new d))"
  by (rule reachable.call_dequeue [OF reachable.start]) (simp add: qsys_new_def)

section \<open>Properties\<close>

lemma reachable_steps:
  assumes "reachable moved d s" and "\<And>v. moved v = v" and "\<not> ready (pcs s t)"
  shows "\<exists>s'. thread_step moved b t s = Some s' \<and> reachable moved d s'"
proof -
  obtain s' where "thread_step moved b t s = Some s'"
    using thread_step_inv [OF reachable_inv [OF assms(1,2)] assms(3,2)] by (auto elim!: runsE)
  with reachable.step [OF assms(1) this] show ?thesis by simp
qed

lemma reachable_saw_empty:
  assumes "reachable moved d s" and "\<And>v. moved v = v"
  shows "(pcs s t = DeqDone None \<longrightarrow> saw_empty s t) \<and>
    (\<forall>hp tp b s'. pcs s t = D78 hp tp \<longrightarrow> thread_step moved b t s = Some s' \<longrightarrow>
      saw_empty s' t = linked (q_heap (queue s)) (q_head (queue s)) [])"
proof -
  obtain ns vs hi ti where inv: "qinv ns vs hi ti s"
    using reachable_inv [OF assms] by (auto simp: queue_inv_def)
  show ?thesis using qinv_local [OF inv, of t]
    by (auto simp: thread_step_def goto_def bind_eq_Some_conv)
qed

text \<open>C14. Linearizable FIFO order: for types whose move is a copy, in every state any interleaving of
  any number of threads can reach, the values whose enqueue took effect are, in that order, the
  values returned by dequeues followed by the values in the linked list. So no value is lost,
  duplicated or reordered. A dequeue that reports an empty queue is right: the queue was empty at the moment the
  thread loaded the head node's link, which is within the call. And every thread inside \<open>enqueue\<close> or \<open>dequeue\<close> can take
  its next step without dereferencing a null or unallocated node, whether or not a compare-exchange fails
  spuriously.\<close>

theorem lfq_linearizable:
  assumes "reachable moved d s" and "\<And>v. moved v = v"
  shows "(\<exists>vs. linked (q_heap (queue s)) (q_head (queue s)) vs \<and> enqs (hist s) = deqs (hist s) @ vs) \<and>
    (\<forall>t. (pcs s t = DeqDone None \<longrightarrow> saw_empty s t) \<and>
      (\<forall>hp tp b s'. pcs s t = D78 hp tp \<longrightarrow> thread_step moved b t s = Some s' \<longrightarrow>
        saw_empty s' t = linked (q_heap (queue s)) (q_head (queue s)) [])) \<and>
    (\<forall>t b. \<not> ready (pcs s t) \<longrightarrow> (\<exists>s'. thread_step moved b t s = Some s' \<and> reachable moved d s'))"
  using queue_inv_balance [OF reachable_inv [OF assms]] reachable_saw_empty [OF assms] reachable_steps [OF assms] by blast

theorem lfq_linearizable_witness:
  "\<exists>s. schedule (\<lambda>v. v) [CallEnqueue 0 (7::nat), CallEnqueue 1 8, Run False 0, Run False 1, Run False 0, Run False 1,
       Run False 0, Run False 1, Run False 1, Run False 0] (qsys_new 0) = Some s \<and>
     (\<exists>vs. linked (q_heap (queue s)) (q_head (queue s)) vs \<and> enqs (hist s) = deqs (hist s) @ vs)"
proof -
  obtain s where s: "schedule (\<lambda>v. v) [CallEnqueue 0 (7::nat), CallEnqueue 1 8, Run False 0, Run False 1, Run False 0,
      Run False 1, Run False 0, Run False 1, Run False 1, Run False 0] (qsys_new 0) = Some s"
    by (simp add: qsys_new_def queue_new_def enqueue_call_def goto_def thread_step_def set_next_def Let_def)
  from lfq_linearizable [OF schedule_reachable [OF reachable.start s]] s show ?thesis by blast
qed

text \<open>C15. Obstruction freedom: from any reachable state, a thread that runs alone and sees no
  spurious failure finishes an enqueue within 9 and a dequeue within 11 steps from the loop
  head.\<close>

theorem lfq_solo_terminates:
  assumes "reachable moved d s" and "\<And>v. moved v = v"
  shows "(\<forall>n. pcs s t = E44 n \<longrightarrow> (\<exists>k\<le>9. \<exists>s'. solo moved k t s = Some s' \<and> pcs s' t = EnqDone)) \<and>
    (pcs s t = D76 \<longrightarrow> (\<exists>k\<le>11. \<exists>s' r. solo moved k t s = Some s' \<and> pcs s' t = DeqDone r))"
proof (intro conjI allI impI)
  obtain ns vs hi ti where inv: "qinv ns vs hi ti s"
    using reachable_inv [OF assms] by (auto simp: queue_inv_def)
  then have bounds: "hi \<le> ti" "ti < length ns" "length ns \<le> ti + 2"
    by (auto simp: qinv_def shared_inv_def Let_def)
  show "\<exists>k\<le>9. \<exists>s'. solo moved k t s = Some s' \<and> pcs s' t = EnqDone" if pc: "pcs s t = E44 n" for n
  proof (cases "Suc ti = length ns")
    case True
    then show ?thesis using solo_enqueue_last [OF inv pc] by (intro exI [of _ 5]) simp
  next
    case False
    then obtain s1 where s1: "solo moved 4 t s = Some s1" "qinv ns vs hi (Suc ti) s1" "pcs s1 t = E44 n"
      using solo_enqueue_help [OF inv pc, of moved] bounds by auto
    then show ?thesis using solo_enqueue_last [OF s1(2,3), of moved] solo_add [of moved 4 5 t s] False bounds
      by (intro exI [of _ 9]) auto
  qed
  show "\<exists>k\<le>11. \<exists>s' r. solo moved k t s = Some s' \<and> pcs s' t = DeqDone r" if pc: "pcs s t = D76"
  proof -
    consider "hi < ti" | "hi = ti" "Suc ti < length ns" | "Suc hi = length ns" using bounds by linarith
    then show ?thesis
    proof cases
      case 1
      then show ?thesis using solo_dequeue_some [OF inv pc, of moved] by (intro exI [of _ 6]) auto
    next
      case 2
      then obtain s1 where s1: "solo moved 5 t s = Some s1" "qinv ns vs hi (Suc ti) s1" "pcs s1 t = D76"
        using solo_dequeue_help [OF inv pc, of moved] by auto
      then show ?thesis using solo_dequeue_some [OF s1(2,3), of moved] solo_add [of moved 5 6 t s] 2
        by (intro exI [of _ 11]) auto
    next
      case 3
      then show ?thesis using solo_dequeue_empty [OF inv pc, of moved] by (intro exI [of _ 4]) auto
    qed
  qed
qed

theorem lfq_solo_terminates_witness:
  "\<exists>k\<le>11. \<exists>s' r. solo (\<lambda>v. v) k 0 (dequeue_call 0 (qsys_new (0::nat))) = Some s' \<and> pcs s' 0 = DeqDone r"
  using lfq_solo_terminates [OF called [of "\<lambda>v. v" 0 0], of 0] by (simp add: dequeue_call_def goto_def)

text \<open>C16. When moving out of a node leaves an empty value behind, as for strings or smart pointers,
  the queue can lose a value: an enqueued 7, a dequeue whose compare-exchange fails once
  spuriously, and the dequeue returns the empty value 0.\<close>

theorem lfq_move_loses_value:
  "\<exists>s. reachable (\<lambda>v. 0) 0 s \<and> enqs (hist s) = [7::nat] \<and> pcs s 0 = DeqDone (Some 0)"
proof -
  obtain s where "schedule (\<lambda>v. 0) ([CallEnqueue 0 7] @ replicate 5 (Run False 0) @ [CallDequeue 0] @
      replicate 5 (Run False 0) @ [Run True 0] @ replicate 6 (Run False 0)) (qsys_new (0::nat)) = Some s"
      "enqs (hist s) = [7]" "pcs s 0 = DeqDone (Some 0)"
    by (simp add: eval_nat_numeral qsys_new_def queue_new_def enqueue_call_def dequeue_call_def goto_def
        thread_step_def set_next_def set_data_def cas_tail_def Let_def)
  with schedule_reachable [OF reachable.start this(1)] show ?thesis by auto
qed

end
