(* ===== verification/LockfreeQueue_Test.thy ===== *)
theory LockfreeQueue_Test
  imports LockfreeQueue "HOL-Library.Sublist"
begin

text \<open>
  \<open>test_queue\<close> and the destructor of \<open>atomic/LockfreeQueue.cpp\<close> (lines 116 to 191 and 35 to 38): the main thread
  enqueues and dequeues three values and asserts that the queue is empty, then starts five consumers and five
  producers, joins them, and reports two counters and whether the queue is empty.

  Thread 10 is the main thread, threads 0 to 4 are the consumers, 5 to 9 the producers. A thread is inside a call of
  the queue, where it takes the steps of \<open>thread_step\<close>, or between two calls, where it takes the steps of
  \<open>client_step\<close>; all of them interleave.

  Proved: in every interleaving the lines main has written are the first of those the test expects, the assertion
  holds, and when main ends both counters are 1000 and the queue is empty.
\<close>

section \<open>The program\<close>

definition num_producers :: nat where "num_producers = 5"
definition num_consumers :: nat where "num_consumers = 5"
definition items_per_producer :: nat where "items_per_producer = 200"

definition quota :: nat where
  "quota = items_per_producer * num_producers div num_consumers"

text \<open>The point a thread has reached: before its first statement, in a consumer's loop, in a producer's loop, or
  in main. \<open>CDeq\<close>, \<open>PEnq\<close>, \<open>MEnqRet\<close>, \<open>MDeqRet\<close> and \<open>MDtorRet\<close> wait for a call to return.\<close>

datatype tprog = NotStarted
  | CLoop nat | CDeq nat | CGot nat | CDone
  | PLoop nat | PEnq nat | PAdd nat | PDone
  | MEnq nat | MEnqRet nat | MDeq nat | MDeqRet nat | MAssert | MSpawn nat | MReport | MDtor | MDtorRet | MDone | MAbort

record qtest =
  sys :: "int qsys"
  prog :: "nat \<Rightarrow> tprog"
  produced :: nat
  consumed :: nat
  out :: "string list"

definition qtest_init :: qtest where
  "qtest_init = \<lparr>sys = qsys_new 0, prog = (\<lambda>_. NotStarted)(10 := MEnq 0), produced = 0, consumed = 0, out = []\<rparr>"

definition step_to :: "nat \<Rightarrow> tprog \<Rightarrow> qtest \<Rightarrow> qtest" where
  "step_to t p q = q\<lparr>prog := (prog q)(t := p)\<rparr>"

definition call_enq :: "nat \<Rightarrow> int \<Rightarrow> qtest \<Rightarrow> qtest" where
  "call_enq t v q = q\<lparr>sys := enqueue_call t v (sys q)\<rparr>"

definition call_deq :: "nat \<Rightarrow> qtest \<Rightarrow> qtest" where
  "call_deq t q = q\<lparr>sys := dequeue_call t (sys q)\<rparr>"

definition emit :: "string list \<Rightarrow> qtest \<Rightarrow> qtest" where
  "emit ls q = q\<lparr>out := out q @ ls\<rparr>"

fun consumer :: "nat \<Rightarrow> tprog \<Rightarrow> qtest \<Rightarrow> qtest option" where
  "consumer t (CLoop n) q = Some (if n < quota then step_to t (CDeq n) (call_deq t q) else step_to t CDone q)"
| "consumer t (CDeq n) q = (case pcs (sys q) t of
     DeqDone None \<Rightarrow> Some (step_to t (CLoop n) q) | DeqDone (Some v) \<Rightarrow> Some (step_to t (CGot n) q) | _ \<Rightarrow> None)"
| "consumer t (CGot n) q = Some (step_to t (CLoop (Suc n)) (q\<lparr>consumed := Suc (consumed q)\<rparr>))"
| "consumer t _ q = None"

fun producer :: "nat \<Rightarrow> tprog \<Rightarrow> qtest \<Rightarrow> qtest option" where
  "producer t (PLoop j) q = Some (if j < items_per_producer
     then step_to t (PEnq j) (call_enq t (int (t - num_consumers) * int items_per_producer + int j) q) else step_to t PDone q)"
| "producer t (PEnq j) q = (case pcs (sys q) t of EnqDone \<Rightarrow> Some (step_to t (PAdd j) q) | _ \<Rightarrow> None)"
| "producer t (PAdd j) q = Some (step_to t (PLoop (Suc j)) (q\<lparr>produced := Suc (produced q)\<rparr>))"
| "producer t _ q = None"

definition test_line :: "nat \<Rightarrow> int option \<Rightarrow> string list" where
  "test_line k r = (case r of
     Some v \<Rightarrow> if k < 3 \<and> v = int k + 1 then [''Test '' @ show_nat (Suc k) @ '' passed: '' @ show_int v] else []
   | None \<Rightarrow> if k = 3 then [''Test 4 passed: queue empty''] else [])"

definition test_report :: "nat \<Rightarrow> nat \<Rightarrow> bool \<Rightarrow> string" where
  "test_report p c e = ''Produced: '' @ show_nat p @ '', Consumed: '' @ show_nat c @ '', Final queue empty: '' @
     (if e then ''yes'' else ''no'')"

text \<open>The destructor of the queue.\<close>

fun queue_dtor :: "nat \<Rightarrow> tprog \<Rightarrow> qtest \<Rightarrow> qtest option" where
  "queue_dtor t MDtor q = Some (step_to t MDtorRet (call_deq t q))"
| "queue_dtor t MDtorRet q = (case pcs (sys q) t of
     DeqDone None \<Rightarrow> Some (step_to t MDone q) | DeqDone (Some v) \<Rightarrow> Some (step_to t MDtor q) | _ \<Rightarrow> None)"
| "queue_dtor t _ q = None"

fun main_thread :: "nat \<Rightarrow> tprog \<Rightarrow> qtest \<Rightarrow> qtest option" where
  "main_thread t (MEnq k) q = Some (step_to t (MEnqRet k) (call_enq t (int k + 1) q))"
| "main_thread t (MEnqRet k) q = (case pcs (sys q) t of
     EnqDone \<Rightarrow> Some (step_to t (if k < 2 then MEnq (Suc k) else MDeq 0) q) | _ \<Rightarrow> None)"
| "main_thread t (MDeq k) q = Some (step_to t (MDeqRet k) (call_deq t q))"
| "main_thread t (MDeqRet k) q = (case pcs (sys q) t of
     DeqDone r \<Rightarrow> Some (step_to t (if k < 3 then MDeq (Suc k) else MAssert) (emit (test_line k r) q)) | _ \<Rightarrow> None)"
| "main_thread t MAssert q = do {
     e \<leftarrow> q_is_empty (queue (sys q)) (queue (sys q)) (queue (sys q));
     Some (if e then step_to t (MSpawn 0) (emit ['''', ''Starting concurrent test...''] q) else step_to t MAbort q) }"
| "main_thread t (MSpawn i) q =
     (if i < num_consumers then Some (step_to t (MSpawn (Suc i)) (step_to i (CLoop 0) q))
      else if i < num_consumers + num_producers then Some (step_to t (MSpawn (Suc i)) (step_to i (PLoop 0) q))
      else if list_all (\<lambda>i. prog q i = CDone \<or> prog q i = PDone) [0..<num_consumers + num_producers] then Some (step_to t MReport q)
      else None)"
| "main_thread t MReport q = do {
     e \<leftarrow> q_is_empty (queue (sys q)) (queue (sys q)) (queue (sys q));
     Some (step_to t MDtor (emit [test_report (produced q) (consumed q) e] q)) }"
| "main_thread t p q = queue_dtor t p q"

definition client_step :: "nat \<Rightarrow> qtest \<Rightarrow> qtest option" where
  "client_step t q = (if t < num_consumers then consumer t (prog q t) q
     else if t < num_consumers + num_producers then producer t (prog q t) q
     else if t = 10 then main_thread t (prog q t) q else None)"

inductive qtest_step :: "qtest \<Rightarrow> qtest \<Rightarrow> bool" where
  in_queue: "thread_step (\<lambda>v. v) b t (sys q) = Some s \<Longrightarrow> qtest_step q (q\<lparr>sys := s\<rparr>)"
| client: "client_step t q = Some q' \<Longrightarrow> qtest_step q q'"

inductive qtest_reach :: "qtest \<Rightarrow> bool" where
  start: "qtest_reach qtest_init"
| step: "qtest_reach q \<Longrightarrow> qtest_step q q' \<Longrightarrow> qtest_reach q'"

lemmas test_consts = num_producers_def num_consumers_def items_per_producer_def quota_def

lemmas client_defs = step_to_def call_enq_def call_deq_def emit_def enqueue_call_def dequeue_call_def goto_def Let_def

section \<open>What a step of the queue does to a thread\<close>

fun enq_flag :: "'v pc \<Rightarrow> nat" where
  "enq_flag (E57 n t) = 1"
| "enq_flag EnqDone = 1"
| "enq_flag _ = 0"

fun deq_flag :: "'v pc \<Rightarrow> nat" where
  "deq_flag (DeqDone (Some v)) = 1"
| "deq_flag _ = 0"

fun in_enq :: "'v pc \<Rightarrow> bool" where
  "in_enq EnqDone = True"
| "in_enq p = enqueuing p"

fun in_deq :: "'v pc \<Rightarrow> bool" where
  "in_deq Idle = False"
| "in_deq p = (\<not> in_enq p)"

lemma thread_step_other: "thread_step moved b t s = Some s' \<Longrightarrow> u \<noteq> t \<Longrightarrow> pcs s' u = pcs s u"
  by (cases "pcs s t") (auto simp: thread_step_def goto_def bind_eq_Some_conv split: if_splits)

lemma thread_step_flags:
  assumes "thread_step moved b t s = Some s'"
  shows "length (enqs (hist s')) + enq_flag (pcs s t) = length (enqs (hist s)) + enq_flag (pcs s' t)"
    and "length (deqs (hist s')) + deq_flag (pcs s t) = length (deqs (hist s)) + deq_flag (pcs s' t)"
  using assms
  by (cases "pcs s t"; auto simp: thread_step_def goto_def bind_eq_Some_conv split: if_splits option.splits)+

lemma thread_step_in:
  assumes "thread_step moved b t s = Some s'"
  shows "in_enq (pcs s t) \<Longrightarrow> in_enq (pcs s' t)" and "in_deq (pcs s t) \<Longrightarrow> in_deq (pcs s' t)"
  using assms
  by (cases "pcs s t"; auto simp: thread_step_def goto_def bind_eq_Some_conv split: if_splits option.splits)+

lemma in_enq_flag: "in_enq p \<Longrightarrow> deq_flag p = 0"
  by (cases p) auto

lemma in_deq_flag: "in_deq p \<Longrightarrow> enq_flag p = 0"
  by (cases p) auto

lemma ready_or_in: "\<not> ready p \<Longrightarrow> in_enq p \<or> in_deq p"
  by (cases p) auto

section \<open>Counting\<close>

text \<open>How often the enqueues and dequeues of a thread have taken effect.\<close>

fun enq_count :: "tprog \<Rightarrow> 'v pc \<Rightarrow> nat" where
  "enq_count (PLoop j) p = j"
| "enq_count (PEnq j) p = j + enq_flag p"
| "enq_count (PAdd j) p = Suc j"
| "enq_count PDone p = 200"
| "enq_count (MEnq k) p = k"
| "enq_count (MEnqRet k) p = k + enq_flag p"
| "enq_count NotStarted p = 0"
| "enq_count (CLoop n) p = 0"
| "enq_count (CDeq n) p = 0"
| "enq_count (CGot n) p = 0"
| "enq_count CDone p = 0"
| "enq_count _ p = 3"

fun deq_count :: "tprog \<Rightarrow> 'v pc \<Rightarrow> nat" where
  "deq_count (CLoop n) p = n"
| "deq_count (CDeq n) p = n + deq_flag p"
| "deq_count (CGot n) p = Suc n"
| "deq_count CDone p = 200"
| "deq_count (MDeq k) p = min k 3"
| "deq_count (MDeqRet k) p = min k 3 + deq_flag p"
| "deq_count MDtorRet p = 3 + deq_flag p"
| "deq_count MAssert p = 3"
| "deq_count (MSpawn i) p = 3"
| "deq_count MReport p = 3"
| "deq_count MDtor p = 3"
| "deq_count MDone p = 3"
| "deq_count _ p = 0"

fun pro_count :: "tprog \<Rightarrow> nat" where
  "pro_count (PLoop j) = j"
| "pro_count (PEnq j) = j"
| "pro_count (PAdd j) = j"
| "pro_count PDone = 200"
| "pro_count _ = 0"

fun con_count :: "tprog \<Rightarrow> nat" where
  "con_count (CLoop n) = n"
| "con_count (CDeq n) = n"
| "con_count (CGot n) = n"
| "con_count CDone = 200"
| "con_count _ = 0"

lemma sum_change:
  fixes f g :: "nat \<Rightarrow> nat"
  assumes "t < m" and "\<And>u. u \<noteq> t \<Longrightarrow> g u = f u"
  shows "(\<Sum>u<m. g u) + f t = (\<Sum>u<m. f u) + g t"
proof -
  have "(\<Sum>u\<in>{..<m} - {t}. g u) = (\<Sum>u\<in>{..<m} - {t}. f u)" by (rule sum.cong) (use assms(2) in auto)
  with assms(1) show ?thesis by (simp add: sum.remove [of "{..<m}" t])
qed

section \<open>Where the threads can be\<close>

fun prog_ok :: "tprog \<Rightarrow> 'v pc \<Rightarrow> bool" where
  "prog_ok (CLoop n) p \<longleftrightarrow> ready p \<and> n \<le> 200"
| "prog_ok (CDeq n) p \<longleftrightarrow> in_deq p \<and> n < 200"
| "prog_ok (CGot n) p \<longleftrightarrow> ready p \<and> n < 200"
| "prog_ok (PLoop j) p \<longleftrightarrow> ready p \<and> j \<le> 200"
| "prog_ok (PEnq j) p \<longleftrightarrow> in_enq p \<and> j < 200"
| "prog_ok (PAdd j) p \<longleftrightarrow> ready p \<and> j < 200"
| "prog_ok (MEnq k) p \<longleftrightarrow> ready p \<and> k < 3"
| "prog_ok (MEnqRet k) p \<longleftrightarrow> in_enq p \<and> k < 3"
| "prog_ok (MDeq k) p \<longleftrightarrow> ready p \<and> k < 4"
| "prog_ok (MDeqRet k) p \<longleftrightarrow> in_deq p \<and> k < 4"
| "prog_ok (MSpawn i) p \<longleftrightarrow> ready p \<and> i \<le> 10"
| "prog_ok MDtorRet p \<longleftrightarrow> in_deq p"
| "prog_ok MAbort p \<longleftrightarrow> False"
| "prog_ok _ p \<longleftrightarrow> ready p"

fun is_main :: "tprog \<Rightarrow> bool" where
  "is_main (MEnq k) = True"
| "is_main (MEnqRet k) = True"
| "is_main (MDeq k) = True"
| "is_main (MDeqRet k) = True"
| "is_main MAssert = True"
| "is_main (MSpawn i) = True"
| "is_main MReport = True"
| "is_main MDtor = True"
| "is_main MDtorRet = True"
| "is_main MDone = True"
| "is_main MAbort = True"
| "is_main _ = False"

fun is_consumer :: "tprog \<Rightarrow> bool" where
  "is_consumer (CLoop n) = True"
| "is_consumer (CDeq n) = True"
| "is_consumer (CGot n) = True"
| "is_consumer CDone = True"
| "is_consumer _ = False"

fun is_producer :: "tprog \<Rightarrow> bool" where
  "is_producer (PLoop n) = True"
| "is_producer (PEnq n) = True"
| "is_producer (PAdd n) = True"
| "is_producer PDone = True"
| "is_producer _ = False"

text \<open>How many threads main has started, and whether it has joined them.\<close>

fun spawned :: "tprog \<Rightarrow> nat" where
  "spawned (MSpawn i) = i"
| "spawned MReport = 10"
| "spawned MDtor = 10"
| "spawned MDtorRet = 10"
| "spawned MDone = 10"
| "spawned _ = 0"

definition all_joined :: "tprog \<Rightarrow> bool" where
  "all_joined p \<longleftrightarrow> p = MReport \<or> p = MDtor \<or> p = MDtorRet \<or> p = MDone"

definition workers_done :: "(nat \<Rightarrow> tprog) \<Rightarrow> bool" where
  "workers_done f \<longleftrightarrow> (\<forall>t<5. f t = CDone) \<and> (\<forall>t<10. 5 \<le> t \<longrightarrow> f t = PDone)"

definition role_ok :: "nat \<Rightarrow> (nat \<Rightarrow> tprog) \<Rightarrow> bool" where
  "role_ok t f \<longleftrightarrow>
     (if t = 10 then is_main (f t)
      else if spawned (f 10) \<le> t then f t = NotStarted
      else if t < 5 then is_consumer (f t) else is_producer (f t))"

definition place_inv :: "int qsys \<Rightarrow> (nat \<Rightarrow> tprog) \<Rightarrow> bool" where
  "place_inv s f \<longleftrightarrow> reachable (\<lambda>v. v) 0 s \<and> (\<forall>t. prog_ok (f t) (pcs s t)) \<and>
     (\<forall>t. role_ok t f) \<and> spawned (f 10) \<le> 10 \<and>
     (all_joined (f 10) \<longrightarrow> workers_done f)"

lemma prog_ok_step:
  assumes "prog_ok p (pcs s t)" and "thread_step moved b t s = Some s'"
  shows "prog_ok p (pcs s' t)"
  using assms thread_step_active [OF assms(2)] thread_step_in [OF assms(2)] by (cases p) auto

lemma place_invD:
  assumes "place_inv s f"
  shows "reachable (\<lambda>v. v) 0 s" and "prog_ok (f t) (pcs s t)" and "role_ok t f"
    and "spawned (f 10) \<le> 10" and "all_joined (f 10) \<Longrightarrow> t < 5 \<Longrightarrow> f t = CDone"
    and "all_joined (f 10) \<Longrightarrow> 5 \<le> t \<Longrightarrow> t < 10 \<Longrightarrow> f t = PDone"
  using assms unfolding place_inv_def workers_done_def by blast+

lemma place_invI:
  assumes "reachable (\<lambda>v. v) 0 s" and "\<And>t. prog_ok (f t) (pcs s t)" and "\<And>t. role_ok t f"
    and "spawned (f 10) \<le> 10" and "\<And>t. all_joined (f 10) \<Longrightarrow> t < 5 \<Longrightarrow> f t = CDone"
    and "\<And>t. all_joined (f 10) \<Longrightarrow> 5 \<le> t \<Longrightarrow> t < 10 \<Longrightarrow> f t = PDone"
  shows "place_inv s f"
  using assms unfolding place_inv_def workers_done_def by blast

lemma place_inv_queue:
  assumes inv: "place_inv s f" and st: "thread_step (\<lambda>v. v) b t s = Some s'"
  shows "place_inv s' f"
proof (rule place_invI)
  show "prog_ok (f u) (pcs s' u)" for u
  proof (cases "u = t")
    case True
    with prog_ok_step [OF place_invD(2) [OF inv, of t] st] show ?thesis by simp
  next
    case False
    with place_invD(2) [OF inv, of u] thread_step_other [OF st False] show ?thesis by simp
  qed
  show "reachable (\<lambda>v. v) 0 s'" using reachable.step [OF place_invD(1) [OF inv] st] .
qed (use place_invD [OF inv] in blast)+

lemma stepping_thread:
  assumes "place_inv s f" and "thread_step (\<lambda>v. v) b t s = Some s'"
  shows "t < 11" and "f t \<noteq> NotStarted"
proof -
  show ns: "f t \<noteq> NotStarted"
    using place_invD(2) [OF assms(1), of t] thread_step_active [OF assms(2)] by auto
  then show "t < 11" using place_invD(3) [OF assms(1), of t] place_invD(4) [OF assms(1)] unfolding role_ok_def
    by (cases "t = 10") (auto split: if_splits)
qed

text \<open>A thread other than main moves on within its loop.\<close>

lemma place_inv_worker:
  assumes inv: "place_inv s f" and t: "t < 10" and reach: "reachable (\<lambda>v. v) 0 s'"
    and other: "\<And>u. u \<noteq> t \<Longrightarrow> pcs s' u = pcs s u" and ok: "prog_ok p (pcs s' t)"
    and role: "is_consumer p = is_consumer (f t)" "is_producer p = is_producer (f t)"
    and live: "f t \<noteq> NotStarted" "f t \<noteq> CDone" "f t \<noteq> PDone"
  shows "place_inv s' (f(t := p))"
proof (rule place_invI)
  show "prog_ok ((f(t := p)) u) (pcs s' u)" for u
    using ok other [of u] place_invD(2) [OF inv, of u] by (cases "u = t") auto
  show "role_ok u (f(t := p))" for u
    using place_invD(3) [OF inv, of u] t role live by (cases "u = t") (auto simp: role_ok_def)
  have "\<not> all_joined (f 10)" using place_invD(5,6) [OF inv, of t] t live by (cases "t < 5") auto
  then show "u < 5 \<Longrightarrow> (f(t := p)) u = CDone" "5 \<le> u \<Longrightarrow> u < 10 \<Longrightarrow> (f(t := p)) u = PDone"
    if "all_joined ((f(t := p)) 10)" for u using that t by auto
qed (use reach place_invD(4) [OF inv] t in auto)

text \<open>Main moves on.\<close>

lemma place_inv_main:
  assumes inv: "place_inv s f" and reach: "reachable (\<lambda>v. v) 0 s'"
    and other: "\<And>u. u \<noteq> 10 \<Longrightarrow> pcs s' u = pcs s u" and ok: "prog_ok p (pcs s' 10)" and main: "is_main p"
    and sp: "spawned p = spawned (f 10)" and joined: "all_joined p \<Longrightarrow> all_joined (f 10) \<or> workers_done f"
  shows "place_inv s' (f(10 := p))"
proof (rule place_invI)
  show "prog_ok ((f(10 := p)) u) (pcs s' u)" for u
    using ok other [of u] place_invD(2) [OF inv, of u] by (cases "u = 10") auto
  show "role_ok u (f(10 := p))" for u
    using place_invD(3) [OF inv, of u] main sp by (cases "u = 10") (auto simp: role_ok_def)
  show "u < 5 \<Longrightarrow> (f(10 := p)) u = CDone" "5 \<le> u \<Longrightarrow> u < 10 \<Longrightarrow> (f(10 := p)) u = PDone"
    if "all_joined ((f(10 := p)) 10)" for u
    using that joined place_invD(5,6) [OF inv, of u] by (auto simp: workers_done_def)
qed (use reach place_invD(4) [OF inv] sp in auto)

section \<open>The counts\<close>

definition count_inv :: "int qsys \<Rightarrow> (nat \<Rightarrow> tprog) \<Rightarrow> bool" where
  "count_inv s f \<longleftrightarrow> length (enqs (hist s)) = (\<Sum>t<11. enq_count (f t) (pcs s t)) \<and>
     length (deqs (hist s)) = (\<Sum>t<11. deq_count (f t) (pcs s t))"

lemma count_flags:
  assumes "prog_ok p c" and "prog_ok p c'" and "\<not> ready c"
  shows "enq_count p c' + enq_flag c = enq_count p c + enq_flag c'"
    and "deq_count p c' + deq_flag c = deq_count p c + deq_flag c'"
  using assms by (cases p; simp add: in_enq_flag in_deq_flag)+

lemma count_inv_queue:
  assumes inv: "place_inv s f" and "count_inv s f" and st: "thread_step (\<lambda>v. v) b t s = Some s'"
  shows "count_inv s' f"
proof -
  note t = stepping_thread(1) [OF inv st]
  have ok: "prog_ok (f t) (pcs s t)" "prog_ok (f t) (pcs s' t)" "\<not> ready (pcs s t)"
    using place_invD(2) [OF inv, of t] prog_ok_step [OF _ st] thread_step_active [OF st] by auto
  have "(\<Sum>u<11. enq_count (f u) (pcs s' u)) + enq_count (f t) (pcs s t) =
      (\<Sum>u<11. enq_count (f u) (pcs s u)) + enq_count (f t) (pcs s' t)"
    "(\<Sum>u<11. deq_count (f u) (pcs s' u)) + deq_count (f t) (pcs s t) =
      (\<Sum>u<11. deq_count (f u) (pcs s u)) + deq_count (f t) (pcs s' t)"
    using thread_step_other [OF st] by (auto intro!: sum_change [OF t])
  then show ?thesis using thread_step_flags [OF st] count_flags [OF ok] assms(2) unfolding count_inv_def by linarith
qed

lemma count_inv_client:
  assumes "count_inv s f" and "hist s' = hist s"
    and "\<And>u. enq_count (f' u) (pcs s' u) = enq_count (f u) (pcs s u) \<and> deq_count (f' u) (pcs s' u) = deq_count (f u) (pcs s u)"
  shows "count_inv s' f'"
  using assms by (simp add: count_inv_def)

text \<open>Once the threads have been joined, every value has been taken out.\<close>

lemma sum_threads: "(\<Sum>t<11. g t) = (\<Sum>t<5. g t) + (\<Sum>t=5..<10. g t) + (g 10 :: nat)" for g :: "nat \<Rightarrow> nat"
  by (simp add: eval_nat_numeral)

lemma all_done_counts:
  assumes inv: "place_inv s f" and "count_inv s f" and joined: "all_joined (f 10)"
  shows "length (enqs (hist s)) = 1003"
    and "length (deqs (hist s)) = 1003 + deq_flag (pcs s 10) * of_bool (f 10 = MDtorRet)"
    and "(\<Sum>t<11. pro_count (f t)) = 1000" and "(\<Sum>t<11. con_count (f t)) = 1000"
proof -
  have main: "f 10 = MReport \<or> f 10 = MDtor \<or> f 10 = MDtorRet \<or> f 10 = MDone" using joined by (simp add: all_joined_def)
  have c: "(\<Sum>t<5. g (f t) (pcs s t)) = (\<Sum>t<5. g CDone (pcs s t))" for g :: "tprog \<Rightarrow> int pc \<Rightarrow> nat"
    by (rule sum.cong) (use place_invD(5) [OF inv joined] in auto)
  have p: "(\<Sum>t=5..<10. g (f t) (pcs s t)) = (\<Sum>t=5..<10. g PDone (pcs s t))" for g :: "tprog \<Rightarrow> int pc \<Rightarrow> nat"
    by (rule sum.cong) (use place_invD(6) [OF inv joined] in auto)
  show "length (enqs (hist s)) = 1003"
    "length (deqs (hist s)) = 1003 + deq_flag (pcs s 10) * of_bool (f 10 = MDtorRet)"
    using assms(2) main c [of enq_count] c [of deq_count] p [of enq_count] p [of deq_count]
    by (auto simp: count_inv_def sum_threads)
  show "(\<Sum>t<11. pro_count (f t)) = 1000" "(\<Sum>t<11. con_count (f t)) = 1000"
    using main c [of "\<lambda>x _. pro_count x"] c [of "\<lambda>x _. con_count x"] p [of "\<lambda>x _. pro_count x"] p [of "\<lambda>x _. con_count x"]
    by (auto simp: sum_threads)
qed

section \<open>The main thread alone\<close>

fun got :: "'v pc \<Rightarrow> 'v list" where
  "got (DeqDone (Some v)) = [v]"
| "got _ = []"

definition now_empty :: "'v qsys \<Rightarrow> bool" where
  "now_empty s \<longleftrightarrow> linked (q_heap (queue s)) (q_head (queue s)) []"

definition sees_empty :: "nat \<Rightarrow> 'v qsys \<Rightarrow> bool" where
  "sees_empty t s \<longleftrightarrow> (case pcs s t of D81 h n x \<Rightarrow> saw_empty s t = now_empty s | DeqDone None \<Rightarrow> now_empty s | _ \<Rightarrow> True)"

definition brings :: "nat \<Rightarrow> 'v \<Rightarrow> 'v list \<Rightarrow> 'v qsys \<Rightarrow> bool" where
  "brings t v vs s \<longleftrightarrow> (case owned (pcs s t) of
     Some n \<Rightarrow> (\<exists>y. q_heap (queue s) n = Some y \<and> qdata y = v) \<and> enqs (hist s) = vs | None \<Rightarrow> enqs (hist s) = vs @ [v])"

lemma brings_step:
  assumes "brings t v vs s" and "in_enq (pcs s t)" and "thread_step moved b t s = Some s'"
  shows "brings t v vs s' \<and> deqs (hist s') = deqs (hist s)"
  using assms
  by (cases "pcs s t")
    (auto simp: brings_def thread_step_def goto_def cas_tail_def set_next_def bind_eq_Some_conv
      split: if_splits option.splits)

lemma takes_step:
  assumes "reachable (\<lambda>v. v) d s" and "sees_empty t s" and "in_deq (pcs s t)" and "deqs (hist s) = ds @ got (pcs s t)"
    and st: "thread_step (\<lambda>v. v) b t s = Some s'"
  shows "sees_empty t s' \<and> deqs (hist s') = ds @ got (pcs s' t) \<and> enqs (hist s') = enqs (hist s)"
proof (cases "pcs s t")
  case (D81 h n x)
  obtain ns vs hi ti where "qinv ns vs hi ti s'"
    using reachable_inv [OF reachable.step [OF assms(1) st]] by (auto simp: queue_inv_def)
  then have "pcs s' t = DeqDone None \<longrightarrow> saw_empty s' t" using qinv_local [of ns vs hi ti s' t] by auto
  with D81 assms show ?thesis
    by (auto simp: sees_empty_def now_empty_def thread_step_def goto_def split: if_splits option.splits)
qed (use assms in \<open>auto simp: sees_empty_def now_empty_def thread_step_def goto_def bind_eq_Some_conv split: if_splits\<close>)

fun seq_inv :: "tprog \<Rightarrow> int qsys \<Rightarrow> bool" where
  "seq_inv (MEnq k) s \<longleftrightarrow> enqs (hist s) = take k [1, 2, 3] \<and> deqs (hist s) = []"
| "seq_inv (MEnqRet k) s \<longleftrightarrow> brings 10 (int k + 1) (take k [1, 2, 3]) s \<and> deqs (hist s) = []"
| "seq_inv (MDeq k) s \<longleftrightarrow> enqs (hist s) = [1, 2, 3] \<and> deqs (hist s) = take k [1, 2, 3]"
| "seq_inv (MDeqRet k) s \<longleftrightarrow> enqs (hist s) = [1, 2, 3] \<and> deqs (hist s) = take k [1, 2, 3] @ got (pcs s 10) \<and> sees_empty 10 s"
| "seq_inv MAssert s \<longleftrightarrow> enqs (hist s) = [1, 2, 3] \<and> deqs (hist s) = [1, 2, 3]"
| "seq_inv _ s \<longleftrightarrow> True"

lemma seq_inv_queue:
  assumes inv: "place_inv s f" and seq: "seq_inv (f 10) s" and st: "thread_step (\<lambda>v. v) b t s = Some s'"
  shows "seq_inv (f 10) s'"
proof (cases "t = 10")
  case True
  have ok: "prog_ok (f 10) (pcs s 10)" "\<not> ready (pcs s 10)"
    using place_invD(2) [OF inv, of 10] thread_step_active [OF st] True by auto
  show ?thesis
  proof (cases "f 10")
    case (MEnqRet k)
    then show ?thesis using ok seq brings_step [of 10 "int k + 1" "take k [1, 2, 3]" s] st True by simp
  next
    case (MDeqRet k)
    then show ?thesis using ok seq takes_step [OF place_invD(1) [OF inv] _ _ _ st] True by simp
  qed (use ok in simp_all)
next
  case False
  then have "\<not> spawned (f 10) \<le> t" using place_invD(3) [OF inv, of t] stepping_thread(2) [OF inv st] by (auto simp: role_ok_def)
  then show ?thesis by (cases "f 10") auto
qed

lemma empty_balance:
  assumes "reachable (\<lambda>v. v) d s" and "length (deqs (hist s)) = length (enqs (hist s))"
  shows "now_empty s" and "q_is_empty (queue s) (queue s) (queue s) = Some True"
proof -
  obtain ns vs hi ti where sh: "shared_inv ns vs hi ti s" using reachable_inv [OF assms(1)] by (auto simp: queue_inv_def qinv_def)
  obtain ws where "linked (q_heap (queue s)) (q_head (queue s)) ws" "enqs (hist s) = deqs (hist s) @ ws"
    using queue_inv_balance [OF reachable_inv [OF assms(1)]] by auto
  with assms(2) show empty: "now_empty s" by (simp add: now_empty_def)
  have "Suc hi = length ns" using empty shared_node [OF sh shared_pos(1) [OF sh]] sh
    by (auto simp: now_empty_def shared_inv_def Let_def split: if_splits)
  then have "ti = hi" using sh by (auto simp: shared_inv_def Let_def)
  then have "q_head (queue s) = q_tail (queue s)" using sh by (simp add: shared_inv_def Let_def)
  then show "q_is_empty (queue s) (queue s) (queue s) = Some True"
    using empty by (auto simp: now_empty_def q_is_empty_def)
qed

lemma main_dequeue_result:
  assumes "reachable (\<lambda>v. v) d s" and seq: "seq_inv (MDeqRet k) s" and pc: "pcs s 10 = DeqDone r" and "k < 4"
  shows "r = (if k < 3 then Some (int k + 1) else None)"
proof -
  obtain ws where ws: "linked (q_heap (queue s)) (q_head (queue s)) ws" "enqs (hist s) = deqs (hist s) @ ws"
    using queue_inv_balance [OF reachable_inv [OF assms(1)]] by auto
  have k: "k = 0 \<or> k = 1 \<or> k = 2 \<or> k = 3" using assms(4) by auto
  show ?thesis
  proof (cases r)
    case None
    then have "ws = []" using seq pc linked_unique [OF ws(1), of "[]"] by (simp add: sees_empty_def now_empty_def)
    then show ?thesis using None ws seq pc k by auto
  next
    case (Some v)
    then show ?thesis using ws(2) seq pc k by (auto simp: eval_nat_numeral)
  qed
qed

section \<open>The invariant\<close>

definition test_lines :: "string list" where
  "test_lines = [''Test 1 passed: 1'', ''Test 2 passed: 2'', ''Test 3 passed: 3'', ''Test 4 passed: queue empty'',
     '''', ''Starting concurrent test...'', ''Produced: 1000, Consumed: 1000, Final queue empty: yes'']"

fun lines_at :: "tprog \<Rightarrow> nat" where
  "lines_at (MDeq k) = k"
| "lines_at (MDeqRet k) = k"
| "lines_at MAssert = 4"
| "lines_at (MSpawn i) = 6"
| "lines_at MReport = 6"
| "lines_at MDtor = 7"
| "lines_at MDtorRet = 7"
| "lines_at MDone = 7"
| "lines_at _ = 0"

definition qtest_inv :: "qtest \<Rightarrow> bool" where
  "qtest_inv q \<longleftrightarrow> place_inv (sys q) (prog q) \<and> count_inv (sys q) (prog q) \<and> seq_inv (prog q 10) (sys q) \<and>
     produced q = (\<Sum>t<11. pro_count (prog q t)) \<and> consumed q = (\<Sum>t<11. con_count (prog q t)) \<and>
     out q = take (lines_at (prog q 10)) test_lines"

lemma qtest_invD:
  assumes "qtest_inv q"
  shows "place_inv (sys q) (prog q)" and "count_inv (sys q) (prog q)" and "seq_inv (prog q 10) (sys q)"
    and "produced q = (\<Sum>t<11. pro_count (prog q t))" and "consumed q = (\<Sum>t<11. con_count (prog q t))"
    and "out q = take (lines_at (prog q 10)) test_lines"
  using assms by (simp_all add: qtest_inv_def)

lemma qtest_inv_queue:
  assumes "qtest_inv q" and "thread_step (\<lambda>v. v) b t (sys q) = Some s"
  shows "qtest_inv (q\<lparr>sys := s\<rparr>)"
  using qtest_invD [OF assms(1)] place_inv_queue [OF _ assms(2)] count_inv_queue [OF _ _ assms(2)] seq_inv_queue [OF _ _ assms(2)]
  by (simp add: qtest_inv_def)

text \<open>A step of a consumer or producer outside the queue: the thread moves to \<open>p\<close>, and adds \<open>dp\<close> and \<open>dc\<close> to the
  counters.\<close>

lemma qtest_inv_worker:
  assumes inv: "qtest_inv q" and t: "t < 10" and reach: "reachable (\<lambda>v. v) 0 s"
    and same: "\<And>u. u \<noteq> t \<Longrightarrow> pcs s u = pcs (sys q) u" "hist s = hist (sys q)" and ok: "prog_ok p (pcs s t)"
    and role: "is_consumer p = is_consumer (prog q t)" "is_producer p = is_producer (prog q t)"
    and live: "prog q t \<noteq> NotStarted" "prog q t \<noteq> CDone" "prog q t \<noteq> PDone"
    and counts: "enq_count p (pcs s t) = enq_count (prog q t) (pcs (sys q) t)"
      "deq_count p (pcs s t) = deq_count (prog q t) (pcs (sys q) t)"
      "pro_count p = pro_count (prog q t) + dp" "con_count p = con_count (prog q t) + dc"
  shows "qtest_inv (q\<lparr>sys := s, prog := (prog q)(t := p), produced := produced q + dp, consumed := consumed q + dc\<rparr>)"
proof -
  note place = qtest_invD(1) [OF inv]
  have "place_inv s ((prog q)(t := p))" by (rule place_inv_worker [OF place t reach same(1) ok role live])
  moreover have "count_inv s ((prog q)(t := p))"
    by (rule count_inv_client [OF qtest_invD(2) [OF inv] same(2)]) (use same(1) counts in auto)
  moreover have "\<not> spawned (prog q 10) \<le> t" using place_invD(3) [OF place, of t] t live by (auto simp: role_ok_def)
  then have "seq_inv (prog q 10) s" by (cases "prog q 10") auto
  moreover have "(\<Sum>u<11. pro_count (((prog q)(t := p)) u)) = produced q + dp"
      "(\<Sum>u<11. con_count (((prog q)(t := p)) u)) = consumed q + dc"
    using sum_change [of t 11 "\<lambda>u. pro_count (((prog q)(t := p)) u)" "\<lambda>u. pro_count (prog q u)"]
      sum_change [of t 11 "\<lambda>u. con_count (((prog q)(t := p)) u)" "\<lambda>u. con_count (prog q u)"]
      t counts(3,4) qtest_invD(4,5) [OF inv] by auto
  ultimately show ?thesis using qtest_invD(6) [OF inv] t by (simp add: qtest_inv_def)
qed

text \<open>A step of main outside the queue that starts no thread.\<close>

lemma qtest_inv_main:
  assumes inv: "qtest_inv q" and reach: "reachable (\<lambda>v. v) 0 s"
    and same: "\<And>u. u \<noteq> 10 \<Longrightarrow> pcs s u = pcs (sys q) u" "hist s = hist (sys q)" and ok: "prog_ok p (pcs s 10)"
    and main: "is_main p" "spawned p = spawned (prog q 10)" "all_joined p \<Longrightarrow> all_joined (prog q 10) \<or> workers_done (prog q)"
    and counts: "enq_count p (pcs s 10) = enq_count (prog q 10) (pcs (sys q) 10)"
      "deq_count p (pcs s 10) = deq_count (prog q 10) (pcs (sys q) 10)"
    and seq: "seq_inv p s" and lines: "out q @ ls = take (lines_at p) test_lines"
  shows "qtest_inv (q\<lparr>sys := s, prog := (prog q)(10 := p), out := out q @ ls\<rparr>)"
proof -
  have "is_main (prog q 10)" using place_invD(3) [OF qtest_invD(1) [OF inv], of 10] by (simp add: role_ok_def)
  then have "pro_count p = pro_count (prog q 10)" "con_count p = con_count (prog q 10)"
    using main(1) by (cases p; cases "prog q 10"; simp)+
  then have "pro_count (((prog q)(10 := p)) u) = pro_count (prog q u)" "con_count (((prog q)(10 := p)) u) = con_count (prog q u)" for u
    by auto
  moreover have "place_inv s ((prog q)(10 := p))" by (rule place_inv_main [OF qtest_invD(1) [OF inv] reach same(1) ok main])
  moreover have "count_inv s ((prog q)(10 := p))"
    by (rule count_inv_client [OF qtest_invD(2) [OF inv] same(2)]) (use same(1) counts in auto)
  ultimately show ?thesis using qtest_invD(4,5) [OF inv] seq lines by (simp add: qtest_inv_def)
qed

section \<open>The steps outside the queue\<close>

text \<open>The two forms of a client's step, so that the lemmas above apply.\<close>

lemma worker_forms:
  "step_to t p q = q\<lparr>sys := sys q, prog := (prog q)(t := p), produced := produced q + 0, consumed := consumed q + 0\<rparr>"
  "step_to t p (call_deq t q) = q\<lparr>sys := dequeue_call t (sys q), prog := (prog q)(t := p), produced := produced q + 0,
     consumed := consumed q + 0\<rparr>"
  "step_to t p (call_enq t v q) = q\<lparr>sys := enqueue_call t v (sys q), prog := (prog q)(t := p), produced := produced q + 0,
     consumed := consumed q + 0\<rparr>"
  "step_to t p (q\<lparr>consumed := Suc (consumed q)\<rparr>) = q\<lparr>sys := sys q, prog := (prog q)(t := p), produced := produced q + 0,
     consumed := consumed q + 1\<rparr>"
  "step_to t p (q\<lparr>produced := Suc (produced q)\<rparr>) = q\<lparr>sys := sys q, prog := (prog q)(t := p), produced := produced q + 1,
     consumed := consumed q + 0\<rparr>"
  by (simp_all add: step_to_def call_deq_def call_enq_def)

lemma main_forms:
  "step_to t p q = q\<lparr>sys := sys q, prog := (prog q)(t := p), out := out q @ []\<rparr>"
  "step_to t p (call_deq t q) = q\<lparr>sys := dequeue_call t (sys q), prog := (prog q)(t := p), out := out q @ []\<rparr>"
  "step_to t p (call_enq t v q) = q\<lparr>sys := enqueue_call t v (sys q), prog := (prog q)(t := p), out := out q @ []\<rparr>"
  "step_to t p (emit ls q) = q\<lparr>sys := sys q, prog := (prog q)(t := p), out := out q @ ls\<rparr>"
  by (simp_all add: step_to_def call_deq_def call_enq_def emit_def)

lemma call_effects:
  "pcs (dequeue_call t s) = (pcs s)(t := D76)" "hist (dequeue_call t s) = hist s"
  "pcs (enqueue_call t v s) = (pcs s)(t := E44 (q_fresh (queue s)))" "hist (enqueue_call t v s) = hist s"
  "q_heap (queue (enqueue_call t v s)) (q_fresh (queue s)) = Some \<lparr>qdata = v, qnext = None\<rparr>"
  by (simp_all add: dequeue_call_def enqueue_call_def goto_def Let_def)

lemma consumer_inv:
  assumes inv: "qtest_inv q" and t: "t < 5" and st: "consumer t (prog q t) q = Some q'"
  shows "qtest_inv q'"
proof -
  note reach = place_invD(1) [OF qtest_invD(1) [OF inv]] and ok = place_invD(2) [OF qtest_invD(1) [OF inv], of t]
  have t10: "t < 10" using t by simp
  note worker = qtest_inv_worker [OF inv t10]
  show ?thesis
  proof (cases "prog q t")
    case (CLoop n)
    then have n: "ready (pcs (sys q) t)" "n \<le> 200" using ok by auto
    show ?thesis
    proof (cases "n < 200")
      case True
      then have "q' = step_to t (CDeq n) (call_deq t q)" using st CLoop by (simp add: test_consts)
      moreover have "qtest_inv (step_to t (CDeq n) (call_deq t q))" unfolding worker_forms(2)
        by (rule worker [OF reachable.call_dequeue [OF reach n(1)]]) (simp_all add: call_effects CLoop True)
      ultimately show ?thesis by simp
    next
      case False
      then have "q' = step_to t CDone q" using st CLoop by (simp add: test_consts)
      moreover have "qtest_inv (step_to t CDone q)" unfolding worker_forms(1)
        by (rule worker [OF reach]) (use n False in \<open>simp_all add: CLoop\<close>)
      ultimately show ?thesis by simp
    qed
  next
    case (CDeq n)
    then obtain r where r: "pcs (sys q) t = DeqDone r" and q': "q' = step_to t (case r of None \<Rightarrow> CLoop n | Some v \<Rightarrow> CGot n) q"
      using st by (auto split: pc.splits option.splits)
    show ?thesis unfolding q' worker_forms(1)
      by (rule worker [OF reach]) (use CDeq r ok in \<open>simp_all split: option.splits\<close>)
  next
    case (CGot n)
    then have q': "q' = step_to t (CLoop (Suc n)) (q\<lparr>consumed := Suc (consumed q)\<rparr>)" using st by simp
    show ?thesis unfolding q' worker_forms(4) by (rule worker [OF reach]) (use CGot ok in simp_all)
  qed (use st in simp_all)
qed

lemma producer_inv:
  assumes inv: "qtest_inv q" and t: "t < 10" and st: "producer t (prog q t) q = Some q'"
  shows "qtest_inv q'"
proof -
  note reach = place_invD(1) [OF qtest_invD(1) [OF inv]] and ok = place_invD(2) [OF qtest_invD(1) [OF inv], of t]
  note worker = qtest_inv_worker [OF inv t]
  show ?thesis
  proof (cases "prog q t")
    case (PLoop n)
    then have n: "ready (pcs (sys q) t)" "n \<le> 200" using ok by auto
    show ?thesis
    proof (cases "n < 200")
      case True
      then obtain v where "q' = step_to t (PEnq n) (call_enq t v q)" using st PLoop by (auto simp: test_consts)
      moreover have "qtest_inv (step_to t (PEnq n) (call_enq t v q))" unfolding worker_forms(3)
        by (rule worker [OF reachable.call_enqueue [OF reach n(1)]]) (simp_all add: call_effects PLoop True)
      ultimately show ?thesis by simp
    next
      case False
      then have "q' = step_to t PDone q" using st PLoop by (simp add: test_consts)
      moreover have "qtest_inv (step_to t PDone q)" unfolding worker_forms(1)
        by (rule worker [OF reach]) (use n False in \<open>simp_all add: PLoop\<close>)
      ultimately show ?thesis by simp
    qed
  next
    case (PEnq n)
    then have r: "pcs (sys q) t = EnqDone" and q': "q' = step_to t (PAdd n) q"
      using st by (auto split: pc.splits)
    show ?thesis unfolding q' worker_forms(1) by (rule worker [OF reach]) (use PEnq r ok in simp_all)
  next
    case (PAdd n)
    then have q': "q' = step_to t (PLoop (Suc n)) (q\<lparr>produced := Suc (produced q)\<rparr>)" using st by simp
    show ?thesis unfolding q' worker_forms(5) by (rule worker [OF reach]) (use PAdd ok in simp_all)
  qed (use st in simp_all)
qed

lemma qtest_inv_spawn:
  assumes inv: "qtest_inv q" and i: "prog q 10 = MSpawn i" "i < 10" and p: "p = (if i < 5 then CLoop 0 else PLoop 0)"
  shows "qtest_inv (step_to 10 (MSpawn (Suc i)) (step_to i p q))"
proof -
  let ?f = "(prog q)(i := p, 10 := MSpawn (Suc i))"
  note place = qtest_invD(1) [OF inv]
  have ns: "prog q i = NotStarted" using place_invD(3) [OF place, of i] i by (simp add: role_ok_def)
  have ready: "ready (pcs (sys q) i)" "ready (pcs (sys q) 10)"
    using place_invD(2) [OF place, of i] place_invD(2) [OF place, of 10] ns i(1) by simp_all
  have "place_inv (sys q) ?f"
  proof (rule place_invI)
    show "prog_ok (?f u) (pcs (sys q) u)" for u using place_invD(2) [OF place, of u] ready i p by auto
    show "role_ok u ?f" for u using place_invD(3) [OF place, of u] i p by (auto simp: role_ok_def split: if_splits)
  qed (use place_invD(1) [OF place] i in \<open>auto simp: all_joined_def\<close>)
  moreover have "count_inv (sys q) ?f" by (rule count_inv_client [OF qtest_invD(2) [OF inv]]) (use ns i p in auto)
  moreover have "pro_count (?f u) = pro_count (prog q u)" "con_count (?f u) = con_count (prog q u)" for u
    using ns i p by auto
  ultimately show ?thesis using qtest_invD(4-6) [OF inv] i by (simp add: qtest_inv_def step_to_def)
qed

lemma less_4_cases: "k < 4 \<Longrightarrow> k = 0 \<or> k = 1 \<or> k = 2 \<or> k = (3::nat)"
  by auto

lemma test_line_ok:
  assumes "k < 4"
  shows "take k test_lines @ test_line k (if k < 3 then Some (int k + 1) else None) = take (Suc k) test_lines"
proof -
  have "take 0 test_lines @ test_line 0 (Some 1) = take 1 test_lines" by code_simp
  moreover have "take 1 test_lines @ test_line 1 (Some 2) = take (Suc 1) test_lines" by code_simp
  moreover have "take 2 test_lines @ test_line 2 (Some 3) = take 3 test_lines" by code_simp
  moreover have "take 3 test_lines @ test_line 3 None = take 4 test_lines" by code_simp
  ultimately show ?thesis using less_4_cases [OF assms] by auto
qed

lemma main_lines: "take 4 test_lines @ ['''', ''Starting concurrent test...''] = take 6 test_lines"
  "take 6 test_lines @ [test_report 1000 1000 True] = take 7 test_lines"
  by code_simp+

lemma main_call_inv:
  assumes inv: "qtest_inv q" and st: "main_thread 10 (prog q 10) q = Some q'"
    and call: "prog q 10 = MEnq k \<or> prog q 10 = MDeq k \<or> prog q 10 = MDtor"
  shows "qtest_inv q'"
proof -
  note place = qtest_invD(1) [OF inv] and seq = qtest_invD(3) [OF inv]
  note reach = place_invD(1) [OF place] and ok = place_invD(2) [OF place, of 10]
  have ready: "ready (pcs (sys q) 10)" using ok call by auto
  note enq = reachable.call_enqueue [OF reach ready] and deq = reachable.call_dequeue [OF reach ready]
  from call consider "prog q 10 = MEnq k" | "prog q 10 = MDeq k" | "prog q 10 = MDtor" by blast
  then show ?thesis
  proof cases
    case 1
    then have q': "q' = step_to 10 (MEnqRet k) (call_enq 10 (int k + 1) q)" using st by simp
    show ?thesis unfolding q' main_forms(3)
      by (rule qtest_inv_main [OF inv enq])
        (use 1 ok seq qtest_invD(6) [OF inv] in \<open>simp_all add: call_effects brings_def all_joined_def\<close>)
  next
    case 2
    then have q': "q' = step_to 10 (MDeqRet k) (call_deq 10 q)" using st by simp
    show ?thesis unfolding q' main_forms(2)
      by (rule qtest_inv_main [OF inv deq])
        (use 2 ok seq qtest_invD(6) [OF inv] in \<open>simp_all add: call_effects sees_empty_def all_joined_def\<close>)
  next
    case 3
    then have q': "q' = step_to 10 MDtorRet (call_deq 10 q)" using st by simp
    show ?thesis unfolding q' main_forms(2)
      by (rule qtest_inv_main [OF inv deq])
        (use 3 ok seq qtest_invD(6) [OF inv] in \<open>simp_all add: call_effects all_joined_def\<close>)
  qed
qed

lemma main_enq_return_inv:
  assumes inv: "qtest_inv q" and st: "main_thread 10 (prog q 10) q = Some q'" and at: "prog q 10 = MEnqRet k"
  shows "qtest_inv q'"
proof -
  note place = qtest_invD(1) [OF inv] and seq = qtest_invD(3) [OF inv]
  note reach = place_invD(1) [OF place] and ok = place_invD(2) [OF place, of 10]
  have pc: "pcs (sys q) 10 = EnqDone" and q': "q' = step_to 10 (if k < 2 then MEnq (Suc k) else MDeq 0) q"
    using st at by (auto split: pc.splits)
  have k: "k = 0 \<or> k = 1 \<or> k = 2" using ok at by auto
  have "enqs (hist (sys q)) = take k [1, 2, 3] @ [int k + 1]" "deqs (hist (sys q)) = []"
    using seq at pc by (auto simp: brings_def)
  then show ?thesis unfolding q' main_forms(1)
    by (intro qtest_inv_main [OF inv reach])
      (use at pc k qtest_invD(6) [OF inv] in \<open>auto simp: all_joined_def\<close>)
qed

lemma main_deq_return_inv:
  assumes inv: "qtest_inv q" and st: "main_thread 10 (prog q 10) q = Some q'" and at: "prog q 10 = MDeqRet k"
  shows "qtest_inv q'"
proof -
  note place = qtest_invD(1) [OF inv] and seq = qtest_invD(3) [OF inv]
  note reach = place_invD(1) [OF place] and ok = place_invD(2) [OF place, of 10]
  let ?p = "if k < 3 then MDeq (Suc k) else MAssert"
  obtain r where pc: "pcs (sys q) 10 = DeqDone r" and q': "q' = step_to 10 ?p (emit (test_line k r) q)"
    using st at by (auto split: pc.splits)
  have k: "k < 4" using ok at by auto
  have r: "r = (if k < 3 then Some (int k + 1) else None)" using main_dequeue_result [OF reach _ pc k] seq at by simp
  have "out q @ test_line k r = take (Suc k) test_lines" using qtest_invD(6) [OF inv] at test_line_ok [OF k] r by simp
  then show ?thesis unfolding q' main_forms(4)
    by (intro qtest_inv_main [OF inv reach])
      (use at pc r seq less_4_cases [OF k] in \<open>auto simp: all_joined_def\<close>)
qed

lemma main_assert_inv:
  assumes inv: "qtest_inv q" and at: "prog q 10 = MAssert"
  shows "\<exists>q'. main_thread 10 (prog q 10) q = Some q' \<and> qtest_inv q'"
proof -
  note place = qtest_invD(1) [OF inv]
  note reach = place_invD(1) [OF place] and ok = place_invD(2) [OF place, of 10]
  have e: "q_is_empty (queue (sys q)) (queue (sys q)) (queue (sys q)) = Some True"
    using empty_balance(2) [OF reach] qtest_invD(3) [OF inv] at by simp
  have "qtest_inv (step_to 10 (MSpawn 0) (emit ['''', ''Starting concurrent test...''] q))" unfolding main_forms(4)
    by (rule qtest_inv_main [OF inv reach])
      (use at ok qtest_invD(6) [OF inv] main_lines(1) in \<open>simp_all add: all_joined_def\<close>)
  with e at show ?thesis by simp
qed

lemma main_report_inv:
  assumes inv: "qtest_inv q" and at: "prog q 10 = MReport"
  shows "\<exists>q'. main_thread 10 (prog q 10) q = Some q' \<and> qtest_inv q'"
proof -
  note place = qtest_invD(1) [OF inv] and count = qtest_invD(2) [OF inv]
  note reach = place_invD(1) [OF place] and ok = place_invD(2) [OF place, of 10]
  have j: "all_joined (prog q 10)" using at by (simp add: all_joined_def)
  have e: "q_is_empty (queue (sys q)) (queue (sys q)) (queue (sys q)) = Some True"
    using empty_balance(2) [OF reach] all_done_counts(1,2) [OF place count j] at by simp
  have c: "produced q = 1000" "consumed q = 1000"
    using all_done_counts(3,4) [OF place count j] qtest_invD(4,5) [OF inv] by simp_all
  have "qtest_inv (step_to 10 MDtor (emit [test_report (produced q) (consumed q) True] q))" unfolding main_forms(4)
    by (rule qtest_inv_main [OF inv reach])
      (use at ok qtest_invD(6) [OF inv] main_lines(2) c in \<open>simp_all add: all_joined_def\<close>)
  with e at show ?thesis by simp
qed

lemma main_dtor_return_inv:
  assumes inv: "qtest_inv q" and st: "main_thread 10 (prog q 10) q = Some q'" and at: "prog q 10 = MDtorRet"
  shows "qtest_inv q'"
proof -
  note place = qtest_invD(1) [OF inv] and count = qtest_invD(2) [OF inv]
  note reach = place_invD(1) [OF place] and ok = place_invD(2) [OF place, of 10]
  have j: "all_joined (prog q 10)" using at by (simp add: all_joined_def)
  have "length (deqs (hist (sys q))) \<le> length (enqs (hist (sys q)))"
    using queue_inv_balance [OF reachable_inv [OF reach]] by auto
  then have none: "deq_flag (pcs (sys q) 10) = 0" using all_done_counts(1,2) [OF place count j] at by simp
  then have pc: "pcs (sys q) 10 = DeqDone None" and q': "q' = step_to 10 MDone q"
    using st at by (auto split: pc.splits option.splits)
  show ?thesis unfolding q' main_forms(1)
    by (rule qtest_inv_main [OF inv reach])
      (use at pc qtest_invD(6) [OF inv] in \<open>simp_all add: all_joined_def\<close>)
qed

lemma joined_workers:
  assumes "place_inv s f" and "f 10 = MSpawn 10" and "list_all (\<lambda>i. f i = CDone \<or> f i = PDone) [0..<10]"
  shows "workers_done f"
proof -
  have "f t = (if t < 5 then CDone else PDone)" if "t < 10" for t
  proof -
    have "f t = CDone \<or> f t = PDone" using assms(3) that by (simp add: list_all_iff)
    moreover have "if t < 5 then is_consumer (f t) else is_producer (f t)"
      using place_invD(3) [OF assms(1), of t] assms(2) that by (simp add: role_ok_def)
    ultimately show ?thesis by (auto split: if_splits)
  qed
  then show ?thesis by (simp add: workers_done_def)
qed

lemma main_spawn_inv:
  assumes inv: "qtest_inv q" and st: "main_thread 10 (prog q 10) q = Some q'" and at: "prog q 10 = MSpawn i"
  shows "qtest_inv q'"
proof -
  note place = qtest_invD(1) [OF inv]
  note reach = place_invD(1) [OF place] and ok = place_invD(2) [OF place, of 10]
  have "i \<le> 10" using ok at by simp
  then consider "i < 10" | "i = 10" by linarith
  then show ?thesis
  proof cases
    case 1
    then have "q' = step_to 10 (MSpawn (Suc i)) (step_to i (if i < 5 then CLoop 0 else PLoop 0) q)"
      using st at by (simp add: test_consts split: if_splits)
    with qtest_inv_spawn [OF inv at 1 refl] show ?thesis by simp
  next
    case 2
    then have q': "q' = step_to 10 MReport q" and all: "list_all (\<lambda>i. prog q i = CDone \<or> prog q i = PDone) [0..<10]"
      using st at by (simp_all add: test_consts split: if_splits)
    have "workers_done (prog q)" using joined_workers [OF place _ all] at 2 by simp
    then show ?thesis unfolding q' main_forms(1)
      by (intro qtest_inv_main [OF inv reach]) (use at ok 2 qtest_invD(6) [OF inv] in simp_all)
  qed
qed

lemma main_thread_inv:
  assumes inv: "qtest_inv q" and st: "main_thread 10 (prog q 10) q = Some q'"
  shows "qtest_inv q'"
proof (cases "prog q 10")
  case MAssert
  with main_assert_inv [OF inv] st show ?thesis by simp
next
  case MReport
  with main_report_inv [OF inv] st show ?thesis by simp
next
  case (MEnq k)
  then show ?thesis using main_call_inv [OF inv st, of k] by simp
next
  case (MDeq k)
  then show ?thesis using main_call_inv [OF inv st, of k] by simp
next
  case MDtor
  then show ?thesis using main_call_inv [OF inv st] by simp
qed (use st main_enq_return_inv [OF inv st] main_deq_return_inv [OF inv st] main_spawn_inv [OF inv st]
    main_dtor_return_inv [OF inv st] in simp_all)

lemma qtest_inv_step:
  assumes "qtest_inv q" and "qtest_step q q'"
  shows "qtest_inv q'"
  using assms(2)
proof cases
  case (in_queue b t s)
  with qtest_inv_queue [OF assms(1)] show ?thesis by blast
next
  case (client t)
  then show ?thesis using consumer_inv [OF assms(1), of t] producer_inv [OF assms(1), of t] main_thread_inv [OF assms(1)]
    by (auto simp: client_step_def test_consts split: if_splits)
qed

lemma qtest_reach_inv: "qtest_reach q \<Longrightarrow> qtest_inv q"
proof (induction rule: qtest_reach.induct)
  case start
  let ?f = "(\<lambda>_. NotStarted)(10 := MEnq 0)"
  have init: "sys qtest_init = qsys_new 0" "prog qtest_init = ?f" "out qtest_init = []" "produced qtest_init = 0" "consumed qtest_init = 0"
    by (simp_all add: qtest_init_def)
  have idle: "pcs (qsys_new (0::int)) t = Idle" "hist (qsys_new (0::int)) = []" for t by (simp_all add: qsys_new_def)
  have "place_inv (qsys_new 0) ?f"
  proof (rule place_invI)
    show "reachable (\<lambda>v. v) 0 (qsys_new (0::int))" by (rule reachable.start)
    show "prog_ok (?f t) (pcs (qsys_new (0::int)) t)" "role_ok t ?f" for t
      by (simp_all add: idle role_ok_def)
  qed (simp_all add: all_joined_def)
  moreover have zero: "enq_count (?f t) (pcs (qsys_new (0::int)) t) = 0" "deq_count (?f t) (pcs (qsys_new (0::int)) t) = 0"
      "pro_count (?f t) = 0" "con_count (?f t) = 0" for t by simp_all
  then have "count_inv (qsys_new 0) ?f" unfolding count_inv_def idle zero by simp
  ultimately show ?case unfolding qtest_inv_def init zero by (simp add: idle)
qed (rule qtest_inv_step)

section \<open>Progress\<close>

lemma client_returns:
  assumes "qtest_inv q" and "t < 11" and "prog q t \<noteq> NotStarted" and "prog q t \<noteq> CDone" and "prog q t \<noteq> PDone"
    and "t = 10 \<Longrightarrow> prog q t \<noteq> MDone \<and> prog q t \<noteq> MSpawn 10" and "ready (pcs (sys q) t)"
  shows "\<exists>q'. client_step t q = Some q'"
proof -
  note place = qtest_invD(1) [OF assms(1)]
  note ok = place_invD(2) [OF place, of t] and role = place_invD(3) [OF place, of t]
  consider "t < 5" "is_consumer (prog q t)" | "5 \<le> t" "t < 10" "is_producer (prog q t)" | "t = 10" "is_main (prog q t)"
    using role assms(2,3) by (auto simp: role_ok_def split: if_splits)
  then show ?thesis
  proof cases
    case 1
    with assms ok show ?thesis
      by (cases "prog q t"; cases "pcs (sys q) t") (auto simp: client_step_def test_consts split: option.splits)
  next
    case 2
    with assms ok show ?thesis
      by (cases "prog q t"; cases "pcs (sys q) t") (auto simp: client_step_def test_consts)
  next
    case 3
    with assms ok main_assert_inv [OF assms(1)] main_report_inv [OF assms(1)] show ?thesis
      by (cases "prog q t"; cases "pcs (sys q) t") (auto simp: client_step_def test_consts split: option.splits)
  qed
qed

lemma thread_moves:
  assumes inv: "qtest_inv q" and "t < 11" and "prog q t \<noteq> NotStarted" and "prog q t \<noteq> CDone" and "prog q t \<noteq> PDone"
    and "t = 10 \<Longrightarrow> prog q t \<noteq> MDone \<and> prog q t \<noteq> MSpawn 10"
  shows "\<exists>q'. qtest_step q q'"
proof (cases "ready (pcs (sys q) t)")
  case True
  with client_returns [OF assms] qtest_step.client show ?thesis by blast
next
  case False
  have "queue_inv (sys q)" using place_invD(1) [OF qtest_invD(1) [OF inv]] by (rule reachable_inv) simp
  with thread_step_inv [OF this False, of "\<lambda>v. v" False] obtain s where "thread_step (\<lambda>v. v) False t (sys q) = Some s"
    by (auto elim!: runsE)
  with qtest_step.in_queue show ?thesis by blast
qed

lemma qtest_progress:
  assumes inv: "qtest_inv q" and main: "prog q 10 \<noteq> MDone"
  shows "\<exists>q'. qtest_step q q'"
proof (cases "prog q 10 = MSpawn 10")
  case False
  have "is_main (prog q 10)" using place_invD(3) [OF qtest_invD(1) [OF inv], of 10] by (simp add: role_ok_def)
  then show ?thesis using thread_moves [OF inv, of 10] False main by (cases "prog q 10") auto
next
  case True
  show ?thesis
  proof (cases "list_all (\<lambda>i. prog q i = CDone \<or> prog q i = PDone) [0..<10]")
    case all: True
    then have "client_step 10 q = Some (step_to 10 MReport q)" using True by (simp add: client_step_def test_consts)
    then show ?thesis using qtest_step.client by blast
  next
    case False
    then obtain t where t: "t < 10" "prog q t \<noteq> CDone" "prog q t \<noteq> PDone" by (auto simp: list_all_iff)
    moreover have "prog q t \<noteq> NotStarted"
      using place_invD(3) [OF qtest_invD(1) [OF inv], of t] True t(1) by (auto simp: role_ok_def split: if_splits)
    ultimately show ?thesis using thread_moves [OF inv, of t] by simp
  qed
qed

section \<open>Properties\<close>

text \<open>C17. In every interleaving of \<open>test_queue\<close>, with compare-exchanges that fail spuriously at any time, main has
  written the first of the seven lines of a successful test, the assertion has not failed, and main or another
  thread can take a step until main has ended. When it has ended all seven lines are written, the last one saying
  that 1000 items were produced and 1000 consumed and that the queue is empty, and it is empty.\<close>

theorem test_queue_output:
  assumes "qtest_reach q"
  shows "prefix (out q) test_lines \<and> prog q 10 \<noteq> MAbort \<and>
    (prog q 10 \<noteq> MDone \<longrightarrow> (\<exists>q'. qtest_step q q')) \<and>
    (prog q 10 = MDone \<longrightarrow> out q = test_lines \<and> produced q = 1000 \<and> consumed q = 1000 \<and>
      linked (q_heap (queue (sys q))) (q_head (queue (sys q))) [])"
proof -
  have inv: "qtest_inv q" using qtest_reach_inv [OF assms] .
  note place = qtest_invD(1) [OF inv] and count = qtest_invD(2) [OF inv]
  have "out q = test_lines \<and> produced q = 1000 \<and> consumed q = 1000 \<and> now_empty (sys q)" if "prog q 10 = MDone"
  proof -
    have "all_joined (prog q 10)" using that by (simp add: all_joined_def)
    note fin = all_done_counts [OF place count this]
    have "out q = test_lines" using qtest_invD(6) [OF inv] that by (simp add: test_lines_def)
    moreover have "now_empty (sys q)" using empty_balance(1) [OF place_invD(1) [OF place]] fin(1,2) that by simp
    ultimately show ?thesis using fin(3,4) qtest_invD(4,5) [OF inv] by simp
  qed
  moreover have "prog q 10 \<noteq> MAbort" using place_invD(2) [OF place, of 10] by auto
  moreover have "prefix (out q) test_lines" using qtest_invD(6) [OF inv] by (simp add: take_is_prefix)
  ultimately show ?thesis using qtest_progress [OF inv] by (simp add: now_empty_def)
qed

theorem test_queue_output_witness:
  "\<exists>q. qtest_reach q \<and> prog q 10 = MEnqRet 0 \<and> prefix (out q) test_lines \<and> (\<exists>q'. qtest_step q q')"
proof -
  let ?q = "step_to 10 (MEnqRet 0) (call_enq 10 1 qtest_init)"
  have "client_step 10 qtest_init = Some ?q" by (simp add: client_step_def test_consts qtest_init_def)
  then have "qtest_reach ?q" using qtest_reach.start qtest_reach.step qtest_step.client by blast
  moreover have "prog ?q 10 = MEnqRet 0" by (simp add: step_to_def)
  ultimately show ?thesis using test_queue_output [of ?q] by auto
qed

end
