(* ===== verification/Threadpool.thy ===== *)
theory Threadpool
  imports Fifo_System "HOL-Library.Multiset"
begin

text \<open>
  \<open>class Threadpool\<close> of \<open>ThreadPool/Threadpool.cpp\<close>.

  The mutex makes each locked region one step. A worker is about to lock (\<open>WStart\<close>), blocked in
  \<open>condition.wait\<close> (\<open>WWaiting\<close>), notified or spuriously woken and about to lock again (\<open>WWoken\<close>),
  running a task, or has returned. \<open>notify_one\<close> comes after the unlock in \<open>add_task\<close>, so a call
  that has queued its task and not notified yet is counted in \<open>pending\<close>. The destructor goes
  through setting \<open>stop\<close>, \<open>notify_all\<close> and joining the workers. The logs record which tasks were
  added, started and finished, in order.

  A task is a \<open>std::packaged_task\<close> of a bound function: the number of the state it shares with its future, and
  what calling the function gives, a value or an exception. \<open>futures\<close> holds the shared states of the accepted
  tasks, \<open>None\<close> until the task has run; \<open>add_task\<close> returns the number of its future.

  Proved: tasks start in the order they were added, none is lost or run twice, each stores its outcome in its own future, no
  wake-up is lost, and the destructor returns, after running every accepted task, if the pool has a worker.
\<close>

section \<open>The pool\<close>

datatype 't wstate = WStart | WWaiting | WWoken | WRun 't | WExit

datatype dstate = Live | Stopped | Notified | Joined

datatype pool_error = RuntimeError string

datatype 'r task_outcome = Value 'r | Raised string

type_synonym 'r task = "nat \<times> 'r task_outcome"

record 'r pool =
  workers :: "'r task wstate list"
  tasks :: "'r task list"
  stop :: bool
  pending :: nat
  dtor :: dstate
  futures :: "'r task_outcome option list"
  added :: "'r task list"
  started :: "'r task list"
  finished :: "'r task list"

definition threadpool_new :: "int \<Rightarrow> 'r pool" where
  "threadpool_new thread_count = \<lparr>workers = replicate (nat thread_count) WStart, tasks = [], stop = False,
     pending = 0, dtor = Live, futures = [], added = [], started = [], finished = []\<rparr>"

text \<open>The locked region of a worker (lines 20 to 31): test the predicate, then block, return or
  take the front task.\<close>

definition worker_lock :: "nat \<Rightarrow> 'r pool \<Rightarrow> 'r pool" where
  "worker_lock i p =
     (if \<not> (stop p \<or> tasks p \<noteq> []) then p\<lparr>workers := (workers p)[i := WWaiting]\<rparr>
      else if stop p \<and> tasks p = [] then p\<lparr>workers := (workers p)[i := WExit]\<rparr>
      else p\<lparr>workers := (workers p)[i := WRun (hd (tasks p))], started := started p @ [hd (tasks p)],
        tasks := tl (tasks p)\<rparr>)"

text \<open>\<open>task()\<close>: the outcome goes to the shared state.\<close>

definition worker_run :: "nat \<Rightarrow> 'r task \<Rightarrow> 'r pool \<Rightarrow> 'r pool" where
  "worker_run i t p = p\<lparr>workers := (workers p)[i := WStart], futures := (futures p)[fst t := Some (snd t)],
     finished := finished p @ [t]\<rparr>"

text \<open>When \<open>stop\<close> is set the exception leaves the task and its future behind.\<close>

definition add_task :: "'r task_outcome \<Rightarrow> 'r pool \<Rightarrow> pool_error + nat \<times> 'r pool" where
  "add_task r p = (let t = (length (futures p), r) in
     if stop p then Inl (RuntimeError ''error'')
     else Inr (length (futures p), p\<lparr>tasks := tasks p @ [t], pending := Suc (pending p), futures := futures p @ [None],
       added := added p @ [t]\<rparr>))"

definition wake :: "'t wstate \<Rightarrow> 't wstate" where
  "wake w = (case w of WWaiting \<Rightarrow> WWoken | _ \<Rightarrow> w)"

text \<open>\<open>notify_one\<close> wakes some waiting worker, \<open>i\<close>, or nobody when none waits.\<close>

definition notify_one :: "nat \<Rightarrow> 'r pool \<Rightarrow> 'r pool" where
  "notify_one i p = p\<lparr>workers := (workers p)[i := wake (workers p ! i)], pending := pending p - 1\<rparr>"

definition set_stop :: "'r pool \<Rightarrow> 'r pool" where
  "set_stop p = p\<lparr>stop := True, dtor := Stopped\<rparr>"

definition notify_all :: "'r pool \<Rightarrow> 'r pool" where
  "notify_all p = p\<lparr>workers := map wake (workers p), dtor := Notified\<rparr>"

section \<open>Executions\<close>

inductive pool_step :: "'r pool \<Rightarrow> 'r pool \<Rightarrow> bool" where
  lock: "i < length (workers p) \<Longrightarrow> workers p ! i = WStart \<or> workers p ! i = WWoken \<Longrightarrow>
    pool_step p (worker_lock i p)"
| run: "i < length (workers p) \<Longrightarrow> workers p ! i = WRun t \<Longrightarrow> pool_step p (worker_run i t p)"
| spurious: "i < length (workers p) \<Longrightarrow> workers p ! i = WWaiting \<Longrightarrow>
    pool_step p (p\<lparr>workers := (workers p)[i := WWoken]\<rparr>)"
| add: "add_task r p = Inr (k, p') \<Longrightarrow> pool_step p p'"
| notify_one: "0 < pending p \<Longrightarrow> i < length (workers p) \<Longrightarrow> workers p ! i = WWaiting \<Longrightarrow>
    pool_step p (notify_one i p)"
| notify_none: "0 < pending p \<Longrightarrow> WWaiting \<notin> set (workers p) \<Longrightarrow>
    pool_step p (p\<lparr>pending := pending p - 1\<rparr>)"
| stop: "dtor p = Live \<Longrightarrow> pool_step p (set_stop p)"
| notify_all: "dtor p = Stopped \<Longrightarrow> pool_step p (notify_all p)"
| join: "dtor p = Notified \<Longrightarrow> \<forall>w\<in>set (workers p). w = WExit \<Longrightarrow> pool_step p (p\<lparr>dtor := Joined\<rparr>)"

inductive pool_reach :: "int \<Rightarrow> 'r pool \<Rightarrow> bool" for n where
  start: "pool_reach n (threadpool_new n)"
| step: "pool_reach n p \<Longrightarrow> pool_step p p' \<Longrightarrow> pool_reach n p'"

section \<open>The invariant\<close>

fun running :: "'t wstate \<Rightarrow> 't multiset" where
  "running (WRun t) = {#t#}"
| "running _ = {#}"

definition active :: "'t wstate \<Rightarrow> bool" where
  "active w \<longleftrightarrow> w \<noteq> WWaiting \<and> w \<noteq> WExit"

definition pool_inv :: "int \<Rightarrow> 'r pool \<Rightarrow> bool" where
  "pool_inv n p \<longleftrightarrow> length (workers p) = nat n \<and>
     added p = started p @ tasks p \<and>
     mset (started p) = mset (finished p) + \<Sum>\<^sub># (mset (map running (workers p))) \<and>
     (WExit \<in> set (workers p) \<longrightarrow> stop p \<and> tasks p = []) \<and>
     (stop p \<longleftrightarrow> dtor p \<noteq> Live) \<and>
     (dtor p = Notified \<or> dtor p = Joined \<longrightarrow> WWaiting \<notin> set (workers p)) \<and>
     (dtor p = Joined \<longrightarrow> (\<forall>w\<in>set (workers p). w = WExit)) \<and>
     (0 < n \<and> tasks p \<noteq> [] \<longrightarrow> 0 < pending p \<or> (\<exists>w\<in>set (workers p). active w))"

lemma running_update:
  assumes "i < length ws"
  shows "\<Sum>\<^sub># (mset (map running (ws[i := w]))) + running (ws ! i) = \<Sum>\<^sub># (mset (map running ws)) + running w"
proof -
  define xs v ys where "xs = take i ws" "v = ws ! i" "ys = drop (Suc i) ws"
  then have "ws = xs @ v # ys" "i = length xs" using assms by (simp_all add: id_take_nth_drop)
  then show ?thesis by (simp add: list_update_append ac_simps)
qed

lemma in_update: "w \<in> set (ws[i := x]) \<Longrightarrow> w = x \<or> w \<in> set ws"
  by (meson insertE set_update_subset_insert subsetD)

lemma pool_inv_lock:
  assumes inv: "pool_inv n p" and i: "i < length (workers p)" "workers p ! i = WStart \<or> workers p ! i = WWoken"
  shows "pool_inv n (worker_lock i p)"
proof -
  have run: "running (workers p ! i) = {#}" using i(2) by auto
  note sum = running_update [OF i(1), unfolded run]
  have mem: "w \<in> set ((workers p)[i := w])" for w using i(1) by (simp add: set_update_memI)
  consider (wait) "\<not> stop p" "tasks p = []" | (exit) "stop p" "tasks p = []" | (take) t ts where "tasks p = t # ts"
    by (cases "tasks p") auto
  then show ?thesis
  proof cases
    case wait
    then have "worker_lock i p = p\<lparr>workers := (workers p)[i := WWaiting]\<rparr>" by (simp add: worker_lock_def)
    then show ?thesis using inv wait sum [of WWaiting] by (auto simp: pool_inv_def dest!: in_update)
  next
    case exit
    then have "worker_lock i p = p\<lparr>workers := (workers p)[i := WExit]\<rparr>" by (simp add: worker_lock_def)
    then show ?thesis using inv exit sum [of WExit] by (auto simp: pool_inv_def dest!: in_update)
  next
    case take
    then have eq: "worker_lock i p = p\<lparr>workers := (workers p)[i := WRun t], started := started p @ [t], tasks := ts\<rparr>"
      by (simp add: worker_lock_def)
    have "WExit \<notin> set (workers p)" using inv take by (auto simp: pool_inv_def)
    moreover from this have "dtor p \<noteq> Joined" using inv nth_mem [OF i(1)] unfolding pool_inv_def by metis
    moreover have "\<exists>w\<in>set ((workers p)[i := WRun t]). active w" using mem [of "WRun t"] by (auto simp: active_def)
    ultimately show ?thesis using inv take sum [of "WRun t"] by (auto simp: pool_inv_def eq dest!: in_update)
  qed
qed

lemma pool_inv_step:
  fixes p p' :: "'r pool"
  assumes inv: "pool_inv n p" and "pool_step p p'"
  shows "pool_inv n p'"
  using assms(2)
proof cases
  case (lock i)
  then show ?thesis using pool_inv_lock [OF inv] by blast
next
  case (run i t)
  have "\<exists>w\<in>set ((workers p)[i := WStart]). active w"
    using set_update_memI [OF run(2), of WStart] by (auto simp: active_def)
  then show ?thesis using inv run running_update [OF run(2), of WStart] nth_mem [OF run(2)]
    by (auto simp: pool_inv_def worker_run_def dest!: in_update)
next
  case (spurious i)
  have "\<exists>w\<in>set ((workers p)[i := WWoken]). active w"
    using set_update_memI [OF spurious(2), of WWoken] by (auto simp: active_def)
  then show ?thesis using inv spurious running_update [OF spurious(2), of WWoken] nth_mem [OF spurious(2)]
    by (auto simp: pool_inv_def dest!: in_update)
next
  case (add r k)
  then show ?thesis using inv by (auto simp: pool_inv_def add_task_def Let_def split: if_splits)
next
  case (notify_one i)
  have "\<exists>w\<in>set ((workers p)[i := WWoken]). active w"
    using set_update_memI [OF notify_one(3), of WWoken] by (auto simp: active_def)
  then show ?thesis using inv notify_one running_update [OF notify_one(3), of WWoken] nth_mem [OF notify_one(3)]
    by (auto simp: pool_inv_def notify_one_def wake_def dest!: in_update)
next
  case notify_none
  have "\<exists>w\<in>set (workers p). active w" if "0 < n" "tasks p \<noteq> []"
  proof -
    have "workers p \<noteq> []" "WExit \<notin> set (workers p)" using inv that by (auto simp: pool_inv_def)
    then have "hd (workers p) \<in> set (workers p)" by simp
    moreover from this have "active (hd (workers p))"
      using notify_none(3) \<open>WExit \<notin> _\<close> by (auto simp: active_def)
    ultimately show ?thesis by blast
  qed
  then show ?thesis using inv notify_none by (auto simp: pool_inv_def)
next
  case stop
  then show ?thesis using inv by (auto simp: pool_inv_def set_stop_def)
next
  case notify_all
  have "running \<circ> wake = (running :: 'r task wstate \<Rightarrow> _)"
    by (auto simp: wake_def fun_eq_iff split: wstate.split)
  moreover have "WWaiting \<notin> set (map wake (workers p))" by (auto simp: wake_def split: wstate.splits)
  moreover have "WExit \<in> set (map wake (workers p)) \<longleftrightarrow> WExit \<in> set (workers p)"
    by (force simp: wake_def split: wstate.splits)
  moreover have "(\<exists>w\<in>set (workers p). active w) \<Longrightarrow> (\<exists>w\<in>set (map wake (workers p)). active w)"
    by (force simp: wake_def active_def split: wstate.splits)
  ultimately show ?thesis using inv notify_all unfolding pool_inv_def notify_all_def by auto
next
  case join
  then show ?thesis using inv by (auto simp: pool_inv_def)
qed

lemma pool_reach_inv: "pool_reach n p \<Longrightarrow> pool_inv n p"
proof (induction rule: pool_reach.induct)
  case start
  then show ?case by (auto simp: pool_inv_def threadpool_new_def)
qed (rule pool_inv_step)

section \<open>Futures\<close>

text \<open>A task that was accepted as number \<open>i\<close> owns the future \<open>i\<close>, which is set when it has finished.\<close>

definition future_inv :: "'r pool \<Rightarrow> bool" where
  "future_inv p \<longleftrightarrow> map fst (added p) = [0..<length (added p)] \<and>
     futures p = map (\<lambda>t. if t \<in> set (finished p) then Some (snd t) else None) (added p)"

lemma pool_inv_sets:
  assumes "pool_inv n p"
  shows "set (finished p) \<subseteq> set (added p)" and "i < length (workers p) \<Longrightarrow> workers p ! i = WRun t \<Longrightarrow> t \<in> set (added p)"
proof -
  have s: "mset (started p) = mset (finished p) + \<Sum>\<^sub># (mset (map running (workers p)))" "set (started p) \<subseteq> set (added p)"
    using assms by (auto simp: pool_inv_def)
  have "set (finished p) \<subseteq> set (started p)" by (metis s(1) mset_subset_eq_add_left set_mset_mono set_mset_mset)
  with s(2) show "set (finished p) \<subseteq> set (added p)" by simp
  assume i: "i < length (workers p)" "workers p ! i = WRun t"
  have "running (workers p ! i) \<subseteq># \<Sum>\<^sub># (mset (map running (workers p)))"
    using i(1) by (metis in_image_mset length_map mset_map nth_map nth_mem_mset sum_mset.remove mset_subset_eq_add_left)
  then have "t \<in># mset (started p)" using i(2) by (simp add: s(1) mset_subset_eqD)
  with s(2) show "t \<in> set (added p)" by auto
qed

lemma future_inv_ids:
  assumes "future_inv p" and "j < length (added p)"
  shows "fst (added p ! j) = j"
proof -
  have "map fst (added p) ! j = [0..<length (added p)] ! j" using assms(1) by (simp add: future_inv_def)
  with assms(2) show ?thesis by simp
qed

lemma future_inv_run:
  assumes "future_inv p" and "t \<in> set (added p)"
  shows "future_inv (worker_run i t p)"
proof -
  obtain k where k: "k < length (added p)" "added p ! k = t" using assms(2) by (metis in_set_conv_nth)
  have ids: "fst (added p ! j) = j" if "j < length (added p)" for j using future_inv_ids [OF assms(1) that] .
  have "(futures p)[fst t := Some (snd t)] =
      map (\<lambda>u. if u \<in> set (finished p @ [t]) then Some (snd u) else None) (added p)"
  proof (rule nth_equalityI)
    fix j assume "j < length ((futures p)[fst t := Some (snd t)])"
    then have j: "j < length (added p)" using assms(1) by (simp add: future_inv_def)
    have "added p ! j = t \<longleftrightarrow> j = fst t" using ids [OF j] ids [OF k(1)] k by auto
    then show "(futures p)[fst t := Some (snd t)] ! j =
        map (\<lambda>u. if u \<in> set (finished p @ [t]) then Some (snd u) else None) (added p) ! j"
      using assms(1) j by (auto simp: future_inv_def nth_list_update)
  qed (use assms(1) in \<open>simp add: future_inv_def\<close>)
  with assms(1) show ?thesis by (simp add: future_inv_def worker_run_def)
qed

lemma future_inv_add:
  assumes "future_inv p" and "set (finished p) \<subseteq> set (added p)" and "add_task r p = Inr (k, p')"
  shows "future_inv p'"
proof -
  have "length (futures p) = length (added p)" using assms(1) by (simp add: future_inv_def)
  moreover have "(length (added p), r) \<notin> set (added p)"
  proof
    assume "(length (added p), r) \<in> set (added p)"
    then obtain j where "j < length (added p)" "added p ! j = (length (added p), r)" by (metis in_set_conv_nth)
    with future_inv_ids [OF assms(1)] show False by fastforce
  qed
  ultimately show ?thesis using assms by (auto simp: future_inv_def add_task_def Let_def split: if_splits)
qed

lemma future_inv_step:
  assumes "pool_inv n p" and "future_inv p" and "pool_step p p'"
  shows "future_inv p'"
  using assms(3)
proof cases
  case (run i t)
  with future_inv_run [OF assms(2)] pool_inv_sets(2) [OF assms(1)] show ?thesis by blast
next
  case (add r k)
  with future_inv_add [OF assms(2)] pool_inv_sets(1) [OF assms(1)] show ?thesis by blast
qed (use assms(2) in \<open>auto simp: future_inv_def worker_lock_def notify_one_def set_stop_def notify_all_def\<close>)

lemma pool_reach_futures: "pool_reach n p \<Longrightarrow> future_inv p"
proof (induction rule: pool_reach.induct)
  case start
  then show ?case by (simp add: future_inv_def threadpool_new_def)
qed (auto intro: future_inv_step pool_reach_inv)

section \<open>The task queue as a FIFO system\<close>

interpretation pool: fifo_system "pool_reach n" added started "\<lambda>p ts. tasks p = ts"
  by unfold_locales (auto simp: pool_inv_def dest: pool_reach_inv)

section \<open>Termination of the destructor\<close>

text \<open>The work left. A worker that goes to sleep has nothing to do, so every step of a worker is progress.\<close>

fun weight :: "'t wstate \<Rightarrow> nat" where
  "weight (WRun t) = 2"
| "weight WStart = 1"
| "weight WWoken = 1"
| "weight _ = 0"

definition work :: "'r pool \<Rightarrow> nat" where
  "work p = 3 * length (tasks p) + sum_list (map weight (workers p))"

lemma weight_update:
  assumes "i < length ws"
  shows "sum_list (map weight (ws[i := w])) + weight (ws ! i) = sum_list (map weight ws) + weight w"
proof -
  define xs v ys where "xs = take i ws" "v = ws ! i" "ys = drop (Suc i) ws"
  then have "ws = xs @ v # ys" "i = length xs" using assms by (simp_all add: id_take_nth_drop)
  then show ?thesis by (simp add: list_update_append)
qed

inductive worker_step :: "'r pool \<Rightarrow> 'r pool \<Rightarrow> bool" where
  lock: "i < length (workers p) \<Longrightarrow> workers p ! i = WStart \<or> workers p ! i = WWoken \<Longrightarrow>
    worker_step p (worker_lock i p)"
| run: "i < length (workers p) \<Longrightarrow> workers p ! i = WRun t \<Longrightarrow> worker_step p (worker_run i t p)"

lemma worker_pool_step: "worker_step p p' \<Longrightarrow> pool_step p p'"
  by (induction rule: worker_step.induct) (auto intro: pool_step.intros)

inductive notify_step :: "'r pool \<Rightarrow> 'r pool \<Rightarrow> bool" where
  one: "0 < pending p \<Longrightarrow> i < length (workers p) \<Longrightarrow> workers p ! i = WWaiting \<Longrightarrow> notify_step p (notify_one i p)"
| none: "0 < pending p \<Longrightarrow> WWaiting \<notin> set (workers p) \<Longrightarrow> notify_step p (p\<lparr>pending := pending p - 1\<rparr>)"

lemma notify_pool_step: "notify_step p p' \<Longrightarrow> pool_step p p'"
  by (erule notify_step.cases) (hypsubst, (rule pool_step.notify_one pool_step.notify_none; assumption))+

lemma notify_step_work:
  assumes "notify_step p p'"
  shows "pending p = Suc (pending p')" and "work p' \<le> Suc (work p)"
    and "dtor p' = dtor p" and "stop p' = stop p" and "added p' = added p"
proof -
  have "pending p = Suc (pending p') \<and> work p' \<le> Suc (work p) \<and> dtor p' = dtor p \<and> stop p' = stop p \<and> added p' = added p"
    using assms
  proof cases
    case (one i)
    then show ?thesis using weight_update [OF one(3), of WWoken] by (simp add: notify_one_def work_def wake_def)
  qed (simp add: work_def)
  then show "pending p = Suc (pending p')" "work p' \<le> Suc (work p)" "dtor p' = dtor p" "stop p' = stop p" "added p' = added p"
    by auto
qed

lemma notify_possible:
  assumes "0 < pending p"
  shows "\<exists>p'. notify_step p p'"
proof (cases "WWaiting \<in> set (workers p)")
  case True
  then obtain i where "i < length (workers p)" "workers p ! i = WWaiting" by (metis in_set_conv_nth)
  with assms show ?thesis by (blast intro: notify_step.one)
qed (use assms in \<open>blast intro: notify_step.none\<close>)

lemma pool_wakeup:
  assumes "pool_inv n p" and "0 < n" and "tasks p \<noteq> []"
  shows "\<exists>p'. worker_step p p' \<or> notify_step p p'"
proof (cases "\<exists>w\<in>set (workers p). active w")
  case True
  then obtain i where "i < length (workers p)" "active (workers p ! i)" by (metis in_set_conv_nth)
  then show ?thesis by (cases "workers p ! i") (auto simp: active_def intro: worker_step.intros)
next
  case False
  then have "0 < pending p" using assms by (auto simp: pool_inv_def)
  then show ?thesis using notify_possible by blast
qed

lemma worker_step_added:
  assumes "worker_step p p'"
  shows "added p' = added p"
  using assms by cases (auto simp: worker_lock_def worker_run_def)

lemma worker_step_work:
  assumes "worker_step p p'"
  shows "work p' < work p \<and> stop p' = stop p \<and> dtor p' = dtor p \<and> pending p' = pending p"
  using assms
proof cases
  case (lock i)
  then have w: "weight (workers p ! i) = 1" by auto
  show ?thesis using lock(1) weight_update [OF lock(2), of WExit] weight_update [OF lock(2), of WWaiting]
      weight_update [OF lock(2), of "WRun (hd (tasks p))"] w
    by (cases "tasks p") (auto simp: worker_lock_def work_def)
next
  case (run i t)
  then show ?thesis using weight_update [OF run(2), of WStart]
    by (auto simp: worker_run_def work_def)
qed

lemma worker_progress:
  assumes "WWaiting \<notin> set (workers p)" and "\<exists>w\<in>set (workers p). w \<noteq> WExit"
  shows "\<exists>p'. worker_step p p'"
proof -
  obtain i where i: "i < length (workers p)" "workers p ! i \<noteq> WExit"
    using assms(2) by (metis in_set_conv_nth)
  moreover have "workers p ! i \<noteq> WWaiting" using assms(1) i(1) nth_mem by metis
  ultimately show ?thesis
    by (cases "workers p ! i") (auto intro: worker_step.intros)
qed

lemma destructor_finishes:
  assumes "pool_inv n p" and "dtor p = Notified"
  shows "\<exists>p'. worker_step\<^sup>*\<^sup>* p p' \<and> dtor p' = Notified \<and> (\<forall>w\<in>set (workers p'). w = WExit)"
  using assms
proof (induction "work p" arbitrary: p rule: less_induct)
  case less
  show ?case
  proof (cases "\<forall>w\<in>set (workers p). w = WExit")
    case True
    then show ?thesis using less.prems by blast
  next
    case False
    have "WWaiting \<notin> set (workers p)" "stop p" using less.prems by (auto simp: pool_inv_def)
    then obtain p1 where p1: "worker_step p p1" using worker_progress False by blast
    then have "work p1 < work p" "dtor p1 = Notified" "pool_inv n p1"
      using worker_step_work [OF p1] less.prems pool_inv_step [OF _ worker_pool_step [OF p1]] by auto
    then obtain p' where "worker_step\<^sup>*\<^sup>* p1 p'" "dtor p' = Notified" "\<forall>w\<in>set (workers p'). w = WExit"
      using less.hyps by blast
    then show ?thesis using p1 by (meson converse_rtranclp_into_rtranclp)
  qed
qed

lemma worker_steps_reach: "worker_step\<^sup>*\<^sup>* p p' \<Longrightarrow> pool_reach n p \<Longrightarrow> pool_reach n p'"
  by (induction rule: rtranclp_induct) (auto intro: pool_reach.step worker_pool_step)

section \<open>Properties\<close>

text \<open>A pool with one worker that was given a task with the result 5, before and after the worker took it.\<close>

definition pool4 :: "nat pool" where
  "pool4 = \<lparr>workers = [WStart], tasks = [(0, Value 5)], stop = False, pending = 1, dtor = Live, futures = [None],
     added = [(0, Value 5)], started = [], finished = []\<rparr>"

definition pool5 :: "nat pool" where
  "pool5 = \<lparr>workers = [WRun (0, Value 5)], tasks = [], stop = False, pending = 1, dtor = Live, futures = [None],
     added = [(0, Value 5)], started = [(0, Value 5)], finished = []\<rparr>"

lemma pool4_reach: "pool_reach 1 pool4"
proof (rule pool_reach.step [OF pool_reach.start])
  show "pool_step (threadpool_new 1) pool4"
    by (rule pool_step.add [of "Value 5" _ 0]) (simp add: add_task_def Let_def threadpool_new_def pool4_def)
qed

lemma pool5_reach: "pool_reach 1 pool5"
proof (rule pool_reach.step [OF pool4_reach])
  have "worker_lock 0 pool4 = pool5" by (simp add: worker_lock_def pool4_def pool5_def)
  then show "pool_step pool4 pool5" using pool_step.lock [of 0 pool4] by (simp add: pool4_def)
qed

lemma pool_drained:
  assumes "pool_reach n p" and "0 < n" and "dtor p = Joined"
  shows "tasks p = [] \<and> mset (finished p) = mset (added p) \<and> futures p = map (\<lambda>t. Some (snd t)) (added p)"
proof -
  have inv: "pool_inv n p" using pool_reach_inv [OF assms(1)] .
  then have ex: "\<forall>w\<in>set (workers p). w = WExit" "workers p \<noteq> []"
    using assms(2,3) by (auto simp: pool_inv_def)
  then have "WExit \<in> set (workers p)" by (metis hd_in_set)
  moreover have "\<Sum>\<^sub># (mset (map running (workers p))) = {#}" using ex(1) by (induction "workers p") auto
  ultimately have all: "tasks p = [] \<and> mset (finished p) = mset (added p)" using inv by (simp add: pool_inv_def)
  then have "set (finished p) = set (added p)" by (metis set_mset_mset)
  with all pool_reach_futures [OF assms(1)] show ?thesis by (simp add: future_inv_def)
qed

text \<open>C18. In every reachable state of the pool, the accepted tasks are, in order, those that were
  started followed by those still queued; the started ones are exactly the finished and the running
  ones. So tasks start in submission order and each runs exactly once. The future of a task holds the outcome of that
  task if it has finished, and nothing otherwise. When the destructor of a pool with at least one worker has joined its
  workers, every task that was ever accepted has been run to its end, and all futures are set.\<close>

theorem pool_exactly_once:
  assumes "pool_reach n p"
  shows "added p = started p @ tasks p \<and>
    mset (started p) = mset (finished p) + \<Sum>\<^sub># (mset (map running (workers p))) \<and>
    futures p = map (\<lambda>t. if t \<in> set (finished p) then Some (snd t) else None) (added p) \<and>
    (0 < n \<and> dtor p = Joined \<longrightarrow> tasks p = [] \<and> mset (finished p) = mset (added p) \<and>
      futures p = map (\<lambda>t. Some (snd t)) (added p))"
  using pool_reach_inv [OF assms] pool_reach_futures [OF assms] pool_drained [OF assms]
  by (simp only: pool_inv_def future_inv_def) blast

theorem pool_exactly_once_witness:
  "\<exists>p::nat pool. pool_reach 1 p \<and> dtor p = Joined \<and> added p = [(0, Value 5)] \<and>
     tasks p = [] \<and> mset (finished p) = mset (added p) \<and> futures p = [Some (Value 5)]"
proof -
  let ?p1 = "worker_run 0 (0, Value 5) pool5" let ?p2 = "notify_all (set_stop ?p1)" let ?p3 = "worker_lock 0 ?p2"
  let ?p4 = "?p3\<lparr>dtor := Joined\<rparr>"
  note defs = pool5_def worker_run_def set_stop_def notify_all_def wake_def worker_lock_def
  have "pool_step pool5 ?p1" by (rule pool_step.run) (simp_all add: defs)
  moreover have "pool_step ?p1 (set_stop ?p1)" by (rule pool_step.stop) (simp add: defs)
  moreover have "pool_step (set_stop ?p1) ?p2" by (rule pool_step.notify_all) (simp add: defs)
  moreover have "pool_step ?p2 ?p3" by (rule pool_step.lock) (simp_all add: defs)
  moreover have "pool_step ?p3 ?p4" by (rule pool_step.join) (simp_all add: defs)
  ultimately have "pool_reach 1 ?p4" using pool5_reach by (meson pool_reach.step)
  then show ?thesis using pool_exactly_once [of 1 ?p4] by (intro exI [of _ ?p4]) (simp add: defs)
qed

text \<open>C19. No wake-up is lost: while a task is queued in a pool with at least one worker, a worker can
  take a step, or a pending \<open>notify_one\<close> can be delivered.\<close>

theorem pool_no_lost_wakeup:
  assumes "pool_reach n p" and "0 < n" and "tasks p \<noteq> []"
  shows "\<exists>p'. worker_step p p' \<or> pool_step p p' \<and> pending p' < pending p"
  using pool_wakeup [OF pool_reach_inv [OF assms(1)] assms(2,3)] notify_pool_step notify_step_work(1) by fastforce

theorem pool_no_lost_wakeup_witness:
  "\<exists>p'. worker_step pool4 p' \<or> pool_step pool4 p' \<and> pending p' < pending pool4"
  by (rule pool_no_lost_wakeup [OF pool4_reach]) (simp_all add: pool4_def)

text \<open>C20. The destructor terminates: after \<open>notify_all\<close> every step of a worker decreases the work
  left, some worker can step unless all have returned, and the workers reach the state in which the
  joins return.\<close>

theorem pool_destructor_terminates:
  assumes "pool_reach n p" and "dtor p = Notified"
  shows "(\<forall>p'. worker_step p p' \<longrightarrow> work p' < work p) \<and>
    ((\<exists>w\<in>set (workers p). w \<noteq> WExit) \<longrightarrow> (\<exists>p'. worker_step p p')) \<and>
    (\<exists>p'. worker_step\<^sup>*\<^sup>* p p' \<and> pool_reach n (p'\<lparr>dtor := Joined\<rparr>))"
proof -
  have inv: "pool_inv n p" using pool_reach_inv [OF assms(1)] .
  then have "stop p" "WWaiting \<notin> set (workers p)" using assms(2) by (auto simp: pool_inv_def)
  moreover obtain p' where p': "worker_step\<^sup>*\<^sup>* p p'" "dtor p' = Notified" "\<forall>w\<in>set (workers p'). w = WExit"
    using destructor_finishes [OF inv assms(2)] by blast
  moreover have "pool_reach n (p'\<lparr>dtor := Joined\<rparr>)"
    using pool_reach.step [OF worker_steps_reach [OF p'(1) assms(1)] pool_step.join [OF p'(2,3)]] .
  ultimately show ?thesis using worker_step_work worker_progress by blast
qed

theorem pool_destructor_terminates_witness:
  "\<exists>p'. worker_step\<^sup>*\<^sup>* (notify_all (set_stop pool5)) p' \<and> pool_reach 1 (p'\<lparr>dtor := Joined\<rparr>)"
proof -
  have "pool_reach 1 (set_stop pool5)"
    by (rule pool_reach.step [OF pool5_reach pool_step.stop]) (simp add: pool5_def)
  then have "pool_reach 1 (notify_all (set_stop pool5))"
    by (rule pool_reach.step [OF _ pool_step.notify_all]) (simp add: set_stop_def)
  then show ?thesis using pool_destructor_terminates [of 1 "notify_all (set_stop pool5)"]
    by (simp add: notify_all_def)
qed

end
