(* ===== verification/Threadpool_Main.thy ===== *)
theory Threadpool_Main
  imports Threadpool
begin

text \<open>
  \<open>main\<close> of \<open>ThreadPool/Threadpool.cpp\<close> (lines 83 to 106): it creates a pool of four workers, adds eight tasks,
  the \<open>i\<close>-th with the result \<open>i * i\<close>, sleeps, prints what the futures hold in the order of the calls, and
  destroys the pool on return. The main thread runs concurrently with the workers: a state is the pool, the
  point main has reached, the futures it keeps and what it has printed.

  Proved: in every interleaving main prints a prefix of the squares of 0 to 7, all of them by the time the pool is
  destroyed; every step but a spurious wake-up decreases a measure, and one is possible until main returns.
\<close>

section \<open>The program\<close>

text \<open>\<open>Terminated\<close> is the end of the process when \<open>get\<close> rethrows what a task has thrown.\<close>

datatype main_pc = Adding nat | Getting nat | Returning | Terminated

record main_state =
  pool :: "int pool"
  pc :: main_pc
  results :: "nat list"
  printed :: "int list"

definition main_init :: main_state where
  "main_init = \<lparr>pool = threadpool_new 4, pc = Adding 0, results = [], printed = []\<rparr>"

definition square :: "nat \<Rightarrow> int task_outcome" where
  "square i = Value (int i * int i)"

text \<open>A call of \<open>add_task\<close> up to its \<open>notify_one\<close>; an exception would end the process.\<close>

definition main_add :: "nat \<Rightarrow> main_state \<Rightarrow> main_state" where
  "main_add i m = (case add_task (square i) (pool m) of
     Inl _ \<Rightarrow> m\<lparr>pc := Terminated\<rparr>
   | Inr (k, p) \<Rightarrow> m\<lparr>pool := p, results := results m @ [k], pc := Adding (Suc i)\<rparr>)"

text \<open>\<open>result.get()\<close> and the output, once the future is ready.\<close>

definition main_get :: "nat \<Rightarrow> main_state \<Rightarrow> main_state option" where
  "main_get i m = (case futures (pool m) ! (results m ! i) of
     None \<Rightarrow> None
   | Some (Value v) \<Rightarrow> Some (m\<lparr>printed := printed m @ [v], pc := Getting (Suc i)\<rparr>)
   | Some (Raised _) \<Rightarrow> Some (m\<lparr>pc := Terminated\<rparr>))"

inductive main_step :: "main_state \<Rightarrow> main_state \<Rightarrow> bool" where
  worker: "worker_step (pool m) p \<Longrightarrow> main_step m (m\<lparr>pool := p\<rparr>)"
| notify: "notify_step (pool m) p \<Longrightarrow> main_step m (m\<lparr>pool := p\<rparr>)"
| add: "pc m = Adding i \<Longrightarrow> i < 8 \<Longrightarrow> pending (pool m) = 0 \<Longrightarrow> main_step m (main_add i m)"
| sleep: "pc m = Adding 8 \<Longrightarrow> pending (pool m) = 0 \<Longrightarrow> main_step m (m\<lparr>pc := Getting 0\<rparr>)"
| get: "pc m = Getting i \<Longrightarrow> i < length (results m) \<Longrightarrow> main_get i m = Some m' \<Longrightarrow> main_step m m'"
| stop: "pc m = Getting i \<Longrightarrow> i = length (results m) \<Longrightarrow> main_step m (m\<lparr>pool := set_stop (pool m), pc := Returning\<rparr>)"
| notify_all: "pc m = Returning \<Longrightarrow> dtor (pool m) = Stopped \<Longrightarrow> main_step m (m\<lparr>pool := notify_all (pool m)\<rparr>)"
| join: "pc m = Returning \<Longrightarrow> dtor (pool m) = Notified \<Longrightarrow> \<forall>w\<in>set (workers (pool m)). w = WExit \<Longrightarrow>
    main_step m (m\<lparr>pool := (pool m)\<lparr>dtor := Joined\<rparr>\<rparr>)"

inductive main_reach :: "main_state \<Rightarrow> bool" where
  start: "main_reach main_init"
| step: "main_reach m \<Longrightarrow> main_step m m' \<Longrightarrow> main_reach m'"
| spurious: "main_reach m \<Longrightarrow> i < length (workers (pool m)) \<Longrightarrow> workers (pool m) ! i = WWaiting \<Longrightarrow>
    main_reach (m\<lparr>pool := (pool m)\<lparr>workers := (workers (pool m))[i := WWoken]\<rparr>\<rparr>)"

section \<open>The invariant\<close>

text \<open>How many tasks main has added and how many results it has printed.\<close>

fun added_at :: "main_pc \<Rightarrow> nat" where
  "added_at (Adding i) = i"
| "added_at _ = 8"

fun printed_at :: "main_pc \<Rightarrow> nat" where
  "printed_at (Adding i) = 0"
| "printed_at (Getting i) = i"
| "printed_at _ = 8"

fun adding :: "main_pc \<Rightarrow> bool" where
  "adding (Adding i) = True"
| "adding _ = False"

definition main_inv :: "main_state \<Rightarrow> bool" where
  "main_inv m \<longleftrightarrow> pool_reach 4 (pool m) \<and> pc m \<noteq> Terminated \<and> added_at (pc m) \<le> 8 \<and> printed_at (pc m) \<le> 8 \<and>
     map snd (added (pool m)) = map square [0..<added_at (pc m)] \<and> results m = [0..<added_at (pc m)] \<and>
     printed m = map (\<lambda>i. int i * int i) [0..<printed_at (pc m)] \<and>
     (dtor (pool m) = Live \<longleftrightarrow> pc m \<noteq> Returning) \<and> (\<not> adding (pc m) \<longrightarrow> pending (pool m) = 0)"

lemma main_inv_pool:
  assumes "main_inv m" and "pool_step (pool m) p" and "added p = added (pool m)" and "dtor p = dtor (pool m)"
    and "pending p \<le> pending (pool m)"
  shows "main_inv (m\<lparr>pool := p\<rparr>)"
  using assms pool_reach.step [OF _ assms(2)] by (auto simp: main_inv_def)

lemma main_inv_future:
  assumes "main_inv m" and "i < added_at (pc m)"
  shows "futures (pool m) ! (results m ! i) =
    (if added (pool m) ! i \<in> set (finished (pool m)) then Some (square i) else None)"
proof -
  have snd: "map snd (added (pool m)) = map square [0..<added_at (pc m)]" using assms(1) by (simp add: main_inv_def)
  then have len: "length (added (pool m)) = added_at (pc m)" by (metis length_map length_upt minus_nat.diff_0)
  then have "snd (added (pool m) ! i) = square i"
    using arg_cong [OF snd, of "\<lambda>xs. xs ! i"] assms(2) by simp
  moreover have "future_inv (pool m)" using assms(1) pool_reach_futures by (auto simp: main_inv_def)
  moreover have "results m ! i = i" using assms by (simp add: main_inv_def)
  ultimately show ?thesis using assms(2) len by (simp add: future_inv_def)
qed

lemma main_add_eq:
  assumes "main_inv m" and "pc m = Adding i"
  shows "main_add i m = m\<lparr>pool := (pool m)\<lparr>tasks := tasks (pool m) @ [(i, square i)], pending := Suc (pending (pool m)),
      futures := futures (pool m) @ [None], added := added (pool m) @ [(i, square i)]\<rparr>,
    results := results m @ [i], pc := Adding (Suc i)\<rparr>"
    and "add_task (square i) (pool m) = Inr (i, pool (main_add i m))"
proof -
  have "\<not> stop (pool m)" using assms pool_reach_inv [of 4 "pool m"] by (simp add: main_inv_def pool_inv_def)
  moreover have "length (added (pool m)) = i" using assms
    by (metis main_inv_def added_at.simps(1) length_map length_upt minus_nat.diff_0)
  then have "length (futures (pool m)) = i"
    using assms(1) pool_reach_futures [of 4 "pool m"] by (simp add: main_inv_def future_inv_def)
  ultimately show "main_add i m = m\<lparr>pool := (pool m)\<lparr>tasks := tasks (pool m) @ [(i, square i)], pending := Suc (pending (pool m)),
      futures := futures (pool m) @ [None], added := added (pool m) @ [(i, square i)]\<rparr>,
    results := results m @ [i], pc := Adding (Suc i)\<rparr>"
    and "add_task (square i) (pool m) = Inr (i, pool (main_add i m))"
    by (simp_all add: main_add_def add_task_def Let_def)
qed

lemma main_get_eq:
  assumes "main_inv m" and "pc m = Getting i" and "i < length (results m)" and "main_get i m = Some m'"
  shows "m' = m\<lparr>printed := printed m @ [int i * int i], pc := Getting (Suc i)\<rparr>" and "i < 8"
proof -
  show "i < 8" using assms(1-3) by (simp add: main_inv_def)
  then show "m' = m\<lparr>printed := printed m @ [int i * int i], pc := Getting (Suc i)\<rparr>"
    using assms(4) main_inv_future [OF assms(1), of i] assms(2)
    by (auto simp: main_get_def square_def split: if_splits)
qed

lemma main_inv_step:
  assumes inv: "main_inv m" and "main_step m m'"
  shows "main_inv m'"
  using assms(2)
proof cases
  case (worker p)
  then show ?thesis
    using main_inv_pool [OF inv worker_pool_step] worker_step_added [OF worker(2)] worker_step_work [OF worker(2)] by simp
next
  case (notify p)
  then show ?thesis
    using main_inv_pool [OF inv notify_pool_step] notify_step_work [OF notify(2)] by simp
next
  case (add i)
  then have "pool_reach 4 (pool (main_add i m))"
    using inv main_add_eq(2) [OF inv add(2)] pool_reach.step pool_step.add by (metis main_inv_def)
  then show ?thesis using inv add main_add_eq(1) [OF inv add(2)] by (simp add: main_inv_def)
next
  case (get i)
  then show ?thesis using inv main_get_eq [OF inv get] by (simp add: main_inv_def)
next
  case (stop i)
  then have "pool_reach 4 (set_stop (pool m))" using inv
    by (auto simp: main_inv_def intro: pool_reach.step pool_step.stop)
  then show ?thesis using inv stop by (simp add: main_inv_def set_stop_def)
next
  case notify_all
  then have "pool_reach 4 (Threadpool.notify_all (pool m))" using inv
    by (auto simp: main_inv_def intro: pool_reach.step pool_step.notify_all)
  then show ?thesis using inv notify_all by (simp add: main_inv_def notify_all_def)
next
  case join
  then have "pool_reach 4 ((pool m)\<lparr>dtor := Joined\<rparr>)" using inv
    by (auto simp: main_inv_def intro: pool_reach.step pool_step.join)
  then show ?thesis using inv join by (simp add: main_inv_def)
qed (use inv in \<open>simp add: main_inv_def\<close>)

lemma main_reach_inv: "main_reach m \<Longrightarrow> main_inv m"
proof (induction rule: main_reach.induct)
  case start
  show ?case using pool_reach.start [of 4] by (simp add: main_inv_def main_init_def threadpool_new_def)
next
  case (spurious m i)
  then show ?case by (intro main_inv_pool [OF spurious.IH] pool_step.spurious) simp_all
qed (rule main_inv_step)

section \<open>Termination\<close>

text \<open>What main has still to do; each of its steps adds less than 10 to the work of the pool.\<close>

fun main_left :: "main_pc \<Rightarrow> dstate \<Rightarrow> nat" where
  "main_left (Adding i) d = 20 - i"
| "main_left (Getting i) d = 11 - i"
| "main_left Returning Stopped = 2"
| "main_left Returning Notified = 1"
| "main_left _ d = 0"

definition main_work :: "main_state \<Rightarrow> nat" where
  "main_work m = 10 * main_left (pc m) (dtor (pool m)) + work (pool m) + 2 * pending (pool m)"

lemma work_wake: "sum_list (map weight (map wake ws)) \<le> sum_list (map weight ws) + length ws"
  by (induction ws) (auto simp: wake_def split: wstate.split)

lemma main_step_decreases:
  assumes inv: "main_inv m" and "main_step m m'"
  shows "main_work m' < main_work m"
  using assms(2)
proof cases
  case (worker p)
  then show ?thesis using worker_step_work [OF worker(2)] by (simp add: main_work_def)
next
  case (notify p)
  then show ?thesis using notify_step_work [OF notify(2)] by (simp add: main_work_def)
next
  case (add i)
  then show ?thesis using main_add_eq(1) [OF inv add(2)] by (simp add: main_work_def work_def)
next
  case (get i)
  then show ?thesis using main_get_eq [OF inv get] by (simp add: main_work_def)
next
  case (stop i)
  then show ?thesis using inv by (simp add: main_work_def main_inv_def set_stop_def work_def)
next
  case notify_all
  have "length (workers (pool m)) = 4" using inv pool_reach_inv [of 4 "pool m"] by (simp add: main_inv_def pool_inv_def)
  then show ?thesis using notify_all work_wake [of "workers (pool m)"] by (simp add: main_work_def notify_all_def work_def)
qed (simp_all add: main_work_def work_def)

section \<open>Progress\<close>

lemma running_task:
  assumes "pool_inv n p" and "tasks p = []" and "t \<in> set (added p)" and "t \<notin> set (finished p)"
  shows "\<exists>p'. worker_step p p'"
proof -
  have "t \<in># \<Sum>\<^sub># (mset (map running (workers p)))"
    using assms by (auto simp: pool_inv_def dest!: arg_cong [of "mset _" _ set_mset])
  then obtain w where w: "w \<in> set (workers p)" "t \<in># running w" by auto
  then obtain i where "i < length (workers p)" "workers p ! i = w" by (metis in_set_conv_nth)
  then show ?thesis using w(2) by (cases w) (auto intro: worker_step.run)
qed

lemma get_progress:
  assumes inv: "main_inv m" and "pc m = Getting i" and "i < 8"
  shows "\<exists>m'. main_step m m'"
proof (cases "added (pool m) ! i \<in> set (finished (pool m))")
  case True
  then have "\<exists>m'. main_get i m = Some m'" using main_inv_future [OF inv, of i] assms(2,3) by (simp add: main_get_def square_def)
  moreover have "i < length (results m)" using assms by (simp add: main_inv_def)
  ultimately show ?thesis using assms(2) by (blast intro: main_step.get)
next
  case False
  have p: "pool_inv 4 (pool m)" using inv pool_reach_inv by (auto simp: main_inv_def)
  have "length (added (pool m)) = 8" using assms(1,2)
    by (metis main_inv_def added_at.simps(2) length_map length_upt minus_nat.diff_0)
  then have "added (pool m) ! i \<in> set (added (pool m))" using assms(3) by simp
  then have "\<exists>p'. worker_step (pool m) p' \<or> notify_step (pool m) p'"
    using pool_wakeup [OF p] running_task [OF p _ _ False] by fastforce
  then show ?thesis by (blast intro: main_step.worker main_step.notify)
qed

lemma return_progress:
  assumes inv: "main_inv m" and "pc m = Returning" and "dtor (pool m) \<noteq> Joined"
  shows "\<exists>m'. main_step m m'"
proof -
  have p: "pool_inv 4 (pool m)" using inv pool_reach_inv by (auto simp: main_inv_def)
  consider "dtor (pool m) = Stopped" | "dtor (pool m) = Notified" using assms by (cases "dtor (pool m)") (auto simp: main_inv_def)
  then show ?thesis
  proof cases
    case 1
    with assms(2) show ?thesis by (blast intro: main_step.notify_all)
  next
    case 2
    then have "WWaiting \<notin> set (workers (pool m))" using p by (simp add: pool_inv_def)
    then show ?thesis using worker_progress main_step.worker main_step.join [OF assms(2) 2] by blast
  qed
qed

lemma main_progress:
  assumes inv: "main_inv m" and "dtor (pool m) \<noteq> Joined"
  shows "\<exists>m'. main_step m m'"
proof (cases "0 < pending (pool m)")
  case True
  then show ?thesis using notify_possible main_step.notify by blast
next
  case False
  show ?thesis
  proof (cases "pc m")
    case (Adding i)
    then have "i < 8 \<or> i = 8" using inv by (auto simp: main_inv_def)
    then show ?thesis using Adding False by (auto intro: main_step.add main_step.sleep)
  next
    case (Getting i)
    then have "i < 8 \<or> i = length (results m)" using inv by (auto simp: main_inv_def)
    then show ?thesis using Getting get_progress [OF inv Getting] by (auto intro: main_step.stop)
  next
    case Returning
    then show ?thesis using return_progress assms by blast
  next
    case Terminated
    then show ?thesis using inv by (simp add: main_inv_def)
  qed
qed

section \<open>Properties\<close>

text \<open>C21. In every interleaving of \<open>main\<close> with its four workers, spurious wake-ups included, no exception
  reaches \<open>main\<close>, what it has printed are the first of the squares of 0 to 7 in order, and all of them when the
  pool has been destroyed. Every step but a spurious wake-up decreases the work left, and until the pool has been
  destroyed such a step is possible, so \<open>main\<close> returns.\<close>

theorem pool_main_correct:
  assumes "main_reach m"
  shows "pc m \<noteq> Terminated \<and> (\<exists>k\<le>8. printed m = map (\<lambda>i. int i * int i) [0..<k]) \<and>
    (dtor (pool m) = Joined \<longrightarrow> printed m = [0, 1, 4, 9, 16, 25, 36, 49]) \<and>
    (\<forall>m'. main_step m m' \<longrightarrow> main_work m' < main_work m) \<and>
    (dtor (pool m) \<noteq> Joined \<longrightarrow> (\<exists>m'. main_step m m'))"
proof -
  have inv: "main_inv m" using main_reach_inv [OF assms] .
  then have "printed m = [0, 1, 4, 9, 16, 25, 36, 49]" if "dtor (pool m) = Joined"
    using that by (cases "pc m") (simp_all add: main_inv_def upt_rec)
  with inv show ?thesis using main_step_decreases [OF inv] main_progress [OF inv] by (auto simp: main_inv_def)
qed

theorem pool_main_correct_witness:
  "\<exists>m. main_reach m \<and> added (pool m) = [(0, Value 0)] \<and> printed m = [] \<and> (\<exists>m'. main_step m m' \<and> main_work m' < main_work m)"
proof -
  let ?m = "main_add 0 main_init"
  have "main_step main_init ?m" by (rule main_step.add) (simp_all add: main_init_def threadpool_new_def)
  then have reach: "main_reach ?m" using main_reach.start main_reach.step by blast
  have "dtor (pool ?m) = Live" "added (pool ?m) = [(0, Value 0)]" "printed ?m = []"
    by (simp_all add: main_add_def main_init_def add_task_def Let_def threadpool_new_def square_def)
  then show ?thesis using pool_main_correct [OF reach] reach by (intro exI [of _ ?m]) auto
qed

end
