(* ===== verification/Myfs.thy ===== *)
theory Myfs
  imports Prelude
begin

text \<open>
  The file system of \<open>spdk_filesystem/myfs.c\<close>: the bitmap of file descriptors, the callbacks that
  run on the SPDK thread, the operations on files and the POSIX functions the program overrides.

  SPDK and the kernel are parameters. A value of type \<open>'w\<close> is their state and \<open>spdk\<close> the
  record of the calls the file system makes: \<open>submit\<close> starts an asynchronous request,
  \<open>send_msg\<close> posts a function to the thread, and \<open>thread_poll\<close> (\<open>spdk_thread_poll\<close>) yields the
  functions and completion callbacks that are due, which then run one after the other. Every
  request here is submitted in tail position, so a completion inside the submitting call is the
  same as one that is due next.

  A null or dangling pointer, an index outside a table or a buffer, a division by zero or a failed
  assertion has no value (\<open>None\<close>). \<open>malloc\<close> succeeds. \<open>exit(1)\<close> in \<open>myfs_alloc\<close> is recorded in
  \<open>exit_code\<close>, after which nothing more runs.
\<close>

section \<open>The bitmap of file descriptors\<close>

definition MAX_FD_COUNT :: nat where "MAX_FD_COUNT = 1024"
definition DEFAULT_FD_NUM :: nat where "DEFAULT_FD_NUM = 3"
definition FD_TABLE_SIZE :: nat where "FD_TABLE_SIZE = 128"

definition fd_mask :: "nat \<Rightarrow> byte" where
  "fd_mask fd = push_bit (fd mod 8) 1"

unbundle bit_operations_syntax

function get_fd_loop :: "nat \<Rightarrow> byte list \<Rightarrow> int \<times> byte list" where
  "get_fd_loop fd tbl = (if fd < MAX_FD_COUNT then
     (if tbl ! (fd div 8) AND fd_mask fd = 0 then (int fd, tbl[fd div 8 := tbl ! (fd div 8) OR fd_mask fd])
      else get_fd_loop (fd + 1) tbl)
     else (- 1, tbl))"
  by pat_completeness auto
termination by (relation "measure (\<lambda>(fd, tbl). MAX_FD_COUNT - fd)") auto

definition get_fd_from_bitmap :: "byte list \<Rightarrow> int \<times> byte list" where
  "get_fd_from_bitmap tbl = get_fd_loop DEFAULT_FD_NUM tbl"

text \<open>A negative descriptor is a negative index or shift.\<close>

definition set_fd_to_bitmap :: "int \<Rightarrow> byte list \<Rightarrow> (int \<times> byte list) option" where
  "set_fd_to_bitmap fd tbl = (if fd \<ge> int MAX_FD_COUNT then Some (- 1, tbl)
     else if fd < 0 then None
     else Some (0, tbl[nat fd div 8 := tbl ! (nat fd div 8) AND NOT (fd_mask (nat fd))]))"

section \<open>State\<close>

type_synonym blob_id = "64 word"

datatype myfs_file_status = FILE_CREATE | FILE_OPEN | FILE_WRITE | FILE_READ | FILE_CLOSE | FILE_RELEASE

text \<open>\<open>struct myfs_file_s\<close> without \<open>filename\<close>, which nothing accesses, and the back pointer \<open>fs\<close>, which is only
  set.\<close>

record myfs_file =
  blobid :: blob_id
  blob :: "addr option"
  flags :: cint
  offset :: cint
  ret :: int
  status :: myfs_file_status
  file_done :: bool

record myfs =
  thread :: bool
  bs_dev :: "addr option"
  bs :: "addr option"
  channel :: "addr option"
  unit_size :: size_t
  finished :: bool

text \<open>The functions that run on the SPDK thread, with their arguments: messages and completion
  callbacks. A file is the address of its \<open>struct myfs_file_s\<close>; a buffer is a block of the client's
  memory.\<close>

datatype call =
    Setup_json | Json_load_done
  | Call_alloc | Bs_init_complete "addr option" int
  | Call_free | Bs_destroy_complete int
  | Do_create addr | Do_open addr | Do_write addr addr size_t | Do_read addr addr size_t
  | Do_close addr | Do_release addr
  | Get_super_complete addr blob_id int | Create_complete addr blob_id int
  | Open_complete addr "(addr \<times> blob_id) option" int | Resize_complete addr int
  | Write_complete addr int | Read_complete addr addr "byte list" int
  | Close_complete addr int | Release_complete addr int

text \<open>The asynchronous requests; the last argument is the file passed to the callback.\<close>

datatype request =
    Json_config | Bs_init "addr option" | Bs_destroy "addr option"
  | Bs_get_super addr | Bs_create_blob addr | Bs_open_blob blob_id addr
  | Blob_resize addr size_t addr
  | Blob_io_write addr "byte list" size_t size_t addr
  | Blob_io_read addr addr size_t size_t addr
  | Blob_close addr addr | Bs_delete_blob blob_id addr

record 'w spdk =
  env_init :: "'w \<Rightarrow> int \<times> 'w"
  thread_create :: "'w \<Rightarrow> bool \<times> 'w"
  send_msg :: "call \<Rightarrow> 'w \<Rightarrow> 'w"
  submit :: "request \<Rightarrow> 'w \<Rightarrow> 'w"
  thread_poll :: "'w \<Rightarrow> call list \<times> 'w"
  create_bs_dev :: "'w \<Rightarrow> (int \<times> addr option) \<times> 'w"
  get_io_unit_size :: "addr \<Rightarrow> 'w \<Rightarrow> size_t"
  alloc_io_channel :: "addr \<Rightarrow> 'w \<Rightarrow> addr option \<times> 'w"
  free_io_channel :: "addr option \<Rightarrow> 'w \<Rightarrow> 'w"
  free_cluster_count :: "addr \<Rightarrow> 'w \<Rightarrow> size_t"
  sys_creat :: "string \<Rightarrow> 'w \<Rightarrow> int \<times> 'w"
  sys_open :: "string \<Rightarrow> 'w \<Rightarrow> int \<times> 'w"
  sys_read :: "int \<Rightarrow> addr \<Rightarrow> size_t \<Rightarrow> 'w \<Rightarrow> int \<times> 'w"
  sys_write :: "int \<Rightarrow> addr \<Rightarrow> size_t \<Rightarrow> 'w \<Rightarrow> int \<times> 'w"
  sys_close :: "int \<Rightarrow> 'w \<Rightarrow> int \<times> 'w"

record 'w fs_state =
  fs :: "myfs option"
  fd_table :: "byte list"
  files :: "addr option list"
  initilized :: bool
  file_heap :: "addr \<rightharpoonup> myfs_file"
  next_file :: addr
  client_mem :: "addr \<rightharpoonup> byte list"
  json_done :: "bool option"
  exit_code :: "int option"
  world :: 'w

definition initial_state :: "(addr \<rightharpoonup> byte list) \<Rightarrow> 'w \<Rightarrow> 'w fs_state" where
  "initial_state m w = \<lparr>fs = None, fd_table = replicate FD_TABLE_SIZE 0, files = replicate MAX_FD_COUNT None,
     initilized = False, file_heap = Map.empty, next_file = 0, client_mem = m, json_done = None,
     exit_code = None, world = w\<rparr>"

definition zero_file :: myfs_file where
  "zero_file = \<lparr>blobid = 0, blob = None, flags = 0, offset = 0, ret = 0, status = FILE_CREATE, file_done = False\<rparr>"

definition zero_fs :: myfs where
  "zero_fs = \<lparr>thread = False, bs_dev = None, bs = None, channel = None, unit_size = 0, finished = False\<rparr>"

definition upd_file :: "addr \<Rightarrow> (myfs_file \<Rightarrow> myfs_file) \<Rightarrow> 'w fs_state \<Rightarrow> 'w fs_state option" where
  "upd_file a f s = do {
     x \<leftarrow> file_heap s a;
     Some (s\<lparr>file_heap := (file_heap s)(a \<mapsto> f x)\<rparr>) }"

definition upd_fs :: "(myfs \<Rightarrow> myfs) \<Rightarrow> 'w fs_state \<Rightarrow> 'w fs_state option" where
  "upd_fs f s = do {
     x \<leftarrow> fs s;
     Some (s\<lparr>fs := Some (f x)\<rparr>) }"

definition request :: "'w spdk \<Rightarrow> request \<Rightarrow> 'w fs_state \<Rightarrow> 'w fs_state" where
  "request lib r s = s\<lparr>world := submit lib r (world s)\<rparr>"

text \<open>\<open>fs->bs\<close>, which SPDK dereferences.\<close>

definition blobstore :: "'w fs_state \<Rightarrow> addr option" where
  "blobstore s = Option.bind (fs s) bs"

section \<open>Callbacks\<close>

definition myfs_blob_resize_complete :: "addr \<Rightarrow> int \<Rightarrow> 'w fs_state \<Rightarrow> 'w fs_state option" where
  "myfs_blob_resize_complete a bserrno s = upd_file a (\<lambda>x. x\<lparr>file_done := True\<rparr>) s"

definition myfs_blob_open_complete :: "'w spdk \<Rightarrow> addr \<Rightarrow> (addr \<times> blob_id) option \<Rightarrow> int \<Rightarrow>
    'w fs_state \<Rightarrow> 'w fs_state option" where
  "myfs_blob_open_complete lib a b bserrno s = do {
     (h, i) \<leftarrow> b;
     s \<leftarrow> upd_file a (\<lambda>x. x\<lparr>blob := Some h, blobid := i\<rparr>) s;
     st \<leftarrow> blobstore s;
     let numfreed = free_cluster_count lib st (world s);
     Some (request lib (Blob_resize h numfreed a) s) }"

definition myfs_blob_create_complete :: "'w spdk \<Rightarrow> addr \<Rightarrow> blob_id \<Rightarrow> int \<Rightarrow>
    'w fs_state \<Rightarrow> 'w fs_state option" where
  "myfs_blob_create_complete lib a i bserrno s = do {
     s \<leftarrow> upd_file a (\<lambda>x. x\<lparr>blobid := i\<rparr>) s;
     st \<leftarrow> blobstore s;
     Some (request lib (Bs_open_blob i a) s) }"

definition myfs_bs_get_super_complete :: "'w spdk \<Rightarrow> addr \<Rightarrow> blob_id \<Rightarrow> int \<Rightarrow>
    'w fs_state \<Rightarrow> 'w fs_state option" where
  "myfs_bs_get_super_complete lib a i bserrno s = do {
     st \<leftarrow> blobstore s;
     Some (if bserrno \<noteq> 0 then (if bserrno = - ENOENT then request lib (Bs_create_blob a) s else s)
           else request lib (Bs_open_blob i a) s) }"

definition myfs_file_write_complete :: "addr \<Rightarrow> int \<Rightarrow> 'w fs_state \<Rightarrow> 'w fs_state option" where
  "myfs_file_write_complete a bserrno s = upd_file a (\<lambda>x. x\<lparr>file_done := True\<rparr>) s"

definition myfs_file_read_complete :: "addr \<Rightarrow> int \<Rightarrow> 'w fs_state \<Rightarrow> 'w fs_state option" where
  "myfs_file_read_complete a bserrno s = upd_file a (\<lambda>x. x\<lparr>file_done := True\<rparr>) s"

definition myfs_file_release_complete :: "addr \<Rightarrow> int \<Rightarrow> 'w fs_state \<Rightarrow> 'w fs_state option" where
  "myfs_file_release_complete a bserrno s = upd_file a (\<lambda>x. x\<lparr>file_done := True\<rparr>) s"

definition myfs_file_close_complete :: "'w spdk \<Rightarrow> addr \<Rightarrow> int \<Rightarrow> 'w fs_state \<Rightarrow> 'w fs_state option" where
  "myfs_file_close_complete lib a bserrno s = do {
     x \<leftarrow> file_heap s a;
     (if status x = FILE_CLOSE then upd_file a (\<lambda>x. x\<lparr>file_done := True\<rparr>) s
      else if status x = FILE_RELEASE then do {
        st \<leftarrow> blobstore s;
        Some (request lib (Bs_delete_blob (blobid x) a) s) }
      else Some s) }"

section \<open>Messages\<close>

definition do_create :: "'w spdk \<Rightarrow> addr \<Rightarrow> 'w fs_state \<Rightarrow> 'w fs_state option" where
  "do_create lib a s = do {
     s \<leftarrow> upd_file a (\<lambda>x. x\<lparr>status := FILE_CREATE\<rparr>) s;
     st \<leftarrow> blobstore s;
     Some (request lib (Bs_get_super a) s) }"

definition do_open :: "'w spdk \<Rightarrow> addr \<Rightarrow> 'w fs_state \<Rightarrow> 'w fs_state option" where
  "do_open lib a s = do {
     x \<leftarrow> file_heap s a;
     (if blobid x = 0 then upd_file a (\<lambda>x. x\<lparr>ret := - 1\<rparr>) s
      else do {
        s \<leftarrow> upd_file a (\<lambda>x. x\<lparr>status := FILE_OPEN\<rparr>) s;
        st \<leftarrow> blobstore s;
        Some (request lib (Bs_open_blob (blobid x) a) s) }) }"

text \<open>\<open>size / unit_size + 1\<close> units; SPDK transfers that many units from or to the buffer.\<close>

definition io_count :: "size_t \<Rightarrow> myfs \<Rightarrow> size_t option" where
  "io_count sz f = (if unit_size f = 0 then None else Some (sz div unit_size f + 1))"

definition transfer :: "size_t \<Rightarrow> myfs \<Rightarrow> nat" where
  "transfer count f = unat count * unat (unit_size f)"

definition load_bytes :: "addr \<Rightarrow> nat \<Rightarrow> 'w fs_state \<Rightarrow> byte list option" where
  "load_bytes buf n s = do {
     bytes \<leftarrow> client_mem s buf;
     (if n \<le> length bytes then Some (take n bytes) else None) }"

definition store_bytes :: "addr \<Rightarrow> byte list \<Rightarrow> 'w fs_state \<Rightarrow> 'w fs_state option" where
  "store_bytes buf d s = do {
     bytes \<leftarrow> client_mem s buf;
     (if length d \<le> length bytes then
        Some (s\<lparr>client_mem := (client_mem s)(buf \<mapsto> d @ drop (length d) bytes)\<rparr>)
      else None) }"

definition do_write :: "'w spdk \<Rightarrow> addr \<Rightarrow> addr \<Rightarrow> size_t \<Rightarrow> 'w fs_state \<Rightarrow> 'w fs_state option" where
  "do_write lib a buf sz s = do {
     f \<leftarrow> fs s;
     count \<leftarrow> io_count sz f;
     s \<leftarrow> upd_file a (\<lambda>x. x\<lparr>status := FILE_WRITE\<rparr>) s;
     x \<leftarrow> file_heap s a;
     h \<leftarrow> blob x;
     ch \<leftarrow> channel f;
     d \<leftarrow> load_bytes buf (transfer count f) s;
     Some (request lib (Blob_io_write h d 0 count a) s) }"

definition do_read :: "'w spdk \<Rightarrow> addr \<Rightarrow> addr \<Rightarrow> size_t \<Rightarrow> 'w fs_state \<Rightarrow> 'w fs_state option" where
  "do_read lib a buf sz s = do {
     f \<leftarrow> fs s;
     count \<leftarrow> io_count sz f;
     s \<leftarrow> upd_file a (\<lambda>x. x\<lparr>status := FILE_READ\<rparr>) s;
     x \<leftarrow> file_heap s a;
     h \<leftarrow> blob x;
     ch \<leftarrow> channel f;
     Some (request lib (Blob_io_read h buf 0 count a) s) }"

definition do_close :: "'w spdk \<Rightarrow> addr \<Rightarrow> 'w fs_state \<Rightarrow> 'w fs_state option" where
  "do_close lib a s = do {
     s \<leftarrow> upd_file a (\<lambda>x. x\<lparr>status := FILE_CLOSE\<rparr>) s;
     x \<leftarrow> file_heap s a;
     h \<leftarrow> blob x;
     Some (request lib (Blob_close h a) s) }"

definition do_release :: "'w spdk \<Rightarrow> addr \<Rightarrow> 'w fs_state \<Rightarrow> 'w fs_state option" where
  "do_release lib a s = do {
     s \<leftarrow> upd_file a (\<lambda>x. x\<lparr>status := FILE_RELEASE\<rparr>) s;
     x \<leftarrow> file_heap s a;
     h \<leftarrow> blob x;
     Some (request lib (Blob_close h a) s) }"

definition setup_spdk_json_app :: "'w spdk \<Rightarrow> 'w fs_state \<Rightarrow> 'w fs_state option" where
  "setup_spdk_json_app lib s = Some (request lib Json_config s)"

text \<open>\<open>done\<close> is a local variable of \<open>myfs_spdk_env_init\<close>: once that has returned it is \<open>None\<close>, and writing to it has no value.\<close>

definition json_app_load_done :: "'w fs_state \<Rightarrow> 'w fs_state option" where
  "json_app_load_done s = (if json_done s = None then None else Some (s\<lparr>json_done := Some True\<rparr>))"

definition myfs_blobstore_init_complete :: "'w spdk \<Rightarrow> addr option \<Rightarrow> int \<Rightarrow> 'w fs_state \<Rightarrow> 'w fs_state option" where
  "myfs_blobstore_init_complete lib st bserrno s = do {
     h \<leftarrow> st;
     s \<leftarrow> upd_fs (\<lambda>f. f\<lparr>bs := Some h, unit_size := get_io_unit_size lib h (world s)\<rparr>) s;
     let (ch, w) = alloc_io_channel lib h (world s);
     s \<leftarrow> upd_fs (\<lambda>f. f\<lparr>channel := ch\<rparr>) (s\<lparr>world := w\<rparr>);
     (if ch = None then Some s else upd_fs (\<lambda>f. f\<lparr>finished := True\<rparr>) s) }"

definition myfs_alloc :: "'w spdk \<Rightarrow> 'w fs_state \<Rightarrow> 'w fs_state option" where
  "myfs_alloc lib s = do {
     let ((rc, dev), w) = create_bs_dev lib (world s);
     let s = s\<lparr>world := w\<rparr>;
     (if rc \<noteq> 0 then Some (s\<lparr>exit_code := Some 1\<rparr>) else do {
        s \<leftarrow> upd_fs (\<lambda>f. f\<lparr>bs_dev := dev\<rparr>) s;
        Some (request lib (Bs_init dev) s) }) }"

definition myfs_blobstore_destory_complete :: "int \<Rightarrow> 'w fs_state \<Rightarrow> 'w fs_state option" where
  "myfs_blobstore_destory_complete bserrno s = upd_fs (\<lambda>f. f\<lparr>finished := True\<rparr>) s"

definition myfs_free :: "'w spdk \<Rightarrow> 'w fs_state \<Rightarrow> 'w fs_state option" where
  "myfs_free lib s = do {
     f \<leftarrow> fs s;
     let s = s\<lparr>world := free_io_channel lib (channel f) (world s)\<rparr>;
     Some (request lib (Bs_destroy (bs f)) s) }"

fun run_call :: "'w spdk \<Rightarrow> call \<Rightarrow> 'w fs_state \<Rightarrow> 'w fs_state option" where
  "run_call lib Setup_json s = setup_spdk_json_app lib s"
| "run_call lib Json_load_done s = json_app_load_done s"
| "run_call lib Call_alloc s = myfs_alloc lib s"
| "run_call lib (Bs_init_complete st e) s = myfs_blobstore_init_complete lib st e s"
| "run_call lib Call_free s = myfs_free lib s"
| "run_call lib (Bs_destroy_complete e) s = myfs_blobstore_destory_complete e s"
| "run_call lib (Do_create a) s = do_create lib a s"
| "run_call lib (Do_open a) s = do_open lib a s"
| "run_call lib (Do_write a buf sz) s = do_write lib a buf sz s"
| "run_call lib (Do_read a buf sz) s = do_read lib a buf sz s"
| "run_call lib (Do_close a) s = do_close lib a s"
| "run_call lib (Do_release a) s = do_release lib a s"
| "run_call lib (Get_super_complete a i e) s = myfs_bs_get_super_complete lib a i e s"
| "run_call lib (Create_complete a i e) s = myfs_blob_create_complete lib a i e s"
| "run_call lib (Open_complete a b e) s = myfs_blob_open_complete lib a b e s"
| "run_call lib (Resize_complete a e) s = myfs_blob_resize_complete a e s"
| "run_call lib (Write_complete a e) s = myfs_file_write_complete a e s"
| "run_call lib (Read_complete a buf d e) s = store_bytes buf d s \<bind> myfs_file_read_complete a e"
| "run_call lib (Close_complete a e) s = myfs_file_close_complete lib a e s"
| "run_call lib (Release_complete a e) s = myfs_file_release_complete a e s"

fun run_calls :: "'w spdk \<Rightarrow> call list \<Rightarrow> 'w fs_state \<Rightarrow> 'w fs_state option" where
  "run_calls lib [] s = Some s"
| "run_calls lib (c # cs) s = do {
     s \<leftarrow> run_call lib c s;
     (if exit_code s \<noteq> None then Some s else run_calls lib cs s) }"

section \<open>The poller\<close>

text \<open>The flag \<open>*done\<close> a poller waits for.\<close>

datatype flag = File_done addr | Fs_finished | Json_done

fun read_flag :: "flag \<Rightarrow> 'w fs_state \<Rightarrow> bool option" where
  "read_flag (File_done a) s = map_option file_done (file_heap s a)"
| "read_flag Fs_finished s = map_option finished (fs s)"
| "read_flag Json_done s = json_done s"

definition POLLER_MAX_TIME :: nat where "POLLER_MAX_TIME = 100000000"

function poll_loop :: "'w spdk \<Rightarrow> flag \<Rightarrow> nat \<Rightarrow> 'w fs_state \<Rightarrow> (bool \<times> 'w fs_state) option" where
  "poll_loop lib fl n s =
     (case thread_poll lib (world s) of (cs, w) \<Rightarrow>
        (case run_calls lib cs (s\<lparr>world := w\<rparr>) of None \<Rightarrow> None
         | Some s' \<Rightarrow> (case read_flag fl s' of None \<Rightarrow> None
            | Some d \<Rightarrow> if d \<or> exit_code s' \<noteq> None then Some (d, s')
                else if n + 1 < POLLER_MAX_TIME then poll_loop lib fl (n + 1) s'
                else Some (False, s'))))"
  by pat_completeness auto
termination by (relation "measure (\<lambda>(lib, fl, n, s). POLLER_MAX_TIME - n)") auto

definition poller :: "'w spdk \<Rightarrow> call \<Rightarrow> flag \<Rightarrow> 'w fs_state \<Rightarrow> (bool \<times> 'w fs_state) option" where
  "poller lib fn fl s = do {
     f \<leftarrow> fs s;
     (if thread f then poll_loop lib fl 0 (s\<lparr>world := send_msg lib fn (world s)\<rparr>) else None) }"

section \<open>Operations on files\<close>

definition file_op :: "'w spdk \<Rightarrow> call \<Rightarrow> addr \<Rightarrow> 'w fs_state \<Rightarrow> (int \<times> 'w fs_state) option" where
  "file_op lib fn a s = do {
     s \<leftarrow> upd_file a (\<lambda>x. x\<lparr>file_done := False\<rparr>) s;
     (ok, s) \<leftarrow> poller lib fn (File_done a) s;
     x \<leftarrow> file_heap s a;
     Some (ret x, s) }"

definition myfs_file_create :: "'w spdk \<Rightarrow> addr \<Rightarrow> 'w fs_state \<Rightarrow> (int \<times> 'w fs_state) option" where
  "myfs_file_create lib a s = file_op lib (Do_create a) a s"

definition myfs_file_open :: "'w spdk \<Rightarrow> addr \<Rightarrow> 'w fs_state \<Rightarrow> (int \<times> 'w fs_state) option" where
  "myfs_file_open lib a s = file_op lib (Do_open a) a s"

definition myfs_file_write :: "'w spdk \<Rightarrow> addr \<Rightarrow> addr \<Rightarrow> size_t \<Rightarrow> 'w fs_state \<Rightarrow> (int \<times> 'w fs_state) option" where
  "myfs_file_write lib a buf sz s =
     (if sz > 0 then file_op lib (Do_write a buf sz) a s else None)"

definition myfs_file_read :: "'w spdk \<Rightarrow> addr \<Rightarrow> addr \<Rightarrow> size_t \<Rightarrow> 'w fs_state \<Rightarrow> (int \<times> 'w fs_state) option" where
  "myfs_file_read lib a buf sz s =
     (if sz > 0 then file_op lib (Do_read a buf sz) a s else None)"

definition myfs_file_lseek :: "addr \<Rightarrow> int \<Rightarrow> int \<Rightarrow> 'w fs_state \<Rightarrow> int option" where
  "myfs_file_lseek a off whence s = map_option ret (file_heap s a)"

definition myfs_file_close :: "'w spdk \<Rightarrow> addr \<Rightarrow> 'w fs_state \<Rightarrow> (int \<times> 'w fs_state) option" where
  "myfs_file_close lib a s = file_op lib (Do_close a) a s"

definition myfs_file_release :: "'w spdk \<Rightarrow> addr \<Rightarrow> 'w fs_state \<Rightarrow> (int \<times> 'w fs_state) option" where
  "myfs_file_release lib a s = file_op lib (Do_release a) a s"

section \<open>The file table\<close>

definition alloc_file :: "'w fs_state \<Rightarrow> addr \<times> 'w fs_state" where
  "alloc_file s = (next_file s, s\<lparr>file_heap := (file_heap s)(next_file s \<mapsto> zero_file), next_file := Suc (next_file s)\<rparr>)"

definition get_fd :: "'w fs_state \<Rightarrow> int \<times> 'w fs_state" where
  "get_fd s = (let (fd, tbl) = get_fd_from_bitmap (fd_table s) in (fd, s\<lparr>fd_table := tbl\<rparr>))"

text \<open>\<open>files[fd] = file\<close> and \<open>files[fd]\<close>.\<close>

definition set_entry :: "int \<Rightarrow> addr \<Rightarrow> 'w fs_state \<Rightarrow> 'w fs_state option" where
  "set_entry fd a s = (if 0 \<le> fd \<and> nat fd < length (files s)
     then Some (s\<lparr>files := (files s)[nat fd := Some a]\<rparr>) else None)"

definition get_entry :: "int \<Rightarrow> 'w fs_state \<Rightarrow> addr option option" where
  "get_entry fd s = (if 0 \<le> fd \<and> nat fd < length (files s) then Some (files s ! nat fd) else None)"

definition myfs_create :: "'w spdk \<Rightarrow> 'w fs_state \<Rightarrow> (int \<times> 'w fs_state) option" where
  "myfs_create lib s = do {
     let (fd, s) = get_fd s;
     let (a, s) = alloc_file s;
     (r, s) \<leftarrow> myfs_file_create lib a s;
     s \<leftarrow> set_entry fd a s;
     Some (fd, s) }"

definition myfs_open :: "'w spdk \<Rightarrow> 'w fs_state \<Rightarrow> (int \<times> 'w fs_state) option" where
  "myfs_open lib s = do {
     let (fd, s) = get_fd s;
     let (a, s) = alloc_file s;
     (r, s) \<leftarrow> myfs_file_open lib a s;
     s \<leftarrow> set_entry fd a s;
     Some (fd, s) }"

definition myfs_write :: "'w spdk \<Rightarrow> int \<Rightarrow> addr \<Rightarrow> size_t \<Rightarrow> 'w fs_state \<Rightarrow> (int \<times> 'w fs_state) option" where
  "myfs_write lib fd buf count s = do {
     e \<leftarrow> get_entry fd s;
     a \<leftarrow> e;
     myfs_file_write lib a buf count s }"

definition myfs_read :: "'w spdk \<Rightarrow> int \<Rightarrow> addr \<Rightarrow> size_t \<Rightarrow> 'w fs_state \<Rightarrow> (int \<times> 'w fs_state) option" where
  "myfs_read lib fd buf count s = do {
     e \<leftarrow> get_entry fd s;
     a \<leftarrow> e;
     myfs_file_read lib a buf count s }"

definition myfs_close :: "'w spdk \<Rightarrow> int \<Rightarrow> 'w fs_state \<Rightarrow> (int \<times> 'w fs_state) option" where
  "myfs_close lib fd s = do {
     e \<leftarrow> get_entry fd s;
     a \<leftarrow> e;
     (r, s) \<leftarrow> myfs_file_close lib a s;
     (q, tbl) \<leftarrow> set_fd_to_bitmap fd (fd_table s);
     let s = s\<lparr>fd_table := tbl\<rparr>;
     x \<leftarrow> file_heap s a;
     Some (ret x, s) }"

section \<open>Setting up and tearing down\<close>

definition myfs_spdk_env_init :: "'w spdk \<Rightarrow> 'w fs_state \<Rightarrow> (int \<times> 'w fs_state) option" where
  "myfs_spdk_env_init lib s = do {
     let (rc, w) = env_init lib (world s);
     let (t, w) = thread_create lib w;
     s \<leftarrow> upd_fs (\<lambda>f. f\<lparr>thread := t\<rparr>) (s\<lparr>world := w\<rparr>);
     (if \<not> t then Some (- 1, s) else do {
        (ok, s) \<leftarrow> poller lib Setup_json Json_done (s\<lparr>json_done := Some False\<rparr>);
        Some (0, s\<lparr>json_done := None\<rparr>) }) }"

definition myfs_setup :: "'w spdk \<Rightarrow> 'w fs_state \<Rightarrow> (int \<times> 'w fs_state) option" where
  "myfs_setup lib s = do {
     (r, s) \<leftarrow> myfs_spdk_env_init lib (s\<lparr>fs := Some zero_fs\<rparr>);
     s \<leftarrow> upd_fs (\<lambda>f. f\<lparr>finished := False\<rparr>) s;
     (ok, s) \<leftarrow> poller lib Call_alloc Fs_finished s;
     Some (0, s) }"

definition myfs_destory :: "'w spdk \<Rightarrow> 'w fs_state \<Rightarrow> (int \<times> 'w fs_state) option" where
  "myfs_destory lib s = do {
     s \<leftarrow> upd_fs (\<lambda>f. f\<lparr>finished := False\<rparr>) s;
     (ok, s) \<leftarrow> poller lib Call_free Fs_finished s;
     Some (0, s\<lparr>fs := None\<rparr>) }"

section \<open>The POSIX functions\<close>

definition posix_creat :: "'w spdk \<Rightarrow> string \<Rightarrow> 'w fs_state \<Rightarrow> (int \<times> 'w fs_state) option" where
  "posix_creat lib pathname s =
     (if \<not> initilized s then do {
        (r, s) \<leftarrow> (if fs s = None then myfs_setup lib s else Some (0, s));
        (if exit_code s \<noteq> None then Some (0, s) else
           myfs_create lib (s\<lparr>initilized := True\<rparr>)) }
      else (let (r, w) = sys_creat lib pathname (world s) in Some (r, s\<lparr>world := w\<rparr>)))"

definition posix_open :: "'w spdk \<Rightarrow> string \<Rightarrow> 'w fs_state \<Rightarrow> (int \<times> 'w fs_state) option" where
  "posix_open lib pathname s =
     (if initilized s then do {
        (r, s) \<leftarrow> (if fs s = None then myfs_setup lib s else Some (0, s));
        (if exit_code s \<noteq> None then Some (0, s) else myfs_open lib s) }
      else (let (r, w) = sys_open lib pathname (world s) in Some (r, s\<lparr>world := w\<rparr>)))"

definition posix_read :: "'w spdk \<Rightarrow> int \<Rightarrow> addr \<Rightarrow> size_t \<Rightarrow> 'w fs_state \<Rightarrow> (int \<times> 'w fs_state) option" where
  "posix_read lib fd buf count s = do {
     e \<leftarrow> get_entry fd s;
     (if initilized s \<and> e \<noteq> None then myfs_read lib fd buf count s
      else (let (r, w) = sys_read lib fd buf count (world s) in Some (r, s\<lparr>world := w\<rparr>))) }"

definition posix_write :: "'w spdk \<Rightarrow> int \<Rightarrow> addr \<Rightarrow> size_t \<Rightarrow> 'w fs_state \<Rightarrow> (int \<times> 'w fs_state) option" where
  "posix_write lib fd buf count s = do {
     e \<leftarrow> get_entry fd s;
     (if initilized s \<and> e \<noteq> None then myfs_write lib fd buf count s
      else (let (r, w) = sys_write lib fd buf count (world s) in Some (r, s\<lparr>world := w\<rparr>))) }"

definition posix_lseek :: "int \<Rightarrow> int \<Rightarrow> int \<Rightarrow> int" where
  "posix_lseek fd off whence = 0"

definition posix_close :: "'w spdk \<Rightarrow> int \<Rightarrow> 'w fs_state \<Rightarrow> (int \<times> 'w fs_state) option" where
  "posix_close lib fd s = do {
     e \<leftarrow> get_entry fd s;
     (if initilized s \<and> e \<noteq> None then myfs_close lib fd s
      else (let (r, w) = sys_close lib fd (world s) in Some (r, s\<lparr>world := w\<rparr>))) }"

declare get_fd_loop.simps [simp del] and poll_loop.simps [simp del]

text \<open>The program of lines 850 to 863: create, write, read back, close.\<close>

definition fs_main :: "'w spdk \<Rightarrow> addr \<Rightarrow> 'w fs_state \<Rightarrow> 'w fs_state option" where
  "fs_main lib buffer s = do {
     (fd, s) \<leftarrow> posix_creat lib ''mytest.txt'' s;
     s \<leftarrow> store_bytes buffer (replicate 128 72) s;
     (r, s) \<leftarrow> posix_write lib fd buffer 128 s;
     s \<leftarrow> store_bytes buffer (replicate 128 0) s;
     (r, s) \<leftarrow> posix_read lib fd buffer 128 s;
     (r, s) \<leftarrow> posix_close lib fd s;
     Some s }"

end
