(* ===== verification/Myfs_Fd.thy ===== *)
theory Myfs_Fd
  imports Myfs
begin

text \<open>
  The descriptors of the file system. The table of bits is a set of used descriptors;
  \<open>get_fd_from_bitmap\<close> takes the least free one from 3 on, \<open>set_fd_to_bitmap\<close> gives one back.
\<close>

section \<open>The contract of a descriptor pool\<close>

datatype fd_command = Get | Give nat

fun run_fds :: "('t \<Rightarrow> int \<times> 't) \<Rightarrow> (int \<Rightarrow> 't \<Rightarrow> (int \<times> 't) option) \<Rightarrow>
    fd_command list \<Rightarrow> 't \<Rightarrow> (int list \<times> 't) option" where
  "run_fds get give [] t = Some ([], t)"
| "run_fds get give (Get # cs) t = (case get t of (fd, t') \<Rightarrow>
     map_option (\<lambda>(rs, u). (fd # rs, u)) (run_fds get give cs t'))"
| "run_fds get give (Give fd # cs) t = (case give (int fd) t of None \<Rightarrow> None
     | Some (r, t') \<Rightarrow> map_option (\<lambda>(rs, u). (r # rs, u)) (run_fds get give cs t'))"

definition least_free :: "nat \<Rightarrow> nat \<Rightarrow> nat set \<Rightarrow> int" where
  "least_free lo hi U = (if {lo..<hi} \<subseteq> U then - 1 else int (Min ({lo..<hi} - U)))"

fun spec_fds :: "nat \<Rightarrow> nat \<Rightarrow> fd_command list \<Rightarrow> nat set \<Rightarrow> int list \<times> nat set" where
  "spec_fds lo hi [] U = ([], U)"
| "spec_fds lo hi (Get # cs) U = (let fd = least_free lo hi U;
     (rs, V) = spec_fds lo hi cs (if fd < 0 then U else insert (nat fd) U) in (fd # rs, V))"
| "spec_fds lo hi (Give fd # cs) U = (let (rs, V) = spec_fds lo hi cs (U - {fd}) in (0 # rs, V))"

locale descriptor_pool =
  fixes good :: "'t \<Rightarrow> bool"
    and used :: "'t \<Rightarrow> nat set"
    and get :: "'t \<Rightarrow> int \<times> 't"
    and give :: "int \<Rightarrow> 't \<Rightarrow> (int \<times> 't) option"
    and lo hi :: nat
  assumes get_law: "good t \<Longrightarrow> \<exists>t'. get t = (least_free lo hi (used t), t') \<and> good t' \<and>
      used t' = (if least_free lo hi (used t) < 0 then used t else insert (nat (least_free lo hi (used t))) (used t))"
    and give_law: "good t \<Longrightarrow> fd < hi \<Longrightarrow> \<exists>t'. give (int fd) t = Some (0, t') \<and> good t' \<and> used t' = used t - {fd}"
begin

lemma run_ok:
  assumes "good t" and "\<forall>c\<in>set cs. case c of Get \<Rightarrow> True | Give fd \<Rightarrow> fd < hi"
  shows "\<exists>t'. run_fds get give cs t = Some (fst (spec_fds lo hi cs (used t)), t') \<and> good t' \<and>
    used t' = snd (spec_fds lo hi cs (used t))"
  using assms
proof (induction cs arbitrary: t)
  case (Cons c cs)
  show ?case
  proof (cases c)
    case Get
    from get_law [OF Cons.prems(1)] obtain t1 where "get t = (least_free lo hi (used t), t1)" "good t1"
        "used t1 = (if least_free lo hi (used t) < 0 then used t else insert (nat (least_free lo hi (used t))) (used t))"
      by blast
    with Cons.IH [of t1] Cons.prems show ?thesis by (auto simp: Get Let_def split: prod.splits)
  next
    case (Give fd)
    from give_law [OF Cons.prems(1), of fd] Cons.prems(2) obtain t1 where "give (int fd) t = Some (0, t1)" "good t1"
        "used t1 = used t - {fd}"
      by (auto simp: Give)
    with Cons.IH [of t1] Cons.prems show ?thesis by (auto simp: Give split: prod.splits)
  qed
qed simp

end

section \<open>The bitmap\<close>

unbundle bit_operations_syntax

definition fd_used :: "byte list \<Rightarrow> nat \<Rightarrow> bool" where
  "fd_used tbl fd \<longleftrightarrow> bit (tbl ! (fd div 8)) (fd mod 8)"

definition used_fds :: "byte list \<Rightarrow> nat set" where
  "used_fds tbl = {fd. fd < MAX_FD_COUNT \<and> fd_used tbl fd}"

abbreviation good_table :: "byte list \<Rightarrow> bool" where
  "good_table tbl \<equiv> length tbl = FD_TABLE_SIZE"

lemma bit_fd_mask: "bit (fd_mask fd) n \<longleftrightarrow> n = fd mod 8"
  by (auto simp: fd_mask_def bit_exp_iff)

lemma fd_mask_test: "w AND fd_mask fd = 0 \<longleftrightarrow> \<not> bit w (fd mod 8)"
  by (simp add: fd_mask_def and_exp_eq_0_iff_not_bit)

lemma same_fd_iff: "(fd :: nat) = fd' \<longleftrightarrow> fd div 8 = fd' div 8 \<and> fd mod 8 = fd' mod 8"
  by (metis div_mult_mod_eq)

lemma used_update:
  assumes "good_table tbl" and "fd < MAX_FD_COUNT" and "x < MAX_FD_COUNT"
  shows "fd_used (tbl[fd div 8 := w]) x \<longleftrightarrow>
    (if fd div 8 = x div 8 then bit w (x mod 8) else fd_used tbl x)"
  using assms by (auto simp: fd_used_def nth_list_update MAX_FD_COUNT_def FD_TABLE_SIZE_def)

lemma set_bit_used:
  assumes "good_table tbl" and "fd < MAX_FD_COUNT"
  shows "used_fds (tbl[fd div 8 := tbl ! (fd div 8) OR fd_mask fd]) = insert fd (used_fds tbl)"
proof (rule set_eqI)
  fix x
  have "fd_used (tbl[fd div 8 := tbl ! (fd div 8) OR fd_mask fd]) x \<longleftrightarrow> x = fd \<or> fd_used tbl x"
    if "x < MAX_FD_COUNT"
  proof (cases "fd div 8 = x div 8")
    case True
    then have "x mod 8 = fd mod 8 \<longleftrightarrow> x = fd" by (metis same_fd_iff)
    with True show ?thesis
      unfolding used_update [OF assms that] by (auto simp: bit_or_iff bit_fd_mask fd_used_def)
  next
    case False
    then have "x \<noteq> fd" by blast
    with False show ?thesis unfolding used_update [OF assms that] by simp
  qed
  then show "x \<in> used_fds (tbl[fd div 8 := tbl ! (fd div 8) OR fd_mask fd]) \<longleftrightarrow> x \<in> insert fd (used_fds tbl)"
    unfolding used_fds_def using assms(2) by blast
qed

lemma clear_bit_used:
  assumes "good_table tbl" and "fd < MAX_FD_COUNT"
  shows "used_fds (tbl[fd div 8 := tbl ! (fd div 8) AND NOT (fd_mask fd)]) = used_fds tbl - {fd}"
proof (rule set_eqI)
  fix x
  have "fd_used (tbl[fd div 8 := tbl ! (fd div 8) AND NOT (fd_mask fd)]) x \<longleftrightarrow> x \<noteq> fd \<and> fd_used tbl x"
    if "x < MAX_FD_COUNT"
  proof (cases "fd div 8 = x div 8")
    case True
    then have "x mod 8 = fd mod 8 \<longleftrightarrow> x = fd" by (metis same_fd_iff)
    moreover have "\<not> 8 \<le> x mod 8" by (simp add: not_le)
    ultimately show ?thesis
      using True unfolding used_update [OF assms that]
      by (simp add: bit_and_iff bit_not_iff_eq bit_fd_mask fd_used_def) blast
  next
    case False
    then have "x \<noteq> fd" by blast
    with False show ?thesis unfolding used_update [OF assms that] by simp
  qed
  then show "x \<in> used_fds (tbl[fd div 8 := tbl ! (fd div 8) AND NOT (fd_mask fd)]) \<longleftrightarrow> x \<in> used_fds tbl - {fd}"
    unfolding used_fds_def by blast
qed

lemma least_free_skip:
  assumes "fd < hi" and "fd \<in> U"
  shows "least_free fd hi U = least_free (Suc fd) hi U"
proof -
  have "{fd..<hi} = insert fd {Suc fd..<hi}" using assms(1) by auto
  then have "{fd..<hi} - U = {Suc fd..<hi} - U" "{fd..<hi} \<subseteq> U \<longleftrightarrow> {Suc fd..<hi} \<subseteq> U" using assms(2) by auto
  then show ?thesis by (simp only: least_free_def)
qed

lemma least_free_here:
  assumes "fd < hi" and "fd \<notin> U"
  shows "least_free fd hi U = int fd"
proof -
  have "Min ({fd..<hi} - U) = fd" by (rule Min_eqI) (use assms in auto)
  moreover have "\<not> {fd..<hi} \<subseteq> U" using assms by auto
  ultimately show ?thesis by (simp only: least_free_def if_False)
qed

lemma get_fd_loop_steps:
  "fd < MAX_FD_COUNT \<Longrightarrow> fd \<in> used_fds tbl \<Longrightarrow> get_fd_loop fd tbl = get_fd_loop (Suc fd) tbl"
  "fd < MAX_FD_COUNT \<Longrightarrow> fd \<notin> used_fds tbl \<Longrightarrow>
    get_fd_loop fd tbl = (int fd, tbl[fd div 8 := tbl ! (fd div 8) OR fd_mask fd])"
  "\<not> fd < MAX_FD_COUNT \<Longrightarrow> get_fd_loop fd tbl = (- 1, tbl)"
  by (subst get_fd_loop.simps, simp add: used_fds_def fd_used_def fd_mask_test)+

lemma get_fd_loop_ok:
  assumes "good_table tbl"
  shows "\<exists>t'. get_fd_loop fd tbl = (least_free fd MAX_FD_COUNT (used_fds tbl), t') \<and> good_table t' \<and>
    used_fds t' = (if least_free fd MAX_FD_COUNT (used_fds tbl) < 0 then used_fds tbl
      else insert (nat (least_free fd MAX_FD_COUNT (used_fds tbl))) (used_fds tbl))"
proof (induction "MAX_FD_COUNT - fd" arbitrary: fd)
  case 0
  then have "\<not> fd < MAX_FD_COUNT" by simp
  moreover from this have "least_free fd MAX_FD_COUNT (used_fds tbl) = - 1" by (simp add: least_free_def)
  ultimately show ?case using assms by (simp add: get_fd_loop_steps)
next
  case (Suc n)
  then have lt: "fd < MAX_FD_COUNT" by simp
  show ?case
  proof (cases "fd \<in> used_fds tbl")
    case True
    have "n = MAX_FD_COUNT - Suc fd" using Suc.hyps(2) by simp
    from Suc.hyps(1) [OF this] show ?thesis
      by (simp only: get_fd_loop_steps(1) [OF lt True] least_free_skip [OF lt True])
  next
    case False
    have "good_table (tbl[fd div 8 := tbl ! (fd div 8) OR fd_mask fd])" using assms by simp
    with set_bit_used [OF assms lt] show ?thesis
      by (simp add: get_fd_loop_steps(2) [OF lt False] least_free_here [OF lt False])
  qed
qed

interpretation fds: descriptor_pool "\<lambda>tbl. good_table tbl" used_fds get_fd_from_bitmap set_fd_to_bitmap
  DEFAULT_FD_NUM MAX_FD_COUNT
proof
  show "\<exists>t'. get_fd_from_bitmap t = (least_free DEFAULT_FD_NUM MAX_FD_COUNT (used_fds t), t') \<and> good_table t' \<and>
      used_fds t' = (if least_free DEFAULT_FD_NUM MAX_FD_COUNT (used_fds t) < 0 then used_fds t
        else insert (nat (least_free DEFAULT_FD_NUM MAX_FD_COUNT (used_fds t))) (used_fds t))"
    if "good_table t" for t
    using get_fd_loop_ok [OF that] by (simp add: get_fd_from_bitmap_def)
  show "\<exists>t'. set_fd_to_bitmap (int fd) t = Some (0, t') \<and> good_table t' \<and> used_fds t' = used_fds t - {fd}"
    if "good_table t" "fd < MAX_FD_COUNT" for t fd
    using that clear_bit_used [OF that] by (simp add: set_fd_to_bitmap_def)
qed

section \<open>Property\<close>

text \<open>
  C28. The bitmap of descriptors behaves as a set: over any sequence of allocations and releases of
  descriptors below 1024, starting from any table, \<open>get_fd_from_bitmap\<close> returns the least descriptor
  from 3 on that is not in use, and -1 when there is none, and \<open>set_fd_to_bitmap\<close> makes exactly the
  released one available.
\<close>

theorem fd_bitmap_correct:
  assumes "length tbl = FD_TABLE_SIZE" and "\<forall>c\<in>set cs. case c of Get \<Rightarrow> True | Give fd \<Rightarrow> fd < MAX_FD_COUNT"
  shows "\<exists>t'. run_fds get_fd_from_bitmap set_fd_to_bitmap cs tbl =
      Some (fst (spec_fds DEFAULT_FD_NUM MAX_FD_COUNT cs (used_fds tbl)), t') \<and>
    used_fds t' = snd (spec_fds DEFAULT_FD_NUM MAX_FD_COUNT cs (used_fds tbl))"
  using fds.run_ok [OF assms] by blast

lemma no_fd_used: "used_fds (replicate FD_TABLE_SIZE 0) = {}"
  by (auto simp: used_fds_def fd_used_def FD_TABLE_SIZE_def MAX_FD_COUNT_def)

theorem fd_bitmap_correct_witness:
  "\<exists>t'. run_fds get_fd_from_bitmap set_fd_to_bitmap [Get, Get, Give 3, Get] (replicate FD_TABLE_SIZE 0) =
    Some ([3, 4, 0, 3], t') \<and> used_fds t' = {3, 4}"
proof -
  have "least_free 3 1024 {} = 3" using least_free_here [of 3 1024 "{}"] by simp
  moreover have "least_free 3 1024 {3} = 4"
    using least_free_skip [of 3 1024 "{3}"] least_free_here [of 4 1024 "{3}"] by simp
  moreover have "least_free 3 1024 {4} = 3" using least_free_here [of 3 1024 "{4}"] by simp
  moreover have "insert 4 {3} - {3} = {4 :: nat}" by auto
  ultimately show ?thesis
    using fd_bitmap_correct [of "replicate FD_TABLE_SIZE 0" "[Get, Get, Give 3, Get]"]
    by (simp add: no_fd_used DEFAULT_FD_NUM_def MAX_FD_COUNT_def)
qed

end
