(* ===== verification/Myfs_Device.thy ===== *)
theory Myfs_Device
  imports Myfs_Fd
begin

text \<open>
  What the file system relies on from SPDK, and the runs of its operations over such a library.

  The laws speak of two observations of the library's state: \<open>due w\<close> is the call that the SPDK thread
  has still to run together with the number of polls it waits, and \<open>data w h\<close> the bytes of the blob
  \<open>h\<close>. A message or a completion is due within \<open>D\<close> polls of the call that causes it.
\<close>

section \<open>The laws of the library\<close>

definition replies :: "('w \<Rightarrow> (call \<times> nat) option) \<Rightarrow> nat \<Rightarrow> 'w \<Rightarrow> call \<Rightarrow> bool" where
  "replies due D w c \<longleftrightarrow> (\<exists>d\<le>D. due w = Some (c, d))"

text \<open>\<open>spdk_thread_send_msg\<close> and \<open>spdk_thread_poll\<close>.\<close>

definition thread_laws :: "'w spdk \<Rightarrow> ('w \<Rightarrow> (call \<times> nat) option) \<Rightarrow> ('w \<Rightarrow> addr \<Rightarrow> byte list) \<Rightarrow> nat \<Rightarrow> bool" where
  "thread_laws lib due data D \<longleftrightarrow>
     (\<forall>w c. due w = None \<longrightarrow> replies due D (send_msg lib c w) c \<and> data (send_msg lib c w) = data w) \<and>
     (\<forall>w. due w = None \<longrightarrow> (\<exists>w'. thread_poll lib w = ([], w') \<and> due w' = None \<and> data w' = data w)) \<and>
     (\<forall>w c d. due w = Some (c, Suc d) \<longrightarrow>
        (\<exists>w'. thread_poll lib w = ([], w') \<and> due w' = Some (c, d) \<and> data w' = data w)) \<and>
     (\<forall>w c. due w = Some (c, 0) \<longrightarrow>
        (\<exists>w'. thread_poll lib w = ([c], w') \<and> due w' = None \<and> data w' = data w))"

text \<open>\<open>spdk_blob_io_write\<close> and \<open>spdk_blob_io_read\<close> at the start of a blob that has the bytes.\<close>

definition blob_io_laws :: "'w spdk \<Rightarrow> ('w \<Rightarrow> (call \<times> nat) option) \<Rightarrow> ('w \<Rightarrow> addr \<Rightarrow> byte list) \<Rightarrow>
    nat \<Rightarrow> size_t \<Rightarrow> bool" where
  "blob_io_laws lib due data D u \<longleftrightarrow>
     (\<forall>w h d count a. due w = None \<and> length d = unat count * unat u \<and> length d \<le> length (data w h) \<longrightarrow>
        replies due D (submit lib (Blob_io_write h d 0 count a) w) (Write_complete a 0) \<and>
        data (submit lib (Blob_io_write h d 0 count a) w) = (data w)(h := d @ drop (length d) (data w h))) \<and>
     (\<forall>w h buf count a. due w = None \<and> unat count * unat u \<le> length (data w h) \<longrightarrow>
        replies due D (submit lib (Blob_io_read h buf 0 count a) w)
          (Read_complete a buf (take (unat count * unat u) (data w h)) 0) \<and>
        data (submit lib (Blob_io_read h buf 0 count a) w) = data w)"

section \<open>Polling\<close>

lemma read_flag_world [simp]: "read_flag fl (s\<lparr>world := w\<rparr>) = read_flag fl s"
  by (cases fl) simp_all

text \<open>What the poller does after a poll that ran a call.\<close>

definition poll_rest :: "'w spdk \<Rightarrow> flag \<Rightarrow> nat \<Rightarrow> 'w fs_state \<Rightarrow> (bool \<times> 'w fs_state) option" where
  "poll_rest lib fl n s = do {
     d \<leftarrow> read_flag fl s;
     (if d then Some (True, s) else if n < POLLER_MAX_TIME then poll_loop lib fl n s else Some (False, s)) }"

lemma poll_loop_empty:
  assumes "thread_poll lib (world s) = ([], w)" and "read_flag fl s = Some False"
    and "exit_code s = None"
  shows "poll_loop lib fl n s =
    (if Suc n < POLLER_MAX_TIME then poll_loop lib fl (Suc n) (s\<lparr>world := w\<rparr>) else Some (False, s\<lparr>world := w\<rparr>))"
  using assms by (subst poll_loop.simps) simp

lemma poll_loop_call:
  assumes "thread_poll lib (world s) = ([c], w)"
    and "runs (run_call lib c (s\<lparr>world := w\<rparr>)) (\<lambda>t. exit_code t = None \<and> runs (poll_rest lib fl (Suc n) t) R)"
  shows "runs (poll_loop lib fl n s) R"
proof -
  from assms(2) obtain t where t: "run_call lib c (s\<lparr>world := w\<rparr>) = Some t" "exit_code t = None"
      "runs (poll_rest lib fl (Suc n) t) R"
    by (auto elim!: runsE)
  from t(3) obtain d where "read_flag fl t = Some d" by (cases "read_flag fl t") (auto simp: poll_rest_def)
  with t show ?thesis
    by (subst poll_loop.simps) (cases d; simp add: assms(1) poll_rest_def split: if_splits)
qed

text \<open>A call that is due runs after at most \<open>D\<close> empty polls.\<close>

lemma poll_wait:
  assumes "thread_laws lib due data D" and "due (world s) = Some (c, d)"
    and "n + d < POLLER_MAX_TIME" and "read_flag fl s = Some False" and "exit_code s = None"
    and "\<And>w. due w = None \<Longrightarrow> data w = data (world s) \<Longrightarrow> runs (run_call lib c (s\<lparr>world := w\<rparr>))
      (\<lambda>t. exit_code t = None \<and> runs (poll_rest lib fl (Suc (n + d)) t) R)"
  shows "runs (poll_loop lib fl n s) R"
  using assms
proof (induction d arbitrary: n s)
  case 0
  then obtain w where "thread_poll lib (world s) = ([c], w)" "due w = None" "data w = data (world s)"
    unfolding thread_laws_def by blast
  with 0 show ?case by (intro poll_loop_call [of lib s c w]) simp_all
next
  case (Suc d)
  then obtain w where w: "thread_poll lib (world s) = ([], w)" "due w = Some (c, d)" "data w = data (world s)"
    unfolding thread_laws_def by blast
  from Suc.IH [of "s\<lparr>world := w\<rparr>" "Suc n"] Suc.prems w have "runs (poll_loop lib fl (Suc n) (s\<lparr>world := w\<rparr>)) R"
    by simp
  moreover have "Suc n < POLLER_MAX_TIME" using Suc.prems(3) by simp
  ultimately show ?case using w Suc.prems by (simp add: poll_loop_empty)
qed

lemma poll_reply:
  assumes "thread_laws lib due data D" and "replies due D (world s) c"
    and "n + D < POLLER_MAX_TIME" and "read_flag fl s = Some False" and "exit_code s = None"
    and "\<And>w k. due w = None \<Longrightarrow> data w = data (world s) \<Longrightarrow> k \<le> Suc (n + D) \<Longrightarrow>
      runs (run_call lib c (s\<lparr>world := w\<rparr>)) (\<lambda>t. exit_code t = None \<and> runs (poll_rest lib fl k t) R)"
  shows "runs (poll_loop lib fl n s) R"
proof -
  from assms(2) obtain d where d: "d \<le> D" "due (world s) = Some (c, d)" unfolding replies_def by blast
  show ?thesis
    by (rule poll_wait [OF assms(1) d(2) _ assms(4,5) assms(6)]) (use d assms(3) in auto)
qed

text \<open>With nothing due the poller gives up, and leaves the state as it is.\<close>

lemma poll_timeout:
  assumes "thread_laws lib due data D" and "due (world s) = None" and "read_flag fl s = Some False"
    and "exit_code s = None"
  shows "\<exists>w. poll_loop lib fl n s = Some (False, s\<lparr>world := w\<rparr>) \<and> due w = None \<and> data w = data (world s)"
  using assms
proof (induction "POLLER_MAX_TIME - n" arbitrary: n s rule: less_induct)
  case less
  then obtain w where w: "thread_poll lib (world s) = ([], w)" "due w = None" "data w = data (world s)"
    unfolding thread_laws_def by blast
  show ?case
  proof (cases "Suc n < POLLER_MAX_TIME")
    case True
    then have "POLLER_MAX_TIME - Suc n < POLLER_MAX_TIME - n" by simp
    from less.hyps [OF this, of "s\<lparr>world := w\<rparr>"] less.prems w True show ?thesis by (simp add: poll_loop_empty)
  next
    case False
    with w less.prems show ?thesis by (intro exI [of _ w]) (simp add: poll_loop_empty)
  qed
qed

section \<open>Operations on an open file\<close>

text \<open>A file system that is set up, with the file at \<open>a\<close> open on the blob \<open>h\<close>.\<close>

definition mounted :: "size_t \<Rightarrow> 'w fs_state \<Rightarrow> bool" where
  "mounted u s \<longleftrightarrow> exit_code s = None \<and> (\<exists>f. fs s = Some f \<and> thread f \<and> bs f \<noteq> None \<and> channel f \<noteq> None \<and>
     unit_size f = u)"

definition open_file :: "'w fs_state \<Rightarrow> int \<Rightarrow> addr \<Rightarrow> addr \<Rightarrow> bool" where
  "open_file s fd a h \<longleftrightarrow> get_entry fd s = Some (Some a) \<and> (\<exists>x. file_heap s a = Some x \<and> blob x = Some h)"

definition io_bytes :: "size_t \<Rightarrow> size_t \<Rightarrow> nat" where
  "io_bytes u sz = unat (sz div u + 1) * unat u"

lemma file_op_runs:
  assumes "thread_laws lib due data D" and "due (world s) = None" and "D < POLLER_MAX_TIME"
    and "mounted u s" and "file_heap s a = Some x"
    and "\<And>w k. due w = None \<Longrightarrow> data w = data (world s) \<Longrightarrow> k \<le> Suc D \<Longrightarrow>
      runs (run_call lib fn (s\<lparr>file_heap := (file_heap s)(a \<mapsto> x\<lparr>file_done := False\<rparr>), world := w\<rparr>))
        (\<lambda>t. exit_code t = None \<and> runs (poll_rest lib (File_done a) k t)
          (\<lambda>(ok, t'). runs (file_heap t' a) (\<lambda>y. R (ret y, t'))))"
  shows "runs (file_op lib fn a s) R"
proof -
  define s0 where "s0 = s\<lparr>file_heap := (file_heap s)(a \<mapsto> x\<lparr>file_done := False\<rparr>)\<rparr>"
  define s1 where "s1 = s0\<lparr>world := send_msg lib fn (world s)\<rparr>"
  from assms(1,2) have m: "replies due D (world s1) fn" "data (world s1) = data (world s)"
    unfolding thread_laws_def by (simp_all add: s1_def s0_def)
  from assms(4) have e: "exit_code s1 = None" by (simp add: mounted_def s1_def s0_def)
  have "runs (poll_loop lib (File_done a) 0 s1) (\<lambda>(ok, t'). runs (file_heap t' a) (\<lambda>y. R (ret y, t')))"
  proof (rule poll_reply [OF assms(1) m(1) _ _ e])
    fix w k assume "due w = None" "data w = data (world s1)" "k \<le> Suc (0 + D)"
    with m(2) assms(6) [of w k] show "runs (run_call lib fn (s1\<lparr>world := w\<rparr>)) (\<lambda>t. exit_code t = None \<and>
        runs (poll_rest lib (File_done a) k t) (\<lambda>(ok, t'). runs (file_heap t' a) (\<lambda>y. R (ret y, t'))))"
      by (simp add: s1_def s0_def)
  qed (use assms(3) in \<open>simp_all add: s1_def s0_def\<close>)
  with assms(4,5) show ?thesis
    by (auto simp: file_op_def upd_file_def poller_def mounted_def s1_def s0_def runs_iff)
qed

text \<open>The second half of an operation: its request is answered by one completion, which sets the flag.\<close>

lemma poll_rest_reply:
  assumes "thread_laws lib due data D" and "replies due D (world s) c"
    and "k \<le> Suc D" and "2 * Suc D \<le> POLLER_MAX_TIME" and "read_flag fl s = Some False" and "exit_code s = None"
    and "\<And>w. due w = None \<Longrightarrow> data w = data (world s) \<Longrightarrow>
      runs (run_call lib c (s\<lparr>world := w\<rparr>)) (\<lambda>t. exit_code t = None \<and> read_flag fl t = Some True \<and> R (True, t))"
  shows "runs (poll_rest lib fl k s) R"
proof -
  have "runs (poll_loop lib fl k s) R"
  proof (rule poll_reply [OF assms(1,2) _ assms(5,6)])
    fix w j assume "due w = None" "data w = data (world s)"
    from assms(7) [OF this] show "runs (run_call lib c (s\<lparr>world := w\<rparr>))
        (\<lambda>t. exit_code t = None \<and> runs (poll_rest lib fl j t) R)"
      by (rule runs_mono) (simp add: poll_rest_def)
  qed (use assms(3,4) in simp)
  with assms(3-5) show ?thesis by (simp add: poll_rest_def)
qed

lemma posix_write_runs:
  assumes laws: "thread_laws lib due data D" "blob_io_laws lib due data D u"
    and idle: "due (world s) = None" "2 * Suc D \<le> POLLER_MAX_TIME"
    and fs: "initilized s" "mounted u s" "u \<noteq> 0" "open_file s fd a h"
    and sz: "sz > 0" "client_mem s buf = Some bytes" "io_bytes u sz \<le> length bytes"
      "io_bytes u sz \<le> length (data (world s) h)"
  shows "\<exists>x w. file_heap s a = Some x \<and> due w = None \<and>
    data w = (data (world s))(h := take (io_bytes u sz) bytes @ drop (io_bytes u sz) (data (world s) h)) \<and>
    posix_write lib fd buf sz s = Some (ret x, s\<lparr>world := w, file_heap :=
      (file_heap s)(a \<mapsto> x\<lparr>status := FILE_WRITE, file_done := True\<rparr>)\<rparr>)"
proof -
  from fs(4) obtain x where x: "get_entry fd s = Some (Some a)" "file_heap s a = Some x" "blob x = Some h"
    by (auto simp: open_file_def)
  from fs(2) obtain f ch where f: "fs s = Some f" "thread f" "channel f = Some ch" "unit_size f = u" "exit_code s = None"
    by (auto simp: mounted_def)
  let ?n = "io_bytes u sz" and ?D = "data (world s)"
  let ?Q = "\<lambda>(r, t). r = ret x \<and> (\<exists>w. due w = None \<and> data w = ?D(h := take ?n bytes @ drop ?n (?D h)) \<and>
    t = s\<lparr>world := w, file_heap := (file_heap s)(a \<mapsto> x\<lparr>status := FILE_WRITE, file_done := True\<rparr>)\<rparr>)"
  have "runs (file_op lib (Do_write a buf sz) a s) ?Q"
  proof (rule file_op_runs [OF laws(1) idle(1) _ fs(2) x(2)])
    fix w k assume w: "due w = None" "data w = ?D" "k \<le> Suc D"
    let ?w = "submit lib (Blob_io_write h (take ?n bytes) 0 (sz div u + 1) a) w"
    from laws(2) w(1,2) sz(3,4) have r: "replies due D ?w (Write_complete a 0)"
        "data ?w = ?D(h := take ?n bytes @ drop ?n (?D h))"
      unfolding blob_io_laws_def by (auto simp: io_bytes_def)
    let ?t = "s\<lparr>file_heap := (file_heap s)(a \<mapsto> x\<lparr>file_done := False, status := FILE_WRITE\<rparr>), world := ?w\<rparr>"
    have "runs (poll_rest lib (File_done a) k ?t) (\<lambda>(ok, t'). runs (file_heap t' a) (\<lambda>y. ?Q (ret y, t')))"
    proof (rule poll_rest_reply [OF laws(1) _ w(3) idle(2), of _ "Write_complete a 0"])
      fix v assume "due v = None" "data v = data (world ?t)"
      with r f(5) show "runs (run_call lib (Write_complete a 0) (?t\<lparr>world := v\<rparr>)) (\<lambda>t. exit_code t = None \<and>
          read_flag (File_done a) t = Some True \<and> (\<lambda>(ok, t'). runs (file_heap t' a) (\<lambda>y. ?Q (ret y, t'))) (True, t))"
        by (auto simp: myfs_file_write_complete_def upd_file_def intro!: exI [of _ v])
    qed (use r f(5) in simp_all)
    then show "runs (run_call lib (Do_write a buf sz) (s\<lparr>file_heap := (file_heap s)(a \<mapsto> x\<lparr>file_done := False\<rparr>), world := w\<rparr>))
        (\<lambda>t. exit_code t = None \<and> runs (poll_rest lib (File_done a) k t)
          (\<lambda>(ok, t'). runs (file_heap t' a) (\<lambda>y. ?Q (ret y, t'))))"
      using f x sz fs(3) by (simp add: do_write_def io_count_def upd_file_def load_bytes_def transfer_def io_bytes_def
        Myfs.request_def)
  qed (use idle(2) in simp)
  then show ?thesis using x fs(1) sz(1)
    by (auto simp: posix_write_def myfs_write_def myfs_file_write_def runs_iff)
qed

lemma posix_read_runs:
  assumes laws: "thread_laws lib due data D" "blob_io_laws lib due data D u"
    and idle: "due (world s) = None" "2 * Suc D \<le> POLLER_MAX_TIME"
    and fs: "initilized s" "mounted u s" "u \<noteq> 0" "open_file s fd a h"
    and sz: "sz > 0" "client_mem s buf = Some bytes" "io_bytes u sz \<le> length bytes"
      "io_bytes u sz \<le> length (data (world s) h)"
  shows "\<exists>x w. file_heap s a = Some x \<and> due w = None \<and> data w = data (world s) \<and>
    posix_read lib fd buf sz s = Some (ret x, s\<lparr>world := w,
      client_mem := (client_mem s)(buf \<mapsto> take (io_bytes u sz) (data (world s) h) @ drop (io_bytes u sz) bytes),
      file_heap := (file_heap s)(a \<mapsto> x\<lparr>status := FILE_READ, file_done := True\<rparr>)\<rparr>)"
proof -
  from fs(4) obtain x where x: "get_entry fd s = Some (Some a)" "file_heap s a = Some x" "blob x = Some h"
    by (auto simp: open_file_def)
  from fs(2) obtain f ch where f: "fs s = Some f" "thread f" "channel f = Some ch" "unit_size f = u" "exit_code s = None"
    by (auto simp: mounted_def)
  let ?n = "io_bytes u sz" and ?D = "data (world s)"
  let ?Q = "\<lambda>(r, t). r = ret x \<and> (\<exists>w. due w = None \<and> data w = ?D \<and>
    t = s\<lparr>world := w, client_mem := (client_mem s)(buf \<mapsto> take ?n (?D h) @ drop ?n bytes),
      file_heap := (file_heap s)(a \<mapsto> x\<lparr>status := FILE_READ, file_done := True\<rparr>)\<rparr>)"
  have "runs (file_op lib (Do_read a buf sz) a s) ?Q"
  proof (rule file_op_runs [OF laws(1) idle(1) _ fs(2) x(2)])
    fix w k assume w: "due w = None" "data w = ?D" "k \<le> Suc D"
    let ?w = "submit lib (Blob_io_read h buf 0 (sz div u + 1) a) w"
    from laws(2) w(1,2) sz(3,4) have r: "replies due D ?w (Read_complete a buf (take ?n (?D h)) 0)"
        "data ?w = ?D"
      unfolding blob_io_laws_def io_bytes_def by metis+
    let ?t = "s\<lparr>file_heap := (file_heap s)(a \<mapsto> x\<lparr>file_done := False, status := FILE_READ\<rparr>), world := ?w\<rparr>"
    have "runs (poll_rest lib (File_done a) k ?t) (\<lambda>(ok, t'). runs (file_heap t' a) (\<lambda>y. ?Q (ret y, t')))"
    proof (rule poll_rest_reply [OF laws(1) _ w(3) idle(2), of _ "Read_complete a buf (take ?n (?D h)) 0"])
      fix v assume "due v = None" "data v = data (world ?t)"
      with r f(5) sz show "runs (run_call lib (Read_complete a buf (take ?n (?D h)) 0) (?t\<lparr>world := v\<rparr>)) (\<lambda>t. exit_code t = None \<and>
          read_flag (File_done a) t = Some True \<and> (\<lambda>(ok, t'). runs (file_heap t' a) (\<lambda>y. ?Q (ret y, t'))) (True, t))"
        by (auto simp: myfs_file_read_complete_def upd_file_def store_bytes_def min_def intro!: exI [of _ v])
    qed (use r f(5) in simp_all)
    then show "runs (run_call lib (Do_read a buf sz) (s\<lparr>file_heap := (file_heap s)(a \<mapsto> x\<lparr>file_done := False\<rparr>), world := w\<rparr>))
        (\<lambda>t. exit_code t = None \<and> runs (poll_rest lib (File_done a) k t)
          (\<lambda>(ok, t'). runs (file_heap t' a) (\<lambda>y. ?Q (ret y, t'))))"
      using f x sz fs(3) by (simp add: do_read_def io_count_def upd_file_def transfer_def io_bytes_def
        Myfs.request_def)
  qed (use idle(2) in simp)
  then show ?thesis using x fs(1) sz(1)
    by (auto simp: posix_read_def myfs_read_def myfs_file_read_def runs_iff)
qed

end
