(* ===== verification/Myfs_Props.thy ===== *)
theory Myfs_Props
  imports Myfs_Device
begin

text \<open>
  Setting up the file system through the first \<open>creat\<close>, and the properties of the file system.
\<close>

section \<open>The laws of a fresh device\<close>

definition setup_laws :: "'w spdk \<Rightarrow> ('w \<Rightarrow> (call \<times> nat) option) \<Rightarrow> nat \<Rightarrow> size_t \<Rightarrow> bool" where
  "setup_laws lib due D u \<longleftrightarrow>
     (\<forall>w. due w = None \<longrightarrow> (\<exists>rc w'. env_init lib w = (rc, w') \<and> due w' = None)) \<and>
     (\<forall>w. due w = None \<longrightarrow> (\<exists>w'. thread_create lib w = (True, w') \<and> due w' = None)) \<and>
     (\<forall>w. due w = None \<longrightarrow> replies due D (submit lib Json_config w) Json_load_done) \<and>
     (\<forall>w. due w = None \<longrightarrow> (\<exists>dev w'. create_bs_dev lib w = ((0, Some dev), w') \<and> due w' = None)) \<and>
     (\<forall>w dev. due w = None \<longrightarrow> (\<exists>st. replies due D (submit lib (Bs_init (Some dev)) w) (Bs_init_complete (Some st) 0))) \<and>
     (\<forall>w st. get_io_unit_size lib st w = u) \<and>
     (\<forall>w st. due w = None \<longrightarrow> (\<exists>ch w'. alloc_io_channel lib st w = (Some ch, w') \<and> due w' = None)) \<and>
     (\<forall>w a. due w = None \<longrightarrow> replies due D (submit lib (Bs_get_super a) w) (Get_super_complete a 0 (- ENOENT))) \<and>
     (\<forall>w a. due w = None \<longrightarrow> (\<exists>i. i \<noteq> 0 \<and> replies due D (submit lib (Bs_create_blob a) w) (Create_complete a i 0))) \<and>
     (\<forall>w a i. due w = None \<and> i \<noteq> 0 \<longrightarrow>
        (\<exists>h. replies due D (submit lib (Bs_open_blob i a) w) (Open_complete a (Some (h, i)) 0))) \<and>
     (\<forall>w a h n. due w = None \<longrightarrow> replies due D (submit lib (Blob_resize h n a) w) (Resize_complete a 0))"

text \<open>One more exchange of a conversation.\<close>

lemma poll_rest_step:
  assumes "thread_laws lib due data D" and "replies due D (world s) c"
    and "k + Suc D \<le> POLLER_MAX_TIME" and "read_flag fl s = Some False" and "exit_code s = None"
    and "\<And>w j. due w = None \<Longrightarrow> j \<le> k + Suc D \<Longrightarrow>
      runs (run_call lib c (s\<lparr>world := w\<rparr>)) (\<lambda>t. exit_code t = None \<and> runs (poll_rest lib fl j t) R)"
  shows "runs (poll_rest lib fl k s) R"
proof -
  have "runs (poll_loop lib fl k s) R"
    by (rule poll_reply [OF assms(1,2) _ assms(4,5)]) (use assms(3,6) in auto)
  with assms(3,4) show ?thesis by (simp add: poll_rest_def)
qed

lemma poller_runs:
  assumes "thread_laws lib due data D" and "due (world s) = None" and "D < POLLER_MAX_TIME"
    and "fs s = Some f" and "thread f" and "read_flag fl s = Some False" and "exit_code s = None"
    and "\<And>w k. due w = None \<Longrightarrow> k \<le> Suc D \<Longrightarrow>
      runs (run_call lib c (s\<lparr>world := w\<rparr>)) (\<lambda>t. exit_code t = None \<and> runs (poll_rest lib fl k t) R)"
  shows "runs (poller lib c fl s) R"
proof -
  have "replies due D (world (s\<lparr>world := send_msg lib c (world s)\<rparr>)) c"
    using assms(1,2) by (simp add: thread_laws_def)
  then have "runs (poll_loop lib fl 0 (s\<lparr>world := send_msg lib c (world s)\<rparr>)) R"
    by (rule poll_reply [OF assms(1)]) (use assms(3-8) in simp_all)
  with assms(4,5) show ?thesis by (simp add: poller_def)
qed

lemma poll_rest_done: "read_flag fl s = Some True \<Longrightarrow> poll_rest lib fl k s = Some (True, s)"
  by (simp add: poll_rest_def)

lemma setup_json:
  assumes "thread_laws lib due data D" and "setup_laws lib due D u" and "2 * Suc D \<le> POLLER_MAX_TIME"
    and "due (world s) = None" and "fs s = Some f" and "thread f" and "exit_code s = None"
  shows "runs (poller lib Setup_json Json_done (s\<lparr>json_done := Some False\<rparr>))
    (\<lambda>(ok, t). \<exists>w. due w = None \<and> t = s\<lparr>world := w, json_done := Some True\<rparr>)" (is "runs _ ?R")
proof (rule poller_runs [OF assms(1)])
  fix w k assume w: "due w = None" "k \<le> Suc D"
  let ?t = "s\<lparr>json_done := Some False, world := submit lib Json_config w\<rparr>"
  have "replies due D (world ?t) Json_load_done" using assms(2) w(1) by (simp add: setup_laws_def)
  then have "runs (poll_rest lib Json_done k ?t) ?R"
  proof (rule poll_rest_reply [OF assms(1) _ w(2) assms(3)])
    fix v assume "due v = None"
    then show "runs (run_call lib Json_load_done (?t\<lparr>world := v\<rparr>))
        (\<lambda>t. exit_code t = None \<and> read_flag Json_done t = Some True \<and> ?R (True, t))"
      using assms(7) by (auto simp: json_app_load_done_def intro!: exI [of _ v])
  qed (use assms(7) in simp_all)
  then show "runs (run_call lib Setup_json (s\<lparr>json_done := Some False, world := w\<rparr>))
      (\<lambda>t. exit_code t = None \<and> runs (poll_rest lib Json_done k t) ?R)"
    using assms(7) by (simp add: setup_spdk_json_app_def Myfs.request_def)
qed (use assms in simp_all)

lemma setup_alloc:
  assumes "thread_laws lib due data D" and "setup_laws lib due D u" and "2 * Suc D \<le> POLLER_MAX_TIME"
    and "due (world s) = None" and "fs s = Some f" and "thread f" and "exit_code s = None" and "\<not> finished f"
  shows "runs (poller lib Call_alloc Fs_finished s)
    (\<lambda>(ok, t). \<exists>w g. due w = None \<and> t = s\<lparr>world := w, fs := Some g\<rparr> \<and> mounted u t)" (is "runs _ ?R")
proof (rule poller_runs [OF assms(1,4)])
  fix w k assume w: "due w = None" "k \<le> Suc D"
  from assms(2) w(1) obtain dev w1 where dev: "create_bs_dev lib w = ((0, Some dev), w1)" "due w1 = None"
    unfolding setup_laws_def by metis
  from assms(2) dev(2) obtain st where st: "replies due D (submit lib (Bs_init (Some dev)) w1) (Bs_init_complete (Some st) 0)"
    unfolding setup_laws_def by metis
  let ?t = "s\<lparr>fs := Some (f\<lparr>bs_dev := Some dev\<rparr>), world := submit lib (Bs_init (Some dev)) w1\<rparr>"
  have "runs (poll_rest lib Fs_finished k ?t) ?R"
  proof (rule poll_rest_reply [OF assms(1) _ w(2) assms(3), of _ "Bs_init_complete (Some st) 0"])
    fix v assume v: "due v = None"
    from assms(2) v obtain ch v1 where ch: "alloc_io_channel lib st v = (Some ch, v1)" "due v1 = None"
      unfolding setup_laws_def by metis
    have "get_io_unit_size lib st v = u" using assms(2) by (simp add: setup_laws_def)
    with ch v assms(6,7) show "runs (run_call lib (Bs_init_complete (Some st) 0) (?t\<lparr>world := v\<rparr>))
        (\<lambda>t. exit_code t = None \<and> read_flag Fs_finished t = Some True \<and> ?R (True, t))"
      by (auto simp: myfs_blobstore_init_complete_def upd_fs_def mounted_def intro!: exI [of _ v1])
  qed (use st assms(7,8) in simp_all)
  then show "runs (run_call lib Call_alloc (s\<lparr>world := w\<rparr>))
      (\<lambda>t. exit_code t = None \<and> runs (poll_rest lib Fs_finished k t) ?R)"
    using assms(5,7) dev by (simp add: myfs_alloc_def upd_fs_def Myfs.request_def)
qed (use assms in simp_all)

text \<open>Setting up: the environment, the configuration, the blob store.\<close>

lemma myfs_setup_runs:
  assumes laws: "thread_laws lib due data D" "setup_laws lib due D u" "2 * Suc D \<le> POLLER_MAX_TIME"
    and s: "due (world s) = None" "exit_code s = None"
  shows "runs (myfs_setup lib s) (\<lambda>(r, t). \<exists>w g. due w = None \<and>
    t = s\<lparr>json_done := None, world := w, fs := Some g\<rparr> \<and> mounted u t)"
proof -
  from laws(2) s(1) obtain rc w1 where w1: "env_init lib (world s) = (rc, w1)" "due w1 = None"
    unfolding setup_laws_def by metis
  from laws(2) w1(2) obtain w2 where w2: "thread_create lib w1 = (True, w2)" "due w2 = None"
    unfolding setup_laws_def by metis
  let ?f = "zero_fs\<lparr>thread := True\<rparr>"
  let ?s2 = "s\<lparr>world := w2, fs := Some ?f\<rparr>"
  from setup_json [OF laws, of ?s2 ?f] s w2 obtain ok w3 where w3: "due w3 = None"
      "poller lib Setup_json Json_done (?s2\<lparr>json_done := Some False\<rparr>) = Some (ok, ?s2\<lparr>world := w3, json_done := Some True\<rparr>)"
    by (auto simp: runs_iff)
  let ?s3 = "s\<lparr>world := w3, json_done := None, fs := Some (?f\<lparr>finished := False\<rparr>)\<rparr>"
  from setup_alloc [OF laws, of ?s3 "?f\<lparr>finished := False\<rparr>"] s w3(1) obtain ok' w4 g where w4: "due w4 = None"
      "poller lib Call_alloc Fs_finished ?s3 = Some (ok', ?s3\<lparr>world := w4, fs := Some g\<rparr>)"
      "mounted u (?s3\<lparr>world := w4, fs := Some g\<rparr>)"
    by (auto simp: runs_iff)
  have "myfs_setup lib s = Some (0, ?s3\<lparr>world := w4, fs := Some g\<rparr>)"
    using w1 w2 w3 w4 by (simp add: myfs_setup_def myfs_spdk_env_init_def upd_fs_def)
  then show ?thesis using w4 by auto
qed

text \<open>The conversation of \<open>creat\<close>: no super blob, a new blob, opened and resized.\<close>

definition with_file :: "'w fs_state \<Rightarrow> addr \<Rightarrow> myfs_file \<Rightarrow> 'w \<Rightarrow> 'w fs_state" where
  "with_file s a y w = s\<lparr>world := w, file_heap := (file_heap s)(a \<mapsto> y)\<rparr>"

lemma with_file_simps [simp]:
  "fs (with_file s a y w) = fs s" "exit_code (with_file s a y w) = exit_code s"
  "world (with_file s a y w) = w" "file_heap (with_file s a y w) a = Some y"
  "(with_file s a y w)\<lparr>world := v\<rparr> = with_file s a y v"
  "upd_file a g (with_file s a y w) = Some (with_file s a (g y) w)"
  "blobstore (with_file s a y w) = blobstore s"
  "Myfs.request lib r (with_file s a y w) = with_file s a y (submit lib r w)"
  by (simp_all add: with_file_def upd_file_def blobstore_def Myfs.request_def)

lemma create_resize:
  assumes laws: "thread_laws lib due data D" "setup_laws lib due D u" "5 * Suc D \<le> POLLER_MAX_TIME"
    and s: "mounted u s" "due w = None" "k \<le> 4 * Suc D" "\<not> file_done y" "blob y = Some h"
    and R: "\<And>v y. due v = None \<Longrightarrow> blob y = Some h \<Longrightarrow> R (True, with_file s a y v)"
  shows "runs (poll_rest lib (File_done a) k (with_file s a y (submit lib (Blob_resize h n a) w))) R"
proof (rule poll_rest_step [OF laws(1), of _ "Resize_complete a 0"])
  fix v j assume "due v = None"
  with s R show "runs (run_call lib (Resize_complete a 0) (with_file s a y (submit lib (Blob_resize h n a) w)\<lparr>world := v\<rparr>))
      (\<lambda>t. exit_code t = None \<and> runs (poll_rest lib (File_done a) j t) R)"
    by (simp add: myfs_blob_resize_complete_def poll_rest_done mounted_def)
qed (use laws(2,3) s in \<open>simp_all add: setup_laws_def mounted_def\<close>)

lemma create_open:
  assumes laws: "thread_laws lib due data D" "setup_laws lib due D u" "5 * Suc D \<le> POLLER_MAX_TIME"
    and s: "mounted u s" "due w = None" "k \<le> 3 * Suc D" "\<not> file_done y" "i \<noteq> 0"
    and R: "\<And>v y. due v = None \<Longrightarrow> blob y \<noteq> None \<Longrightarrow> R (True, with_file s a y v)"
  shows "runs (poll_rest lib (File_done a) k (with_file s a y (submit lib (Bs_open_blob i a) w))) R"
proof -
  from laws(2) s(2,5) obtain h where h: "replies due D (submit lib (Bs_open_blob i a) w) (Open_complete a (Some (h, i)) 0)"
    unfolding setup_laws_def by metis
  from s(1) obtain st where st: "blobstore s = Some st" "exit_code s = None" by (auto simp: mounted_def blobstore_def)
  show ?thesis
  proof (rule poll_rest_step [OF laws(1), of _ "Open_complete a (Some (h, i)) 0"])
    fix v j assume v: "due v = None" "j \<le> k + Suc D"
    have "runs (poll_rest lib (File_done a) j (with_file s a (y\<lparr>blob := Some h, blobid := i\<rparr>)
        (submit lib (Blob_resize h (free_cluster_count lib st v) a) v))) R"
      by (rule create_resize [OF laws s(1)]) (use v s R in auto)
    with st show "runs (run_call lib (Open_complete a (Some (h, i)) 0)
        (with_file s a y (submit lib (Bs_open_blob i a) w)\<lparr>world := v\<rparr>))
        (\<lambda>t. exit_code t = None \<and> runs (poll_rest lib (File_done a) j t) R)"
      by (simp add: myfs_blob_open_complete_def)
  qed (use laws(3) s st h in simp_all)
qed

lemma create_new:
  assumes laws: "thread_laws lib due data D" "setup_laws lib due D u" "5 * Suc D \<le> POLLER_MAX_TIME"
    and s: "mounted u s" "due w = None" "k \<le> 2 * Suc D" "\<not> file_done y"
    and R: "\<And>v y. due v = None \<Longrightarrow> blob y \<noteq> None \<Longrightarrow> R (True, with_file s a y v)"
  shows "runs (poll_rest lib (File_done a) k (with_file s a y (submit lib (Bs_create_blob a) w))) R"
proof -
  from laws(2) s(2) obtain i where i: "i \<noteq> 0" "replies due D (submit lib (Bs_create_blob a) w) (Create_complete a i 0)"
    unfolding setup_laws_def by metis
  from s(1) obtain st where st: "blobstore s = Some st" "exit_code s = None" by (auto simp: mounted_def blobstore_def)
  show ?thesis
  proof (rule poll_rest_step [OF laws(1), of _ "Create_complete a i 0"])
    fix v j assume v: "due v = None" "j \<le> k + Suc D"
    have "runs (poll_rest lib (File_done a) j (with_file s a (y\<lparr>blobid := i\<rparr>) (submit lib (Bs_open_blob i a) v))) R"
      by (rule create_open [OF laws s(1)]) (use v s i R in auto)
    with st show "runs (run_call lib (Create_complete a i 0) (with_file s a y (submit lib (Bs_create_blob a) w)\<lparr>world := v\<rparr>))
        (\<lambda>t. exit_code t = None \<and> runs (poll_rest lib (File_done a) j t) R)"
      by (simp add: myfs_blob_create_complete_def)
  qed (use laws(3) s st i in simp_all)
qed

lemma create_super:
  assumes laws: "thread_laws lib due data D" "setup_laws lib due D u" "5 * Suc D \<le> POLLER_MAX_TIME"
    and s: "mounted u s" "due w = None" "k \<le> Suc D" "\<not> file_done y"
    and R: "\<And>v y. due v = None \<Longrightarrow> blob y \<noteq> None \<Longrightarrow> R (True, with_file s a y v)"
  shows "runs (poll_rest lib (File_done a) k (with_file s a y (submit lib (Bs_get_super a) w))) R"
proof (rule poll_rest_step [OF laws(1), of _ "Get_super_complete a 0 (- ENOENT)"])
  from s(1) obtain st where st: "blobstore s = Some st" "exit_code s = None" by (auto simp: mounted_def blobstore_def)
  fix v j assume v: "due v = None" "j \<le> k + Suc D"
  have "runs (poll_rest lib (File_done a) j (with_file s a y (submit lib (Bs_create_blob a) v))) R"
    by (rule create_new [OF laws s(1)]) (use v s R in auto)
  with st show "runs (run_call lib (Get_super_complete a 0 (- ENOENT)) (with_file s a y (submit lib (Bs_get_super a) w)\<lparr>world := v\<rparr>))
      (\<lambda>t. exit_code t = None \<and> runs (poll_rest lib (File_done a) j t) R)"
    by (simp add: myfs_bs_get_super_complete_def ENOENT_def)
qed (use laws(2,3) s in \<open>simp_all add: setup_laws_def mounted_def\<close>)

lemma create_runs:
  assumes laws: "thread_laws lib due data D" "setup_laws lib due D u" "5 * Suc D \<le> POLLER_MAX_TIME"
    and s: "due (world s) = None" "mounted u s" "file_heap s a = Some x"
  shows "runs (myfs_file_create lib a s) (\<lambda>(r, t). \<exists>y w. due w = None \<and> blob y \<noteq> None \<and> t = with_file s a y w)"
    (is "runs _ ?R")
  unfolding myfs_file_create_def
proof (rule file_op_runs [OF laws(1) s(1) _ s(2,3)])
  fix w k assume w: "due w = None" "k \<le> Suc D"
  from s(2) obtain st where st: "blobstore s = Some st" "exit_code s = None" by (auto simp: mounted_def blobstore_def)
  let ?P = "\<lambda>(ok :: bool, t'). runs (file_heap t' a) (\<lambda>y. ?R (ret y, t'))"
  have "runs (poll_rest lib (File_done a) k (with_file s a (x\<lparr>file_done := False, status := FILE_CREATE\<rparr>)
      (submit lib (Bs_get_super a) w))) ?P"
    by (rule create_super [OF laws s(2)]) (use w in auto)
  moreover have "s\<lparr>file_heap := (file_heap s)(a \<mapsto> z), world := w\<rparr> = with_file s a z w" for z
    by (simp add: with_file_def)
  ultimately show "runs (run_call lib (Do_create a) (s\<lparr>file_heap := (file_heap s)(a \<mapsto> x\<lparr>file_done := False\<rparr>), world := w\<rparr>))
      (\<lambda>t. exit_code t = None \<and> runs (poll_rest lib (File_done a) k t) ?P)"
    using st by (simp add: do_create_def)
qed (use laws(3) in simp)

lemma first_fd: "get_fd_from_bitmap (replicate FD_TABLE_SIZE 0) = (3, (replicate FD_TABLE_SIZE 0)[0 := 8])"
proof -
  have "3 \<notin> used_fds (replicate FD_TABLE_SIZE 0)" by (simp add: used_fds_def fd_used_def FD_TABLE_SIZE_def)
  moreover have "(3 :: nat) < MAX_FD_COUNT" by (simp add: MAX_FD_COUNT_def)
  ultimately show ?thesis
    by (simp add: get_fd_from_bitmap_def DEFAULT_FD_NUM_def get_fd_loop_steps(2) fd_mask_def FD_TABLE_SIZE_def)
qed

text \<open>The first \<open>creat\<close> of a process sets the file system up and opens a new blob as descriptor 3.\<close>

lemma first_creat:
  assumes laws: "thread_laws lib due data D" "setup_laws lib due D u" "5 * Suc D \<le> POLLER_MAX_TIME"
    and "due w = None"
  shows "runs (posix_creat lib path (initial_state m w)) (\<lambda>(fd, t). fd = 3 \<and> initilized t \<and> mounted u t \<and>
    due (world t) = None \<and> client_mem t = m \<and> (\<exists>h. open_file t 3 0 h))"
proof -
  let ?s = "initial_state m w"
  have "2 * Suc D \<le> POLLER_MAX_TIME" using laws(3) by simp
  from myfs_setup_runs [OF laws(1,2) this, of ?s] assms(4) obtain r w1 g where s1: "due w1 = None"
      "myfs_setup lib ?s = Some (r, ?s\<lparr>json_done := None, world := w1, fs := Some g\<rparr>)"
      "mounted u (?s\<lparr>json_done := None, world := w1, fs := Some g\<rparr>)"
    by (auto simp: initial_state_def runs_iff)
  let ?s2 = "?s\<lparr>json_done := None, world := w1, fs := Some g, initilized := True,
    fd_table := (replicate FD_TABLE_SIZE 0)[0 := 8], file_heap := [0 \<mapsto> zero_file], next_file := 1\<rparr>"
  from create_runs [OF laws, of ?s2 0 zero_file] s1 obtain r2 y w2 where c: "due w2 = None" "blob y \<noteq> None"
      "myfs_file_create lib 0 ?s2 = Some (r2, with_file ?s2 0 y w2)"
    by (auto simp: mounted_def runs_iff)
  have "posix_creat lib path ?s = set_entry 3 0 (with_file ?s2 0 y w2) \<bind> (\<lambda>t. Some (3, t))"
    using s1 c first_fd by (simp add: posix_creat_def myfs_create_def get_fd_def alloc_file_def mounted_def initial_state_def)
  with s1 c show ?thesis
    by (auto simp: set_entry_def with_file_def MAX_FD_COUNT_def initial_state_def mounted_def open_file_def get_entry_def)
qed

text \<open>A call that has no value makes the operation that waits for it undefined.\<close>

lemma poll_undefined:
  assumes "thread_laws lib due data D" and "due (world s) = Some (c, d)"
    and "n + d < POLLER_MAX_TIME" and "read_flag fl s = Some False" and "exit_code s = None"
    and "\<And>w. run_call lib c (s\<lparr>world := w\<rparr>) = None"
  shows "poll_loop lib fl n s = None"
  using assms
proof (induction d arbitrary: n s)
  case 0
  then obtain w where "thread_poll lib (world s) = ([c], w)" unfolding thread_laws_def by blast
  with 0 show ?case by (subst poll_loop.simps) simp
next
  case (Suc d)
  then obtain w where w: "thread_poll lib (world s) = ([], w)" "due w = Some (c, d)" "data w = data (world s)"
    unfolding thread_laws_def by blast
  from Suc.IH [of "s\<lparr>world := w\<rparr>" "Suc n"] Suc.prems w have "poll_loop lib fl (Suc n) (s\<lparr>world := w\<rparr>) = None"
    by simp
  moreover have "Suc n < POLLER_MAX_TIME" using Suc.prems(3) by simp
  ultimately show ?case using w Suc.prems by (simp add: poll_loop_empty)
qed

text \<open>A write transfers whole units, at least one byte more than it was asked to.\<close>

lemma write_undefined:
  assumes "thread_laws lib due data D" and "D < POLLER_MAX_TIME" and "due (world s) = None"
    and s: "initilized s" "mounted u s" "u \<noteq> 0" "open_file s fd a h"
    and "client_mem s buf = Some bytes" and "length bytes < io_bytes u sz"
  shows "posix_write lib fd buf sz s = None"
proof -
  from s(4) obtain x where x: "get_entry fd s = Some (Some a)" "file_heap s a = Some x" "blob x = Some h"
    by (auto simp: open_file_def)
  from s(2) obtain f ch where f: "fs s = Some f" "thread f" "channel f = Some ch" "unit_size f = u" "exit_code s = None"
    by (auto simp: mounted_def)
  let ?c = "Do_write a buf sz"
  let ?s = "s\<lparr>file_heap := (file_heap s)(a \<mapsto> x\<lparr>file_done := False\<rparr>), world := send_msg lib ?c (world s)\<rparr>"
  from assms(1,3) obtain d where d: "d \<le> D" "due (world ?s) = Some (?c, d)"
    unfolding thread_laws_def replies_def by (simp) blast
  have "poll_loop lib (File_done a) 0 ?s = None"
    by (rule poll_undefined [OF assms(1) d(2)])
      (use d(1) assms(2,8,9) f x s(3) in \<open>simp_all add: do_write_def io_count_def upd_file_def load_bytes_def
        transfer_def io_bytes_def\<close>)
  then show ?thesis using x f s(1)
    by (simp add: posix_write_def myfs_write_def myfs_file_write_def file_op_def upd_file_def poller_def)
qed

text \<open>\<open>open\<close> after the first \<open>creat\<close>: the new file has no blob, \<open>do_open\<close> sets \<open>ret\<close> to -1 and never sets the
  flag, the poller runs to its limit, and a descriptor is returned all the same, to a file without a blob.\<close>

lemma posix_open_without_blob:
  assumes "thread_laws lib due data D" and "Suc D < POLLER_MAX_TIME" and "due (world s) = None"
    and s: "initilized s" "mounted u s" "get_fd_from_bitmap (fd_table s) = (fd, tbl)" "0 \<le> fd" "nat fd < length (files s)"
  shows "runs (posix_open lib path s) (\<lambda>(r, t). r = fd \<and>
    (\<exists>a y. get_entry fd t = Some (Some a) \<and> file_heap t a = Some y \<and> blob y = None \<and> ret y = - 1))"
proof -
  let ?a = "next_file s"
  let ?s = "s\<lparr>fd_table := tbl, file_heap := (file_heap s)(?a \<mapsto> zero_file), next_file := Suc ?a\<rparr>"
  have m: "mounted u ?s" using s(2) by (simp add: mounted_def)
  have "runs (file_op lib (Do_open ?a) ?a ?s) (\<lambda>(r, t). files t = files s \<and>
      (\<exists>y. file_heap t ?a = Some y \<and> blob y = None \<and> ret y = - 1))" (is "runs _ ?R")
  proof (rule file_op_runs [OF assms(1) _ _ m, of _ zero_file])
    fix w k assume w: "due w = None" "k \<le> Suc D"
    let ?t = "?s\<lparr>world := w, file_heap := (file_heap s)(?a \<mapsto> zero_file\<lparr>file_done := False, ret := - 1\<rparr>)\<rparr>"
    from poll_timeout [OF assms(1), of ?t "File_done ?a" k] w m obtain v where
      "poll_loop lib (File_done ?a) k ?t = Some (False, ?t\<lparr>world := v\<rparr>)"
      by (auto simp: mounted_def zero_file_def)
    then have "runs (poll_rest lib (File_done ?a) k ?t) (\<lambda>(ok, t'). runs (file_heap t' ?a) (\<lambda>y. ?R (ret y, t')))"
      using w(2) assms(2) by (simp add: poll_rest_def zero_file_def)
    then show "runs (run_call lib (Do_open ?a) (?s\<lparr>file_heap := (file_heap ?s)(?a \<mapsto> zero_file\<lparr>file_done := False\<rparr>), world := w\<rparr>))
        (\<lambda>t. exit_code t = None \<and> runs (poll_rest lib (File_done ?a) k t) (\<lambda>(ok, t'). runs (file_heap t' ?a) (\<lambda>y. ?R (ret y, t'))))"
      using m by (simp add: do_open_def upd_file_def mounted_def zero_file_def)
  qed (use assms(2,3) in simp_all)
  with s show ?thesis
    by (auto simp: posix_open_def mounted_def myfs_open_def get_fd_def alloc_file_def myfs_file_open_def set_entry_def
        get_entry_def runs_iff)
qed

section \<open>A device in memory\<close>

text \<open>A library that satisfies the laws: one call may be due, and it runs at the next poll.\<close>

type_synonym ram = "call option \<times> (addr \<Rightarrow> byte list)"

fun ram_submit :: "size_t \<Rightarrow> request \<Rightarrow> ram \<Rightarrow> ram" where
  "ram_submit u Json_config w = (Some Json_load_done, snd w)"
| "ram_submit u (Bs_init dev) w = (Some (Bs_init_complete (Some 1) 0), snd w)"
| "ram_submit u (Bs_destroy st) w = (Some (Bs_destroy_complete 0), snd w)"
| "ram_submit u (Bs_get_super a) w = (Some (Get_super_complete a 0 (- ENOENT)), snd w)"
| "ram_submit u (Bs_create_blob a) w = (Some (Create_complete a 7 0), snd w)"
| "ram_submit u (Bs_open_blob i a) w = (Some (Open_complete a (Some (5, i)) 0), snd w)"
| "ram_submit u (Blob_resize h n a) w = (Some (Resize_complete a 0), snd w)"
| "ram_submit u (Blob_io_write h d off count a) w =
     (Some (Write_complete a 0), (snd w)(h := d @ drop (length d) (snd w h)))"
| "ram_submit u (Blob_io_read h buf off count a) w =
     (Some (Read_complete a buf (take (unat count * unat u) (snd w h)) 0), snd w)"
| "ram_submit u (Blob_close h a) w = (Some (Close_complete a 0), snd w)"
| "ram_submit u (Bs_delete_blob i a) w = (Some (Release_complete a 0), snd w)"

definition ram_disk :: "size_t \<Rightarrow> ram spdk" where
  "ram_disk u = \<lparr>env_init = \<lambda>w. (0, w), thread_create = \<lambda>w. (True, w), send_msg = \<lambda>c w. (Some c, snd w),
     submit = ram_submit u, thread_poll = \<lambda>w. (case fst w of None \<Rightarrow> [] | Some c \<Rightarrow> [c], (None, snd w)),
     create_bs_dev = \<lambda>w. ((0, Some 0), w), get_io_unit_size = \<lambda>st w. u, alloc_io_channel = \<lambda>st w. (Some 2, w),
     free_io_channel = \<lambda>ch w. w, free_cluster_count = \<lambda>st w. 1, sys_creat = \<lambda>p w. (- 1, w), sys_open = \<lambda>p w. (- 1, w),
     sys_read = \<lambda>fd b n w. (- 1, w), sys_write = \<lambda>fd b n w. (- 1, w), sys_close = \<lambda>fd w. (- 1, w)\<rparr>"

abbreviation ram_due :: "ram \<Rightarrow> (call \<times> nat) option" where
  "ram_due w \<equiv> map_option (\<lambda>c. (c, 0)) (fst w)"

lemma ram_laws: "thread_laws (ram_disk u) ram_due snd 0" "blob_io_laws (ram_disk u) ram_due snd 0 u"
  "setup_laws (ram_disk u) ram_due 0 u"
proof -
  show "thread_laws (ram_disk u) ram_due snd 0" by (auto simp: thread_laws_def replies_def ram_disk_def)
  show "blob_io_laws (ram_disk u) ram_due snd 0 u" by (auto simp: blob_io_laws_def replies_def ram_disk_def)
  show "setup_laws (ram_disk u) ram_due 0 u"
    by (auto simp: setup_laws_def replies_def ram_disk_def intro: exI [of _ "7 :: 64 word"])
qed

section \<open>Properties\<close>

text \<open>
  C29. What \<open>write\<close> stores through a descriptor of the file system, a later \<open>read\<close> through it returns. The
  first \<open>(size / unit_size + 1) * unit_size\<close> bytes of the written buffer go to the blob and come back
  into the buffer of the read, whatever the client did to its memory in between. Both calls return
  the field \<open>ret\<close> of the file and not the number of bytes.
\<close>

theorem fs_write_read_roundtrip:
  assumes "thread_laws lib due data D" and "blob_io_laws lib due data D u" and "2 * Suc D \<le> POLLER_MAX_TIME"
    and "due (world s) = None" and "initilized s" and "mounted u s" and "u \<noteq> 0" and "open_file s fd a h" and "sz > 0"
    and "client_mem s buf = Some bytes" and "io_bytes u sz \<le> length bytes"
    and "io_bytes u sz \<le> length (data (world s) h)"
    and "m buf' = Some bytes'" and "io_bytes u sz \<le> length bytes'"
  shows "\<exists>r s1 s2. posix_write lib fd buf sz s = Some (r, s1) \<and>
    posix_read lib fd buf' sz (s1\<lparr>client_mem := m\<rparr>) = Some (r, s2) \<and>
    client_mem s2 = m(buf' \<mapsto> take (io_bytes u sz) bytes @ drop (io_bytes u sz) bytes') \<and>
    map_option ret (file_heap s a) = Some r"
proof -
  let ?n = "io_bytes u sz"
  from posix_write_runs [OF assms(1,2,4,3,5-12)] obtain x w where w: "file_heap s a = Some x" "due w = None"
      "data w = (data (world s))(h := take ?n bytes @ drop ?n (data (world s) h))"
      "posix_write lib fd buf sz s = Some (ret x, s\<lparr>world := w, file_heap :=
        (file_heap s)(a \<mapsto> x\<lparr>status := FILE_WRITE, file_done := True\<rparr>)\<rparr>)"
    by blast
  let ?s1 = "s\<lparr>world := w, file_heap := (file_heap s)(a \<mapsto> x\<lparr>status := FILE_WRITE, file_done := True\<rparr>)\<rparr>"
  let ?t = "?s1\<lparr>client_mem := m\<rparr>"
  have "open_file ?t fd a h" using assms(8) w(1) by (auto simp: open_file_def get_entry_def split: if_splits)
  moreover have "mounted u ?t" "initilized ?t" using assms(5,6) by (auto simp: mounted_def)
  moreover have "?n \<le> length (data (world ?t) h)" using w(3) assms(11,12) by simp
  ultimately obtain w' where "posix_read lib fd buf' sz ?t = Some (ret x, ?t\<lparr>world := w',
      client_mem := m(buf' \<mapsto> take ?n (data w h) @ drop ?n bytes'),
      file_heap := (file_heap ?t)(a \<mapsto> x\<lparr>status := FILE_READ, file_done := True\<rparr>)\<rparr>)"
    using posix_read_runs [OF assms(1,2) _ assms(3), of ?t fd a h sz buf' bytes'] assms(7,9,13,14) w(2) by auto
  with w assms(11) show ?thesis by simp
qed

text \<open>A state with descriptor 3 open on the blob 5 of a device with units of 512 bytes.\<close>

definition demo_state :: "ram fs_state" where
  "demo_state = (initial_state [10 \<mapsto> replicate 512 72] (None, \<lambda>h. replicate 4096 0))
     \<lparr>initilized := True, fs := Some (zero_fs\<lparr>thread := True, bs := Some 1, channel := Some 2, unit_size := 512\<rparr>),
      file_heap := [0 \<mapsto> zero_file\<lparr>blob := Some 5\<rparr>], files := (replicate MAX_FD_COUNT None)[3 := Some 0]\<rparr>"

lemma io_bytes_demo: "io_bytes 512 128 = 512"
  by (simp add: io_bytes_def)

theorem fs_write_read_roundtrip_witness:
  "\<exists>r s1 s2. posix_write (ram_disk 512) 3 10 128 demo_state = Some (r, s1) \<and>
    posix_read (ram_disk 512) 3 11 128 (s1\<lparr>client_mem := [11 \<mapsto> replicate 600 0]\<rparr>) = Some (r, s2) \<and>
    client_mem s2 = [11 \<mapsto> replicate 512 72 @ replicate 88 0] \<and> r = 0"
proof -
  have s: "ram_due (world demo_state) = None" "initilized demo_state" "mounted 512 demo_state"
      "open_file demo_state 3 0 5" "client_mem demo_state 10 = Some (replicate 512 72)"
      "snd (world demo_state) 5 = replicate 4096 0" "map_option ret (file_heap demo_state 0) = Some 0"
    by (simp_all add: demo_state_def initial_state_def mounted_def open_file_def get_entry_def MAX_FD_COUNT_def
        zero_fs_def zero_file_def)
  from fs_write_read_roundtrip [OF ram_laws(1,2) _ s(1-3) _ s(4) _ s(5), of 128 "[11 \<mapsto> replicate 600 0]" 11 "replicate 600 0"]
  show ?thesis using s(6,7) by (simp add: io_bytes_demo POLLER_MAX_TIME_def)
qed

text \<open>
  On a fresh device the first \<open>creat\<close> succeeds with descriptor 3, and \<open>main\<close> of the program then has
  undefined behaviour: its \<open>write\<close> of 128 bytes makes the device read whole units, more than the
  129 bytes of the array \<open>buffer\<close>, for every unit size for which \<open>(128 / unit_size + 1) * unit_size\<close> exceeds 129,
  as it does for units of 512 or 4096 bytes.
\<close>

lemma fs_main_overread:
  assumes "thread_laws lib due data D" and "setup_laws lib due D u" and "5 * Suc D \<le> POLLER_MAX_TIME"
    and "due w = None" and "m buffer = Some bytes" and "length bytes = 129" and "u \<noteq> 0" and "io_bytes u 128 > 129"
  shows "runs (posix_creat lib ''mytest.txt'' (initial_state m w)) (\<lambda>(fd, s). fd = 3) \<and>
    fs_main lib buffer (initial_state m w) = None"
proof -
  from first_creat [OF assms(1-4), of "''mytest.txt''" m] obtain t h where t: "initilized t" "mounted u t"
      "due (world t) = None" "client_mem t = m" "open_file t 3 0 h"
      "posix_creat lib ''mytest.txt'' (initial_state m w) = Some (3, t)"
    by (auto simp: runs_iff)
  let ?b = "replicate 128 72 @ drop 128 bytes"
  let ?t = "t\<lparr>client_mem := m(buffer \<mapsto> ?b)\<rparr>"
  have "store_bytes buffer (replicate 128 72) t = Some ?t" using t(4) assms(5,6) by (simp add: store_bytes_def)
  moreover have "posix_write lib 3 buffer 128 ?t = None"
    by (rule write_undefined [OF assms(1), of ?t u 3 0 h buffer ?b])
      (use assms t in \<open>auto simp: mounted_def open_file_def get_entry_def split: if_splits\<close>)
  ultimately show ?thesis using t(6) by (simp add: fs_main_def)
qed

end
