(* ===== verification/Kvs_Proto.thy ===== *)
theory Kvs_Proto
  imports Prelude
begin

text \<open>
  The protocol of \<open>KV_Store/spdk_server.c\<close>: a message is split at spaces by \<open>strtok\<close>, in place, and its
  first word looked up in the table of commands.

  A buffer is the list of its bytes and a \<open>char*\<close> into it an index. Reading or writing outside the
  buffer, as a string function does that finds no terminating NUL, has no value.
\<close>

section \<open>Strings in a buffer\<close>

definition SPACE :: byte where "SPACE = 32"
definition MAX_TOKENS :: nat where "MAX_TOKENS = 16"
definition BUFFER_SIZE :: nat where "BUFFER_SIZE = 1024"

text \<open>\<open>strspn\<close> and \<open>strcspn\<close> with the delimiter \<open>" "\<close>, from index \<open>i\<close>: the index where they stop.\<close>

function skip_spaces :: "byte list \<Rightarrow> nat \<Rightarrow> nat option" where
  "skip_spaces buf i = (if i < length buf then
     (if buf ! i = SPACE then skip_spaces buf (Suc i) else Some i) else None)"
  by pat_completeness auto
termination by (relation "measure (\<lambda>(buf, i). length buf - i)") auto

function token_end :: "byte list \<Rightarrow> nat \<Rightarrow> nat option" where
  "token_end buf i = (if i < length buf then
     (if buf ! i = SPACE \<or> buf ! i = 0 then Some i else token_end buf (Suc i)) else None)"
  by pat_completeness auto
termination by (relation "measure (\<lambda>(buf, i). length buf - i)") auto

declare skip_spaces.simps [simp del] and token_end.simps [simp del]

text \<open>\<open>strtok\<close> from the saved position: the token or \<open>NULL\<close>, the buffer with the NUL it wrote, and the
  position it saves.\<close>

definition strtok :: "byte list \<Rightarrow> nat \<Rightarrow> (nat option \<times> byte list \<times> nat) option" where
  "strtok buf i = do {
     p \<leftarrow> skip_spaces buf i;
     (if buf ! p = 0 then Some (None, buf, p) else do {
        e \<leftarrow> token_end buf p;
        (if buf ! e = 0 then Some (Some p, buf, e)
         else Some (Some p, buf[e := 0], Suc e)) }) }"

section \<open>The protocol\<close>

partial_function (option) split_loop :: "nat list \<Rightarrow> byte list \<Rightarrow> nat \<Rightarrow> (nat list \<times> byte list) option" where
  "split_loop tokens buf i = do {
     (t, buf, i) \<leftarrow> strtok buf i;
     (case t of None \<Rightarrow> Some (tokens, buf)
      | Some p \<Rightarrow> if length tokens < MAX_TOKENS then split_loop (tokens @ [p]) buf i else None) }"

declare split_loop.simps [code]

definition kvs_split_tokens :: "byte list \<Rightarrow> (nat list \<times> byte list) option" where
  "kvs_split_tokens msg = split_loop [] msg 0"

definition commands :: "byte list list" where
  "commands = map c_str [''BSET'', ''BGET'', ''BDEL'', ''BMOD'', ''RSET'', ''RGET'', ''RDEL'', ''RMOD'']"

fun find_command :: "byte list \<Rightarrow> nat \<Rightarrow> byte list list \<Rightarrow> nat" where
  "find_command t cmd [] = cmd"
| "find_command t cmd (c # cs) = (if t = c then cmd else find_command t (Suc cmd) cs)"

text \<open>Every branch of the switch on the command does nothing.\<close>

definition kvs_proto_parser :: "byte list \<Rightarrow> nat list \<Rightarrow> int option" where
  "kvs_proto_parser msg tokens = (case tokens of [] \<Rightarrow> Some (- 1)
     | p # _ \<Rightarrow> do {
         t \<leftarrow> c_string msg p;
         let cmd = find_command t 0 commands;
         Some 0 })"

text \<open>The result is the return value, what is printed and the buffer.\<close>

definition kvs_proto_process :: "byte list \<Rightarrow> (int \<times> byte list list \<times> byte list) option" where
  "kvs_proto_process msg = do {
     (tokens, msg) \<leftarrow> kvs_split_tokens msg;
     printed \<leftarrow> those (map (c_string msg) tokens);
     rc \<leftarrow> kvs_proto_parser msg tokens;
     Some (rc, printed, msg) }"

section \<open>The words of a message\<close>

function words :: "byte list \<Rightarrow> byte list list" where
  "words m = (let r = dropWhile (\<lambda>c. c = SPACE) m in
     if r = [] then [] else takeWhile (\<lambda>c. c \<noteq> SPACE) r # words (tl (dropWhile (\<lambda>c. c \<noteq> SPACE) r)))"
  by pat_completeness auto
termination
proof (relation "measure length")
  fix m r :: "byte list"
  assume r: "r = dropWhile (\<lambda>c. c = SPACE) m" "r \<noteq> []"
  have "length (dropWhile (\<lambda>c. c \<noteq> SPACE) r) \<le> length r" "length r \<le> length m"
    by (simp_all add: r(1) length_dropWhile_le)
  with r(2) show "(tl (dropWhile (\<lambda>c. c \<noteq> SPACE) r), m) \<in> measure length" by (cases r) auto
qed simp

text \<open>The message with the first space after each word replaced by a NUL.\<close>

function marked :: "byte list \<Rightarrow> byte list" where
  "marked m = (let r = dropWhile (\<lambda>c. c = SPACE) m; q = dropWhile (\<lambda>c. c \<noteq> SPACE) r in
     if q = [] then m else takeWhile (\<lambda>c. c = SPACE) m @ takeWhile (\<lambda>c. c \<noteq> SPACE) r @ 0 # marked (tl q))"
  by pat_completeness auto
termination
proof (relation "measure length")
  fix m r q :: "byte list"
  assume r: "r = dropWhile (\<lambda>c. c = SPACE) m" "q = dropWhile (\<lambda>c. c \<noteq> SPACE) r" "q \<noteq> []"
  have "length q \<le> length r" "length r \<le> length m" by (simp_all add: r(1,2) length_dropWhile_le)
  with r(3) show "(tl q, m) \<in> measure length" by (cases q) auto
qed simp

declare words.simps [simp del] and marked.simps [simp del]

text \<open>A message is blank, or spaces, a word, and either its end or a space and the rest.\<close>

lemma message_cases:
  obtains (blank) "\<forall>c\<in>set m. c = SPACE" "words m = []" "marked m = m"
  | (last) sp w where "m = sp @ w" "\<forall>c\<in>set sp. c = SPACE" "w \<noteq> []" "SPACE \<notin> set w" "words m = [w]" "marked m = m"
  | (more) sp w q where "m = sp @ w @ SPACE # q" "\<forall>c\<in>set sp. c = SPACE" "w \<noteq> []" "SPACE \<notin> set w"
      "words m = w # words q" "marked m = sp @ w @ 0 # marked q"
proof -
  define sp r where "sp = takeWhile (\<lambda>c. c = SPACE) m" and "r = dropWhile (\<lambda>c. c = SPACE) m"
  define w q where "w = takeWhile (\<lambda>c. c \<noteq> SPACE) r" and "q = dropWhile (\<lambda>c. c \<noteq> SPACE) r"
  have m: "m = sp @ r" "r = w @ q" by (simp_all add: sp_def r_def w_def q_def)
  have sp: "\<forall>c\<in>set sp. c = SPACE" "SPACE \<notin> set w" by (auto simp: sp_def w_def dest: set_takeWhileD)
  have words: "words m = (if r = [] then [] else w # words (tl q))"
    by (simp add: words.simps [of m] Let_def r_def w_def q_def)
  have marked: "marked m = (if q = [] then m else sp @ w @ 0 # marked (tl q))"
    unfolding marked.simps [of m] Let_def sp_def w_def q_def r_def ..
  show thesis
  proof (cases "r = []")
    case True
    then have "q = []" by (simp add: q_def)
    with True blank words marked m sp show thesis by simp
  next
    case False
    have "hd r \<noteq> SPACE" using False hd_dropWhile [of "\<lambda>c. c = SPACE" m] by (simp add: r_def)
    then have w: "w \<noteq> []" using False by (cases r) (auto simp: w_def)
    show thesis
    proof (cases q)
      case Nil
      moreover have "words [] = []" by (simp add: words.simps)
      ultimately show thesis using last [of sp w] m sp w words marked False by simp
    next
      case (Cons c q')
      then have "c = SPACE" using q_def hd_dropWhile [of "\<lambda>c. c \<noteq> SPACE" r] by auto
      then show thesis using more [of sp w q'] m sp w words marked False Cons by simp
    qed
  qed
qed

section \<open>Splitting\<close>

lemma skip_spaces_ok:
  "\<forall>c\<in>set sp. c = SPACE \<Longrightarrow> x \<noteq> SPACE \<Longrightarrow> skip_spaces (pre @ sp @ x # post) (length pre) = Some (length pre + length sp)"
proof (induction sp arbitrary: pre)
  case Nil
  then show ?case by (subst skip_spaces.simps) simp
next
  case (Cons c sp)
  have "skip_spaces (pre @ (c # sp) @ x # post) (length pre) = skip_spaces ((pre @ [c]) @ sp @ x # post) (length (pre @ [c]))"
    using Cons.prems by (subst skip_spaces.simps) simp
  with Cons.IH [of "pre @ [c]"] Cons.prems show ?case by simp
qed

lemma token_end_ok:
  "SPACE \<notin> set w \<Longrightarrow> 0 \<notin> set w \<Longrightarrow> x = SPACE \<or> x = 0 \<Longrightarrow>
   token_end (pre @ w @ x # post) (length pre) = Some (length pre + length w)"
proof (induction w arbitrary: pre)
  case Nil
  then show ?case by (subst token_end.simps) simp
next
  case (Cons c w)
  have "token_end (pre @ (c # w) @ x # post) (length pre) = token_end ((pre @ [c]) @ w @ x # post) (length (pre @ [c]))"
    using Cons.prems by (subst token_end.simps) auto
  with Cons.IH [of "pre @ [c]"] Cons.prems show ?case by simp
qed

lemma space_not_nul [simp]: "SPACE \<noteq> 0" "0 \<noteq> SPACE"
  by (simp_all add: SPACE_def)

lemma strtok_blank:
  "\<forall>c\<in>set m. c = SPACE \<Longrightarrow>
   strtok (pre @ m @ 0 # post) (length pre) = Some (None, pre @ m @ 0 # post, length pre + length m)"
  using skip_spaces_ok [of m 0 pre post] by (simp add: strtok_def nth_append)

lemma strtok_word:
  assumes "\<forall>c\<in>set sp. c = SPACE" and "w \<noteq> []" "SPACE \<notin> set w" "0 \<notin> set w" and x: "x = SPACE \<or> x = 0"
  shows "strtok (pre @ sp @ w @ x # post) (length pre) = Some (Some (length pre + length sp),
    pre @ sp @ w @ 0 # post, length pre + length sp + length w + (if x = 0 then 0 else 1))"
proof -
  obtain c w' where w: "w = c # w'" using assms(2) by (cases w) auto
  have p: "skip_spaces (pre @ sp @ w @ x # post) (length pre) = Some (length pre + length sp)"
    using skip_spaces_ok [of sp c pre "w' @ x # post"] assms w by auto
  have e: "token_end (pre @ sp @ w @ x # post) (length pre + length sp) = Some (length pre + length sp + length w)"
    using token_end_ok [of w x "pre @ sp" post] assms by simp
  have "(pre @ sp @ w @ x # post) ! (length pre + length sp) = c"
    using nth_append_length [of "pre @ sp" c "w' @ x # post"] by (simp add: w)
  moreover have n: "(pre @ sp @ w @ x # post) ! (length pre + length sp + length w) = x"
    using nth_append_length [of "pre @ sp @ w" x post] by (simp add: add.assoc)
  moreover have "(pre @ sp @ w @ x # post)[length pre + length sp + length w := 0] = pre @ sp @ w @ 0 # post"
    using list_update_length [of "pre @ sp @ w" x post 0] by (simp add: add.assoc)
  moreover have "c \<noteq> 0" using assms(4) w by auto
  ultimately show ?thesis using p e x by (auto simp: strtok_def)
qed


lemma split_loop_word:
  assumes "strtok buf i = Some (Some p, buf', i')"
  shows "split_loop tokens buf i = (if length tokens < MAX_TOKENS then split_loop (tokens @ [p]) buf' i' else None)"
  using assms by (subst split_loop.simps) simp

lemma split_loop_end: "strtok buf i = Some (None, buf', i') \<Longrightarrow> split_loop tokens buf i = Some (tokens, buf')"
  by (subst split_loop.simps) simp

text \<open>One word of the message: the tokens grow by it and the loop goes on behind it.\<close>

lemma split_loop_last:
  assumes "\<forall>c\<in>set sp. c = SPACE" and "w \<noteq> []" "SPACE \<notin> set w" "0 \<notin> set w"
  shows "split_loop tokens (pre @ sp @ w @ 0 # post) (length pre) =
    (if length tokens < MAX_TOKENS then Some (tokens @ [length pre + length sp], pre @ sp @ w @ 0 # post) else None)"
proof -
  have "strtok (pre @ sp @ w @ 0 # post) (length pre + length sp + length w) =
      Some (None, pre @ sp @ w @ 0 # post, length pre + length sp + length w)"
    using strtok_blank [of "[]" "pre @ sp @ w" post] by (simp add: add.assoc)
  with strtok_word [OF assms, of 0 pre post] show ?thesis by (simp add: split_loop_word split_loop_end)
qed

lemma split_loop_more:
  assumes "\<forall>c\<in>set sp. c = SPACE" and "w \<noteq> []" "SPACE \<notin> set w" "0 \<notin> set w"
  shows "split_loop tokens (pre @ sp @ w @ SPACE # q) (length pre) =
    (if length tokens < MAX_TOKENS then split_loop (tokens @ [length pre + length sp])
      ((pre @ sp @ w @ [0]) @ q) (length (pre @ sp @ w @ [0])) else None)"
  using strtok_word [OF assms, of SPACE pre q] by (simp add: split_loop_word add.assoc)

lemma split_loop_ok:
  "0 \<notin> set m \<Longrightarrow> length tokens + length (words m) \<le> MAX_TOKENS \<Longrightarrow>
   \<exists>ts. split_loop tokens (pre @ m @ 0 # post) (length pre) = Some (tokens @ ts, pre @ marked m @ 0 # post) \<and>
     map (c_string (pre @ marked m @ 0 # post)) ts = map Some (words m)"
proof (induction "length m" arbitrary: m tokens pre rule: less_induct)
  case less
  show ?case
  proof (cases rule: message_cases [of m])
    case blank
    then show ?thesis using split_loop_end [OF strtok_blank [of m pre post]] by (intro exI [of _ "[]"]) simp
  next
    case (last sp w)
    have w: "0 \<notin> set w" using less.prems(1) last(1) by simp
    have "c_string ((pre @ sp) @ w @ 0 # post) (length (pre @ sp)) = Some w" by (rule c_string_here [OF w])
    with split_loop_last [OF last(2-4) w, of tokens pre post] less.prems(2) last show ?thesis
      by (intro exI [of _ "[length pre + length sp]"]) simp
  next
    case (more sp w q)
    have w: "0 \<notin> set w" "0 \<notin> set q" "length q < length m" using less.prems(1) more(1) by auto
    let ?pre = "pre @ sp @ w @ [0]"
    obtain ts where ts: "split_loop (tokens @ [length pre + length sp]) (?pre @ q @ 0 # post) (length ?pre) =
        Some ((tokens @ [length pre + length sp]) @ ts, ?pre @ marked q @ 0 # post)"
        "map (c_string (?pre @ marked q @ 0 # post)) ts = map Some (words q)"
      using less.hyps [OF w(3,2), of "tokens @ [length pre + length sp]" ?pre] less.prems(2) more(5) by auto
    have "c_string ((pre @ sp) @ w @ 0 # marked q @ 0 # post) (length (pre @ sp)) = Some w"
      by (rule c_string_here [OF w(1)])
    with ts split_loop_more [OF more(2-4) w(1), of tokens pre "q @ 0 # post"] less.prems(2) more show ?thesis
      by (intro exI [of _ "(length pre + length sp) # ts"]) simp
  qed
qed

lemma split_loop_overflow:
  "0 \<notin> set m \<Longrightarrow> MAX_TOKENS < length tokens + length (words m) \<Longrightarrow> length tokens \<le> MAX_TOKENS \<Longrightarrow>
   split_loop tokens (pre @ m @ 0 # post) (length pre) = None"
proof (induction "length m" arbitrary: m tokens pre rule: less_induct)
  case less
  show ?case
  proof (cases rule: message_cases [of m])
    case blank
    then show ?thesis using less.prems by simp
  next
    case (last sp w)
    have "0 \<notin> set w" using less.prems(1) last(1) by simp
    from split_loop_last [OF last(2-4) this, of tokens pre post] less.prems last show ?thesis by simp
  next
    case (more sp w q)
    have w: "0 \<notin> set w" "0 \<notin> set q" "length q < length m" using less.prems(1) more(1) by auto
    let ?pre = "pre @ sp @ w @ [0]"
    have "split_loop (tokens @ [length pre + length sp]) (?pre @ q @ 0 # post) (length ?pre) = None"
      if "length tokens < MAX_TOKENS"
      using less.hyps [OF w(3,2), of "tokens @ [length pre + length sp]" ?pre] less.prems(2) more(5) that by simp
    with split_loop_more [OF more(2-4) w(1), of tokens pre "q @ 0 # post"] more(1) show ?thesis by simp
  qed
qed

section \<open>The words and the marks\<close>

lemma words_spec:
  "concat (words m) = filter (\<lambda>c. c \<noteq> SPACE) m \<and> (\<forall>w\<in>set (words m). w \<noteq> [] \<and> SPACE \<notin> set w)"
proof (induction "length m" arbitrary: m rule: less_induct)
  case less
  show ?case
  proof (cases rule: message_cases [of m])
    case (last sp w)
    moreover from this have "filter (\<lambda>c. c \<noteq> SPACE) sp = []" "filter (\<lambda>c. c \<noteq> SPACE) w = w"
      by (auto simp: filter_empty_conv filter_id_conv)
    ultimately show ?thesis by simp
  next
    case (more sp w q)
    moreover have "concat (words q) = filter (\<lambda>c. c \<noteq> SPACE) q \<and> (\<forall>w\<in>set (words q). w \<noteq> [] \<and> SPACE \<notin> set w)"
      by (rule less) (simp add: more)
    moreover have "filter (\<lambda>c. c \<noteq> SPACE) sp = []" "filter (\<lambda>c. c \<noteq> SPACE) w = w"
      using more by (auto simp: filter_empty_conv filter_id_conv)
    ultimately show ?thesis by simp
  qed (auto simp: filter_empty_conv)
qed

lemma marked_spec:
  "length (marked m) = length m \<and> list_all2 (\<lambda>c d. d = c \<or> c = SPACE \<and> d = 0) m (marked m)"
proof (induction "length m" arbitrary: m rule: less_induct)
  case less
  show ?case
  proof (cases rule: message_cases [of m])
    case (more sp w q)
    moreover have "length (marked q) = length q \<and> list_all2 (\<lambda>c d. d = c \<or> c = SPACE \<and> d = 0) q (marked q)"
      by (rule less) (simp add: more)
    ultimately show ?thesis by (simp add: list_all2_appendI list_all2_refl)
  qed (simp_all add: list_all2_refl)
qed

lemma those_Some: "map f xs = map Some ys \<Longrightarrow> those (map f xs) = Some ys"
  by (induction xs arbitrary: ys) (auto simp: Cons_eq_map_conv split: option.splits)

lemma kvs_process_ok:
  assumes m: "0 \<notin> set m" and n: "length (words m) \<le> MAX_TOKENS"
  shows "kvs_proto_process (m @ 0 # post) = Some (if words m = [] then - 1 else 0, words m, marked m @ 0 # post)"
proof -
  obtain ts where ts: "kvs_split_tokens (m @ 0 # post) = Some (ts, marked m @ 0 # post)"
      "map (c_string (marked m @ 0 # post)) ts = map Some (words m)"
    using split_loop_ok [OF m, of "[]" "[]" post] n by (auto simp: kvs_split_tokens_def)
  have "kvs_proto_parser (marked m @ 0 # post) ts = Some (if words m = [] then - 1 else 0)"
    using ts(2) by (cases ts; cases "words m") (simp_all add: kvs_proto_parser_def)
  then show ?thesis using ts those_Some [OF ts(2)] by (simp add: kvs_proto_process_def)
qed

lemma kvs_process_overflow:
  assumes "0 \<notin> set m" and "MAX_TOKENS < length (words m)"
  shows "kvs_proto_process (m @ 0 # post) = None"
  using split_loop_overflow [OF assms(1), of "[]" "[]" post] assms(2)
  by (simp add: kvs_proto_process_def kvs_split_tokens_def)

section \<open>Property\<close>

text \<open>
  C32. Tokenising a message is splitting it into words, with a limit. For a received message without NUL
  that leaves room for one in the 1024-byte buffer, \<open>kvs_proto_process\<close> prints exactly the words of the message,
  the maximal runs of bytes other than the space; it returns -1 for a blank message and 0 for every
  other, whether the command exists or not; in the buffer each word's first following space has become
  a NUL. A message of more than 16 words makes it write outside the array of tokens.
\<close>

theorem kvs_process_correct:
  assumes "0 \<notin> set m" and "length m < BUFFER_SIZE"
  shows "kvs_proto_process (m @ replicate (BUFFER_SIZE - length m) 0) =
    (if length (words m) \<le> MAX_TOKENS then
       Some (if words m = [] then - 1 else 0, words m, marked m @ replicate (BUFFER_SIZE - length m) 0)
     else None)"
proof -
  obtain post :: "byte list" where "replicate (BUFFER_SIZE - length m) 0 = 0 # post"
    using assms(2) by (cases "BUFFER_SIZE - length m") auto
  then show ?thesis using kvs_process_ok [OF assms(1)] kvs_process_overflow [OF assms(1)] by simp
qed

theorem kvs_process_correct_witness:
  "kvs_proto_process (c_str ''RSET  k v'' @ replicate 1015 0) =
    Some (0, map c_str [''RSET'', ''k'', ''v''], c_str ''RSET'' @ 0 # c_str '' k'' @ 0 # c_str ''v'' @ replicate 1015 0)"
proof -
  have "words (c_str ''RSET  k v'') = map c_str [''RSET'', ''k'', ''v'']"
      "marked (c_str ''RSET  k v'') = c_str ''RSET'' @ 0 # c_str '' k'' @ 0 # c_str ''v''"
    by (simp_all add: c_str_def words.simps marked.simps SPACE_def of_char_def)
  then show ?thesis using kvs_process_correct [of "c_str ''RSET  k v''"]
    by (simp add: BUFFER_SIZE_def MAX_TOKENS_def) (simp add: c_str_def of_char_def)
qed

end
