(* ===== verification/Kvs_Server.thy ===== *)
theory Kvs_Server
  imports Kvs_Proto
begin

text \<open>
  The two servers of the repository, \<open>KV_Store/spdk_server.c\<close> and \<open>spdk_echo_server/spdk_server.c\<close>: the callback
  of a connection, the two pollers, and the start of the application.

  The sockets of SPDK are parameters: \<open>'w\<close> is the state of the network and \<open>sock_lib\<close> the record of the calls.
  \<open>group_poll\<close> yields the return value of \<open>spdk_sock_group_poll\<close> and the sockets whose callbacks it runs. The
  application framework registers pollers and runs them: \<open>pollers\<close> is what has been registered, and a
  run is a list of the pollers in the order in which the reactor calls them. A null pointer passed to SPDK
  and a signed overflow of \<open>bytes_out\<close> have no value; \<open>bytes_in += n\<close> is computed in \<open>ssize_t\<close> and
  converted, which wraps.
\<close>

section \<open>State\<close>

type_synonym sock = nat
type_synonym sock_group = nat

datatype received = Recv_error int | Recv "byte list"

record 'w sock_lib =
  sock_listen :: "string option \<Rightarrow> cint \<Rightarrow> string option \<Rightarrow> 'w \<Rightarrow> sock option \<times> 'w"
  sock_accept :: "sock \<Rightarrow> 'w \<Rightarrow> sock option \<times> 'w"
  sock_getaddr :: "sock \<Rightarrow> 'w \<Rightarrow> int \<times> 'w"
  sock_recv :: "sock \<Rightarrow> nat \<Rightarrow> 'w \<Rightarrow> received \<times> 'w"
  sock_writev :: "sock \<Rightarrow> byte list \<Rightarrow> 'w \<Rightarrow> int \<times> 'w"
  sock_close :: "sock \<Rightarrow> 'w \<Rightarrow> 'w"
  group_create :: "'w \<Rightarrow> sock_group option \<times> 'w"
  group_add_sock :: "sock_group option \<Rightarrow> sock \<Rightarrow> 'w \<Rightarrow> int \<times> 'w"
  group_remove_sock :: "sock_group option \<Rightarrow> sock \<Rightarrow> 'w \<Rightarrow> 'w"
  group_poll :: "sock_group option \<Rightarrow> 'w \<Rightarrow> (int \<times> sock list) \<times> 'w"

record server_context =
  host :: "string option"
  port :: cint
  sock_impl_name :: "string option"
  bytes_in :: cint
  bytes_out :: cint
  srv_sock :: "sock option"
  srv_group :: "sock_group option"

datatype poller = Accept | Group_poll

record 'w server =
  ctx :: server_context
  g_running :: bool
  pollers :: "poller list"
  stopped :: "int option"
  net :: 'w

definition POLLER_IDLE :: int where "POLLER_IDLE = 0"
definition POLLER_BUSY :: int where "POLLER_BUSY = 1"

definition INT_MAX :: int where "INT_MAX = 2147483647"

text \<open>\<open>if (n > 0) ctx->bytes_out += n\<close>.\<close>

definition count_out :: "int \<Rightarrow> 'w server \<Rightarrow> 'w server option" where
  "count_out n s = (if n > 0 then
     (if sint (bytes_out (ctx s)) + n \<le> INT_MAX then
        Some (s\<lparr>ctx := (ctx s)\<lparr>bytes_out := bytes_out (ctx s) + of_int n\<rparr>\<rparr>) else None)
     else Some s)"

definition spdk_server_shutdown_callback :: "'w server \<Rightarrow> 'w server" where
  "spdk_server_shutdown_callback s = s\<lparr>g_running := False\<rparr>"

text \<open>The part of both callbacks that follows the end of a connection.\<close>

definition hang_up :: "'w sock_lib \<Rightarrow> sock \<Rightarrow> 'w server \<Rightarrow> 'w server" where
  "hang_up lib sk s =
     s\<lparr>net := sock_close lib sk (group_remove_sock lib (srv_group (ctx s)) sk (net s))\<rparr>"

text \<open>\<open>bytes_in += n\<close>, then one \<open>writev\<close> of the first \<open>n\<close> bytes of the buffer.\<close>

definition send_back :: "'w sock_lib \<Rightarrow> sock \<Rightarrow> nat \<Rightarrow> byte list \<Rightarrow> 'w server \<Rightarrow> 'w server option" where
  "send_back lib sk n buf s = do {
     let s = s\<lparr>ctx := (ctx s)\<lparr>bytes_in := bytes_in (ctx s) + of_nat n\<rparr>\<rparr>;
     let (k, w) = sock_writev lib sk (take n buf) (net s);
     count_out k (s\<lparr>net := w\<rparr>) }"

section \<open>The key-value server\<close>

definition kvs_server_callback :: "'w sock_lib \<Rightarrow> sock \<Rightarrow> 'w server \<Rightarrow> 'w server option" where
  "kvs_server_callback lib sk s = (case sock_recv lib sk BUFFER_SIZE (net s) of
     (Recv_error e, w) \<Rightarrow> Some (s\<lparr>net := w\<rparr>)
   | (Recv d, w) \<Rightarrow> (if d = [] then Some (hang_up lib sk (s\<lparr>net := w\<rparr>)) else do {
       let buf = d @ replicate (BUFFER_SIZE - length d) 0;
       shown \<leftarrow> c_string buf 0;
       (rc, printed, buf) \<leftarrow> kvs_proto_process buf;
       send_back lib sk (length d) buf (s\<lparr>net := w\<rparr>) }))"

text \<open>The loop of \<open>spdk_server_accept\<close>; both servers have the same one, but for their callback.\<close>

partial_function (option) accept_loop :: "'w sock_lib \<Rightarrow> nat \<Rightarrow> 'w server \<Rightarrow> (int \<times> 'w server) option" where
  "accept_loop lib count s = do {
     l \<leftarrow> srv_sock (ctx s);
     let (client_sock, w) = sock_accept lib l (net s);
     let s = s\<lparr>net := w\<rparr>;
     (case client_sock of
        None \<Rightarrow> Some (if count > 0 then POLLER_BUSY else POLLER_IDLE, s)
      | Some c \<Rightarrow> do {
          let (rc, w) = sock_getaddr lib c (net s);
          let s = s\<lparr>net := w\<rparr>;
          (if rc < 0 then
             Some (POLLER_IDLE, s\<lparr>net := sock_close lib l (net s), ctx := (ctx s)\<lparr>srv_sock := None\<rparr>\<rparr>)
           else do {
             let (rc, w) = group_add_sock lib (srv_group (ctx s)) c (net s);
             let s = s\<lparr>net := w\<rparr>;
             (if rc < 0 then Some (POLLER_IDLE, s\<lparr>net := sock_close lib c (net s)\<rparr>)
              else accept_loop lib (count + 1) s) }) }) }"

declare accept_loop.simps [code]

definition spdk_server_accept :: "'w sock_lib \<Rightarrow> 'w server \<Rightarrow> (int \<times> 'w server) option" where
  "spdk_server_accept lib s = accept_loop lib 0 s"

fun run_callbacks :: "(sock \<Rightarrow> 'w server \<Rightarrow> 'w server option) \<Rightarrow> sock list \<Rightarrow> 'w server \<Rightarrow> 'w server option" where
  "run_callbacks cb [] s = Some s"
| "run_callbacks cb (sk # sks) s = do { s \<leftarrow> cb sk s; run_callbacks cb sks s }"

definition spdk_server_group_poll :: "'w sock_lib \<Rightarrow> (sock \<Rightarrow> 'w server \<Rightarrow> 'w server option) \<Rightarrow>
    'w server \<Rightarrow> (int \<times> 'w server) option" where
  "spdk_server_group_poll lib cb s = do {
     let ((rc, sks), w) = group_poll lib (srv_group (ctx s)) (net s);
     s \<leftarrow> run_callbacks cb sks (s\<lparr>net := w\<rparr>);
     Some (if rc > 0 then POLLER_BUSY else POLLER_IDLE, s) }"

definition spdk_server_listen :: "'w sock_lib \<Rightarrow> 'w server \<Rightarrow> int \<times> 'w server" where
  "spdk_server_listen lib s =
     (let (l, w) = sock_listen lib (host (ctx s)) (port (ctx s)) (sock_impl_name (ctx s)) (net s);
          s = s\<lparr>ctx := (ctx s)\<lparr>srv_sock := l\<rparr>, net := w\<rparr> in
      if l = None then (- 1, s)
      else (let (g, w) = group_create lib (net s) in
        (0, s\<lparr>ctx := (ctx s)\<lparr>srv_group := g\<rparr>, net := w, g_running := True, pollers := pollers s @ [Accept, Group_poll]\<rparr>)))"

definition sdpk_server_start :: "'w sock_lib \<Rightarrow> 'w server \<Rightarrow> 'w server" where
  "sdpk_server_start lib s = (let (rc, s) = spdk_server_listen lib s in
     if rc \<noteq> 0 then s\<lparr>stopped := Some (- 1)\<rparr> else s)"

text \<open>The reactor runs the registered pollers until the application is stopped.\<close>

definition run_poller :: "'w sock_lib \<Rightarrow> (sock \<Rightarrow> 'w server \<Rightarrow> 'w server option) \<Rightarrow> poller \<Rightarrow>
    'w server \<Rightarrow> 'w server option" where
  "run_poller lib cb p s = (if stopped s \<noteq> None \<or> p \<notin> set (pollers s) then Some s
     else map_option snd (case p of Accept \<Rightarrow> spdk_server_accept lib s | Group_poll \<Rightarrow> spdk_server_group_poll lib cb s))"

fun run_pollers :: "'w sock_lib \<Rightarrow> (sock \<Rightarrow> 'w server \<Rightarrow> 'w server option) \<Rightarrow> poller list \<Rightarrow>
    'w server \<Rightarrow> 'w server option" where
  "run_pollers lib cb [] s = Some s"
| "run_pollers lib cb (p # ps) s = do { s \<leftarrow> run_poller lib cb p s; run_pollers lib cb ps s }"

definition new_server :: "string option \<Rightarrow> cint \<Rightarrow> string option \<Rightarrow> 'w \<Rightarrow> 'w server" where
  "new_server h p impl w = \<lparr>ctx = \<lparr>host = h, port = p, sock_impl_name = impl, bytes_in = 0, bytes_out = 0,
     srv_sock = None, srv_group = None\<rparr>, g_running = False, pollers = [], stopped = None, net = w\<rparr>"

definition start_server :: "'w sock_lib \<Rightarrow> poller list \<Rightarrow> 'w \<Rightarrow> 'w server option" where
  "start_server lib ps w = run_pollers lib (kvs_server_callback lib) ps
     (sdpk_server_start lib (new_server (Some ''0.0.0.0'') 8888 (Some ''posix'') w))"

section \<open>The echo server\<close>

record options =
  g_host :: "string option"
  g_port :: cint
  g_sock_impl_name :: "string option"

text \<open>\<open>spdk_strtol\<close> is the argument \<open>strtol\<close>; the port is its result cut to an \<open>int\<close>.\<close>

definition spdk_server_app_parse :: "(string \<Rightarrow> int) \<Rightarrow> char \<Rightarrow> string \<Rightarrow> options \<Rightarrow> int \<times> options" where
  "spdk_server_app_parse strtol ch arg opts =
     (if ch = CHR ''H'' then (0, opts\<lparr>g_host := Some arg\<rparr>)
      else if ch = CHR ''P'' then
        (let opts = opts\<lparr>g_port := of_int (strtol arg)\<rparr> in
         if sint (g_port opts) < 0 then (sint (g_port opts), opts) else (0, opts))
      else if ch = CHR ''N'' then (0, opts\<lparr>g_sock_impl_name := Some arg\<rparr>)
      else (- EINVAL, opts))"

definition echo_server_callback :: "'w sock_lib \<Rightarrow> sock \<Rightarrow> 'w server \<Rightarrow> 'w server option" where
  "echo_server_callback lib sk s = (case sock_recv lib sk BUFFER_SIZE (net s) of
     (Recv_error e, w) \<Rightarrow> Some (s\<lparr>net := w\<rparr>)
   | (Recv d, w) \<Rightarrow> (if d = [] then Some (hang_up lib sk (s\<lparr>net := w\<rparr>))
       else send_back lib sk (length d) d (s\<lparr>net := w\<rparr>)))"

text \<open>The options that \<open>spdk_app_parse_args\<close> passes on are the list \<open>args\<close>; its result is not tested.\<close>

fun parse_args :: "(string \<Rightarrow> int) \<Rightarrow> (char \<times> string) list \<Rightarrow> options \<Rightarrow> options" where
  "parse_args strtol [] opts = opts"
| "parse_args strtol ((ch, arg) # args) opts = (let (rc, opts) = spdk_server_app_parse strtol ch arg opts in
     if rc < 0 then opts else parse_args strtol args opts)"

definition echo_main :: "'w sock_lib \<Rightarrow> (string \<Rightarrow> int) \<Rightarrow> (char \<times> string) list \<Rightarrow> poller list \<Rightarrow> 'w \<Rightarrow> 'w server option" where
  "echo_main lib strtol args ps w =
     (let opts = parse_args strtol args \<lparr>g_host = None, g_port = 0, g_sock_impl_name = None\<rparr> in
      run_pollers lib (echo_server_callback lib) ps
        (sdpk_server_start lib (new_server (g_host opts) (g_port opts) (g_sock_impl_name opts) w)))"

end
