(* ===== verification/Server_Props.thy ===== *)
theory Server_Props
  imports Kvs_Server
begin

text \<open>
  What the clients of the servers see. Three observations of the network say what has happened so far: what each
  \<open>recv\<close> on a socket has returned (\<open>got\<close>), what each \<open>writev\<close> to it was given and how many bytes it wrote (\<open>sent\<close>), and
  the sockets that have been closed.
\<close>

section \<open>The contract of the sockets\<close>

text \<open>What SPDK documents of its sockets: \<open>recv\<close> returns at most as many bytes as the buffer holds, none at the end
  of the connection, or an error; \<open>writev\<close> writes the first bytes of what it is given, possibly not all, and returns
  their number, or an error.\<close>

type_synonym 'w reads = "'w \<Rightarrow> sock \<Rightarrow> received list"
type_synonym 'w writes = "'w \<Rightarrow> sock \<Rightarrow> (byte list \<times> int) list"

definition recv_law :: "'w sock_lib \<Rightarrow> 'w reads \<Rightarrow> 'w writes \<Rightarrow> ('w \<Rightarrow> sock set) \<Rightarrow> bool" where
  "recv_law lib got sent closed \<longleftrightarrow> (\<forall>sk n w. case sock_recv lib sk n w of (r, w') \<Rightarrow>
     (\<forall>d. r = Recv d \<longrightarrow> length d \<le> n) \<and> got w' = (got w)(sk := got w sk @ [r]) \<and> sent w' = sent w \<and> closed w' = closed w)"

definition writev_law :: "'w sock_lib \<Rightarrow> 'w reads \<Rightarrow> 'w writes \<Rightarrow> ('w \<Rightarrow> sock set) \<Rightarrow> bool" where
  "writev_law lib got sent closed \<longleftrightarrow> (\<forall>sk d w. case sock_writev lib sk d w of
     (k, w') \<Rightarrow> k \<le> int (length d) \<and> got w' = got w \<and> sent w' = (sent w)(sk := sent w sk @ [(d, k)]) \<and>
       closed w' = closed w)"

definition close_law :: "'w sock_lib \<Rightarrow> 'w reads \<Rightarrow> 'w writes \<Rightarrow> ('w \<Rightarrow> sock set) \<Rightarrow> bool" where
  "close_law lib got sent closed \<longleftrightarrow> (\<forall>g sk w.
     got (sock_close lib sk w) = got w \<and> sent (sock_close lib sk w) = sent w \<and>
     closed (sock_close lib sk w) = insert sk (closed w) \<and>
     got (group_remove_sock lib g sk w) = got w \<and> sent (group_remove_sock lib g sk w) = sent w \<and>
     closed (group_remove_sock lib g sk w) = closed w)"

definition stream_laws :: "'w sock_lib \<Rightarrow> 'w reads \<Rightarrow> 'w writes \<Rightarrow> ('w \<Rightarrow> sock set) \<Rightarrow> bool" where
  "stream_laws lib got sent closed \<longleftrightarrow>
     recv_law lib got sent closed \<and> writev_law lib got sent closed \<and> close_law lib got sent closed"

lemma stream_laws_recv:
  assumes "stream_laws lib got sent closed" and "sock_recv lib sk n w = (r, w')"
  shows "(\<forall>d. r = Recv d \<longrightarrow> length d \<le> n) \<and> got w' = (got w)(sk := got w sk @ [r]) \<and> sent w' = sent w \<and> closed w' = closed w"
proof -
  have "recv_law lib got sent closed" using assms(1) by (simp add: stream_laws_def)
  from this [unfolded recv_law_def, THEN spec [of _ sk], THEN spec [of _ n], THEN spec [of _ w]] assms(2) show ?thesis by simp
qed

lemma stream_laws_writev:
  assumes "stream_laws lib got sent closed" and "sock_writev lib sk d w = (k, w')"
  shows "k \<le> int (length d) \<and> got w' = got w \<and> sent w' = (sent w)(sk := sent w sk @ [(d, k)]) \<and>
    closed w' = closed w"
proof -
  have "writev_law lib got sent closed" using assms(1) by (simp add: stream_laws_def)
  from this [unfolded writev_law_def, THEN spec [of _ sk], THEN spec [of _ d], THEN spec [of _ w]] assms(2) show ?thesis by simp
qed

lemma stream_laws_close:
  assumes "stream_laws lib got sent closed"
  shows "got (sock_close lib sk (group_remove_sock lib g sk w)) = got w"
    "sent (sock_close lib sk (group_remove_sock lib g sk w)) = sent w"
    "closed (sock_close lib sk (group_remove_sock lib g sk w)) = insert sk (closed w)"
  using assms by (simp_all add: stream_laws_def close_law_def)

section \<open>What a poll does\<close>

text \<open>The three outcomes of a callback: \<open>recv\<close> failed, the connection was at its end and has been closed, or some bytes
  were received and \<open>writev\<close> of the answer returned \<open>k\<close>.\<close>

datatype exchange = Failed int | Hung_up | Answered "byte list" int

fun exchange_read :: "exchange \<Rightarrow> received" where
  "exchange_read (Failed e) = Recv_error e"
| "exchange_read Hung_up = Recv []"
| "exchange_read (Answered d k) = Recv d"

fun exchange_writes :: "(byte list \<Rightarrow> byte list) \<Rightarrow> exchange \<Rightarrow> (byte list \<times> int) list" where
  "exchange_writes reply (Answered d k) = [(reply d, k)]"
| "exchange_writes reply _ = []"

fun bytes_read :: "exchange \<Rightarrow> nat" where
  "bytes_read (Answered d k) = length d"
| "bytes_read _ = 0"

fun bytes_written :: "exchange \<Rightarrow> nat" where
  "bytes_written (Answered d k) = nat k"
| "bytes_written _ = 0"

definition reads_on :: "sock \<Rightarrow> (sock \<times> exchange) list \<Rightarrow> received list" where
  "reads_on sk xs = [exchange_read x. (c, x) \<leftarrow> xs, c = sk]"

definition writes_on :: "(byte list \<Rightarrow> byte list) \<Rightarrow> sock \<Rightarrow> (sock \<times> exchange) list \<Rightarrow> (byte list \<times> int) list" where
  "writes_on reply sk xs = concat [exchange_writes reply x. (c, x) \<leftarrow> xs, c = sk]"

text \<open>The reads and writes on each socket, the sockets closed and the counters, for a list of exchanges in which every
  message received is good.\<close>

definition exchanged :: "(byte list \<Rightarrow> bool) \<Rightarrow> (byte list \<Rightarrow> byte list) \<Rightarrow> 'w reads \<Rightarrow>
    'w writes \<Rightarrow> ('w \<Rightarrow> sock set) \<Rightarrow> (sock \<times> exchange) list \<Rightarrow> 'w server \<Rightarrow> 'w server \<Rightarrow> bool" where
  "exchanged good reply got sent closed xs s s' \<longleftrightarrow>
     got (net s') = (\<lambda>sk. got (net s) sk @ reads_on sk xs) \<and>
     sent (net s') = (\<lambda>sk. sent (net s) sk @ writes_on reply sk xs) \<and>
     closed (net s') = closed (net s) \<union> {sk. (sk, Hung_up) \<in> set xs} \<and>
     (\<forall>(sk, x) \<in> set xs. \<forall>d k. x = Answered d k \<longrightarrow> good d \<and> k \<le> int (length d) \<and> length d \<le> BUFFER_SIZE) \<and>
     bytes_in (ctx s') = bytes_in (ctx s) + of_nat (\<Sum>(sk, x)\<leftarrow>xs. bytes_read x) \<and>
     sint (bytes_out (ctx s')) = sint (bytes_out (ctx s)) + int (\<Sum>(sk, x)\<leftarrow>xs. bytes_written x)"

lemma exchange_simps:
  "reads_on sk [] = []" "writes_on reply sk [] = []"
  "reads_on sk ((c, x) # xs) = (if c = sk then exchange_read x # reads_on sk xs else reads_on sk xs)"
  "writes_on reply sk ((c, x) # xs) = (if c = sk then exchange_writes reply x @ writes_on reply sk xs else writes_on reply sk xs)"
  by (simp_all add: reads_on_def writes_on_def)

lemma exchanged_Nil: "exchanged good reply got sent closed [] s s"
  by (simp add: exchanged_def exchange_simps)

lemma exchanged_Cons:
  assumes "exchanged good reply got sent closed [x] s s1" and "exchanged good reply got sent closed xs s1 s'"
  shows "exchanged good reply got sent closed (x # xs) s s'"
  using assms by (cases x) (auto simp: exchanged_def exchange_simps)

text \<open>What the two servers have in common: \<open>reply\<close> is the answer to a good message.\<close>

locale stream_server =
  fixes callback :: "'w sock_lib \<Rightarrow> sock \<Rightarrow> 'w server \<Rightarrow> 'w server option"
    and good :: "byte list \<Rightarrow> bool"
    and reply :: "byte list \<Rightarrow> byte list"
  assumes good_reply: "good m \<Longrightarrow> m \<noteq> [] \<and> length (reply m) = length m"
    and answer: "good m \<Longrightarrow> sock_recv lib sk BUFFER_SIZE (net s) = (Recv m, w) \<Longrightarrow>
      callback lib sk s = send_back lib sk (length m) (reply m) (s\<lparr>net := w\<rparr>)"
    and failure: "sock_recv lib sk BUFFER_SIZE (net s) = (Recv_error e, w) \<Longrightarrow> callback lib sk s = Some (s\<lparr>net := w\<rparr>)"
    and ending: "sock_recv lib sk BUFFER_SIZE (net s) = (Recv [], w) \<Longrightarrow>
      callback lib sk s = Some (hang_up lib sk (s\<lparr>net := w\<rparr>))"

lemma sint_add_nat:
  fixes a :: cint
  assumes "sint a + int n \<le> INT_MAX"
  shows "sint (a + of_nat n) = sint a + int n"
proof -
  have "a + of_nat n = word_of_int (sint a + int n)" by (simp add: of_int_sint)
  then have "sint (a + of_nat n) = signed_take_bit 31 (sint a + int n)" by (simp only: sint_sbintrunc') simp
  moreover have "- 2147483648 \<le> sint a" using sint_ge [of a] by simp
  ultimately show ?thesis using assms by (simp add: INT_MAX_def signed_take_bit_int_eq_self)
qed

context stream_server
begin

lemma answered:
  assumes laws: "stream_laws lib got sent closed" and m: "good m"
    and r: "sock_recv lib sk BUFFER_SIZE (net s) = (Recv m, w)"
    and out: "sint (bytes_out (ctx s)) + int BUFFER_SIZE \<le> INT_MAX"
  shows "\<exists>k s'. callback lib sk s = Some s' \<and> exchanged good reply got sent closed [(sk, Answered m k)] s s'"
proof -
  obtain k w' where w': "sock_writev lib sk (reply m) w = (k, w')" by (cases "sock_writev lib sk (reply m) w")
  note rl = stream_laws_recv [OF laws r] and wl = stream_laws_writev [OF laws w']
  have len: "length (reply m) = length m" using good_reply [OF m] by auto
  let ?s = "s\<lparr>ctx := (ctx s)\<lparr>bytes_in := bytes_in (ctx s) + of_nat (length m)\<rparr>, net := w'\<rparr>"
  have lm: "length m \<le> BUFFER_SIZE" using rl by simp
  have k: "nat k \<le> length m" "sint (bytes_out (ctx s)) + int (nat k) \<le> INT_MAX" using wl lm len out by linarith+
  obtain s' where s': "count_out k ?s = Some s'" "net s' = w'" "bytes_in (ctx s') = bytes_in (ctx s) + of_nat (length m)"
      "bytes_out (ctx s') = bytes_out (ctx s) + of_nat (nat k)"
    using k(2) by (cases "k > 0") (auto simp: count_out_def)
  have "callback lib sk s = Some s'" using answer [OF m r] len w' s'(1) by (simp add: send_back_def)
  moreover have "exchanged good reply got sent closed [(sk, Answered m k)] s s'"
    using s'(2-4) rl wl m k(1) sint_add_nat [OF k(2)] by (auto simp: exchanged_def exchange_simps)
  ultimately show ?thesis by blast
qed

lemma one_callback:
  assumes laws: "stream_laws lib got sent closed"
    and clients: "\<And>d w w'. sock_recv lib sk BUFFER_SIZE w = (Recv d, w') \<Longrightarrow> d = [] \<or> good d"
    and out: "sint (bytes_out (ctx s)) + int BUFFER_SIZE \<le> INT_MAX"
  shows "\<exists>x s'. callback lib sk s = Some s' \<and> exchanged good reply got sent closed [(sk, x)] s s'"
proof (cases "sock_recv lib sk BUFFER_SIZE (net s)")
  case (Pair r w)
  show ?thesis
  proof (cases r)
    case (Recv_error e)
    then have "exchanged good reply got sent closed [(sk, Failed e)] s (s\<lparr>net := w\<rparr>)"
      using stream_laws_recv [OF laws Pair] by (auto simp: exchanged_def exchange_simps fun_eq_iff)
    then show ?thesis using failure Pair Recv_error by blast
  next
    case (Recv d)
    show ?thesis
    proof (cases "d = []")
      case True
      then have "exchanged good reply got sent closed [(sk, Hung_up)] s (hang_up lib sk (s\<lparr>net := w\<rparr>))"
        using stream_laws_recv [OF laws] stream_laws_close [OF laws] Pair Recv
        by (fastforce simp: exchanged_def exchange_simps hang_up_def)
      then show ?thesis using ending Pair Recv True by blast
    next
      case False
      then show ?thesis using answered [OF laws _ _ out] clients Pair Recv by blast
    qed
  qed
qed

lemma callbacks:
  assumes laws: "stream_laws lib got sent closed"
    and clients: "\<And>sk d w w'. sock_recv lib sk BUFFER_SIZE w = (Recv d, w') \<Longrightarrow> d = [] \<or> good d"
  shows "sint (bytes_out (ctx s)) + int (BUFFER_SIZE * length sks) \<le> INT_MAX \<Longrightarrow>
    runs (run_callbacks (callback lib) sks s)
      (\<lambda>s'. \<exists>xs. map fst xs = sks \<and> exchanged good reply got sent closed xs s s')"
proof (induction sks arbitrary: s)
  case Nil
  then show ?case by (auto intro: exchanged_Nil)
next
  case (Cons sk sks)
  have "int (BUFFER_SIZE * length (sk # sks)) = int BUFFER_SIZE + int (BUFFER_SIZE * length sks)" by (simp add: algebra_simps)
  then have "sint (bytes_out (ctx s)) + int BUFFER_SIZE \<le> INT_MAX" using Cons.prems by linarith
  from one_callback [OF laws _ this, of sk] clients obtain x s1
    where s1: "callback lib sk s = Some s1" "exchanged good reply got sent closed [(sk, x)] s s1" by blast
  have "sint (bytes_out (ctx s1)) + int (BUFFER_SIZE * length sks) \<le> INT_MAX"
    using s1(2) Cons.prems by (cases x) (auto simp: exchanged_def exchange_simps algebra_simps)
  from Cons.IH [OF this] have "runs (run_callbacks (callback lib) sks s1)
      (\<lambda>s'. \<exists>xs. map fst xs = sk # sks \<and> exchanged good reply got sent closed xs s s')"
    by (rule runs_mono) (use exchanged_Cons [OF s1(2)] in \<open>fastforce intro: exI [of _ "(sk, x) # _"]\<close>)
  then show ?case using s1(1) by simp
qed

end

section \<open>The two servers\<close>

definition kvs_good :: "byte list \<Rightarrow> bool" where
  "kvs_good m \<longleftrightarrow> m \<noteq> [] \<and> 0 \<notin> set m \<and> length m < BUFFER_SIZE \<and> length (words m) \<le> MAX_TOKENS"

interpretation kvs: stream_server kvs_server_callback kvs_good marked
proof
  fix m assume "kvs_good m"
  then show "m \<noteq> [] \<and> length (marked m) = length m" using marked_spec [of m] by (simp add: kvs_good_def)
next
  fix m and lib :: "'a sock_lib" and sk and s :: "'a server" and w
  assume m: "kvs_good m" and r: "sock_recv lib sk BUFFER_SIZE (net s) = (Recv m, w)"
  obtain post :: "byte list" where post: "replicate (BUFFER_SIZE - length m) 0 = 0 # post"
    using m by (cases "BUFFER_SIZE - length m") (auto simp: kvs_good_def)
  have "c_string (m @ 0 # post) 0 = Some m" using c_string_here [of m "[]" post] m by (simp add: kvs_good_def)
  moreover have "kvs_proto_process (m @ 0 # post) =
      Some (if words m = [] then - 1 else 0, words m, marked m @ 0 # post)"
    using m by (simp add: kvs_good_def kvs_process_ok)
  ultimately have "kvs_server_callback lib sk s = send_back lib sk (length m) (marked m @ 0 # post) (s\<lparr>net := w\<rparr>)"
    using m r post by (simp add: kvs_server_callback_def kvs_good_def)
  then show "kvs_server_callback lib sk s = send_back lib sk (length m) (marked m) (s\<lparr>net := w\<rparr>)"
    using marked_spec [of m] by (simp add: send_back_def)
qed (simp_all add: kvs_server_callback_def)

interpretation echo: stream_server echo_server_callback "\<lambda>m. m \<noteq> []" "\<lambda>m. m"
  by unfold_locales (simp_all add: echo_server_callback_def)

text \<open>A buffer filled to its end by a message without NUL is read past its end.\<close>

lemma kvs_full_buffer_undefined:
  assumes "sock_recv lib sk BUFFER_SIZE (net s) = (Recv m, w)" and "length m = BUFFER_SIZE" and "0 \<notin> set m"
  shows "kvs_server_callback lib sk s = None"
proof -
  have "takeWhile (\<lambda>c. c \<noteq> 0) m = m" using assms(3) by (auto simp: takeWhile_eq_all_conv)
  then have "length (takeWhile (\<lambda>c. c \<noteq> 0) m) = length m" by (rule arg_cong)
  then have "c_string m 0 = None" unfolding c_string_def Let_def drop_0 by simp
  moreover have "m \<noteq> []" using assms(2) by (auto simp: BUFFER_SIZE_def)
  ultimately show ?thesis using assms by (simp add: kvs_server_callback_def)
qed

text \<open>When the address of a new client cannot be read, \<open>spdk_server_accept\<close> closes the listening socket; the
  next call passes a null pointer to \<open>spdk_sock_accept\<close>.\<close>

lemma accept_closes_listener:
  assumes "srv_sock (ctx s) = Some l" and "sock_accept lib l (net s) = (Some c, w)" and "sock_getaddr lib c w = (rc, w')"
    and "rc < 0"
  shows "\<exists>s'. spdk_server_accept lib s = Some (POLLER_IDLE, s') \<and> net s' = sock_close lib l w' \<and>
    spdk_server_accept lib s' = None"
  using assms by (simp add: spdk_server_accept_def accept_loop.simps)

lemma group_poll_runs:
  assumes "group_poll lib (srv_group (ctx s)) (net s) = ((rc, sks), w)"
    and "runs (run_callbacks cb sks (s\<lparr>net := w\<rparr>)) P"
  shows "runs (spdk_server_group_poll lib cb s) (\<lambda>(r, s'). r = (if rc > 0 then POLLER_BUSY else POLLER_IDLE) \<and> P s')"
  using assms by (auto simp: spdk_server_group_poll_def elim!: runsE)

section \<open>Properties\<close>

text \<open>
  C33. One call of the key-value server's poller, whatever sockets are ready and whatever the sockets return. For every
  ready socket there is one \<open>recv\<close> on it. Either that fails and nothing else happens; or the client has hung up and
  its socket is closed, and no other is; or some bytes are received and answered, by one \<open>writev\<close> to the same socket, of the
  same bytes with the first space after each word replaced by a NUL. \<open>writev\<close> may take fewer bytes or fail, and what it
  leaves of an answer is never written. \<open>bytes_in\<close> grows by the bytes received, modulo 2^32, and \<open>bytes_out\<close> by the bytes
  written. The side conditions: the clients send so that what one \<open>recv\<close> returns has no NUL, does not fill the buffer and
  has at most 16 words, and \<open>bytes_out\<close> cannot overflow.
\<close>

theorem kvs_poll_correct:
  assumes "stream_laws lib got sent closed"
    and "group_poll lib (srv_group (ctx s)) (net s) = ((rc, sks), w)"
    and "\<forall>sk d w w'. sock_recv lib sk BUFFER_SIZE w = (Recv d, w') \<longrightarrow> d = [] \<or> kvs_good d"
    and "sint (bytes_out (ctx s)) + int (BUFFER_SIZE * length sks) \<le> INT_MAX"
  shows "runs (spdk_server_group_poll lib (kvs_server_callback lib) s) (\<lambda>(r, s').
    r = (if rc > 0 then POLLER_BUSY else POLLER_IDLE) \<and>
    (\<exists>xs. map fst xs = sks \<and> exchanged kvs_good marked got sent closed xs (s\<lparr>net := w\<rparr>) s'))"
proof -
  have clients: "d = [] \<or> kvs_good d" if "sock_recv lib sk BUFFER_SIZE w = (Recv d, w')" for sk d w w'
    using assms(3) that by blast
  have "sint (bytes_out (ctx (s\<lparr>net := w\<rparr>))) + int (BUFFER_SIZE * length sks) \<le> INT_MAX" using assms(4) by simp
  from kvs.callbacks [OF assms(1) clients this] show ?thesis by (rule group_poll_runs [OF assms(2)])
qed

text \<open>A network whose sockets hold chunks still to be received; \<open>writev\<close> takes at most four bytes.\<close>

type_synonym demo = "(sock \<times> byte list) list \<times> (sock \<Rightarrow> received list) \<times> (sock \<Rightarrow> (byte list \<times> int) list) \<times> sock set"

definition demo_net :: "demo sock_lib" where
  "demo_net = \<lparr>sock_listen = \<lambda>h p i w. (Some 1, w), sock_accept = \<lambda>l w. (None, w), sock_getaddr = \<lambda>c w. (0, w),
     sock_recv = \<lambda>sk n (q, g, out, c). (case q of [] \<Rightarrow> (Recv_error 11, (q, g(sk := g sk @ [Recv_error 11]), out, c))
       | m # ms \<Rightarrow> if fst m = sk \<and> length (snd m) \<le> n \<and> (snd m = [] \<or> kvs_good (snd m))
         then (Recv (snd m), (ms, g(sk := g sk @ [Recv (snd m)]), out, c)) else (Recv_error 11, (q, g(sk := g sk @ [Recv_error 11]), out, c))),
     sock_writev = \<lambda>sk d (q, g, out, c). (int (min 4 (length d)), (q, g, out(sk := out sk @ [(d, int (min 4 (length d)))]), c)),
     sock_close = \<lambda>sk (q, g, out, c). (q, g, out, insert sk c),
     group_create = \<lambda>w. (Some 2, w), group_add_sock = \<lambda>g c w. (0, w), group_remove_sock = \<lambda>g c w. w,
     group_poll = \<lambda>g w. ((int (length (fst w)), map fst (fst w)), w)\<rparr>"

lemma demo_stream: "stream_laws demo_net (fst \<circ> snd) (fst \<circ> snd \<circ> snd) (snd \<circ> snd \<circ> snd)"
  by (auto simp: stream_laws_def recv_law_def writev_law_def close_law_def demo_net_def split: prod.splits list.splits if_splits)

lemma demo_clients: "sock_recv demo_net sk BUFFER_SIZE w = (Recv d, w') \<Longrightarrow> d = [] \<or> kvs_good d"
  by (auto simp: demo_net_def split: prod.splits list.splits if_splits)

definition demo_server :: "(sock \<times> byte list) list \<Rightarrow> demo server" where
  "demo_server q = sdpk_server_start demo_net (new_server None 8888 None (q, \<lambda>sk. [], \<lambda>sk. [], {}))"

lemma demo_server_simps:
  "net (demo_server q) = (q, \<lambda>sk. [], \<lambda>sk. [], {})" "bytes_out (ctx (demo_server q)) = 0"
  by (simp_all add: demo_server_def sdpk_server_start_def spdk_server_listen_def new_server_def demo_net_def)

theorem kvs_poll_correct_witness:
  "runs (spdk_server_group_poll demo_net (kvs_server_callback demo_net) (demo_server [(7, c_str ''RGET k''), (9, [])]))
    (\<lambda>(r, s'). r = POLLER_BUSY \<and> (\<exists>xs. map fst xs = [7, 9] \<and>
      exchanged kvs_good marked (fst \<circ> snd) (fst \<circ> snd \<circ> snd) (snd \<circ> snd \<circ> snd) xs
        (demo_server [(7, c_str ''RGET k''), (9, [])]) s'))"
proof -
  let ?q = "[(7, c_str ''RGET k''), (9, [])]" and ?s = "demo_server [(7, c_str ''RGET k''), (9, [])]"
  have "group_poll demo_net (srv_group (ctx ?s)) (net ?s) = ((2, [7, 9]), net ?s)"
    by (simp add: demo_net_def demo_server_simps)
  from kvs_poll_correct [OF demo_stream this] demo_clients show ?thesis
    by (simp add: demo_server_simps(2) BUFFER_SIZE_def INT_MAX_def)
qed

text \<open>
  C34. One call of the echo server's poller, whatever sockets are ready and whatever the sockets return: for every ready
  socket there is one \<open>recv\<close>, with the three outcomes of C33, and the bytes received are answered by one \<open>writev\<close> of the
  same bytes to the same socket. There is no condition on what the clients send; \<open>bytes_out\<close> must not be able to overflow.
\<close>

theorem echo_poll_correct:
  assumes "stream_laws lib got sent closed"
    and "group_poll lib (srv_group (ctx s)) (net s) = ((rc, sks), w)"
    and "sint (bytes_out (ctx s)) + int (BUFFER_SIZE * length sks) \<le> INT_MAX"
  shows "runs (spdk_server_group_poll lib (echo_server_callback lib) s) (\<lambda>(r, s').
    r = (if rc > 0 then POLLER_BUSY else POLLER_IDLE) \<and>
    (\<exists>xs. map fst xs = sks \<and> exchanged (\<lambda>d. d \<noteq> []) (\<lambda>d. d) got sent closed xs (s\<lparr>net := w\<rparr>) s'))"
proof -
  have "sint (bytes_out (ctx (s\<lparr>net := w\<rparr>))) + int (BUFFER_SIZE * length sks) \<le> INT_MAX" using assms(3) by simp
  from echo.callbacks [OF assms(1) _ this] show ?thesis by (intro group_poll_runs [OF assms(2)]) blast
qed

theorem echo_poll_correct_witness:
  "runs (spdk_server_group_poll demo_net (echo_server_callback demo_net) (demo_server [(7, c_str ''hello''), (9, [])]))
    (\<lambda>(r, s'). r = POLLER_BUSY \<and> (\<exists>xs. map fst xs = [7, 9] \<and>
      exchanged (\<lambda>d. d \<noteq> []) (\<lambda>d. d) (fst \<circ> snd) (fst \<circ> snd \<circ> snd) (snd \<circ> snd \<circ> snd) xs
        (demo_server [(7, c_str ''hello''), (9, [])]) s'))"
proof -
  let ?s = "demo_server [(7, c_str ''hello''), (9, [])]"
  have "group_poll demo_net (srv_group (ctx ?s)) (net ?s) = ((2, [7, 9]), net ?s)"
    by (simp add: demo_net_def demo_server_simps)
  from echo_poll_correct [OF demo_stream this] show ?thesis
    by (simp add: demo_server_simps(2) BUFFER_SIZE_def INT_MAX_def)
qed

end
