(* ===== verification/Echo_Client.thy ===== *)
theory Echo_Client
  imports Kvs_Server
begin

text \<open>
  The client of the echo server, \<open>spdk_echo_server/client.cpp\<close>. The sockets of the operating system are a parameter,
  the record \<open>inet\<close>; what the client relies on is stated by \<open>inet_laws\<close>. The client's output is the list of its
  reports, one for every line it prints; the text that \<open>strerror\<close> adds to an error is left out.
\<close>

section \<open>The client\<close>

record 'w inet =
  os_socket :: "'w \<Rightarrow> int \<times> 'w"
  inet_pton :: "string \<Rightarrow> int \<times> 32 word"
  os_connect :: "int \<Rightarrow> 32 word \<Rightarrow> 16 word \<Rightarrow> 'w \<Rightarrow> int \<times> 'w"
  os_send :: "int \<Rightarrow> byte list \<Rightarrow> 'w \<Rightarrow> int \<times> 'w"
  os_recv :: "int \<Rightarrow> nat \<Rightarrow> 'w \<Rightarrow> received \<times> 'w"
  os_close :: "int \<Rightarrow> 'w \<Rightarrow> 'w"

datatype report = Connecting string int | Socket_error | Invalid_address string | Connection_failed | Connected
  | Sending string | Send_failed | Sent int
  | Receive_failed | Closed_by_server | Received_echo "byte list" | Connection_closed

datatype client_result = Exit_code int | Uncaught_exception

text \<open>\<open>std::stoi\<close>: white space, a sign, digits, and whatever follows; it throws when there is no digit or the value is
  no \<open>int\<close>.\<close>

definition is_space :: "char \<Rightarrow> bool" where
  "is_space c \<longleftrightarrow> c \<in> {CHR '' '', CHR 0x09, CHR 0x0A, CHR 0x0B, CHR 0x0C, CHR 0x0D}"

definition is_digit :: "char \<Rightarrow> bool" where
  "is_digit c \<longleftrightarrow> 48 \<le> (of_char c :: nat) \<and> (of_char c :: nat) \<le> 57"

definition digits_value :: "string \<Rightarrow> int" where
  "digits_value ds = foldl (\<lambda>v c. 10 * v + (of_char c - 48)) 0 ds"

definition stoi :: "string \<Rightarrow> int option" where
  "stoi str = (let s = dropWhile is_space str;
      neg = (s \<noteq> [] \<and> hd s = CHR ''-'');
      s = (if s \<noteq> [] \<and> hd s \<in> {CHR ''-'', CHR ''+''} then tl s else s);
      ds = takeWhile is_digit s;
      v = (if neg then - digits_value ds else digits_value ds)
    in if ds = [] \<or> v < - INT_MAX - 1 \<or> INT_MAX < v then None else Some v)"

definition INADDR_LOOPBACK :: "32 word" where "INADDR_LOOPBACK = 0x7F000001"

text \<open>Lines 36 to 50: the address of the server; \<open>sin_port\<close> keeps 16 bits of the port.\<close>

definition client_address :: "'w inet \<Rightarrow> string \<Rightarrow> 32 word option" where
  "client_address os h = (if fst (inet_pton os h) \<le> 0 then
     (if h = ''localhost'' then Some INADDR_LOOPBACK else None) else Some (snd (inet_pton os h)))"

text \<open>Lines 11 to 24: the host, the port and the message; \<open>argv\<close> is the list of the arguments behind the name of the
  program. \<open>std::stoi\<close> may throw.\<close>

definition client_args :: "string list \<Rightarrow> string \<times> int option \<times> string" where
  "client_args argv =
     (if length argv > 0 then argv ! 0 else ''127.0.0.1'',
      if length argv > 1 then stoi (argv ! 1) else Some 8888,
      if length argv > 2 then argv ! 2 else ''Hello SPDK Server!'')"

text \<open>Lines 72 to 86: the echo. The buffer has 1024 bytes, of which one is for the terminating NUL.\<close>

definition client_receive :: "'w inet \<Rightarrow> int \<Rightarrow> 'w \<Rightarrow> report list \<times> 'w" where
  "client_receive os fd w = (let (r, w) = os_recv os fd 1023 w in
     ([case r of Recv_error e \<Rightarrow> Receive_failed
       | Recv d \<Rightarrow> if d = [] then Closed_by_server else Received_echo (takeWhile (\<lambda>c. c \<noteq> 0) d), Connection_closed],
      os_close os fd w))"

text \<open>Lines 52 to 88: \<open>sin_port\<close> keeps 16 bits of the port.\<close>

definition client_talk :: "'w inet \<Rightarrow> int \<Rightarrow> 32 word \<Rightarrow> int \<Rightarrow> string \<Rightarrow> 'w \<Rightarrow> (int \<times> report list) \<times> 'w" where
  "client_talk os fd a p m w = (let (rc, w) = os_connect os fd a (of_int p) w in
     if rc < 0 then ((1, [Connection_failed]), os_close os fd w)
     else (let (n, w) = os_send os fd (c_str m) w in
       if n < 0 then ((1, [Connected, Sending m, Send_failed]), os_close os fd w)
       else (let (rs, w) = client_receive os fd w in ((0, [Connected, Sending m, Sent n] @ rs), w))))"

definition client_main :: "'w inet \<Rightarrow> string list \<Rightarrow> 'w \<Rightarrow> (client_result \<times> report list) \<times> 'w" where
  "client_main os argv w = (case client_args argv of
     (h, None, m) \<Rightarrow> ((Uncaught_exception, []), w)
   | (h, Some p, m) \<Rightarrow> (let (fd, w) = os_socket os w in
       if fd < 0 then ((Exit_code 1, [Connecting h p, Socket_error]), w)
       else (case client_address os h of
          None \<Rightarrow> ((Exit_code 1, [Connecting h p, Invalid_address h]), os_close os fd w)
        | Some a \<Rightarrow> (let ((rc, rs), w) = client_talk os fd a p m w in ((Exit_code rc, Connecting h p # rs), w)))))"

section \<open>The contract of the operating system\<close>

text \<open>What POSIX says of the calls, by what can be observed of a descriptor: whether it is open, the address and port it
  is connected to, the bytes sent and the bytes received on it. Any call may fail, \<open>send\<close> may take only the first
  bytes, and \<open>recv\<close> returns at most as many as there is room for.\<close>

record conn =
  peer :: "(32 word \<times> 16 word) option"
  sent_to :: "byte list"
  got_from :: "byte list"

type_synonym fds = "int \<rightharpoonup> conn"

definition fresh_conn :: conn where
  "fresh_conn = \<lparr>peer = None, sent_to = [], got_from = []\<rparr>"

text \<open>\<open>view w\<close> are the open descriptors, \<open>past w\<close> the connections that have been closed, the last one first.\<close>

definition open_law :: "'w inet \<Rightarrow> ('w \<Rightarrow> fds) \<Rightarrow> ('w \<Rightarrow> conn list) \<Rightarrow> bool" where
  "open_law os view past \<longleftrightarrow> (\<forall>w. case os_socket os w of (fd, w') \<Rightarrow> past w' = past w \<and>
     (if fd < 0 then view w' = view w else view w fd = None \<and> view w' = (view w)(fd \<mapsto> fresh_conn)))"

definition connect_law :: "'w inet \<Rightarrow> ('w \<Rightarrow> fds) \<Rightarrow> ('w \<Rightarrow> conn list) \<Rightarrow> bool" where
  "connect_law os view past \<longleftrightarrow> (\<forall>fd a p w c. view w fd = Some c \<longrightarrow> (case os_connect os fd a p w of (rc, w') \<Rightarrow>
     past w' = past w \<and> view w' = (if rc < 0 then view w else (view w)(fd \<mapsto> c\<lparr>peer := Some (a, p)\<rparr>))))"

definition send_law :: "'w inet \<Rightarrow> ('w \<Rightarrow> fds) \<Rightarrow> ('w \<Rightarrow> conn list) \<Rightarrow> bool" where
  "send_law os view past \<longleftrightarrow> (\<forall>fd d w c. view w fd = Some c \<longrightarrow> (case os_send os fd d w of (n, w') \<Rightarrow>
     past w' = past w \<and> n \<le> int (length d) \<and> view w' = (view w)(fd \<mapsto> c\<lparr>sent_to := sent_to c @ take (nat n) d\<rparr>)))"

definition os_recv_law :: "'w inet \<Rightarrow> ('w \<Rightarrow> fds) \<Rightarrow> ('w \<Rightarrow> conn list) \<Rightarrow> bool" where
  "os_recv_law os view past \<longleftrightarrow> (\<forall>fd n w c. view w fd = Some c \<longrightarrow> (case os_recv os fd n w of (r, w') \<Rightarrow>
     past w' = past w \<and> (case r of Recv_error e \<Rightarrow> view w' = view w
       | Recv d \<Rightarrow> length d \<le> n \<and> view w' = (view w)(fd \<mapsto> c\<lparr>got_from := got_from c @ d\<rparr>))))"

definition os_close_law :: "'w inet \<Rightarrow> ('w \<Rightarrow> fds) \<Rightarrow> ('w \<Rightarrow> conn list) \<Rightarrow> bool" where
  "os_close_law os view past \<longleftrightarrow> (\<forall>fd w c. view w fd = Some c \<longrightarrow>
     view (os_close os fd w) = (view w)(fd := None) \<and> past (os_close os fd w) = c # past w)"

definition inet_laws :: "'w inet \<Rightarrow> ('w \<Rightarrow> fds) \<Rightarrow> ('w \<Rightarrow> conn list) \<Rightarrow> bool" where
  "inet_laws os view past \<longleftrightarrow> open_law os view past \<and> connect_law os view past \<and> send_law os view past \<and>
     os_recv_law os view past \<and> os_close_law os view past"

lemma inet_close:
  assumes "inet_laws os view past" and "view w fd = Some c"
  shows "view (os_close os fd w) = (view w)(fd := None)" and "past (os_close os fd w) = c # past w"
  using assms by (auto simp: inet_laws_def os_close_law_def)

text \<open>What the client reports of the echo.\<close>

fun echo_report :: "byte list \<Rightarrow> report \<Rightarrow> bool" where
  "echo_report d Receive_failed \<longleftrightarrow> d = []"
| "echo_report d Closed_by_server \<longleftrightarrow> d = []"
| "echo_report d (Received_echo e) \<longleftrightarrow> d \<noteq> [] \<and> length d \<le> 1023 \<and> e = takeWhile (\<lambda>c. c \<noteq> 0) d"
| "echo_report d _ \<longleftrightarrow> False"

lemma client_receive_ok:
  assumes laws: "inet_laws os view past" and c: "view w fd = Some c" and r: "client_receive os fd w = (rs, w')"
  shows "\<exists>d x. rs = [x, Connection_closed] \<and> echo_report d x \<and>
    (x = Receive_failed \<longleftrightarrow> (\<exists>e. fst (os_recv os fd 1023 w) = Recv_error e)) \<and> view w' = (view w)(fd := None) \<and>
    past w' = c\<lparr>got_from := got_from c @ d\<rparr> # past w"
proof -
  obtain q w1 where q: "os_recv os fd 1023 w = (q, w1)" by (cases "os_recv os fd 1023 w")
  have rl: "past w1 = past w \<and> (case q of Recv_error e \<Rightarrow> view w1 = view w
       | Recv d \<Rightarrow> length d \<le> 1023 \<and> view w1 = (view w)(fd \<mapsto> c\<lparr>got_from := got_from c @ d\<rparr>))"
  proof -
    have "os_recv_law os view past" using laws by (simp add: inet_laws_def)
    from this [unfolded os_recv_law_def, THEN spec [of _ fd], THEN spec [of _ 1023], THEN spec [of _ w]] c q
    show ?thesis by auto
  qed
  show ?thesis
  proof (cases q)
    case (Recv_error e)
    then have v: "view w1 fd = Some c" "view w1 = view w" "past w1 = past w" using rl c by auto
    then show ?thesis using r q Recv_error inet_close [OF laws v(1)]
      by (intro exI [of _ "[]"] exI [of _ Receive_failed]) (auto simp: client_receive_def)
  next
    case (Recv d)
    let ?c = "c\<lparr>got_from := got_from c @ d\<rparr>"
    have v: "view w1 fd = Some ?c" "view w1 = (view w)(fd \<mapsto> ?c)" "past w1 = past w" "length d \<le> 1023" using rl Recv by auto
    then show ?thesis using r q Recv inet_close [OF laws v(1)]
      by (intro exI [of _ d] exI [of _ "if d = [] then Closed_by_server else Received_echo (takeWhile (\<lambda>c. c \<noteq> 0) d)"])
        (auto simp: client_receive_def)
  qed
qed

text \<open>The connection \<open>c\<close> that \<open>client_talk\<close> closes, with its code and its reports, in the order of the calls.\<close>

definition talked :: "'w inet \<Rightarrow> int \<Rightarrow> 32 word \<Rightarrow> int \<Rightarrow> string \<Rightarrow> 'w \<Rightarrow> int \<Rightarrow> report list \<Rightarrow> conn \<Rightarrow> bool" where
  "talked os fd a p m w rc rs c \<longleftrightarrow>
     (case os_connect os fd a (of_int p) w of (r, w1) \<Rightarrow>
        if r < 0 then rc = 1 \<and> rs = [Connection_failed] \<and> c = fresh_conn
        else (case os_send os fd (c_str m) w1 of (n, w2) \<Rightarrow>
          if n < 0 then rc = 1 \<and> rs = [Connected, Sending m, Send_failed] \<and> c = fresh_conn\<lparr>peer := Some (a, of_int p)\<rparr>
          else rc = 0 \<and> (\<exists>x. rs = [Connected, Sending m, Sent n, x, Connection_closed] \<and> nat n \<le> length m \<and>
            peer c = Some (a, of_int p) \<and> sent_to c = take (nat n) (c_str m) \<and> echo_report (got_from c) x \<and>
            (x = Receive_failed \<longleftrightarrow> (\<exists>e. fst (os_recv os fd 1023 w2) = Recv_error e)))))"

lemma talked_sent:
  assumes "talked os fd a p m w 0 [Connected, Sending m, Sent n, x, Connection_closed] c"
  shows "peer c = Some (a, of_int p)" and "sent_to c = take (nat n) (c_str m)"
  using assms by (auto simp: talked_def case_prod_unfold split: if_splits)

lemma connected:
  assumes "inet_laws os view past" and "view w fd = Some c" and "os_connect os fd a p w = (r, w')"
  shows "past w' = past w \<and> view w' = (if r < 0 then view w else (view w)(fd \<mapsto> c\<lparr>peer := Some (a, p)\<rparr>))"
proof -
  have "connect_law os view past" using assms(1) by (simp add: inet_laws_def)
  from this [unfolded connect_law_def, THEN spec [of _ fd], THEN spec [of _ a], THEN spec [of _ p], THEN spec [of _ w]]
  show ?thesis using assms(2,3) by auto
qed

lemma sent:
  assumes "inet_laws os view past" and "view w fd = Some c" and "os_send os fd d w = (n, w')"
  shows "past w' = past w \<and> n \<le> int (length d) \<and> view w' = (view w)(fd \<mapsto> c\<lparr>sent_to := sent_to c @ take (nat n) d\<rparr>)"
proof -
  have "send_law os view past" using assms(1) by (simp add: inet_laws_def)
  from this [unfolded send_law_def, THEN spec [of _ fd], THEN spec [of _ d], THEN spec [of _ w]]
  show ?thesis using assms(2,3) by auto
qed

lemma client_talk_ok:
  assumes laws: "inet_laws os view past" and c: "view w fd = Some fresh_conn"
    and t: "client_talk os fd a p m w = ((rc, rs), w')"
  shows "\<exists>c. talked os fd a p m w rc rs c \<and> view w' = (view w)(fd := None) \<and> past w' = c # past w"
proof -
  let ?c1 = "fresh_conn\<lparr>peer := Some (a, of_int p)\<rparr>"
  obtain r1 w1 where w1: "os_connect os fd a (of_int p) w = (r1, w1)" by (cases "os_connect os fd a (of_int p) w")
  note v1 = connected [OF laws c w1]
  show ?thesis
  proof (cases "r1 < 0")
    case True
    then show ?thesis using t w1 v1 inet_close [OF laws, of w1 fd fresh_conn] c
      by (auto simp: client_talk_def talked_def)
  next
    case False
    then have vf: "view w1 fd = Some ?c1" using v1 by simp
    obtain n w2 where w2: "os_send os fd (c_str m) w1 = (n, w2)" by (cases "os_send os fd (c_str m) w1")
    let ?c2 = "?c1\<lparr>sent_to := take (nat n) (c_str m)\<rparr>"
    have v2: "past w2 = past w" "n \<le> int (length m)" "view w2 fd = Some ?c2" "(view w2)(fd := None) = (view w)(fd := None)"
      using sent [OF laws vf w2] v1 False by (auto simp: fresh_conn_def c_str_def)
    show ?thesis
    proof (cases "n < 0")
      case True
      then have "?c2 = ?c1" by (simp add: fresh_conn_def)
      then show ?thesis using t w1 w2 v2 False True inet_close [OF laws v2(3)] by (auto simp: client_talk_def talked_def)
    next
      case pos: False
      obtain qs w3 where r: "client_receive os fd w2 = (qs, w3)" by (cases "client_receive os fd w2")
      obtain d x where d: "qs = [x, Connection_closed]" "echo_report d x"
          "x = Receive_failed \<longleftrightarrow> (\<exists>e. fst (os_recv os fd 1023 w2) = Recv_error e)" "view w3 = (view w2)(fd := None)"
          "past w3 = ?c2\<lparr>got_from := got_from ?c2 @ d\<rparr> # past w2"
        using client_receive_ok [OF laws v2(3) r] by blast
      have "rc = 0" "rs = [Connected, Sending m, Sent n, x, Connection_closed]" "w' = w3"
        using t w1 w2 r d(1) False pos by (auto simp: client_talk_def)
      then show ?thesis using d v2 pos w1 w2 False
        by (intro exI [of _ "?c2\<lparr>got_from := d\<rparr>"]) (simp add: talked_def fresh_conn_def)
    qed
  qed
qed

section \<open>Properties\<close>

text \<open>
  C35. The client, whatever the operating system answers. A port that \<open>std::stoi\<close> refuses ends it by an exception,
  before it has done anything. Otherwise it opens at most one descriptor and has closed it when it ends; all others
  are as before. It sends nothing but to the address of the given host (\<open>localhost\<close> is 127.0.0.1) and the given
  port, of which 16 bits are kept, and only when the connection was made. It ends with code 0 exactly if
  it was connected and sent the first \<open>n\<close> bytes of the message, and then it reports \<open>n\<close>, which may be less than
  the length, and the bytes it received once, at most 1023 and up to the first NUL. It ends with code 1 and the
  report of the call that failed if no socket was opened, the host has no address, or the connection or sending failed.
\<close>

theorem client_main_correct:
  assumes "inet_laws os view past" and "client_args argv = (h, prt, m)"
    and "client_main os argv w = ((r, rs), w')"
  shows "view w' = view w \<and>
    (case prt of None \<Rightarrow> r = Uncaught_exception \<and> rs = [] \<and> w' = w
     | Some p \<Rightarrow>
         (r = Exit_code 1 \<and> rs = [Connecting h p, Socket_error] \<and> fst (os_socket os w) < 0 \<and> past w' = past w) \<or>
         (r = Exit_code 1 \<and> rs = [Connecting h p, Invalid_address h] \<and> client_address os h = None \<and>
            past w' = fresh_conn # past w) \<or>
         (\<exists>a rc qs c. r = Exit_code rc \<and> rs = Connecting h p # qs \<and> client_address os h = Some a \<and>
            talked os (fst (os_socket os w)) a p m (snd (os_socket os w)) rc qs c \<and> past w' = c # past w))"
proof (cases prt)
  case None
  then show ?thesis using assms(2,3) by (simp add: client_main_def)
next
  case (Some p)
  obtain fd w1 where w1: "os_socket os w = (fd, w1)" by (cases "os_socket os w")
  have ol: "past w1 = past w \<and> (if fd < 0 then view w1 = view w else view w fd = None \<and> view w1 = (view w)(fd \<mapsto> fresh_conn))"
    using assms(1) w1 by (auto simp: inet_laws_def open_law_def dest!: spec [of _ w])
  show ?thesis
  proof (cases "fd < 0")
    case True
    then show ?thesis using assms(2,3) Some w1 ol by (simp add: client_main_def)
  next
    case False
    then have v: "view w1 fd = Some fresh_conn" "(view w1)(fd := None) = view w" "past w1 = past w" using ol by auto
    show ?thesis
    proof (cases "client_address os h")
      case None
      then show ?thesis using assms(2,3) Some w1 v False inet_close [OF assms(1) v(1)] by (auto simp: client_main_def)
    next
      case addr: (Some a)
      obtain rc qs w2 where t: "client_talk os fd a p m w1 = ((rc, qs), w2)" by (metis prod.exhaust)
      then have "r = Exit_code rc" "rs = Connecting h p # qs" "w' = w2"
        using assms(2,3) Some w1 addr False by (auto simp: client_main_def)
      then show ?thesis using client_talk_ok [OF assms(1) v(1) t] v Some addr w1 by auto
    qed
  qed
qed

text \<open>An operating system in which the peer returns what it gets and \<open>send\<close> takes at most eight bytes.\<close>

definition demo_os :: "(fds \<times> conn list) inet" where
  "demo_os = \<lparr>os_socket = \<lambda>(v, ps). if v 3 = None then (3, (v(3 \<mapsto> fresh_conn), ps)) else (- 1, (v, ps)),
     inet_pton = \<lambda>h. if h = ''127.0.0.1'' then (1, 0x7F000001) else (0, 0),
     os_connect = \<lambda>fd a p (v, ps). (case v fd of None \<Rightarrow> (- 1, (v, ps)) | Some c \<Rightarrow> (0, (v(fd \<mapsto> c\<lparr>peer := Some (a, p)\<rparr>), ps))),
     os_send = \<lambda>fd d (v, ps). (case v fd of None \<Rightarrow> (- 1, (v, ps))
       | Some c \<Rightarrow> (int (min 8 (length d)), (v(fd \<mapsto> c\<lparr>sent_to := sent_to c @ take (min 8 (length d)) d\<rparr>), ps))),
     os_recv = \<lambda>fd n (v, ps). (case v fd of None \<Rightarrow> (Recv_error 9, (v, ps))
       | Some c \<Rightarrow> (Recv (take n (sent_to c)), (v(fd \<mapsto> c\<lparr>got_from := got_from c @ take n (sent_to c)\<rparr>), ps))),
     os_close = \<lambda>fd (v, ps). (v(fd := None), case v fd of None \<Rightarrow> ps | Some c \<Rightarrow> c # ps)\<rparr>"

lemma demo_os_laws: "inet_laws demo_os fst snd"
  by (auto simp: inet_laws_def open_law_def connect_law_def send_law_def os_recv_law_def os_close_law_def demo_os_def)

theorem client_main_correct_witness:
  "\<exists>w'. client_main demo_os [''127.0.0.1'', ''8888'', ''hello there''] (Map.empty, []) =
      ((Exit_code 0, [Connecting ''127.0.0.1'' 8888, Connected, Sending ''hello there'', Sent 8,
         Received_echo (c_str ''hello th''), Connection_closed]), w') \<and>
    fst w' = Map.empty \<and> (\<exists>c. snd w' = [c] \<and> peer c = Some (0x7F000001, 8888) \<and> sent_to c = c_str ''hello th'')"
proof -
  let ?argv = "[''127.0.0.1'', ''8888'', ''hello there'']"
  let ?rs = "[Connected, Sending ''hello there'', Sent 8, Received_echo (c_str ''hello th''), Connection_closed]"
  have args: "client_args ?argv = (''127.0.0.1'', Some 8888, ''hello there'')"
    by (simp add: client_args_def stoi_def is_space_def is_digit_def digits_value_def INT_MAX_def of_char_def)
  obtain w' where run: "client_main demo_os ?argv (Map.empty, []) = ((Exit_code 0, Connecting ''127.0.0.1'' 8888 # ?rs), w')"
    by (simp add: client_main_def args client_address_def client_talk_def client_receive_def demo_os_def fresh_conn_def
      c_str_def of_char_def)
  have ad: "client_address demo_os ''127.0.0.1'' = Some 0x7F000001" by (simp add: client_address_def demo_os_def)
  from client_main_correct [OF demo_os_laws args run]
  have "fst w' = Map.empty \<and> (\<exists>c. talked demo_os (fst (os_socket demo_os (Map.empty, []))) 0x7F000001 8888 ''hello there''
      (snd (os_socket demo_os (Map.empty, []))) 0 ?rs c \<and> snd w' = [c])" by (simp add: ad)
  then have "fst w' = Map.empty \<and> (\<exists>c. snd w' = [c] \<and> peer c = Some (0x7F000001, 8888) \<and> sent_to c = c_str ''hello th'')"
    using talked_sent by (fastforce simp: c_str_def)
  with run show ?thesis by blast
qed

end
