(* ===== verification/Json_Config.thy ===== *)
theory Json_Config
  imports Prelude
begin

text \<open>
  The loader of the JSON configuration, \<open>spdk_filesystem/json_config.c\<close>, which the file system starts before it
  opens its device. The configuration is a list of subsystems, each with a list of RPC calls. The loader sends
  the calls that are allowed in the state \<open>STARTUP\<close> to an RPC server in the same process, one after the other,
  then initialises the subsystems, and then sends the remaining calls in the state \<open>RUNTIME\<close>.

  The JSON parser, the RPC client and server, the clock and the file are a parameter, the record \<open>rpc_lib\<close>
  over a state \<open>'w\<close>. A \<open>struct spdk_json_val *\<close> points into the array \<open>values\<close>: it is an index. What runs later on
  the SPDK thread is part of the loader's state: messages in the order they were sent, the registered
  poller and the completion of \<open>spdk_subsystem_init\<close>, which is called in tail position. Freeing \<open>ctx\<close> makes it \<open>None\<close>, and
  using it afterwards has no value; so do an index outside \<open>values\<close> or \<open>json_data\<close>, a failed assertion and a
  write outside a buffer. The parser's pointers are inside the array. Memory allocation succeeds. Debug and
  error messages are left out, but for the buffer in which an error response is printed.
\<close>

section \<open>Data\<close>

datatype json_type = JSON_NULL | JSON_TRUE | JSON_FALSE | JSON_NUMBER | JSON_STRING
  | JSON_ARRAY_BEGIN | JSON_ARRAY_END | JSON_OBJECT_BEGIN | JSON_OBJECT_END | JSON_NAME

record json_val =
  jtype :: json_type
  jstart :: nat
  jlen :: nat

text \<open>What a decoder stores: a pointer to a value or a copied string.\<close>

datatype slot = Val nat | Str string

record decoder =
  dname :: string
  dfunc :: "string \<Rightarrow> json_val list \<Rightarrow> nat \<Rightarrow> int + slot"
  doptional :: bool

record rpc_request =
  req_id :: cint
  req_method :: string
  req_params :: "string option"

text \<open>A response: \<open>None\<close>, or the error as the strings that the JSON writer passes to its callback.\<close>

record response =
  resp_error :: "string list option"

record 'w rpc_lib =
  fopen :: "string \<Rightarrow> 'w \<Rightarrow> nat option \<times> 'w"
  file_load :: "nat \<Rightarrow> 'w \<Rightarrow> string option \<times> 'w"
  fclose :: "nat \<Rightarrow> 'w \<Rightarrow> 'w"
  errno :: "'w \<Rightarrow> int"
  json_parse :: "string \<Rightarrow> nat option \<Rightarrow> int \<times> json_val list"
  json_find_array :: "json_val list \<Rightarrow> string \<Rightarrow> string \<Rightarrow> int \<times> nat option"
  json_array_first :: "json_val list \<Rightarrow> nat option \<Rightarrow> nat option"
  json_next :: "json_val list \<Rightarrow> nat \<Rightarrow> nat option"
  json_val_len :: "json_val list \<Rightarrow> nat \<Rightarrow> nat"
  json_decode_object :: "string \<Rightarrow> json_val list \<Rightarrow> nat \<Rightarrow> decoder list \<Rightarrow> slot option list option"
  json_decode_string :: "string \<Rightarrow> json_val list \<Rightarrow> nat \<Rightarrow> int + slot"
  json_write_begin :: "'w \<Rightarrow> bool \<times> 'w"
  get_ticks :: "'w \<Rightarrow> 64 word"
  get_ticks_hz :: "'w \<Rightarrow> 64 word"
  getpid :: "'w \<Rightarrow> string"
  rpc_initialize :: "string \<Rightarrow> 'w \<Rightarrow> int \<times> 'w"
  rpc_finish :: "'w \<Rightarrow> 'w"
  rpc_get_state :: "'w \<Rightarrow> 32 word"
  rpc_set_state :: "32 word \<Rightarrow> 'w \<Rightarrow> 'w"
  rpc_get_method_state_mask :: "string \<Rightarrow> int \<times> 32 word"
  client_connect :: "string \<Rightarrow> 'w \<Rightarrow> bool \<times> 'w"
  client_close :: "'w \<Rightarrow> 'w"
  client_poll :: "'w \<Rightarrow> int \<times> 'w"
  client_get_response :: "'w \<Rightarrow> response option \<times> 'w"
  client_free_response :: "'w \<Rightarrow> 'w"
  client_create_request :: "'w \<Rightarrow> bool \<times> 'w"
  begin_request :: "'w \<Rightarrow> bool \<times> 'w"
  client_free_request :: "'w \<Rightarrow> 'w"
  client_send :: "rpc_request \<Rightarrow> 'w \<Rightarrow> int \<times> 'w"
  subsystem_init :: "'w \<Rightarrow> 'w"
  subsystem_init_result :: "'w \<Rightarrow> int \<times> 'w"

definition SPDK_RPC_STARTUP :: "32 word" where "SPDK_RPC_STARTUP = 1"
definition SPDK_RPC_RUNTIME :: "32 word" where "SPDK_RPC_RUNTIME = 2"

text \<open>The callback for a response, the messages of the thread and the pollers; there is one function of
  each kind but for the last two.\<close>

datatype resp_handler = Config_entry_next
datatype msg = Load_subsystem | Load_config_entry
datatype poller_fn = Connect_poller | Client_poller

record load_json_config_ctx =
  stop_on_error :: bool
  subsystems :: "nat option"
  subsystems_it :: "nat option"
  subsystem_name :: "nat option"
  config :: "nat option"
  config_it :: "nat option"
  rpc_request_id :: cint
  json_data :: string
  json_values :: "json_val list"
  rpc_socket_path_temp :: string
  client_conn :: bool
  client_conn_poller :: "poller_fn option"
  client_resp_cb :: "resp_handler option"
  ctx_timeout :: "64 word"

record 'w loader =
  load_ctx :: "load_json_config_ctx option"
  msgs :: "msg list"
  init_pending :: bool
  cb_calls :: "int list"
  env :: 'w

definition zero_ctx :: load_json_config_ctx where
  "zero_ctx = \<lparr>stop_on_error = False, subsystems = None, subsystems_it = None, subsystem_name = None,
     config = None, config_it = None, rpc_request_id = 0, json_data = [], json_values = [],
     rpc_socket_path_temp = [], client_conn = False, client_conn_poller = None, client_resp_cb = None,
     ctx_timeout = 0\<rparr>"

definition upd_ctx :: "(load_json_config_ctx \<Rightarrow> load_json_config_ctx) \<Rightarrow> 'w loader \<Rightarrow> 'w loader option" where
  "upd_ctx f s = do {
     c \<leftarrow> load_ctx s;
     Some (s\<lparr>load_ctx := Some (f c)\<rparr>) }"

text \<open>A call of the library that changes only its state.\<close>

definition call :: "('w \<Rightarrow> 'w) \<Rightarrow> 'w loader \<Rightarrow> 'w loader" where
  "call f s = s\<lparr>env := f (env s)\<rparr>"

text \<open>\<open>spdk_thread_send_msg\<close>.\<close>

definition post :: "msg \<Rightarrow> 'w loader \<Rightarrow> 'w loader" where
  "post m s = s\<lparr>msgs := msgs s @ [m]\<rparr>"

section \<open>The end of the load and the timeouts\<close>

definition app_json_config_load_done :: "'w rpc_lib \<Rightarrow> int \<Rightarrow> 'w loader \<Rightarrow> 'w loader option" where
  "app_json_config_load_done lib rc s = do {
     s \<leftarrow> upd_ctx (\<lambda>c. c\<lparr>client_conn_poller := None\<rparr>) s;
     c \<leftarrow> load_ctx s;
     let s = (if client_conn c then call (client_close lib) s else s);
     let s = call (rpc_finish lib) s;
     Some (s\<lparr>cb_calls := cb_calls s @ [rc], load_ctx := None\<rparr>) }"

definition RPC_CLIENT_CONNECT_TIMEOUT_US :: "64 word" where
  "RPC_CLIENT_CONNECT_TIMEOUT_US = 1000000"

definition RPC_CLIENT_REQUEST_TIMEOUT_US :: "64 word" where
  "RPC_CLIENT_REQUEST_TIMEOUT_US = 10000000"

definition rpc_client_set_timeout :: "'w rpc_lib \<Rightarrow> 64 word \<Rightarrow> 'w loader \<Rightarrow> 'w loader option" where
  "rpc_client_set_timeout lib timeout_us s =
     upd_ctx (\<lambda>c. c\<lparr>ctx_timeout := get_ticks lib (env s) + timeout_us * get_ticks_hz lib (env s) div 1000000\<rparr>) s"

definition rpc_client_check_timeout :: "'w rpc_lib \<Rightarrow> 'w loader \<Rightarrow> int option" where
  "rpc_client_check_timeout lib s = do {
     c \<leftarrow> load_ctx s;
     Some (if ctx_timeout c < get_ticks lib (env s) then - ETIMEDOUT else 0) }"

section \<open>Printing an error response\<close>

text \<open>\<open>snprintf (buf->data + cur_off, sizeof (buf->data) - cur_off, "%s", data)\<close>: the size is computed in \<open>size_t\<close> and
  wraps around when \<open>cur_off\<close> has passed the end. A size of 0 writes nothing, otherwise the string is cut and
  terminated; the result is the length of the string.\<close>

definition BUF_SIZE :: nat where "BUF_SIZE = 1024"

record json_write_buf =
  buf_data :: "char list"
  cur_off :: "32 word"

definition snprintf_at :: "nat \<Rightarrow> size_t \<Rightarrow> string \<Rightarrow> char list \<Rightarrow> char list option" where
  "snprintf_at off room str bytes =
     (if room = 0 then Some bytes else
        (let text = take (unat room - 1) str @ [CHR 0x00] in
         if off + length text \<le> length bytes then Some (take off bytes @ text @ drop (off + length text) bytes)
         else None))"

definition json_write_stdout :: "string \<Rightarrow> nat \<Rightarrow> json_write_buf \<Rightarrow> (int \<times> json_write_buf) option" where
  "json_write_stdout str sz b = do {
     bytes \<leftarrow> snprintf_at (unat (cur_off b)) (of_nat BUF_SIZE - ucast (cur_off b)) str (buf_data b);
     let rc = length str;
     let b = b\<lparr>buf_data := bytes, cur_off := cur_off b + of_nat rc\<rparr>;
     Some (if rc = sz then 0 else - 1, b) }"

fun write_chunks :: "string list \<Rightarrow> json_write_buf \<Rightarrow> json_write_buf option" where
  "write_chunks [] b = Some b"
| "write_chunks (x # xs) b = do {
     (rc, b) \<leftarrow> json_write_stdout x (length x) b;
     write_chunks xs b }"

definition empty_buf :: json_write_buf where
  "empty_buf = \<lparr>buf_data = replicate BUF_SIZE (CHR 0x00), cur_off = 0\<rparr>"

definition print_error :: "'w rpc_lib \<Rightarrow> response \<Rightarrow> 'w loader \<Rightarrow> 'w loader option" where
  "print_error lib r s = (case resp_error r of None \<Rightarrow> Some s
     | Some chunks \<Rightarrow> (let (ok, w) = json_write_begin lib (env s); s = s\<lparr>env := w\<rparr> in
         if \<not> ok then Some s else do {
           b \<leftarrow> write_chunks chunks empty_buf;
           Some s }))"

section \<open>Sending requests\<close>

definition client_send_request :: "'w rpc_lib \<Rightarrow> rpc_request \<Rightarrow> resp_handler \<Rightarrow> 'w loader \<Rightarrow> (int \<times> 'w loader) option" where
  "client_send_request lib r cb s = do {
     s \<leftarrow> upd_ctx (\<lambda>c. c\<lparr>client_resp_cb := Some cb\<rparr>) s;
     s \<leftarrow> rpc_client_set_timeout lib RPC_CLIENT_REQUEST_TIMEOUT_US s;
     let (rc, w) = client_send lib r (env s);
     Some (rc, s\<lparr>env := w\<rparr>) }"

definition cap_string :: "string \<Rightarrow> json_val list \<Rightarrow> nat \<Rightarrow> int + slot" where
  "cap_string data vs p = (if jtype (vs ! p) \<noteq> JSON_STRING then Inl (- EINVAL) else Inr (Val p))"

definition cap_object :: "string \<Rightarrow> json_val list \<Rightarrow> nat \<Rightarrow> int + slot" where
  "cap_object data vs p = (if jtype (vs ! p) \<noteq> JSON_OBJECT_BEGIN then Inl (- EINVAL) else Inr (Val p))"

definition cap_array_or_null :: "string \<Rightarrow> json_val list \<Rightarrow> nat \<Rightarrow> int + slot" where
  "cap_array_or_null data vs p =
     (if jtype (vs ! p) \<noteq> JSON_ARRAY_BEGIN \<and> jtype (vs ! p) \<noteq> JSON_NULL then Inl (- EINVAL) else Inr (Val p))"

definition jsonrpc_cmd_decoders :: "'w rpc_lib \<Rightarrow> decoder list" where
  "jsonrpc_cmd_decoders lib =
     [\<lparr>dname = ''method'', dfunc = json_decode_string lib, doptional = False\<rparr>,
      \<lparr>dname = ''params'', dfunc = cap_object, doptional = True\<rparr>]"

definition subsystem_decoders :: "decoder list" where
  "subsystem_decoders =
     [\<lparr>dname = ''subsystem'', dfunc = cap_string, doptional = False\<rparr>,
      \<lparr>dname = ''config'', dfunc = cap_array_or_null, doptional = False\<rparr>]"

fun slot_string :: "slot option \<Rightarrow> string option" where
  "slot_string (Some (Str x)) = Some x"
| "slot_string _ = None"

fun slot_val :: "slot option \<Rightarrow> nat option" where
  "slot_val (Some (Val p)) = Some p"
| "slot_val _ = None"

text \<open>\<open>spdk_json_decode_object\<close> into \<open>struct config_entry\<close> and into the two fields of \<open>ctx\<close>; the outer option is its error.
  The results follow the order of the decoders.\<close>

record config_entry =
  cfg_method :: "string option"
  cfg_params :: "nat option"

definition decode_entry :: "'w rpc_lib \<Rightarrow> string \<Rightarrow> json_val list \<Rightarrow> nat \<Rightarrow> config_entry option" where
  "decode_entry lib data vs p = (case json_decode_object lib data vs p (jsonrpc_cmd_decoders lib) of
     Some [m, ps] \<Rightarrow> Some \<lparr>cfg_method = slot_string m, cfg_params = slot_val ps\<rparr> | _ \<Rightarrow> None)"

definition decode_subsystem :: "'w rpc_lib \<Rightarrow> string \<Rightarrow> json_val list \<Rightarrow> nat \<Rightarrow> (nat option \<times> nat option) option" where
  "decode_subsystem lib data vs p = (case json_decode_object lib data vs p subsystem_decoders of
     Some [n, cf] \<Rightarrow> Some (slot_val n, slot_val cf) | _ \<Rightarrow> None)"

text \<open>The text of \<open>params\<close> from its opening to its closing brace.\<close>

definition params_text :: "'w rpc_lib \<Rightarrow> string \<Rightarrow> json_val list \<Rightarrow> nat \<Rightarrow> string option" where
  "params_text lib data vs p = (let e = p + json_val_len lib vs p - 1 in
     if p < length vs \<and> e < length vs \<and> jstart (vs ! p) \<le> Suc (jstart (vs ! e)) \<and> jstart (vs ! e) < length data
     then Some (take (Suc (jstart (vs ! e)) - jstart (vs ! p)) (drop (jstart (vs ! p)) data))
     else None)"

definition params_of :: "'w rpc_lib \<Rightarrow> string \<Rightarrow> json_val list \<Rightarrow> nat option \<Rightarrow> string option option" where
  "params_of lib data vs params =
     (case params of None \<Rightarrow> Some None | Some p \<Rightarrow> map_option Some (params_text lib data vs p))"

unbundle bit_operations_syntax

text \<open>The two tests for skipping a method, lines 359 and 366.\<close>

definition skipped :: "32 word \<Rightarrow> 32 word \<Rightarrow> bool" where
  "skipped state_mask cur_state_mask \<longleftrightarrow> state_mask AND cur_state_mask \<noteq> cur_state_mask \<or>
     (state_mask AND (SPDK_RPC_STARTUP OR SPDK_RPC_RUNTIME) = SPDK_RPC_STARTUP OR SPDK_RPC_RUNTIME \<and>
      cur_state_mask = SPDK_RPC_RUNTIME)"

text \<open>Lines 378 to 416: build the request and send it.\<close>

definition send_config_entry :: "'w rpc_lib \<Rightarrow> string \<Rightarrow> nat option \<Rightarrow> 'w loader \<Rightarrow> 'w loader option" where
  "send_config_entry lib meth params s = do {
     c \<leftarrow> load_ctx s;
     text \<leftarrow> params_of lib (json_data c) (json_values c) params;
     let (ok, w) = client_create_request lib (env s);
     let s = s\<lparr>env := w\<rparr>;
     (if \<not> ok then app_json_config_load_done lib (- errno lib (env s)) s else do {
        let (ok, w) = begin_request lib (env s);
        let s = s\<lparr>env := w\<rparr>;
        (if \<not> ok then app_json_config_load_done lib (- ENOMEM) (call (client_free_request lib) s) else do {
           (rc, s) \<leftarrow> client_send_request lib
             \<lparr>req_id = rpc_request_id c, req_method = meth, req_params = text\<rparr> Config_entry_next s;
           (if rc \<noteq> 0 then app_json_config_load_done lib (- rc) s else Some s) }) }) }"

definition app_json_config_load_subsystem_config_entry :: "'w rpc_lib \<Rightarrow> 'w loader \<Rightarrow> 'w loader option" where
  "app_json_config_load_subsystem_config_entry lib s = do {
     c \<leftarrow> load_ctx s;
     (case config_it c of
        None \<Rightarrow> do {
          it \<leftarrow> subsystems_it c;
          s \<leftarrow> upd_ctx (\<lambda>c. c\<lparr>subsystems_it := json_next lib (json_values c) it\<rparr>) s;
          Some (post Load_subsystem s) }
      | Some it \<Rightarrow> (case decode_entry lib (json_data c) (json_values c) it of
          None \<Rightarrow> app_json_config_load_done lib (- EINVAL) s
        | Some cfg \<Rightarrow> do {
            meth \<leftarrow> cfg_method cfg;
            let (rc, state_mask) = rpc_get_method_state_mask lib meth;
            (if rc = - ENOENT then app_json_config_load_done lib rc s
             else if skipped state_mask (rpc_get_state lib (env s)) then do {
               s \<leftarrow> upd_ctx (\<lambda>c. c\<lparr>config_it := json_next lib (json_values c) it\<rparr>) s;
               Some (post Load_config_entry s) }
             else send_config_entry lib meth (cfg_params cfg) s) })) }"

definition app_json_config_load_subsystem_config_entry_next :: "'w rpc_lib \<Rightarrow> 'w loader \<Rightarrow> 'w loader option" where
  "app_json_config_load_subsystem_config_entry_next lib s = do {
     let s = call (client_free_response lib) s;
     c \<leftarrow> load_ctx s;
     it \<leftarrow> config_it c;
     s \<leftarrow> upd_ctx (\<lambda>c. c\<lparr>config_it := json_next lib (json_values c) it\<rparr>) s;
     app_json_config_load_subsystem_config_entry lib s }"

section \<open>Walking through the subsystems\<close>

definition app_json_config_load_subsystem :: "'w rpc_lib \<Rightarrow> 'w loader \<Rightarrow> 'w loader option" where
  "app_json_config_load_subsystem lib s = do {
     c \<leftarrow> load_ctx s;
     (case subsystems_it c of
        None \<Rightarrow> (if rpc_get_state lib (env s) = SPDK_RPC_STARTUP
          then Some (call (subsystem_init lib) (s\<lparr>init_pending := True\<rparr>))
          else app_json_config_load_done lib 0 s)
      | Some it \<Rightarrow> (case decode_subsystem lib (json_data c) (json_values c) it of
          None \<Rightarrow> app_json_config_load_done lib (- EINVAL) s
        | Some (n, cf) \<Rightarrow> do {
            s \<leftarrow> upd_ctx (\<lambda>c. c\<lparr>subsystem_name := n, config := cf,
                   config_it := json_array_first lib (json_values c) cf\<rparr>) s;
            app_json_config_load_subsystem_config_entry lib s })) }"

definition subsystem_init_done :: "'w rpc_lib \<Rightarrow> int \<Rightarrow> 'w loader \<Rightarrow> 'w loader option" where
  "subsystem_init_done lib rc s =
     (if rc \<noteq> 0 then app_json_config_load_done lib rc s else do {
        let s = call (rpc_set_state lib SPDK_RPC_RUNTIME) s;
        s \<leftarrow> upd_ctx (\<lambda>c. if subsystems c = None then c
               else c\<lparr>subsystems_it := json_array_first lib (json_values c) (subsystems c)\<rparr>) s;
        app_json_config_load_subsystem lib s })"

section \<open>The pollers\<close>

text \<open>The results of the pollers, always \<open>BUSY\<close> or \<open>IDLE\<close>, are statistics of SPDK and left out.\<close>

definition rpc_client_poller :: "'w rpc_lib \<Rightarrow> 'w loader \<Rightarrow> 'w loader option" where
  "rpc_client_poller lib s = do {
     c \<leftarrow> load_ctx s;
     let (rc, w) = client_poll lib (env s);
     let s = s\<lparr>env := w\<rparr>;
     (if rc = 0 then do {
        t \<leftarrow> rpc_client_check_timeout lib s;
        (if t = - ETIMEDOUT then rpc_client_set_timeout lib RPC_CLIENT_REQUEST_TIMEOUT_US s else Some s) }
      else if rc < 0 then app_json_config_load_done lib rc s
      else do {
        let (resp, w) = client_get_response lib (env s);
        let s = s\<lparr>env := w\<rparr>;
        r \<leftarrow> resp;
        s \<leftarrow> print_error lib r s;
        c \<leftarrow> load_ctx s;
        (if resp_error r \<noteq> None \<and> stop_on_error c then
           app_json_config_load_done lib (- EINVAL) (call (client_free_response lib) s)
         else do {
           cb \<leftarrow> client_resp_cb c;
           s \<leftarrow> upd_ctx (\<lambda>c. c\<lparr>client_resp_cb := None\<rparr>) s;
           (case cb of Config_entry_next \<Rightarrow> app_json_config_load_subsystem_config_entry_next lib s) }) }) }"

definition rpc_client_connect_poller :: "'w rpc_lib \<Rightarrow> 'w loader \<Rightarrow> 'w loader option" where
  "rpc_client_connect_poller lib s = do {
     c \<leftarrow> load_ctx s;
     let (rc, w) = client_poll lib (env s);
     let s = s\<lparr>env := w\<rparr>;
     (if rc \<noteq> - ENOTCONN then do {
        s \<leftarrow> upd_ctx (\<lambda>c. c\<lparr>client_conn_poller := Some Client_poller\<rparr>) s;
        app_json_config_load_subsystem lib s }
      else do {
        rc \<leftarrow> rpc_client_check_timeout lib s;
        (if rc \<noteq> 0 then app_json_config_load_done lib rc s else Some s) }) }"

section \<open>Starting the load\<close>

definition read_file :: "'w rpc_lib \<Rightarrow> string \<Rightarrow> 'w \<Rightarrow> string option \<times> 'w" where
  "read_file lib filename w = (let (f, w) = fopen lib filename w in
     (case f of None \<Rightarrow> (None, w)
      | Some h \<Rightarrow> (let (data, w) = file_load lib h w in (data, fclose lib h w))))"

definition app_json_config_read :: "'w rpc_lib \<Rightarrow> string \<Rightarrow> 'w loader \<Rightarrow> (int \<times> 'w loader) option" where
  "app_json_config_read lib config_file s =
     (let (json, w) = read_file lib config_file (env s); s = s\<lparr>env := w\<rparr> in
      (case json of None \<Rightarrow> Some (- errno lib (env s), s)
       | Some data \<Rightarrow> (let rc = fst (json_parse lib data None) in
           if rc < 0 then Some (rc, s)
           else (let (rc2, vs) = json_parse lib data (Some (nat rc)) in
             if rc2 \<noteq> rc then Some (rc2, s) else do {
               s \<leftarrow> upd_ctx (\<lambda>c. c\<lparr>json_data := data, json_values := vs\<rparr>) s;
               Some (0, s) }))))"

definition SPDK_DEFAULT_RPC_ADDR :: string where "SPDK_DEFAULT_RPC_ADDR = ''/var/tmp/spdk.sock''"

text \<open>\<open>sizeof (rpc_socket_path_temp)\<close>: the path of a \<open>struct sockaddr_un\<close> has 108 bytes.\<close>

definition SOCKET_PATH_SIZE :: nat where "SOCKET_PATH_SIZE = 109"

definition socket_path :: "'w rpc_lib \<Rightarrow> string option \<Rightarrow> 'w \<Rightarrow> string" where
  "socket_path lib rpc_addr w =
     (case rpc_addr of None \<Rightarrow> SPDK_DEFAULT_RPC_ADDR
      | Some a \<Rightarrow> if a = [] \<or> hd a \<noteq> CHR 0x2F then SPDK_DEFAULT_RPC_ADDR else a) @ ''.'' @ getpid lib w @ ''_config''"

text \<open>Lines 581 to 636; the result is \<open>False\<close> if they go to the label \<open>fail\<close>.\<close>

definition start_load :: "'w rpc_lib \<Rightarrow> string \<Rightarrow> string option \<Rightarrow> 'w loader \<Rightarrow> (bool \<times> 'w loader) option" where
  "start_load lib file rpc_addr s = do {
     (rc, s) \<leftarrow> app_json_config_read lib file s;
     (if rc \<noteq> 0 then Some (False, s) else do {
        c \<leftarrow> load_ctx s;
        let (rc, p) = json_find_array lib (json_values c) (json_data c) ''subsystems'';
        (if rc \<noteq> 0 \<and> rc \<noteq> - ENOENT then Some (False, s) else do {
           s \<leftarrow> (if rc = 0 then upd_ctx (\<lambda>c. c\<lparr>subsystems := p,
                  subsystems_it := json_array_first lib (json_values c) p\<rparr>) s else Some s);
           let path = socket_path lib rpc_addr (env s);
           (if length path \<ge> SOCKET_PATH_SIZE then Some (False, s) else do {
              s \<leftarrow> upd_ctx (\<lambda>c. c\<lparr>rpc_socket_path_temp := path\<rparr>) s;
              let (rc, w) = rpc_initialize lib path (env s);
              let s = s\<lparr>env := w\<rparr>;
              (if rc \<noteq> 0 then Some (False, s) else do {
                 let (ok, w) = client_connect lib path (env s);
                 let s = s\<lparr>env := w\<rparr>;
                 s \<leftarrow> upd_ctx (\<lambda>c. c\<lparr>client_conn := ok\<rparr>) s;
                 (if \<not> ok then Some (False, s) else do {
                    s \<leftarrow> rpc_client_set_timeout lib RPC_CLIENT_CONNECT_TIMEOUT_US s;
                    s \<leftarrow> upd_ctx (\<lambda>c. c\<lparr>client_conn_poller := Some Connect_poller\<rparr>) s;
                    Some (True, s) }) }) }) }) }) }"

definition spdk_subsystem_init_from_json_config_temp :: "'w rpc_lib \<Rightarrow> string \<Rightarrow> string option \<Rightarrow> bool \<Rightarrow>
    'w loader \<Rightarrow> 'w loader option" where
  "spdk_subsystem_init_from_json_config_temp lib file rpc_addr stop s = do {
     (ok, s) \<leftarrow> start_load lib file rpc_addr (s\<lparr>load_ctx := Some (zero_ctx\<lparr>stop_on_error := stop\<rparr>)\<rparr>);
     (if ok then Some s else app_json_config_load_done lib (- EINVAL) s) }"

section \<open>The SPDK thread\<close>

text \<open>What the thread may do next: run the oldest message, run the registered poller, or complete
  \<open>spdk_subsystem_init\<close>. An event that is not enabled does nothing.\<close>

datatype event = Message | Poll | Init_complete

fun run_msg :: "'w rpc_lib \<Rightarrow> msg \<Rightarrow> 'w loader \<Rightarrow> 'w loader option" where
  "run_msg lib Load_subsystem s = app_json_config_load_subsystem lib s"
| "run_msg lib Load_config_entry s = app_json_config_load_subsystem_config_entry lib s"

fun registered :: "'w loader \<Rightarrow> poller_fn option" where
  "registered s = Option.bind (load_ctx s) client_conn_poller"

fun run_event :: "'w rpc_lib \<Rightarrow> event \<Rightarrow> 'w loader \<Rightarrow> 'w loader option" where
  "run_event lib Message s = (case msgs s of [] \<Rightarrow> Some s | m # ms \<Rightarrow> run_msg lib m (s\<lparr>msgs := ms\<rparr>))"
| "run_event lib Poll s = (case registered s of None \<Rightarrow> Some s
     | Some Connect_poller \<Rightarrow> rpc_client_connect_poller lib s
     | Some Client_poller \<Rightarrow> rpc_client_poller lib s)"
| "run_event lib Init_complete s = (if \<not> init_pending s then Some s
     else (let (rc, w) = subsystem_init_result lib (env s) in
       subsystem_init_done lib rc (s\<lparr>init_pending := False, env := w\<rparr>)))"

fun run_events :: "'w rpc_lib \<Rightarrow> event list \<Rightarrow> 'w loader \<Rightarrow> 'w loader option" where
  "run_events lib [] s = Some s"
| "run_events lib (e # es) s = do { s \<leftarrow> run_event lib e s; run_events lib es s }"

definition new_loader :: "'w \<Rightarrow> 'w loader" where
  "new_loader w = \<lparr>load_ctx = None, msgs = [], init_pending = False, cb_calls = [], env = w\<rparr>"

end
