(* ===== verification/Paced_Machine.thy ===== *)
theory Paced_Machine
  imports Prelude
begin

text \<open>
  The contract of an event-driven component that is driven by its thread: at every moment at most one
  kind of event makes progress, the others do nothing, and only a bounded number of effective events is
  left. Whatever the order of the events, the component does its work in one order; and it ends once every
  kind of event has been run often enough.
\<close>

fun run_all :: "('e \<Rightarrow> 's \<Rightarrow> 's option) \<Rightarrow> 'e list \<Rightarrow> 's \<Rightarrow> 's option" where
  "run_all run [] s = Some s"
| "run_all run (e # es) s = do { s \<leftarrow> run e s; run_all run es s }"

lemma run_all_append: "run_all run (es @ fs) s = run_all run es s \<bind> run_all run fs"
  by (induction es arbitrary: s) (auto split: bind_splits)

text \<open>\<open>inv s todo r k a\<close>: from \<open>s\<close> the actions \<open>todo\<close> are still to be logged, the result will be \<open>r\<close>, at most \<open>k\<close>
  effective events are left and \<open>a\<close> is the kind of the next one, \<open>None\<close> at the end.\<close>

locale paced_machine =
  fixes run :: "'e \<Rightarrow> 's \<Rightarrow> 's option"
    and log :: "'s \<Rightarrow> 'l list"
    and inv :: "'s \<Rightarrow> 'l list \<Rightarrow> 'r \<Rightarrow> nat \<Rightarrow> 'e option \<Rightarrow> bool"
  assumes effective: "inv s todo r k (Some e) \<Longrightarrow> runs (run e s) (\<lambda>s'. \<exists>now todo' k' a.
      todo = now @ todo' \<and> log s' = log s @ now \<and> k' < k \<and> inv s' todo' r k' a)"
    and idle: "inv s todo r k a \<Longrightarrow> a \<noteq> Some e \<Longrightarrow> runs (run e s) (\<lambda>s'. log s' = log s \<and> inv s' todo r k a)"
    and ended: "inv s todo r k None \<Longrightarrow> todo = []"
begin

lemma one_event:
  assumes "inv s todo r k a"
  shows "runs (run e s) (\<lambda>s'. \<exists>now todo' k' a'. todo = now @ todo' \<and> log s' = log s @ now \<and> inv s' todo' r k' a' \<and>
    (if a = Some e then k' < k else k' = k \<and> a' = a))"
proof (cases "a = Some e")
  case True
  with assms have "inv s todo r k (Some e)" by simp
  from effective [OF this] True show ?thesis by (auto elim!: runs_mono)
next
  case False
  from idle [OF assms this] False show ?thesis
    by (rule_tac runs_mono) (auto intro: exI [of _ "[]"])
qed

text \<open>Any schedule.\<close>

lemma schedule:
  assumes "inv s todo r k a"
  shows "runs (run_all run es s) (\<lambda>s'. \<exists>now todo' k' a'. todo = now @ todo' \<and> log s' = log s @ now \<and>
    inv s' todo' r k' a' \<and> k' \<le> k \<and> (k' = k \<longrightarrow> a' = a) \<and> (k' = k \<longrightarrow> (\<forall>e\<in>set es. a \<noteq> Some e)))"
  using assms
proof (induction es arbitrary: s todo k a)
  case Nil
  then show ?case by (auto intro: exI [of _ "[]"])
next
  case (Cons e es)
  from one_event [OF Cons.prems, of e] obtain s1 now1 todo1 k1 a1 where 1: "run e s = Some s1"
      "todo = now1 @ todo1" "log s1 = log s @ now1" "inv s1 todo1 r k1 a1"
      "if a = Some e then k1 < k else k1 = k \<and> a1 = a"
    by (auto elim!: runsE)
  from Cons.IH [OF 1(4)] obtain s2 now2 todo2 k2 a2 where 2: "run_all run es s1 = Some s2"
      "todo1 = now2 @ todo2" "log s2 = log s1 @ now2" "inv s2 todo2 r k2 a2" "k2 \<le> k1"
      "k2 = k1 \<longrightarrow> a2 = a1" "k2 = k1 \<longrightarrow> (\<forall>e\<in>set es. a1 \<noteq> Some e)"
    by (auto elim!: runsE)
  have "run_all run (e # es) s = Some s2" using 1(1) 2(1) by simp
  moreover have "todo = (now1 @ now2) @ todo2" "log s2 = log s @ now1 @ now2" using 1 2 by simp_all
  moreover have "k2 \<le> k \<and> (k2 = k \<longrightarrow> a2 = a) \<and> (k2 = k \<longrightarrow> (\<forall>x\<in>set (e # es). a \<noteq> Some x))"
    using 1(5) 2(5-7) by (auto split: if_splits)
  ultimately show ?case using 2(4) by auto
qed

lemma stays_ended:
  assumes "inv s todo r k None"
  shows "runs (run_all run es s) (\<lambda>s'. log s' = log s \<and> inv s' todo r k None)"
  using assms
proof (induction es arbitrary: s)
  case (Cons e es)
  from idle [OF Cons.prems, of e] obtain s1 where "run e s = Some s1" "log s1 = log s" "inv s1 todo r k None"
    by (auto elim!: runsE)
  with Cons.IH [of s1] show ?case by simp
qed simp

text \<open>A round in which every kind of event occurs makes progress.\<close>

lemma rounds:
  assumes "inv s todo r k a" and "\<forall>E\<in>set Es. \<forall>e. e \<in> set E" and "k \<le> length Es"
  shows "runs (run_all run (concat Es) s) (\<lambda>s'. log s' = log s @ todo \<and> (\<exists>k'. inv s' [] r k' None))"
  using assms
proof (induction Es arbitrary: s todo k a)
  case Nil
  then have "a = None" using effective [of s todo r 0] by (cases a) (auto elim!: runsE)
  with Nil.prems(1) have i: "inv s todo r k None" by simp
  with ended [OF i] show ?case by auto
next
  case (Cons E Es)
  show ?case
  proof (cases a)
    case None
    with Cons.prems(1) have i: "inv s todo r k None" by simp
    from stays_ended [OF i, of "concat (E # Es)"] ended [OF i] show ?thesis by (auto elim!: runs_mono)
  next
    case (Some e)
    from schedule [OF Cons.prems(1), of E] obtain s1 now todo1 k1 a1 where 1: "run_all run E s = Some s1"
        "todo = now @ todo1" "log s1 = log s @ now" "inv s1 todo1 r k1 a1" "k1 \<le> k"
        "k1 = k \<longrightarrow> (\<forall>e\<in>set E. a \<noteq> Some e)"
      by (auto elim!: runsE)
    have "k1 \<noteq> k" using 1(6) Some Cons.prems(2) by auto
    then have "k1 \<le> length Es" using 1(5) Cons.prems(3) by simp
    from Cons.IH [OF 1(4) _ this] Cons.prems(2) 1(1-3) show ?thesis
      by (auto simp: run_all_append elim!: runs_mono)
  qed
qed

end

end
