(* ===== verification/Json_Load.thy ===== *)
theory Json_Load
  imports Json_Config Paced_Machine
begin

text \<open>
  What the loader of the configuration does. The laws of the RPC client and server speak of two
  observations of their state: the \<open>link\<close>, which tells whether the client is connected and a request is under way,
  and the \<open>log\<close> of what the server has been asked to do. The work of the loader is given by \<open>load_spec\<close>, a
  function of the configuration.
\<close>

section \<open>The laws of the library\<close>

datatype link = Connecting nat | Idle | Awaiting rpc_request nat | Answered rpc_request
datatype action = Request rpc_request | Init_subsystems

text \<open>What is fixed during a load: the observations, the number of polls after which a response is there at the
  latest, the time until which the connection is made, the errors in the responses, the requests after which the connection
  breaks instead of a response, with the error of the poll, and the result of the initialisation.\<close>

record 'w view =
  link :: "'w \<Rightarrow> link"
  log :: "'w \<Rightarrow> action list"
  delay :: nat
  horizon :: "64 word"
  answer :: "rpc_request \<Rightarrow> string list option"
  breaks :: "rpc_request \<Rightarrow> int option"
  init_rc :: int

definition keeps :: "'w rpc_lib \<Rightarrow> 'w view \<Rightarrow> 'w \<Rightarrow> 'w \<Rightarrow> bool" where
  "keeps lib v w w' \<longleftrightarrow> log v w' = log v w \<and> rpc_get_state lib w' = rpc_get_state lib w"

text \<open>\<open>spdk_jsonrpc_client_poll\<close>, \<open>_get_response\<close> and \<open>_send_request\<close>.\<close>

definition link_laws :: "'w rpc_lib \<Rightarrow> 'w view \<Rightarrow> bool" where
  "link_laws lib v \<longleftrightarrow>
     (\<forall>w n. link v w = Connecting (Suc n) \<longrightarrow>
        (\<exists>w'. client_poll lib w = (- ENOTCONN, w') \<and> link v w' = Connecting n \<and> keeps lib v w w')) \<and>
     (\<forall>w. link v w = Connecting 0 \<longrightarrow> (\<exists>w'. client_poll lib w = (0, w') \<and> link v w' = Idle \<and> keeps lib v w w')) \<and>
     (\<forall>w. link v w = Idle \<longrightarrow> (\<exists>w'. client_poll lib w = (0, w') \<and> link v w' = Idle \<and> keeps lib v w w')) \<and>
     (\<forall>w r n. link v w = Awaiting r (Suc n) \<longrightarrow>
        (\<exists>w'. client_poll lib w = (0, w') \<and> link v w' = Awaiting r n \<and> keeps lib v w w')) \<and>
     (\<forall>w r rc. link v w = Awaiting r 0 \<and> breaks v r = Some rc \<longrightarrow>
        (\<exists>w'. client_poll lib w = (rc, w') \<and> rc < 0 \<and> log v w' = log v w)) \<and>
     (\<forall>w r. link v w = Awaiting r 0 \<and> breaks v r = None \<longrightarrow>
        (\<exists>w'. client_poll lib w = (1, w') \<and> link v w' = Answered r \<and> keeps lib v w w')) \<and>
     (\<forall>w r. link v w = Answered r \<longrightarrow> (\<exists>w'. client_get_response lib w = (Some \<lparr>resp_error = answer v r\<rparr>, w') \<and>
        link v w' = Idle \<and> keeps lib v w w')) \<and>
     (\<forall>w r. link v w = Idle \<longrightarrow> (\<exists>w' n. client_send lib r w = (0, w') \<and> link v w' = Awaiting r n \<and> n \<le> delay v \<and>
        log v w' = log v w @ [Request r] \<and> rpc_get_state lib w' = rpc_get_state lib w)) \<and>
     (\<forall>w n. link v w = Connecting n \<longrightarrow> get_ticks lib w \<le> horizon v)"

text \<open>The calls that do not concern the connection, and the two that change the state of the server. The
  errors of the responses fit into the buffer in which they are printed.\<close>

definition stays :: "'w rpc_lib \<Rightarrow> 'w view \<Rightarrow> 'w \<Rightarrow> 'w \<Rightarrow> bool" where
  "stays lib v w w' \<longleftrightarrow> keeps lib v w w' \<and> link v w' = link v w"

definition server_laws :: "'w rpc_lib \<Rightarrow> 'w view \<Rightarrow> bool" where
  "server_laws lib v \<longleftrightarrow>
     (\<forall>w. \<exists>w'. client_create_request lib w = (True, w') \<and> stays lib v w w') \<and>
     (\<forall>w. \<exists>w'. begin_request lib w = (True, w') \<and> stays lib v w w') \<and>
     (\<forall>w. stays lib v w (client_free_response lib w)) \<and>
     (\<forall>w. stays lib v w (snd (json_write_begin lib w))) \<and>
     (\<forall>w st. rpc_get_state lib (rpc_set_state lib st w) = st \<and> log v (rpc_set_state lib st w) = log v w \<and>
        link v (rpc_set_state lib st w) = link v w) \<and>
     (\<forall>w. log v (subsystem_init lib w) = log v w @ [Init_subsystems] \<and> link v (subsystem_init lib w) = link v w \<and>
        rpc_get_state lib (subsystem_init lib w) = rpc_get_state lib w) \<and>
     (\<forall>w. \<exists>w'. subsystem_init_result lib w = (init_rc v, w') \<and> stays lib v w w') \<and>
     (\<forall>w. log v (client_close lib w) = log v w \<and> log v (rpc_finish lib w) = log v w) \<and>
     (\<forall>r xs. answer v r = Some xs \<longrightarrow> sum_list (map length xs) \<le> BUF_SIZE)"

section \<open>The work of the loader\<close>

text \<open>A configuration is a list of subsystems, each a list of calls; \<open>Bad\<close> is an object that the decoders refuse.\<close>

datatype item = Bad | Call string "string option"

definition request_of :: "string \<Rightarrow> string option \<Rightarrow> rpc_request" where
  "request_of m ps = \<lparr>req_id = 0, req_method = m, req_params = ps\<rparr>"

text \<open>One pass over the items in the RPC state \<open>st\<close>: what is sent, and the error that ends the load. The argument
  \<open>ends\<close> tells which requests do, and with which code.\<close>

fun pass :: "(string \<Rightarrow> int \<times> 32 word) \<Rightarrow> (rpc_request \<Rightarrow> int option) \<Rightarrow> 32 word \<Rightarrow> item list \<Rightarrow> action list \<times> int option" where
  "pass modes ends st [] = ([], None)"
| "pass modes ends st (Bad # xs) = ([], Some (- EINVAL))"
| "pass modes ends st (Call m ps # xs) =
     (if fst (modes m) = - ENOENT then ([], Some (- ENOENT))
      else if skipped (snd (modes m)) st then pass modes ends st xs
      else (case ends (request_of m ps) of Some rc \<Rightarrow> ([Request (request_of m ps)], Some rc)
        | None \<Rightarrow> (case pass modes ends st xs of (acts, e) \<Rightarrow> (Request (request_of m ps) # acts, e))))"

definition runtime_spec :: "(string \<Rightarrow> int \<times> 32 word) \<Rightarrow> (rpc_request \<Rightarrow> int option) \<Rightarrow> item list \<Rightarrow> action list \<times> int" where
  "runtime_spec modes ends xs = (case pass modes ends SPDK_RPC_RUNTIME xs of (acts, e) \<Rightarrow>
     (acts, case e of None \<Rightarrow> 0 | Some rc \<Rightarrow> rc))"

text \<open>\<open>xs\<close> is what is left of the first pass, \<open>all\<close> the whole configuration for the second one. The second pass
  follows if the initialisation succeeds.\<close>

definition after_init :: "int \<Rightarrow> action list \<times> int \<Rightarrow> action list \<times> int" where
  "after_init rc R = (if rc \<noteq> 0 then ([], rc) else R)"

definition startup_spec :: "(string \<Rightarrow> int \<times> 32 word) \<Rightarrow> (rpc_request \<Rightarrow> int option) \<Rightarrow> int \<Rightarrow> item list \<Rightarrow> item list \<Rightarrow> action list \<times> int" where
  "startup_spec modes ends irc all xs = (case pass modes ends SPDK_RPC_STARTUP xs of
     (acts, Some rc) \<Rightarrow> (acts, rc)
   | (acts, None) \<Rightarrow> (case after_init irc (runtime_spec modes ends all) of (acts', rc) \<Rightarrow> (acts @ Init_subsystems # acts', rc)))"

definition load_spec :: "(string \<Rightarrow> int \<times> 32 word) \<Rightarrow> (rpc_request \<Rightarrow> int option) \<Rightarrow> int \<Rightarrow> item list list \<Rightarrow> action list \<times> int" where
  "load_spec modes ends irc doc = startup_spec modes ends irc (concat doc) (concat doc)"

section \<open>The configuration in memory\<close>

fun entries_at :: "'w rpc_lib \<Rightarrow> string \<Rightarrow> json_val list \<Rightarrow> nat option \<Rightarrow> item list \<Rightarrow> bool" where
  "entries_at lib data vs it [] \<longleftrightarrow> it = None"
| "entries_at lib data vs it (Bad # xs) \<longleftrightarrow> (\<exists>p. it = Some p \<and> decode_entry lib data vs p = None)"
| "entries_at lib data vs it (Call m ps # xs) \<longleftrightarrow> (\<exists>p pp. it = Some p \<and>
     decode_entry lib data vs p = Some \<lparr>cfg_method = Some m, cfg_params = pp\<rparr> \<and>
     params_of lib data vs pp = Some ps \<and> entries_at lib data vs (json_next lib vs p) xs)"

fun subsystems_at :: "'w rpc_lib \<Rightarrow> string \<Rightarrow> json_val list \<Rightarrow> nat option \<Rightarrow> item list list \<Rightarrow> bool" where
  "subsystems_at lib data vs it [] \<longleftrightarrow> it = None"
| "subsystems_at lib data vs it (xs # subs) \<longleftrightarrow> (\<exists>p. it = Some p \<and>
     (case decode_subsystem lib data vs p of None \<Rightarrow> xs = [Bad]
      | Some (n, cf) \<Rightarrow> entries_at lib data vs (json_array_first lib vs cf) xs) \<and>
     subsystems_at lib data vs (json_next lib vs p) subs)"

text \<open>A job: the parsed file, the configuration it holds and the error policy.\<close>

record job =
  job_data :: string
  job_values :: "json_val list"
  job_doc :: "item list list"
  job_stop :: bool

definition job_ctx :: "'w rpc_lib \<Rightarrow> job \<Rightarrow> load_json_config_ctx \<Rightarrow> bool" where
  "job_ctx lib j c \<longleftrightarrow> json_data c = job_data j \<and> json_values c = job_values j \<and> stop_on_error c = job_stop j \<and>
     rpc_request_id c = 0 \<and>
     subsystems_at lib (job_data j) (job_values j) (if subsystems c = None then None
       else json_array_first lib (job_values j) (subsystems c)) (job_doc j)"

abbreviation (input) subs_of :: "'w rpc_lib \<Rightarrow> job \<Rightarrow> nat option \<Rightarrow> item list list \<Rightarrow> bool" where
  "subs_of lib j \<equiv> subsystems_at lib (job_data j) (job_values j)"

abbreviation (input) items_of :: "'w rpc_lib \<Rightarrow> job \<Rightarrow> nat option \<Rightarrow> item list \<Rightarrow> bool" where
  "items_of lib j \<equiv> entries_at lib (job_data j) (job_values j)"

text \<open>The code with which a request ends the load: the connection breaks, or it is answered by an error and errors
  are to end the load.\<close>

definition ends :: "'w view \<Rightarrow> job \<Rightarrow> rpc_request \<Rightarrow> int option" where
  "ends v j r = (case breaks v r of Some rc \<Rightarrow> Some rc
     | None \<Rightarrow> if job_stop j \<and> answer v r \<noteq> None then Some (- EINVAL) else None)"

definition after_request :: "'w view \<Rightarrow> job \<Rightarrow> rpc_request \<Rightarrow> action list \<times> int \<Rightarrow> action list \<times> int" where
  "after_request v j r R = (case ends v j r of Some rc \<Rightarrow> ([], rc) | None \<Rightarrow> R)"

definition outcome :: "'w rpc_lib \<Rightarrow> 'w view \<Rightarrow> job \<Rightarrow> 32 word \<Rightarrow> item list \<Rightarrow> action list \<times> int" where
  "outcome lib v j st xs =
     (if st = SPDK_RPC_STARTUP then startup_spec (rpc_get_method_state_mask lib) (ends v j) (init_rc v) (concat (job_doc j)) xs
      else runtime_spec (rpc_get_method_state_mask lib) (ends v j) xs)"

section \<open>The phases of a load\<close>

text \<open>The number of effective events that are left: messages, polls until a response and the initialisation.\<close>

definition weight :: "nat \<Rightarrow> item list list \<Rightarrow> nat" where
  "weight d subs = (\<Sum>xs\<leftarrow>subs. Suc (length xs * (d + 2)))"

definition effort :: "'w view \<Rightarrow> job \<Rightarrow> 32 word \<Rightarrow> item list list \<Rightarrow> nat" where
  "effort v j st subs = weight (delay v) subs +
     (if st = SPDK_RPC_STARTUP then weight (delay v) (job_doc j) + 2 else 1)"

definition running :: "'w rpc_lib \<Rightarrow> job \<Rightarrow> 'w loader \<Rightarrow> load_json_config_ctx \<Rightarrow> bool" where
  "running lib j s c \<longleftrightarrow> load_ctx s = Some c \<and> job_ctx lib j c \<and> cb_calls s = [] \<and>
     rpc_get_state lib (env s) \<in> {SPDK_RPC_STARTUP, SPDK_RPC_RUNTIME}"

abbreviation (input) rpc_st :: "'w rpc_lib \<Rightarrow> 'w loader \<Rightarrow> 32 word" where
  "rpc_st lib s \<equiv> rpc_get_state lib (env s)"

inductive phase :: "'w rpc_lib \<Rightarrow> 'w view \<Rightarrow> job \<Rightarrow> 'w loader \<Rightarrow> action list \<times> int \<Rightarrow> nat \<Rightarrow> event option \<Rightarrow> bool"
  for lib v j where
  connecting: "running lib j s c \<Longrightarrow> rpc_st lib s = SPDK_RPC_STARTUP \<Longrightarrow> msgs s = [] \<Longrightarrow> \<not> init_pending s \<Longrightarrow>
    client_conn_poller c = Some Connect_poller \<Longrightarrow> link v (env s) = Connecting n \<Longrightarrow> horizon v \<le> ctx_timeout c \<Longrightarrow>
    subs_of lib j (subsystems_it c) (job_doc j) \<Longrightarrow>
    phase lib v j s (outcome lib v j SPDK_RPC_STARTUP (concat (job_doc j)))
      (effort v j SPDK_RPC_STARTUP (job_doc j) + n + 1) (Some Poll)"
| at_subsystem: "running lib j s c \<Longrightarrow> msgs s = [Load_subsystem] \<Longrightarrow> \<not> init_pending s \<Longrightarrow>
    client_conn_poller c = Some Client_poller \<Longrightarrow> link v (env s) = Idle \<Longrightarrow> subs_of lib j (subsystems_it c) subs \<Longrightarrow>
    phase lib v j s (outcome lib v j (rpc_st lib s) (concat subs)) (effort v j (rpc_st lib s) subs) (Some Message)"
| at_entry: "running lib j s c \<Longrightarrow> msgs s = [Load_config_entry] \<Longrightarrow> \<not> init_pending s \<Longrightarrow>
    client_conn_poller c = Some Client_poller \<Longrightarrow> link v (env s) = Idle \<Longrightarrow> subsystems_it c = Some p \<Longrightarrow>
    subs_of lib j (json_next lib (job_values j) p) subs \<Longrightarrow> items_of lib j (config_it c) xs \<Longrightarrow>
    phase lib v j s (outcome lib v j (rpc_st lib s) (xs @ concat subs)) (effort v j (rpc_st lib s) (xs # subs)) (Some Message)"
| waiting: "running lib j s c \<Longrightarrow> msgs s = [] \<Longrightarrow> \<not> init_pending s \<Longrightarrow>
    client_conn_poller c = Some Client_poller \<Longrightarrow> link v (env s) = Awaiting r n \<Longrightarrow> subsystems_it c = Some p \<Longrightarrow>
    client_resp_cb c = Some Config_entry_next \<Longrightarrow> config_it c = Some q \<Longrightarrow>
    subs_of lib j (json_next lib (job_values j) p) subs \<Longrightarrow> items_of lib j (json_next lib (job_values j) q) xs \<Longrightarrow>
    phase lib v j s (after_request v j r (outcome lib v j (rpc_st lib s) (xs @ concat subs)))
      (effort v j (rpc_st lib s) (xs # subs) + n + 1) (Some Poll)"
| initialising: "running lib j s c \<Longrightarrow> msgs s = [] \<Longrightarrow> init_pending s \<Longrightarrow> client_conn_poller c = Some Client_poller \<Longrightarrow>
    link v (env s) = Idle \<Longrightarrow> subsystems_it c = None \<Longrightarrow>
    phase lib v j s (after_init (init_rc v) (outcome lib v j SPDK_RPC_RUNTIME (concat (job_doc j))))
      (effort v j SPDK_RPC_RUNTIME (job_doc j)) (Some Init_complete)"
| finished: "load_ctx s = None \<Longrightarrow> msgs s = [] \<Longrightarrow> \<not> init_pending s \<Longrightarrow> cb_calls s = [rc] \<Longrightarrow>
    phase lib v j s ([], rc) 0 None"

end
