(* ===== verification/Json_Steps.thy ===== *)
theory Json_Steps
  imports Json_Load
begin

text \<open>
  Every event takes a load from one phase to another: the handlers of \<open>json_config.c\<close> against the work that
  \<open>load_spec\<close> prescribes.
\<close>

section \<open>The work in one step\<close>

lemma states_distinct [simp]: "SPDK_RPC_STARTUP \<noteq> SPDK_RPC_RUNTIME" "SPDK_RPC_RUNTIME \<noteq> SPDK_RPC_STARTUP"
  by (simp_all add: SPDK_RPC_STARTUP_def SPDK_RPC_RUNTIME_def)

lemmas spec_defs = outcome_def startup_spec_def runtime_spec_def

lemma outcome_ends:
  "outcome lib v j SPDK_RPC_STARTUP [] = (Init_subsystems # fst (after_init (init_rc v) (outcome lib v j SPDK_RPC_RUNTIME (concat (job_doc j)))),
     snd (after_init (init_rc v) (outcome lib v j SPDK_RPC_RUNTIME (concat (job_doc j)))))"
  "outcome lib v j SPDK_RPC_RUNTIME [] = ([], 0)"
  "outcome lib v j st (Bad # xs) = ([], - EINVAL)"
  by (simp_all add: spec_defs split: prod.splits)

lemma outcome_call:
  assumes "rpc_get_method_state_mask lib m = (rc, k)"
  shows "outcome lib v j st (Call m ps # xs) =
     (if rc = - ENOENT then ([], - ENOENT)
      else if skipped k (if st = SPDK_RPC_STARTUP then SPDK_RPC_STARTUP else SPDK_RPC_RUNTIME) then outcome lib v j st xs
      else (Request (request_of m ps) # fst (after_request v j (request_of m ps) (outcome lib v j st xs)),
        snd (after_request v j (request_of m ps) (outcome lib v j st xs))))"
  using assms by (auto simp: spec_defs after_request_def split: prod.splits option.splits)

lemma weight_Cons [simp]: "weight d (xs # subs) = Suc (length xs * (d + 2)) + weight d subs"
  by (simp add: weight_def)

lemma effort_pos: "0 < effort v j st subs"
  by (simp add: effort_def)

lemma effort_less:
  "effort v j st subs < effort v j st (xs # subs)"
  "effort v j st (xs # subs) < effort v j st ((x # xs) # subs)"
  "n \<le> delay v \<Longrightarrow> effort v j st (xs # subs) + n + 1 < effort v j st ((x # xs) # subs)"
  by (simp_all add: effort_def)

definition advances :: "'w rpc_lib \<Rightarrow> 'w view \<Rightarrow> job \<Rightarrow> 'w \<Rightarrow> action list \<times> int \<Rightarrow> nat \<Rightarrow> 'w loader option \<Rightarrow> bool" where
  "advances lib v j w R k m \<longleftrightarrow> runs m (\<lambda>s'. \<exists>now R' k' a. phase lib v j s' R' k' a \<and> log v (env s') = log v w @ now \<and>
     fst R = now @ fst R' \<and> snd R = snd R' \<and> k' < k)"

lemma advancesI:
  assumes "m = Some s'" and "phase lib v j s' R' k' a" and "log v (env s') = log v w @ now"
    and "fst R = now @ fst R'" and "snd R = snd R'" and "k' < k"
  shows "advances lib v j w R k m"
  using assms unfolding advances_def by auto

lemma advances_weaken: "advances lib v j w R k m \<Longrightarrow> k \<le> k' \<Longrightarrow> advances lib v j w R k' m"
  unfolding advances_def by (erule runs_mono) (blast intro: less_le_trans)

section \<open>The handlers\<close>

lemmas loader_simps = upd_ctx_def call_def post_def

lemma job_ctx_update [simp]:
  "job_ctx lib j (c\<lparr>subsystems_it := x\<rparr>) = job_ctx lib j c"
  "job_ctx lib j (c\<lparr>subsystem_name := x\<rparr>) = job_ctx lib j c"
  "job_ctx lib j (c\<lparr>config := x\<rparr>) = job_ctx lib j c"
  "job_ctx lib j (c\<lparr>config_it := x\<rparr>) = job_ctx lib j c"
  "job_ctx lib j (c\<lparr>client_conn_poller := y\<rparr>) = job_ctx lib j c"
  "job_ctx lib j (c\<lparr>client_resp_cb := z\<rparr>) = job_ctx lib j c"
  "job_ctx lib j (c\<lparr>ctx_timeout := u\<rparr>) = job_ctx lib j c"
  "job_ctx lib j (c\<lparr>rpc_socket_path_temp := path\<rparr>) = job_ctx lib j c"
  "job_ctx lib j (c\<lparr>client_conn := b\<rparr>) = job_ctx lib j c"
  by (simp_all add: job_ctx_def)

lemma load_done_advances:
  assumes "server_laws lib v" and "load_ctx s = Some c" and "msgs s = []" and "\<not> init_pending s" and "cb_calls s = []"
    and "log v (env s) = log v w" and "0 < k"
  shows "advances lib v j w ([], rc) k (app_json_config_load_done lib rc s)"
proof -
  let ?w = "rpc_finish lib (if client_conn c then client_close lib (env s) else env s)"
  let ?s = "s\<lparr>load_ctx := None, env := ?w, cb_calls := [rc]\<rparr>"
  have e: "app_json_config_load_done lib rc s = Some ?s"
    using assms by (simp add: app_json_config_load_done_def loader_simps)
  have ph: "phase lib v j ?s ([], rc) 0 None" by (rule phase.finished) (use assms in simp_all)
  have l: "log v ?w = log v w" using assms(1,6) by (simp add: server_laws_def)
  show ?thesis using assms(7) l
    by (intro advancesI [where now = "[]", OF e ph]) simp_all
qed

lemma send_advances:
  assumes laws: "link_laws lib v" "server_laws lib v"
    and s: "running lib j s c" "msgs s = []" "\<not> init_pending s" "client_conn_poller c = Some Client_poller"
      "link v (env s) = Idle" "subsystems_it c = Some p" "config_it c = Some q"
    and j: "subs_of lib j (json_next lib (job_values j) p) subs" "items_of lib j (json_next lib (job_values j) q) xs"
      "params_of lib (job_data j) (job_values j) pp = Some ps"
  shows "runs (send_config_entry lib m pp s) (\<lambda>s'. \<exists>n\<le>delay v.
    phase lib v j s' (after_request v j (request_of m ps) (outcome lib v j (rpc_st lib s) (xs @ concat subs)))
      (effort v j (rpc_st lib s) (xs # subs) + n + 1) (Some Poll) \<and>
    log v (env s') = log v (env s) @ [Request (request_of m ps)])"
proof -
  from laws(2) obtain w1 where 1: "client_create_request lib (env s) = (True, w1)" "stays lib v (env s) w1"
    unfolding server_laws_def by blast
  from laws(2) obtain w2 where 2: "begin_request lib w1 = (True, w2)" "stays lib v w1 w2"
    unfolding server_laws_def by blast
  have w2: "link v w2 = Idle" "log v w2 = log v (env s)" "rpc_get_state lib w2 = rpc_st lib s"
    using 1(2) 2(2) s(5) by (simp_all add: stays_def keeps_def)
  from laws(1) w2(1) obtain w3 n where 3: "client_send lib (request_of m ps) w2 = (0, w3)"
      "link v w3 = Awaiting (request_of m ps) n" "n \<le> delay v" "log v w3 = log v w2 @ [Request (request_of m ps)]"
      "rpc_get_state lib w3 = rpc_get_state lib w2"
    unfolding link_laws_def by blast
  let ?c = "c\<lparr>client_resp_cb := Some Config_entry_next, ctx_timeout := get_ticks lib w2 +
    RPC_CLIENT_REQUEST_TIMEOUT_US * get_ticks_hz lib w2 div 1000000\<rparr>"
  let ?s = "s\<lparr>env := w3, load_ctx := Some ?c\<rparr>"
  from s(1) have c: "load_ctx s = Some c" "json_data c = job_data j" "json_values c = job_values j" "rpc_request_id c = 0"
    by (simp_all add: running_def job_ctx_def)
  have e: "send_config_entry lib m pp s = Some ?s" using 1 2 3 c j(3)
    by (simp add: send_config_entry_def client_send_request_def rpc_client_set_timeout_def loader_simps request_of_def)
  have ph: "phase lib v j ?s (after_request v j (request_of m ps) (outcome lib v j (rpc_st lib ?s) (xs @ concat subs))) (effort v j (rpc_st lib ?s) (xs # subs) + n + 1) (Some Poll)"
    by (rule phase.waiting [of _ _ _ ?c _ _ _ p q])
      (use s j 3 w2 in \<open>simp_all add: running_def\<close>)
  have st: "rpc_st lib ?s = rpc_st lib s" using 3 w2 by simp
  show ?thesis unfolding e runs_Some
    by (intro exI [of _ n] conjI, rule 3, rule ph [unfolded st]) (simp add: 3 w2)
qed

text \<open>An entry that is a call: it is refused, skipped or sent.\<close>

lemma call_advances:
  assumes laws: "link_laws lib v" "server_laws lib v"
    and s: "running lib j s c" "msgs s = []" "\<not> init_pending s" "client_conn_poller c = Some Client_poller"
      "link v (env s) = Idle" "subsystems_it c = Some p" "log v (env s) = log v w"
    and j: "subs_of lib j (json_next lib (job_values j) p) subs" "items_of lib j (config_it c) (Call m ps # ys)"
  shows "advances lib v j w (outcome lib v j (rpc_st lib s) ((Call m ps # ys) @ concat subs))
    (effort v j (rpc_st lib s) ((Call m ps # ys) # subs)) (app_json_config_load_subsystem_config_entry lib s)"
proof -
  from s(1) have c: "load_ctx s = Some c" "json_data c = job_data j" "json_values c = job_values j" "cb_calls s = []"
      "(if rpc_st lib s = SPDK_RPC_STARTUP then SPDK_RPC_STARTUP else SPDK_RPC_RUNTIME) = rpc_st lib s"
    by (auto simp: running_def job_ctx_def)
  note def = app_json_config_load_subsystem_config_entry_def
  from j(2) obtain q pp where q: "config_it c = Some q" "params_of lib (job_data j) (job_values j) pp = Some ps"
      "decode_entry lib (job_data j) (job_values j) q = Some \<lparr>cfg_method = Some m, cfg_params = pp\<rparr>"
      "items_of lib j (json_next lib (job_values j) q) ys"
    by auto
  obtain rc k where k: "rpc_get_method_state_mask lib m = (rc, k)" by fastforce
  consider "rc = - ENOENT" | "rc \<noteq> - ENOENT" "skipped k (rpc_st lib s)" | "rc \<noteq> - ENOENT" "\<not> skipped k (rpc_st lib s)"
    by blast
  then show ?thesis
  proof cases
    case 1
    have "advances lib v j w ([], - ENOENT) (effort v j (rpc_st lib s) ((Call m ps # ys) # subs))
        (app_json_config_load_done lib (- ENOENT) s)"
      by (rule load_done_advances [OF laws(2) c(1)]) (use s c effort_pos in simp_all)
    with 1 q k c show ?thesis by (simp add: def outcome_call [OF k])
  next
    case 2
    let ?c = "c\<lparr>config_it := json_next lib (job_values j) q\<rparr>"
    let ?s = "s\<lparr>load_ctx := Some ?c, msgs := [Load_config_entry]\<rparr>"
    have e: "app_json_config_load_subsystem_config_entry lib s = Some ?s"
      using 2 q k c s by (simp add: def loader_simps)
    have ph: "phase lib v j ?s (outcome lib v j (rpc_st lib ?s) (ys @ concat subs))
        (effort v j (rpc_st lib ?s) (ys # subs)) (Some Message)"
      by (rule phase.at_entry [of _ _ _ ?c _ p]) (use s j q in \<open>simp_all add: running_def\<close>)
    show ?thesis using 2 s(7) c(5) effort_less(2)
      by (intro advancesI [where now = "[]", OF e ph]) (simp_all add: outcome_call [OF k])
  next
    case 3
    from send_advances [OF laws s(1-6) q(1) j(1) q(4,2), of m] obtain s' n where s': "n \<le> delay v"
        "send_config_entry lib m pp s = Some s'" "log v (env s') = log v (env s) @ [Request (request_of m ps)]"
        "phase lib v j s' (after_request v j (request_of m ps) (outcome lib v j (rpc_st lib s) (ys @ concat subs))) (effort v j (rpc_st lib s) (ys # subs) + n + 1) (Some Poll)"
      by (auto simp: runs_iff)
    have "app_json_config_load_subsystem_config_entry lib s = Some s'" using 3 q k c s'(2) by (simp add: def)
    then show ?thesis using s'(3) s(7) 3 c(5) effort_less(3) [OF s'(1)]
      by (intro advancesI [where now = "[Request (request_of m ps)]", OF _ s'(4)])
        (simp_all add: outcome_call [OF k])
  qed
qed

lemma entry_advances:
  assumes laws: "link_laws lib v" "server_laws lib v"
    and s: "running lib j s c" "msgs s = []" "\<not> init_pending s" "client_conn_poller c = Some Client_poller"
      "link v (env s) = Idle" "subsystems_it c = Some p" "log v (env s) = log v w"
    and j: "subs_of lib j (json_next lib (job_values j) p) subs" "items_of lib j (config_it c) xs"
  shows "advances lib v j w (outcome lib v j (rpc_st lib s) (xs @ concat subs)) (effort v j (rpc_st lib s) (xs # subs))
    (app_json_config_load_subsystem_config_entry lib s)"
proof -
  from s(1) have c: "load_ctx s = Some c" "json_data c = job_data j" "json_values c = job_values j" "cb_calls s = []"
    by (auto simp: running_def job_ctx_def)
  note def = app_json_config_load_subsystem_config_entry_def
  have err: "advances lib v j w ([], rc) (effort v j (rpc_st lib s) (xs # subs)) (app_json_config_load_done lib rc s)" for rc
    by (rule load_done_advances [OF laws(2) c(1)]) (use s c effort_pos in simp_all)
  show ?thesis
  proof (cases xs)
    case Nil
    let ?c = "c\<lparr>subsystems_it := json_next lib (job_values j) p\<rparr>"
    let ?s = "s\<lparr>load_ctx := Some ?c, msgs := [Load_subsystem]\<rparr>"
    have e: "app_json_config_load_subsystem_config_entry lib s = Some ?s"
      using Nil j(2) c s by (simp add: def loader_simps)
    have ph: "phase lib v j ?s (outcome lib v j (rpc_st lib ?s) (concat subs)) (effort v j (rpc_st lib ?s) subs) (Some Message)"
      by (rule phase.at_subsystem [of _ _ _ ?c]) (use s j in \<open>simp_all add: running_def\<close>)
    show ?thesis using Nil s(7) effort_less(1)
      by (intro advancesI [where now = "[]", OF e ph]) simp_all
  next
    case (Cons x ys)
    show ?thesis
    proof (cases x)
      case Bad
      with err [of "- EINVAL"] Cons j(2) c show ?thesis by (auto simp: def outcome_ends)
    next
      case (Call m ps)
      with call_advances [OF laws s j(1), of m ps ys] Cons j(2) show ?thesis by simp
    qed
  qed
qed

lemma subsystem_advances:
  assumes laws: "link_laws lib v" "server_laws lib v"
    and s: "running lib j s c" "msgs s = []" "\<not> init_pending s" "client_conn_poller c = Some Client_poller"
      "link v (env s) = Idle" "log v (env s) = log v w"
    and j: "subs_of lib j (subsystems_it c) subs"
  shows "advances lib v j w (outcome lib v j (rpc_st lib s) (concat subs)) (effort v j (rpc_st lib s) subs)
    (app_json_config_load_subsystem lib s)"
proof -
  from s(1) have c: "load_ctx s = Some c" "json_data c = job_data j" "json_values c = job_values j" "cb_calls s = []"
      "rpc_st lib s = SPDK_RPC_STARTUP \<or> rpc_st lib s = SPDK_RPC_RUNTIME"
    by (auto simp: running_def job_ctx_def)
  note def = app_json_config_load_subsystem_def
  have err: "advances lib v j w ([], rc) (effort v j (rpc_st lib s) subs) (app_json_config_load_done lib rc s)" for rc
    by (rule load_done_advances [OF laws(2) c(1)]) (use s c effort_pos in simp_all)
  show ?thesis
  proof (cases subs)
    case Nil
    show ?thesis
    proof (cases "rpc_st lib s = SPDK_RPC_STARTUP")
      case True
      let ?s = "s\<lparr>init_pending := True, env := subsystem_init lib (env s)\<rparr>"
      have w: "log v (env ?s) = log v (env s) @ [Init_subsystems]" "link v (env ?s) = Idle" "rpc_st lib ?s = rpc_st lib s"
        using laws(2) s(5) by (simp_all add: server_laws_def)
      have e: "app_json_config_load_subsystem lib s = Some ?s" using True Nil j c by (simp add: def loader_simps)
      have ph: "phase lib v j ?s (after_init (init_rc v) (outcome lib v j SPDK_RPC_RUNTIME (concat (job_doc j))))
          (effort v j SPDK_RPC_RUNTIME (job_doc j)) (Some Init_complete)"
        by (rule phase.initialising [of _ _ _ c]) (use s j w Nil in \<open>simp_all add: running_def\<close>)
      show ?thesis using True Nil w(1) s(6)
        by (intro advancesI [where now = "[Init_subsystems]", OF e ph]) (simp_all add: outcome_ends effort_def)
    next
      case False
      with c(5) err [of 0] Nil j c show ?thesis by (simp add: def outcome_ends)
    qed
  next
    case (Cons xs subs')
    with j obtain p where p: "subsystems_it c = Some p" "subs_of lib j (json_next lib (job_values j) p) subs'"
      by auto
    show ?thesis
    proof (cases "decode_subsystem lib (job_data j) (job_values j) p")
      case None
      with err [of "- EINVAL"] Cons p j c show ?thesis by (simp add: def outcome_ends)
    next
      case (Some d)
      then obtain n cf where d: "decode_subsystem lib (job_data j) (job_values j) p = Some (n, cf)" by (cases d) simp
      let ?c = "c\<lparr>subsystem_name := n, config := cf, config_it := json_array_first lib (job_values j) cf\<rparr>"
      let ?s = "s\<lparr>load_ctx := Some ?c\<rparr>"
      have "app_json_config_load_subsystem lib s = app_json_config_load_subsystem_config_entry lib ?s"
        using d p c by (simp add: def loader_simps)
      moreover have "items_of lib j (json_array_first lib (job_values j) cf) xs" using Cons j p d by simp
      then have "advances lib v j w (outcome lib v j (rpc_st lib ?s) (xs @ concat subs'))
          (effort v j (rpc_st lib ?s) (xs # subs')) (app_json_config_load_subsystem_config_entry lib ?s)"
        by (intro entry_advances [OF laws, of j ?s ?c p]) (use s p in \<open>simp_all add: running_def\<close>)
      ultimately show ?thesis using Cons by simp
    qed
  qed
qed

section \<open>The events\<close>

lemma json_write_stdout_fits:
  assumes "length (buf_data b) = BUF_SIZE" and "unat (cur_off b) + length x \<le> BUF_SIZE"
  shows "\<exists>b'. json_write_stdout x (length x) b = Some (0, b') \<and> length (buf_data b') = BUF_SIZE \<and>
    unat (cur_off b') = unat (cur_off b) + length x"
proof -
  let ?room = "of_nat BUF_SIZE - ucast (cur_off b) :: size_t"
  have le: "unat (cur_off b) \<le> 1024" using assms(2) by (simp add: BUF_SIZE_def)
  have "unat (ucast (cur_off b) :: size_t) = unat (cur_off b)" using le by (simp add: unsigned_ucast_eq take_bit_nat_eq_self)
  then have room: "unat ?room = 1024 - unat (cur_off b)"
    using le by (simp add: BUF_SIZE_def unat_sub word_le_nat_alt)
  have "unat (cur_off b + of_nat (length x)) = unat (cur_off b) + length x"
    using assms(2) by (simp add: unat_word_ariths unat_of_nat BUF_SIZE_def)
  moreover have "\<exists>bytes. snprintf_at (unat (cur_off b)) ?room x (buf_data b) = Some bytes \<and> length bytes = BUF_SIZE"
  proof (cases "?room = 0")
    case False
    then have "0 < unat ?room" by (rule unat_gt_0 [THEN iffD2])
    then have "unat (cur_off b) + min (length x) (unat ?room - 1) + 1 \<le> BUF_SIZE" using room by (simp add: BUF_SIZE_def)
    with False assms(1) show ?thesis by (simp add: snprintf_at_def Let_def)
  qed (simp add: snprintf_at_def assms(1))
  ultimately show ?thesis by (auto simp: json_write_stdout_def)
qed

lemma write_chunks_fits:
  assumes "length (buf_data b) = BUF_SIZE" and "unat (cur_off b) + sum_list (map length xs) \<le> BUF_SIZE"
  shows "\<exists>b'. write_chunks xs b = Some b'"
  using assms
proof (induction xs arbitrary: b)
  case (Cons x xs)
  then obtain b' where "json_write_stdout x (length x) b = Some (0, b')" "length (buf_data b') = BUF_SIZE"
      "unat (cur_off b') = unat (cur_off b) + length x"
    using json_write_stdout_fits [of b x] by auto
  with Cons show ?case by simp
qed simp

lemma print_error_ok:
  assumes "server_laws lib v" and "resp_error r = answer v q"
  shows "\<exists>w'. print_error lib r s = Some (s\<lparr>env := w'\<rparr>) \<and> stays lib v (env s) w'"
proof (cases "answer v q")
  case None
  then show ?thesis using assms(2) by (auto simp: print_error_def stays_def keeps_def intro: exI [of _ "env s"])
next
  case (Some xs)
  with assms(1) have "sum_list (map length xs) \<le> BUF_SIZE" unfolding server_laws_def by blast
  then obtain b where b: "write_chunks xs empty_buf = Some b" using write_chunks_fits [of empty_buf xs] by (auto simp: empty_buf_def)
  obtain ok w where w: "json_write_begin lib (env s) = (ok, w)" by fastforce
  moreover have "stays lib v (env s) (snd (json_write_begin lib (env s)))" using assms(1) unfolding server_laws_def by blast
  ultimately show ?thesis using Some b assms(2) by (auto simp: print_error_def Let_def intro: exI [of _ w])
qed

lemma connect_advances:
  assumes laws: "link_laws lib v" "server_laws lib v"
    and s: "running lib j s c" "rpc_st lib s = SPDK_RPC_STARTUP" "msgs s = []" "\<not> init_pending s"
      "client_conn_poller c = Some Connect_poller" "link v (env s) = Connecting n" "horizon v \<le> ctx_timeout c"
      "subs_of lib j (subsystems_it c) (job_doc j)"
  shows "advances lib v j (env s) (outcome lib v j SPDK_RPC_STARTUP (concat (job_doc j)))
    (effort v j SPDK_RPC_STARTUP (job_doc j) + n + 1) (rpc_client_connect_poller lib s)"
proof (cases n)
  case 0
  with laws(1) s(6) obtain w where w: "client_poll lib (env s) = (0, w)" "link v w = Idle" "keeps lib v (env s) w"
    unfolding link_laws_def by blast
  let ?c = "c\<lparr>client_conn_poller := Some Client_poller\<rparr>"
  let ?s = "s\<lparr>env := w, load_ctx := Some ?c\<rparr>"
  have e: "rpc_client_connect_poller lib s = app_json_config_load_subsystem lib ?s"
    using w(1) s(1) by (simp add: rpc_client_connect_poller_def loader_simps running_def errno_defs)
  have st: "rpc_st lib ?s = SPDK_RPC_STARTUP" using w(3) s(2) by (simp add: keeps_def)
  have a: "advances lib v j (env s) (outcome lib v j (rpc_st lib ?s) (concat (job_doc j)))
      (effort v j (rpc_st lib ?s) (job_doc j)) (app_json_config_load_subsystem lib ?s)"
    by (rule subsystem_advances [OF laws, of j ?s ?c]) (use s w st in \<open>simp_all add: running_def keeps_def\<close>)
  show ?thesis unfolding e by (rule advances_weaken [OF a [unfolded st]]) simp
next
  case (Suc m)
  with laws(1) s(6) obtain w where w: "client_poll lib (env s) = (- ENOTCONN, w)" "link v w = Connecting m"
      "keeps lib v (env s) w"
    unfolding link_laws_def by blast
  have "get_ticks lib w \<le> horizon v" using laws(1) w(2) unfolding link_laws_def by blast
  then have "\<not> ctx_timeout c < get_ticks lib w" using s(7) by simp
  then have e: "rpc_client_connect_poller lib s = Some (s\<lparr>env := w\<rparr>)"
    using w(1) s(1) by (simp add: rpc_client_connect_poller_def rpc_client_check_timeout_def running_def)
  have ph: "phase lib v j (s\<lparr>env := w\<rparr>) (outcome lib v j SPDK_RPC_STARTUP (concat (job_doc j)))
      (effort v j SPDK_RPC_STARTUP (job_doc j) + m + 1) (Some Poll)"
    by (rule phase.connecting [of _ _ _ c]) (use s w in \<open>simp_all add: running_def keeps_def\<close>)
  show ?thesis by (rule advancesI [where now = "[]", OF e ph]) (use w Suc in \<open>simp_all add: keeps_def\<close>)
qed

lemma response_advances:
  assumes laws: "link_laws lib v" "server_laws lib v"
    and s: "running lib j s c" "msgs s = []" "\<not> init_pending s" "client_conn_poller c = Some Client_poller"
      "link v (env s) = Awaiting r 0" "subsystems_it c = Some p" "client_resp_cb c = Some Config_entry_next"
      "config_it c = Some q" and b: "breaks v r = None"
    and j: "subs_of lib j (json_next lib (job_values j) p) subs" "items_of lib j (json_next lib (job_values j) q) xs"
  shows "advances lib v j (env s) (after_request v j r (outcome lib v j (rpc_st lib s) (xs @ concat subs)))
    (effort v j (rpc_st lib s) (xs # subs) + 1) (rpc_client_poller lib s)"
proof -
  from laws(1) s(5) b obtain w1 where 1: "client_poll lib (env s) = (1, w1)" "link v w1 = Answered r" "keeps lib v (env s) w1"
    unfolding link_laws_def by blast
  from laws(1) 1(2) obtain w2 where 2: "client_get_response lib w1 = (Some \<lparr>resp_error = answer v r\<rparr>, w2)"
      "link v w2 = Idle" "keeps lib v w1 w2"
    unfolding link_laws_def by blast
  from print_error_ok [OF laws(2), of "\<lparr>resp_error = answer v r\<rparr>" r "s\<lparr>env := w2\<rparr>"] obtain w3 where
    3: "print_error lib \<lparr>resp_error = answer v r\<rparr> (s\<lparr>env := w2\<rparr>) = Some (s\<lparr>env := w3\<rparr>)" "stays lib v w2 w3"
    by auto
  let ?w = "client_free_response lib w3"
  have w: "link v ?w = Idle" "log v ?w = log v (env s)" "rpc_get_state lib ?w = rpc_st lib s"
    using laws(2) 1(3) 2(2,3) 3(2) by (simp_all add: server_laws_def stays_def keeps_def)
  from s(1) have c: "load_ctx s = Some c" "stop_on_error c = job_stop j" "json_values c = job_values j" "cb_calls s = []"
    by (simp_all add: running_def job_ctx_def)
  show ?thesis
  proof (cases "job_stop j \<and> answer v r \<noteq> None")
    case True
    let ?s = "s\<lparr>env := ?w\<rparr>"
    have "rpc_client_poller lib s = app_json_config_load_done lib (- EINVAL) ?s"
      using True c 1(1) 2(1) 3(1) by (simp add: rpc_client_poller_def loader_simps)
    moreover have "advances lib v j (env s) ([], - EINVAL) (effort v j (rpc_st lib s) (xs # subs) + 1)
        (app_json_config_load_done lib (- EINVAL) ?s)"
      by (rule load_done_advances [OF laws(2), of _ c]) (use s c w in simp_all)
    ultimately show ?thesis using True b by (simp add: after_request_def ends_def)
  next
    case False
    let ?c = "c\<lparr>client_resp_cb := None, config_it := json_next lib (job_values j) q\<rparr>"
    let ?s = "s\<lparr>env := ?w, load_ctx := Some ?c\<rparr>"
    have e: "rpc_client_poller lib s = app_json_config_load_subsystem_config_entry lib ?s"
      using False c s(7,8) 1(1) 2(1) 3(1)
      by (cases "job_stop j") (simp_all add: rpc_client_poller_def loader_simps app_json_config_load_subsystem_config_entry_next_def)
    have st: "rpc_st lib ?s = rpc_st lib s" using w by simp
    have a: "advances lib v j (env s) (outcome lib v j (rpc_st lib ?s) (xs @ concat subs))
        (effort v j (rpc_st lib ?s) (xs # subs)) (app_json_config_load_subsystem_config_entry lib ?s)"
      by (rule entry_advances [OF laws, of j ?s ?c p]) (use s j w in \<open>simp_all add: running_def\<close>)
    have "after_request v j r R = R" for R using False b by (auto simp: after_request_def ends_def)
    then show ?thesis unfolding e by (simp only:) (rule advances_weaken [OF a [unfolded st]], simp)
  qed
qed

text \<open>The connection breaks while the loader waits for a response.\<close>

lemma broken_advances:
  assumes laws: "link_laws lib v" "server_laws lib v"
    and s: "running lib j s c" "msgs s = []" "\<not> init_pending s" "link v (env s) = Awaiting r 0" and b: "breaks v r = Some rc"
    and "0 < k"
  shows "advances lib v j (env s) (after_request v j r R) k (rpc_client_poller lib s)"
proof -
  from laws(1) s(4) b obtain w where w: "client_poll lib (env s) = (rc, w)" "rc < 0" "log v w = log v (env s)"
    unfolding link_laws_def by blast
  from s(1) have c: "load_ctx s = Some c" "cb_calls s = []" by (simp_all add: running_def)
  have e: "rpc_client_poller lib s = app_json_config_load_done lib rc (s\<lparr>env := w\<rparr>)"
    using w(1,2) c(1) by (simp add: rpc_client_poller_def)
  have "after_request v j r R = ([], rc)" using b by (simp add: after_request_def ends_def)
  moreover have "advances lib v j (env s) ([], rc) k (app_json_config_load_done lib rc (s\<lparr>env := w\<rparr>))"
    by (rule load_done_advances [OF laws(2), of _ c]) (use s c w assms(8) in simp_all)
  ultimately show ?thesis by (simp only: e)
qed

lemma init_advances:
  assumes laws: "link_laws lib v" "server_laws lib v"
    and s: "running lib j s c" "msgs s = []" "init_pending s" "client_conn_poller c = Some Client_poller"
      "link v (env s) = Idle" "subsystems_it c = None"
  shows "advances lib v j (env s) (after_init (init_rc v) (outcome lib v j SPDK_RPC_RUNTIME (concat (job_doc j))))
    (effort v j SPDK_RPC_RUNTIME (job_doc j)) (run_event lib Init_complete s)"
proof -
  from laws(2) obtain w where w: "subsystem_init_result lib (env s) = (init_rc v, w)" "stays lib v (env s) w"
    unfolding server_laws_def by blast
  let ?w = "rpc_set_state lib SPDK_RPC_RUNTIME w"
  let ?it = "if subsystems c = None then None else json_array_first lib (job_values j) (subsystems c)"
  let ?c = "c\<lparr>subsystems_it := ?it\<rparr>"
  let ?s = "s\<lparr>init_pending := False, env := ?w, load_ctx := Some ?c\<rparr>"
  from s(1) have c: "load_ctx s = Some c" "json_values c = job_values j" "subs_of lib j ?it (job_doc j)" "cb_calls s = []"
    by (simp_all add: running_def job_ctx_def)
  show ?thesis
  proof (cases "init_rc v = 0")
    case False
    let ?t = "s\<lparr>init_pending := False, env := w\<rparr>"
    have e: "run_event lib Init_complete s = app_json_config_load_done lib (init_rc v) ?t"
      using False s(3) w(1) by (simp add: subsystem_init_done_def)
    have "after_init (init_rc v) R = ([], init_rc v)" for R using False by (simp add: after_init_def)
    moreover have "advances lib v j (env s) ([], init_rc v) (effort v j SPDK_RPC_RUNTIME (job_doc j))
        (app_json_config_load_done lib (init_rc v) ?t)"
      by (rule load_done_advances [OF laws(2), of _ c]) (use s c w effort_pos in \<open>simp_all add: stays_def keeps_def\<close>)
    ultimately show ?thesis by (simp only: e)
  next
    case True
    have w': "link v ?w = Idle" "log v ?w = log v (env s)" "rpc_get_state lib ?w = SPDK_RPC_RUNTIME"
      using laws(2) w(2) s(5) by (simp_all add: server_laws_def stays_def keeps_def)
    have c': "c\<lparr>subsystems_it := None\<rparr> = c" using s(6) by simp
    have e: "run_event lib Init_complete s = app_json_config_load_subsystem lib ?s"
      using s(3) c w(1) c' True by (simp add: subsystem_init_done_def loader_simps)
    have st: "rpc_st lib ?s = SPDK_RPC_RUNTIME" using w' by simp
    have a: "advances lib v j (env s) (outcome lib v j (rpc_st lib ?s) (concat (job_doc j)))
        (effort v j (rpc_st lib ?s) (job_doc j)) (app_json_config_load_subsystem lib ?s)"
      by (rule subsystem_advances [OF laws, of j ?s ?c]) (use s c w' in \<open>simp_all add: running_def\<close>)
    have "after_init (init_rc v) R = R" for R using True by (simp add: after_init_def)
    with a show ?thesis unfolding st e by (simp only:)
  qed
qed

text \<open>A poll that finds no response at most renews the timeout.\<close>

lemma quiet_poll:
  assumes "load_ctx s = Some c" and "client_poll lib (env s) = (0, w)"
  shows "\<exists>t. rpc_client_poller lib s = Some (s\<lparr>env := w, load_ctx := Some (c\<lparr>ctx_timeout := t\<rparr>)\<rparr>)"
proof (cases "ctx_timeout c < get_ticks lib w")
  case True
  with assms show ?thesis
    by (auto simp: rpc_client_poller_def rpc_client_check_timeout_def rpc_client_set_timeout_def loader_simps)
next
  case False
  with assms have "rpc_client_poller lib s = Some (s\<lparr>env := w\<rparr>)"
    by (simp add: rpc_client_poller_def rpc_client_check_timeout_def errno_defs)
  then show ?thesis using assms(1) by (intro exI [of _ "ctx_timeout c"]) simp
qed

lemma waiting_advances:
  assumes laws: "link_laws lib v" "server_laws lib v"
    and s: "running lib j s c" "msgs s = []" "\<not> init_pending s" "client_conn_poller c = Some Client_poller"
      "link v (env s) = Awaiting r n" "subsystems_it c = Some p" "client_resp_cb c = Some Config_entry_next"
      "config_it c = Some q"
    and j: "subs_of lib j (json_next lib (job_values j) p) subs" "items_of lib j (json_next lib (job_values j) q) xs"
  shows "advances lib v j (env s) (after_request v j r (outcome lib v j (rpc_st lib s) (xs @ concat subs)))
    (effort v j (rpc_st lib s) (xs # subs) + n + 1) (rpc_client_poller lib s)"
proof (cases n)
  case 0
  show ?thesis
  proof (cases "breaks v r")
    case None
    with response_advances [OF laws s(1-4) _ s(6-8) _ j] s(5) 0 show ?thesis by simp
  next
    case (Some rc)
    with broken_advances [OF laws s(1-3)] s(5) 0 show ?thesis by simp
  qed
next
  case (Suc m)
  with laws(1) s(5) obtain w where w: "client_poll lib (env s) = (0, w)" "link v w = Awaiting r m" "keeps lib v (env s) w"
    unfolding link_laws_def by blast
  have c: "load_ctx s = Some c" using s(1) by (simp add: running_def)
  from quiet_poll [of s c lib w] c w(1) obtain t where
    e: "rpc_client_poller lib s = Some (s\<lparr>env := w, load_ctx := Some (c\<lparr>ctx_timeout := t\<rparr>)\<rparr>)" by blast
  let ?s = "s\<lparr>env := w, load_ctx := Some (c\<lparr>ctx_timeout := t\<rparr>)\<rparr>"
  have st: "rpc_st lib ?s = rpc_st lib s" using w(3) by (simp add: keeps_def)
  have ph: "phase lib v j ?s (after_request v j r (outcome lib v j (rpc_st lib ?s) (xs @ concat subs)))
      (effort v j (rpc_st lib ?s) (xs # subs) + m + 1) (Some Poll)"
    by (rule phase.waiting [of _ _ _ "c\<lparr>ctx_timeout := t\<rparr>" _ _ _ p q])
      (use s j w in \<open>simp_all add: running_def keeps_def\<close>)
  show ?thesis by (rule advancesI [where now = "[]", OF e ph [unfolded st]])
    (use w(3) Suc in \<open>simp_all add: keeps_def\<close>)
qed

lemma message_advances:
  assumes laws: "link_laws lib v" "server_laws lib v"
    and s: "running lib j s c" "msgs s = [m]" "\<not> init_pending s" "client_conn_poller c = Some Client_poller"
      "link v (env s) = Idle"
  shows "m = Load_subsystem \<Longrightarrow> subs_of lib j (subsystems_it c) subs \<Longrightarrow>
      advances lib v j (env s) (outcome lib v j (rpc_st lib s) (concat subs)) (effort v j (rpc_st lib s) subs) (run_event lib Message s)"
    and "m = Load_config_entry \<Longrightarrow> subsystems_it c = Some p \<Longrightarrow> subs_of lib j (json_next lib (job_values j) p) subs \<Longrightarrow>
      items_of lib j (config_it c) xs \<Longrightarrow> advances lib v j (env s) (outcome lib v j (rpc_st lib s) (xs @ concat subs))
        (effort v j (rpc_st lib s) (xs # subs)) (run_event lib Message s)"
proof -
  let ?s = "s\<lparr>msgs := []\<rparr>"
  have r: "running lib j ?s c" using s(1) by (simp add: running_def)
  show "advances lib v j (env s) (outcome lib v j (rpc_st lib s) (concat subs)) (effort v j (rpc_st lib s) subs) (run_event lib Message s)"
    if "m = Load_subsystem" "subs_of lib j (subsystems_it c) subs"
    using subsystem_advances [OF laws r _ _ s(4) _ _ that(2), of "env s"] s that(1) by simp
  show "advances lib v j (env s) (outcome lib v j (rpc_st lib s) (xs @ concat subs))
        (effort v j (rpc_st lib s) (xs # subs)) (run_event lib Message s)"
    if "m = Load_config_entry" "subsystems_it c = Some p" "subs_of lib j (json_next lib (job_values j) p) subs"
      "items_of lib j (config_it c) xs"
    using entry_advances [OF laws r _ _ s(4) _ that(2) _ that(3,4), of "env s"] s that(1) by simp
qed

lemma active_event:
  assumes "link_laws lib v" "server_laws lib v" and "phase lib v j s R k (Some e)"
  shows "advances lib v j (env s) R k (run_event lib e s)"
  using assms(3)
proof (cases rule: phase.cases)
  case (connecting c n)
  with connect_advances [OF assms(1,2)] show ?thesis by (simp add: running_def)
next
  case (at_subsystem c subs)
  with message_advances(1) [OF assms(1,2)] show ?thesis by simp
next
  case (at_entry c p subs xs)
  with message_advances(2) [OF assms(1,2)] show ?thesis by simp
next
  case (waiting c r n p q subs xs)
  then have e: "run_event lib e s = rpc_client_poller lib s" by (simp add: running_def)
  show ?thesis unfolding e waiting(1,2) by (rule waiting_advances [OF assms(1,2) waiting(4-13)])
next
  case (initialising c)
  with init_advances [OF assms(1,2)] show ?thesis by simp
qed

text \<open>Any other event leaves the phase as it is.\<close>

lemma idle_poll:
  assumes "link_laws lib v" and "load_ctx s = Some c" and "client_conn_poller c = Some Client_poller"
    and "link v (env s) = Idle"
  shows "\<exists>w t. run_event lib Poll s = Some (s\<lparr>env := w, load_ctx := Some (c\<lparr>ctx_timeout := t\<rparr>)\<rparr>) \<and>
    link v w = Idle \<and> keeps lib v (env s) w"
proof -
  from assms(1,4) obtain w where "client_poll lib (env s) = (0, w)" "link v w = Idle" "keeps lib v (env s) w"
    unfolding link_laws_def by blast
  with quiet_poll [of s c lib w] assms(2,3) show ?thesis by auto
qed

lemma idle_phases:
  assumes "phase lib v j s R k a" and "load_ctx s = Some c" and "link v (env s) = Idle"
    and "link v w = Idle" and "keeps lib v (env s) w"
  shows "phase lib v j (s\<lparr>env := w, load_ctx := Some (c\<lparr>ctx_timeout := t\<rparr>)\<rparr>) R k a"
proof -
  let ?c = "c\<lparr>ctx_timeout := t\<rparr>"
  let ?s = "s\<lparr>env := w, load_ctx := Some ?c\<rparr>"
  have st: "rpc_get_state lib w = rpc_st lib s" using assms(5) by (simp add: keeps_def)
  from assms(1) show ?thesis
  proof (cases rule: phase.cases)
    case (at_subsystem d subs)
    with assms phase.at_subsystem [of lib j ?s ?c v subs] show ?thesis by (simp add: running_def st)
  next
    case (at_entry d p subs xs)
    with assms phase.at_entry [of lib j ?s ?c v p subs xs] show ?thesis by (simp add: running_def st)
  next
    case (initialising d)
    with assms phase.initialising [of lib j ?s ?c v] show ?thesis by (simp add: running_def st)
  qed (use assms in \<open>simp_all add: running_def\<close>)
qed

lemma other_event:
  assumes "link_laws lib v" and "phase lib v j s R k a" and "a \<noteq> Some e"
  shows "runs (run_event lib e s) (\<lambda>s'. log v (env s') = log v (env s) \<and> phase lib v j s' R k a)"
proof (cases e)
  case Message
  with assms(2,3) have "msgs s = []" by (auto elim: phase.cases)
  with Message assms(2) show ?thesis by simp
next
  case Init_complete
  with assms(2,3) have "\<not> init_pending s" by (auto elim: phase.cases)
  with Init_complete assms(2) show ?thesis by simp
next
  case Poll
  show ?thesis
  proof (cases "load_ctx s")
    case None
    with Poll assms(2) show ?thesis by simp
  next
    case (Some c)
    with Poll assms(2,3) have "client_conn_poller c = Some Client_poller" "link v (env s) = Idle"
      by (auto elim: phase.cases simp: running_def)
    with idle_poll [OF assms(1) Some] idle_phases [OF assms(2) Some] Poll show ?thesis
      by (auto simp: keeps_def simp del: run_event.simps)
  qed
qed

end
