(* ===== verification/Json_Props.thy ===== *)
theory Json_Props
  imports Json_Steps
begin

text \<open>
  The properties of the loader of the configuration: what it sends and in which order, that it ends and how, and
  where it goes wrong when the connection breaks.
\<close>

unbundle bit_operations_syntax

section \<open>Schedules\<close>

lemma run_events_all: "run_events lib es = run_all (run_event lib) es"
proof (induction es)
  case (Cons e es)
  show ?case by (rule ext) (simp add: Cons.IH del: run_event.simps)
qed (simp add: fun_eq_iff)

interpretation json: paced_machine "run_event lib" "\<lambda>s. log v (env s)"
  "\<lambda>s todo r k a. link_laws lib v \<and> server_laws lib v \<and> phase lib v j s (todo, r) k a" for lib v j
proof
  fix s todo r k e
  assume i: "link_laws lib v \<and> server_laws lib v \<and> phase lib v j s (todo, r) k (Some e)"
  then have "advances lib v j (env s) (todo, r) k (run_event lib e s)" using active_event by blast
  with i show "runs (run_event lib e s) (\<lambda>s'. \<exists>now todo' k' a. todo = now @ todo' \<and> log v (env s') = log v (env s) @ now \<and>
      k' < k \<and> link_laws lib v \<and> server_laws lib v \<and> phase lib v j s' (todo', r) k' a)"
    unfolding advances_def by (auto elim!: runs_mono)
next
  fix s todo r k a e
  assume i: "link_laws lib v \<and> server_laws lib v \<and> phase lib v j s (todo, r) k a" and "a \<noteq> Some e"
  then have "runs (run_event lib e s) (\<lambda>s'. log v (env s') = log v (env s) \<and> phase lib v j s' (todo, r) k a)"
    using other_event by blast
  with i show "runs (run_event lib e s) (\<lambda>s'. log v (env s') = log v (env s) \<and>
      link_laws lib v \<and> server_laws lib v \<and> phase lib v j s' (todo, r) k a)"
    by (auto elim!: runs_mono)
next
  fix s todo r k
  assume "link_laws lib v \<and> server_laws lib v \<and> phase lib v j s (todo, r) k None"
  then show "todo = []" by (auto elim: phase.cases)
qed

lemma phase_ctx:
  assumes "phase lib v j s (todo, r) k a"
  shows "if load_ctx s = None then cb_calls s = [r] \<and> todo = [] \<and> a = None else cb_calls s = [] \<and> a \<noteq> None"
  using assms by (cases rule: phase.cases) (auto simp: running_def)

section \<open>Starting\<close>

text \<open>The file can be read and parsed, its \<open>subsystems\<close> hold the configuration of the job, the server starts
  and the client will be connected after \<open>n\<close> polls, in time.\<close>

definition finds :: "'w rpc_lib \<Rightarrow> job \<Rightarrow> nat option \<Rightarrow> bool" where
  "finds lib j it \<longleftrightarrow> (case json_find_array lib (job_values j) (job_data j) ''subsystems'' of (rc, sub) \<Rightarrow>
     rc = 0 \<and> sub \<noteq> None \<and> it = json_array_first lib (job_values j) sub \<or> rc = - ENOENT \<and> it = None)"

definition starts :: "'w rpc_lib \<Rightarrow> 'w view \<Rightarrow> job \<Rightarrow> string \<Rightarrow> string option \<Rightarrow> nat \<Rightarrow> 'w \<Rightarrow> bool" where
  "starts lib v j file addr n w \<longleftrightarrow> (\<exists>w1 w2 w3 it.
     read_file lib file w = (Some (job_data j), w1) \<and>
     fst (json_parse lib (job_data j) None) = int (length (job_values j)) \<and>
     json_parse lib (job_data j) (Some (length (job_values j))) = (int (length (job_values j)), job_values j) \<and>
     finds lib j it \<and> subs_of lib j it (job_doc j) \<and>
     length (socket_path lib addr w1) < SOCKET_PATH_SIZE \<and>
     rpc_initialize lib (socket_path lib addr w1) w1 = (0, w2) \<and>
     client_connect lib (socket_path lib addr w1) w2 = (True, w3) \<and>
     link v w3 = Connecting n \<and> log v w3 = [] \<and> rpc_get_state lib w3 = SPDK_RPC_STARTUP \<and>
     horizon v \<le> get_ticks lib w3 + RPC_CLIENT_CONNECT_TIMEOUT_US * get_ticks_hz lib w3 div 1000000)"

abbreviation spec_of :: "'w rpc_lib \<Rightarrow> 'w view \<Rightarrow> job \<Rightarrow> action list \<times> int" where
  "spec_of lib v j \<equiv> load_spec (rpc_get_method_state_mask lib) (ends v j) (init_rc v) (job_doc j)"

definition rounds_needed :: "'w view \<Rightarrow> job \<Rightarrow> nat \<Rightarrow> nat" where
  "rounds_needed v j n = 2 * weight (delay v) (job_doc j) + n + 3"

lemma start_phase:
  assumes "starts lib v j file addr n w"
  shows "runs (spdk_subsystem_init_from_json_config_temp lib file addr (job_stop j) (new_loader w)) (\<lambda>s.
    log v (env s) = [] \<and> phase lib v j s (spec_of lib v j) (rounds_needed v j n) (Some Poll))"
proof -
  from assms obtain w1 w2 w3 it where
    1: "read_file lib file w = (Some (job_data j), w1)"
      "fst (json_parse lib (job_data j) None) = int (length (job_values j))"
      "json_parse lib (job_data j) (Some (length (job_values j))) = (int (length (job_values j)), job_values j)" and
    it: "finds lib j it" "subs_of lib j it (job_doc j)" and
    2: "length (socket_path lib addr w1) < SOCKET_PATH_SIZE" "rpc_initialize lib (socket_path lib addr w1) w1 = (0, w2)"
      "client_connect lib (socket_path lib addr w1) w2 = (True, w3)" and
    3: "link v w3 = Connecting n" "log v w3 = []" "rpc_get_state lib w3 = SPDK_RPC_STARTUP"
      "horizon v \<le> get_ticks lib w3 + RPC_CLIENT_CONNECT_TIMEOUT_US * get_ticks_hz lib w3 div 1000000"
    unfolding starts_def by blast
  obtain rc sub where f: "json_find_array lib (job_values j) (job_data j) ''subsystems'' = (rc, sub)" by fastforce
  let ?z = "zero_ctx\<lparr>stop_on_error := job_stop j, json_data := job_data j, json_values := job_values j\<rparr>"
  define d where "d = (if rc = 0 then ?z\<lparr>subsystems := sub, subsystems_it := it\<rparr> else ?z)"
  let ?t = "get_ticks lib w3 + RPC_CLIENT_CONNECT_TIMEOUT_US * get_ticks_hz lib w3 div 1000000"
  define c where "c = d\<lparr>rpc_socket_path_temp := socket_path lib addr w1, client_conn := True, ctx_timeout := ?t,
    client_conn_poller := Some Connect_poller\<rparr>"
  let ?s = "(new_loader w)\<lparr>load_ctx := Some c, env := w3\<rparr>"
  from it(1) f have sub: "rc = 0 \<and> it = json_array_first lib (job_values j) sub \<and> sub \<noteq> None \<or> rc = - ENOENT \<and> it = None"
    by (auto simp: finds_def)
  let ?n = "(new_loader w)\<lparr>load_ctx := Some (zero_ctx\<lparr>stop_on_error := job_stop j\<rparr>)\<rparr>"
  have read: "app_json_config_read lib file ?n = Some (0, ?n\<lparr>load_ctx := Some ?z, env := w1\<rparr>)"
    using 1 by (simp add: app_json_config_read_def upd_ctx_def Let_def new_loader_def)
  have "start_load lib file addr ?n = Some (True, ?s)"
    using sub 2 f unfolding start_load_def read c_def d_def
    by (elim disjE) (simp_all add: rpc_client_set_timeout_def upd_ctx_def ENOENT_def)
  then have e: "spdk_subsystem_init_from_json_config_temp lib file addr (job_stop j) (new_loader w) = Some ?s"
    by (simp add: spdk_subsystem_init_from_json_config_temp_def)
  have z: "rpc_request_id zero_ctx = 0" "subsystems zero_ctx = None" "subsystems_it zero_ctx = None"
    by (simp_all add: zero_ctx_def)
  from sub have "job_ctx lib j d \<and> subsystems_it d = it"
  proof
    assume "rc = 0 \<and> it = json_array_first lib (job_values j) sub \<and> sub \<noteq> None"
    then show ?thesis using it(2) z by (auto simp: d_def job_ctx_def)
  next
    assume "rc = - ENOENT \<and> it = None"
    then show ?thesis using it(2) z by (simp add: d_def job_ctx_def ENOENT_def)
  qed
  then have c: "job_ctx lib j c" "subsystems_it c = it" "client_conn_poller c = Some Connect_poller" "ctx_timeout c = ?t"
    by (simp_all add: c_def)
  have "phase lib v j ?s (outcome lib v j SPDK_RPC_STARTUP (concat (job_doc j)))
      (effort v j SPDK_RPC_STARTUP (job_doc j) + n + 1) (Some Poll)"
    by (rule phase.connecting [of _ _ _ c]) (use c it(2) 3 in \<open>simp_all add: running_def new_loader_def\<close>)
  moreover have "effort v j SPDK_RPC_STARTUP (job_doc j) + n + 1 = rounds_needed v j n"
    by (simp add: effort_def rounds_needed_def)
  moreover have "outcome lib v j SPDK_RPC_STARTUP (concat (job_doc j)) = spec_of lib v j"
    by (simp add: load_spec_def outcome_def)
  ultimately show ?thesis unfolding e runs_Some using 3(2) by simp
qed

section \<open>A configuration whose calls are all accepted\<close>

lemma state_bits: "bit SPDK_RPC_STARTUP i \<longleftrightarrow> i = 0" "bit SPDK_RPC_RUNTIME i \<longleftrightarrow> i = 1"
  by (auto simp: SPDK_RPC_STARTUP_def SPDK_RPC_RUNTIME_def bit_simps)

lemma covers_iff: "k AND m = m \<longleftrightarrow> (\<forall>i. bit m i \<longrightarrow> bit k i)" for k m :: "32 word"
proof
  assume "k AND m = m"
  then show "\<forall>i. bit m i \<longrightarrow> bit k i" by (metis bit_and_iff)
next
  assume "\<forall>i. bit m i \<longrightarrow> bit k i"
  then show "k AND m = m" by (intro bit_eqI) (auto simp: bit_and_iff)
qed

lemma skipped_iff:
  "skipped k SPDK_RPC_STARTUP \<longleftrightarrow> \<not> bit k 0"
  "skipped k SPDK_RPC_RUNTIME \<longleftrightarrow> \<not> (bit k 1 \<and> \<not> bit k 0)"
  by (auto simp: skipped_def covers_iff bit_or_iff state_bits)

lemma pass_accepted:
  assumes "\<forall>(m, ps)\<in>set calls. fst (modes m) \<noteq> - ENOENT \<and> stp (request_of m ps) = None"
  shows "pass modes stp st (map (case_prod Call) calls) =
    (map (\<lambda>(m, ps). Request (request_of m ps)) (filter (\<lambda>(m, ps). \<not> skipped (snd (modes m)) st) calls), None)"
  using assms by (induction calls) auto

lemma load_spec_accepted:
  assumes "\<forall>(m, ps)\<in>set (concat calls). fst (modes m) \<noteq> - ENOENT \<and> stp (request_of m ps) = None"
  shows "load_spec modes stp 0 (map (map (case_prod Call)) calls) =
    ([Request (request_of m ps). (m, ps) \<leftarrow> concat calls, bit (snd (modes m)) 0] @ Init_subsystems #
     [Request (request_of m ps). (m, ps) \<leftarrow> concat calls, bit (snd (modes m)) 1 \<and> \<not> bit (snd (modes m)) 0], 0)"
proof -
  have "concat (map (map (case_prod Call)) calls) = map (case_prod Call) (concat calls)" by (simp add: map_concat)
  moreover have "[Request (request_of m ps). (m, ps) \<leftarrow> cs, P m] =
      map (\<lambda>(m, ps). Request (request_of m ps)) (filter (\<lambda>(m, ps). P m) cs)" for cs P
    by (induction cs) auto
  ultimately show ?thesis using pass_accepted [OF assms]
    by (simp add: load_spec_def startup_spec_def runtime_spec_def after_init_def skipped_iff)
qed

section \<open>Whole loads\<close>

definition load_run :: "'w rpc_lib \<Rightarrow> string \<Rightarrow> string option \<Rightarrow> bool \<Rightarrow> event list \<Rightarrow> 'w \<Rightarrow> 'w loader option" where
  "load_run lib file addr stop es w =
     spdk_subsystem_init_from_json_config_temp lib file addr stop (new_loader w) \<bind> run_events lib es"

lemma load_run_append: "load_run lib file addr stop (es @ fs) w = load_run lib file addr stop es w \<bind> run_events lib fs"
  by (cases "spdk_subsystem_init_from_json_config_temp lib file addr stop (new_loader w)")
    (simp_all add: load_run_def run_events_all run_all_append)

lemma load_start:
  assumes "link_laws lib v" and "server_laws lib v" and "starts lib v j file addr n w"
  shows "\<exists>s. load_run lib file addr (job_stop j) es w = run_all (run_event lib) es s \<and> log v (env s) = [] \<and>
    link_laws lib v \<and> server_laws lib v \<and>
    phase lib v j s (fst (spec_of lib v j), snd (spec_of lib v j)) (rounds_needed v j n) (Some Poll)"
  using start_phase [OF assms(3)] assms(1,2) by (auto simp: runs_iff load_run_def run_events_all)

lemma load_any:
  assumes "link_laws lib v" and "server_laws lib v" and "starts lib v j file addr n w"
  shows "runs (load_run lib file addr (job_stop j) es w) (\<lambda>s. \<exists>todo. log v (env s) @ todo = fst (spec_of lib v j) \<and>
    (if load_ctx s = None then cb_calls s = [snd (spec_of lib v j)] \<and> todo = [] else cb_calls s = []))"
proof -
  from load_start [OF assms, of es] obtain s where
    s: "load_run lib file addr (job_stop j) es w = run_all (run_event lib) es s" "log v (env s) = []" and
    i: "link_laws lib v \<and> server_laws lib v \<and>
      phase lib v j s (fst (spec_of lib v j), snd (spec_of lib v j)) (rounds_needed v j n) (Some Poll)"
    by blast
  show ?thesis unfolding s(1)
    by (rule runs_mono [OF json.schedule [OF i, of es]]) (use s(2) phase_ctx in \<open>fastforce split: if_splits\<close>)
qed

lemma load_rounds:
  assumes "link_laws lib v" and "server_laws lib v" and "starts lib v j file addr n w"
    and "\<forall>E\<in>set Es. \<forall>e. e \<in> set E" and "rounds_needed v j n \<le> length Es"
  shows "runs (load_run lib file addr (job_stop j) (concat Es) w) (\<lambda>s.
    log v (env s) = fst (spec_of lib v j) \<and> cb_calls s = [snd (spec_of lib v j)] \<and> load_ctx s = None)"
proof -
  from load_start [OF assms(1-3), of "concat Es"] obtain s where
    s: "load_run lib file addr (job_stop j) (concat Es) w = run_all (run_event lib) (concat Es) s" "log v (env s) = []" and
    i: "link_laws lib v \<and> server_laws lib v \<and>
      phase lib v j s (fst (spec_of lib v j), snd (spec_of lib v j)) (rounds_needed v j n) (Some Poll)"
    by blast
  show ?thesis unfolding s(1)
    by (rule runs_mono [OF json.rounds [OF i assms(4,5)]]) (use s(2) phase_ctx in \<open>fastforce split: if_splits\<close>)
qed

section \<open>A broken connection\<close>

text \<open>A failed poll frees the context although a message or the initialisation still refers to it.\<close>

lemma poll_breaks:
  assumes "load_ctx s = Some c" and "client_conn_poller c = Some Client_poller"
    and "client_poll lib (env s) = (rc, w)" and "rc < 0"
  shows "\<exists>w'. run_event lib Poll s = Some (s\<lparr>env := w', cb_calls := cb_calls s @ [rc], load_ctx := None\<rparr>)"
  using assms by (cases "client_conn c") (auto simp: rpc_client_poller_def app_json_config_load_done_def loader_simps Let_def)

lemma dangling_ctx:
  assumes "load_ctx s = None"
  shows "msgs s \<noteq> [] \<Longrightarrow> run_event lib Message s = None" and "init_pending s \<Longrightarrow> run_event lib Init_complete s = None"
proof -
  show "run_event lib Message s = None" if "msgs s \<noteq> []"
    using that assms by (cases "msgs s"; cases "hd (msgs s)")
      (auto simp: app_json_config_load_subsystem_def app_json_config_load_subsystem_config_entry_def)
  show "run_event lib Init_complete s = None" if "init_pending s"
    using that assms by (auto simp: subsystem_init_done_def app_json_config_load_done_def loader_simps split: prod.splits)
qed

section \<open>Failures at the start\<close>

text \<open>A start either has the context wait for the connection or has called back, once, with \<open>-EINVAL\<close>.\<close>

lemma load_done_result:
  assumes "load_ctx s = Some c"
  shows "\<exists>w. app_json_config_load_done lib rc s = Some (s\<lparr>env := w, cb_calls := cb_calls s @ [rc], load_ctx := None\<rparr>)"
  using assms by (cases "client_conn c") (auto simp: app_json_config_load_done_def loader_simps Let_def)

definition frame :: "'w loader \<Rightarrow> 'w loader \<Rightarrow> bool" where
  "frame s s' \<longleftrightarrow> load_ctx s' \<noteq> None \<and> msgs s' = msgs s \<and> init_pending s' = init_pending s \<and> cb_calls s' = cb_calls s"

lemma read_frame:
  assumes "load_ctx s \<noteq> None"
  shows "runs (app_json_config_read lib file s) (\<lambda>(rc, s'). frame s s')"
  using assms by (auto simp: app_json_config_read_def upd_ctx_def Let_def frame_def split: prod.splits option.splits)

lemma start_load_frame:
  assumes "load_ctx s \<noteq> None"
  shows "runs (start_load lib file addr s) (\<lambda>(ok, s'). frame s s' \<and> (ok \<longrightarrow> registered s' = Some Connect_poller))"
proof -
  from read_frame [OF assms, of lib "file"] obtain rc s1 c where 1: "app_json_config_read lib file s = Some (rc, s1)"
      "load_ctx s1 = Some c" "frame s s1"
    by (auto simp: runs_iff frame_def)
  show ?thesis unfolding start_load_def 1(1) using 1(2,3)
    by (auto simp: upd_ctx_def rpc_client_set_timeout_def Let_def frame_def split: prod.splits)
qed

lemma start_result:
  "runs (spdk_subsystem_init_from_json_config_temp lib file addr stop (new_loader w)) (\<lambda>s. msgs s = [] \<and> \<not> init_pending s \<and>
     (if load_ctx s = None then cb_calls s = [- EINVAL] else cb_calls s = [] \<and> registered s = Some Connect_poller))"
proof -
  let ?s = "(new_loader w)\<lparr>load_ctx := Some (zero_ctx\<lparr>stop_on_error := stop\<rparr>)\<rparr>"
  from start_load_frame [of ?s lib "file" addr] obtain ok s' c where s: "start_load lib file addr ?s = Some (ok, s')"
      "frame ?s s'" "ok \<longrightarrow> registered s' = Some Connect_poller" "load_ctx s' = Some c"
    by (auto simp: runs_iff frame_def simp del: registered.simps)
  with load_done_result [OF s(4), of lib "- EINVAL"] show ?thesis
    by (cases ok) (auto simp: spdk_subsystem_init_from_json_config_temp_def frame_def new_loader_def)
qed

text \<open>An error response of more than 1024 characters in several pieces overruns the buffer in which it is printed.\<close>

lemma write_chunks_overflow:
  assumes "BUF_SIZE < length x" and "length x < 4294967296"
  shows "write_chunks (x # y # ys) empty_buf = None"
proof -
  let ?b = "take 1023 x @ [CHR 0x00]"
  have 1: "json_write_stdout x (length x) empty_buf = Some (0, \<lparr>buf_data = ?b, cur_off = of_nat (length x)\<rparr>)"
    using assms(1) by (simp add: json_write_stdout_def snprintf_at_def empty_buf_def BUF_SIZE_def Let_def)
  have off: "unat (of_nat (length x) :: 32 word) = length x" using assms(2) by (simp add: unat_of_nat)
  have "(of_nat BUF_SIZE :: size_t) - ucast (of_nat (length x) :: 32 word) \<noteq> 0"
  proof
    assume "(of_nat BUF_SIZE :: size_t) - ucast (of_nat (length x) :: 32 word) = 0"
    then have "unat (ucast (of_nat (length x) :: 32 word) :: size_t) = unat (of_nat BUF_SIZE :: size_t)" by simp
    then show False using assms off by (simp add: unsigned_ucast_eq take_bit_nat_eq_self BUF_SIZE_def)
  qed
  then have "snprintf_at (length x) (of_nat BUF_SIZE - ucast (of_nat (length x) :: 32 word)) y ?b = None"
    using assms(1) by (simp add: snprintf_at_def Let_def BUF_SIZE_def)
  with off have "json_write_stdout y (length y) \<lparr>buf_data = ?b, cur_off = of_nat (length x)\<rparr> = None"
    by (simp add: json_write_stdout_def)
  with 1 show ?thesis by simp
qed

section \<open>A library in memory\<close>

text \<open>A server that answers every request after one poll without an error, and a JSON file with two calls: \<open>a\<close> with
  parameters, allowed in both states, and \<open>b\<close>, allowed at run time.\<close>

type_synonym loopback = "link \<times> action list \<times> 32 word"

fun loopback_poll :: "loopback \<Rightarrow> int \<times> loopback" where
  "loopback_poll (Connecting (Suc n), w) = (- ENOTCONN, (Connecting n, w))"
| "loopback_poll (Connecting 0, w) = (0, (Idle, w))"
| "loopback_poll (Idle, w) = (0, (Idle, w))"
| "loopback_poll (Awaiting r (Suc n), w) = (0, (Awaiting r n, w))"
| "loopback_poll (Awaiting r 0, w) = (1, (Answered r, w))"
| "loopback_poll (Answered r, w) = (1, (Answered r, w))"

definition demo_text :: string where
  "demo_text = ''{\"subsystems\":[{\"subsystem\":\"bdev\",\"config\":[{\"method\":\"a\",\"params\":{\"x\":1}},{\"method\":\"b\"}]}]}''"

definition tok :: "json_type \<Rightarrow> nat \<Rightarrow> nat \<Rightarrow> json_val" where
  "tok ty st n = \<lparr>jtype = ty, jstart = st, jlen = n\<rparr>"

definition demo_values :: "json_val list" where
  "demo_values =
    [tok JSON_OBJECT_BEGIN 0 0,
     tok JSON_NAME 2 10,
     tok JSON_ARRAY_BEGIN 14 0,
     tok JSON_OBJECT_BEGIN 15 0,
     tok JSON_NAME 17 9,
     tok JSON_STRING 29 4,
     tok JSON_NAME 36 6,
     tok JSON_ARRAY_BEGIN 44 0,
     tok JSON_OBJECT_BEGIN 45 0,
     tok JSON_NAME 47 6,
     tok JSON_STRING 56 1,
     tok JSON_NAME 60 6,
     tok JSON_OBJECT_BEGIN 68 0,
     tok JSON_NAME 70 1,
     tok JSON_NUMBER 73 1,
     tok JSON_OBJECT_END 74 0,
     tok JSON_OBJECT_END 75 0,
     tok JSON_OBJECT_BEGIN 77 0,
     tok JSON_NAME 79 6,
     tok JSON_STRING 88 1,
     tok JSON_OBJECT_END 90 0,
     tok JSON_ARRAY_END 91 0,
     tok JSON_OBJECT_END 92 0,
     tok JSON_ARRAY_END 93 0,
     tok JSON_OBJECT_END 94 0]"

definition demo_members :: "nat \<Rightarrow> (string \<times> nat) list" where
  "demo_members p = (if p = 3 then [(''subsystem'', 5), (''config'', 7)]
     else if p = 8 then [(''method'', 10), (''params'', 12)] else if p = 17 then [(''method'', 19)] else [])"

definition decode_with :: "string \<Rightarrow> json_val list \<Rightarrow> nat \<Rightarrow> decoder list \<Rightarrow> slot option list option" where
  "decode_with data vs p ds =
     (let rs = map (\<lambda>d. map_option (dfunc d data vs) (map_of (demo_members p) (dname d))) ds in
      if list_all2 (\<lambda>d r. case r of None \<Rightarrow> doptional d | Some (Inl e) \<Rightarrow> False | Some (Inr x) \<Rightarrow> True) ds rs
      then Some (map (\<lambda>r. case r of Some (Inr x) \<Rightarrow> Some x | _ \<Rightarrow> None) rs) else None)"

definition loopback_lib :: "loopback rpc_lib" where
  "loopback_lib = \<lparr>fopen = \<lambda>f w. (Some 0, w), file_load = \<lambda>h w. (Some demo_text, w), fclose = \<lambda>h w. w, errno = \<lambda>w. 0,
     json_parse = \<lambda>data n. (25, if n = None then [] else demo_values),
     json_find_array = \<lambda>vs data key. (0, Some 2),
     json_array_first = \<lambda>vs p. if p = Some 2 then Some 3 else if p = Some 7 then Some 8 else None,
     json_next = \<lambda>vs p. if p = 8 then Some 17 else None, json_val_len = \<lambda>vs p. if p = 12 then 4 else 1,
     json_decode_object = decode_with,
     json_decode_string = \<lambda>data vs p. Inr (Str (take (jlen (vs ! p)) (drop (jstart (vs ! p)) data))),
     json_write_begin = \<lambda>w. (True, w), get_ticks = \<lambda>w. 0, get_ticks_hz = \<lambda>w. 1000, getpid = \<lambda>w. ''42'',
     rpc_initialize = \<lambda>path w. (0, w), rpc_finish = \<lambda>w. w, rpc_get_state = \<lambda>w. snd (snd w),
     rpc_set_state = \<lambda>st w. (fst w, fst (snd w), st),
     rpc_get_method_state_mask = \<lambda>m. (0, if m = ''a'' then 3 else 2),
     client_connect = \<lambda>path w. (True, w), client_close = \<lambda>w. w, client_poll = loopback_poll,
     client_get_response = \<lambda>w. (Some \<lparr>resp_error = None\<rparr>, (Idle, snd w)), client_free_response = \<lambda>w. w,
     client_create_request = \<lambda>w. (True, w), begin_request = \<lambda>w. (True, w), client_free_request = \<lambda>w. w,
     client_send = \<lambda>r w. (0, (Awaiting r 1, fst (snd w) @ [Request r], snd (snd w))),
     subsystem_init = \<lambda>w. (fst w, fst (snd w) @ [Init_subsystems], snd (snd w)), subsystem_init_result = \<lambda>w. (0, w)\<rparr>"

definition loopback_view :: "loopback view" where
  "loopback_view = \<lparr>link = fst, log = \<lambda>w. fst (snd w), delay = 1, horizon = 0, answer = \<lambda>r. None, breaks = \<lambda>r. None, init_rc = 0\<rparr>"

definition demo_calls :: "(string \<times> string option) list list" where
  "demo_calls = [[(''a'', Some ''{\"x\":1}''), (''b'', None)]]"

definition demo_job :: job where
  "demo_job = \<lparr>job_data = demo_text, job_values = demo_values, job_doc = map (map (case_prod Call)) demo_calls, job_stop = True\<rparr>"

lemma loopback_laws: "link_laws loopback_lib loopback_view" "server_laws loopback_lib loopback_view"
proof -
  show "link_laws loopback_lib loopback_view"
    by (auto simp: link_laws_def loopback_lib_def loopback_view_def keeps_def)
  show "server_laws loopback_lib loopback_view"
    by (auto simp: server_laws_def loopback_lib_def loopback_view_def keeps_def stays_def)
qed

lemma loopback_starts_at:
  assumes "addr = None \<or> addr = Some SPDK_DEFAULT_RPC_ADDR"
  shows "starts loopback_lib loopback_view demo_job name addr 2 (Connecting 2, [], SPDK_RPC_STARTUP)"
proof -
  have 1: "read_file loopback_lib name w = (Some demo_text, w)" for w
    by (simp add: read_file_def loopback_lib_def)
  have 2: "length (socket_path loopback_lib addr w) < SOCKET_PATH_SIZE" for w
    using assms by (auto simp: socket_path_def SPDK_DEFAULT_RPC_ADDR_def SOCKET_PATH_SIZE_def loopback_lib_def)
  note tables = loopback_lib_def decode_with_def demo_members_def demo_values_def tok_def
  have "decode_subsystem loopback_lib demo_text demo_values 3 = Some (Some 5, Some 7)"
    by (simp add: decode_subsystem_def subsystem_decoders_def cap_string_def cap_array_or_null_def tables)
  moreover have "decode_entry loopback_lib demo_text demo_values 8 = Some \<lparr>cfg_method = Some ''a'', cfg_params = Some 12\<rparr>"
      "decode_entry loopback_lib demo_text demo_values 17 = Some \<lparr>cfg_method = Some ''b'', cfg_params = None\<rparr>"
    by (simp_all add: decode_entry_def jsonrpc_cmd_decoders_def cap_object_def tables demo_text_def)
  moreover have "params_of loopback_lib demo_text demo_values (Some 12) = Some (Some ''{\"x\":1}'')"
    by (simp add: params_of_def params_text_def tables demo_text_def)
  ultimately have 3: "subsystems_at loopback_lib demo_text demo_values (Some 3) (map (map (case_prod Call)) demo_calls)"
    by (simp add: demo_calls_def params_of_def loopback_lib_def)
  have "length demo_values = 25" by (simp add: demo_values_def)
  with 1 2 3 show ?thesis unfolding starts_def finds_def
    by (intro exI [of _ "(Connecting 2, [], SPDK_RPC_STARTUP)"] exI [of _ "Some 3"])
      (simp add: demo_job_def loopback_lib_def loopback_view_def)
qed

lemmas loopback_starts = loopback_starts_at [of None "''myfs.json''", simplified]

lemma loopback_spec: "spec_of loopback_lib loopback_view demo_job =
    ([Request (request_of ''a'' (Some ''{\"x\":1}'')), Init_subsystems, Request (request_of ''b'' None)], 0)"
  by (subst demo_job_def, simp add: demo_calls_def load_spec_def startup_spec_def runtime_spec_def after_init_def
    skipped_iff loopback_lib_def ends_def loopback_view_def errno_defs bit_simps)

lemma loopback_rounds: "rounds_needed loopback_view demo_job 2 \<le> 20"
  by (simp add: rounds_needed_def weight_def loopback_view_def demo_job_def demo_calls_def)

section \<open>Properties\<close>

text \<open>
  C36. The loader, under these conditions on its surroundings (\<open>link_laws\<close>, \<open>server_laws\<close>, \<open>starts\<close>): the file can be
  read and parsed and the socket's path fits; the client is connected before its time-out; requests can be created
  and sent; after at most \<open>delay\<close> further polls a request is answered or the connection breaks; an error in a response
  fits into the buffer in which it is printed. The connection may break while a request is under way, and only
  then: a break at any other moment is a use after free, see \<open>json_use_after_free\<close>. The initialisation of the subsystems
  may fail, and responses may be errors. Then, whatever the order in which the SPDK thread runs messages, polls and the
  completion of the initialisation, the loader behaves as \<open>load_spec\<close> says: no behaviour is undefined, the requests it
  has sent are a beginning of the prescribed ones, and the callback is called exactly once, at the end and with the
  prescribed code. It does end: \<open>rounds_needed\<close> rounds in which every kind of event occurs are enough.
\<close>

theorem json_load_refines:
  assumes "link_laws lib v" and "server_laws lib v" and "starts lib v j file addr n w"
  shows "(\<forall>es. runs (load_run lib file addr (job_stop j) es w) (\<lambda>s. \<exists>todo. log v (env s) @ todo = fst (spec_of lib v j) \<and>
      (if load_ctx s = None then cb_calls s = [snd (spec_of lib v j)] \<and> todo = [] else cb_calls s = []))) \<and>
    (\<forall>Es. (\<forall>E\<in>set Es. \<forall>e. e \<in> set E) \<and> rounds_needed v j n \<le> length Es \<longrightarrow>
      runs (load_run lib file addr (job_stop j) (concat Es) w) (\<lambda>s.
        log v (env s) = fst (spec_of lib v j) \<and> cb_calls s = [snd (spec_of lib v j)] \<and> load_ctx s = None))"
  using load_any [OF assms] load_rounds [OF assms] by blast

theorem json_load_refines_witness:
  "cb_calls (the (load_run loopback_lib ''myfs.json'' None True (concat (replicate 20 [Message, Poll, Init_complete]))
     (Connecting 2, [], SPDK_RPC_STARTUP))) = [0] \<and>
   fst (snd (env (the (load_run loopback_lib ''myfs.json'' None True (concat (replicate 20 [Poll, Init_complete, Message]))
     (Connecting 2, [], SPDK_RPC_STARTUP))))) =
     [Request (request_of ''a'' (Some ''{\"x\":1}'')), Init_subsystems, Request (request_of ''b'' None)]"
proof -
  have "e \<in> set [Message, Poll, Init_complete]" for e by (cases e) simp_all
  then have E: "(\<forall>E\<in>set (replicate 20 [Message, Poll, Init_complete]). \<forall>e. e \<in> set E) \<and>
      rounds_needed loopback_view demo_job 2 \<le> length (replicate 20 [Message, Poll, Init_complete])"
    "(\<forall>E\<in>set (replicate 20 [Poll, Init_complete, Message]). \<forall>e. e \<in> set E) \<and>
      rounds_needed loopback_view demo_job 2 \<le> length (replicate 20 [Poll, Init_complete, Message])"
    using loopback_rounds by auto
  have j: "job_stop demo_job" by (simp add: demo_job_def)
  from json_load_refines [OF loopback_laws loopback_starts, THEN conjunct2, rule_format, OF E(1)]
    json_load_refines [OF loopback_laws loopback_starts, THEN conjunct2, rule_format, OF E(2)]
  show ?thesis unfolding loopback_spec using j by (auto elim!: runsE simp: loopback_view_def)
qed

text \<open>
  C37. A configuration all of whose methods are known, none of whose calls makes the load stop, and subsystems whose
  initialisation succeeds, under the laws of C36: in the first pass exactly the calls allowed at startup are sent, in the order of the file, then the subsystems are
  initialised, then exactly the calls that are allowed at run time only. So every call that is allowed in some state is
  sent once, and the load ends with code 0.
\<close>

theorem json_two_passes:
  assumes "link_laws lib v" and "server_laws lib v" and "starts lib v j file addr n w"
    and "job_doc j = map (map (case_prod Call)) calls"
    and "\<forall>(m, ps)\<in>set (concat calls). fst (rpc_get_method_state_mask lib m) \<noteq> - ENOENT \<and> ends v j (request_of m ps) = None" and "init_rc v = 0"
    and "\<forall>E\<in>set Es. \<forall>e. e \<in> set E" and "rounds_needed v j n \<le> length Es"
  shows "runs (load_run lib file addr (job_stop j) (concat Es) w) (\<lambda>s. cb_calls s = [0] \<and> log v (env s) =
    [Request (request_of m ps). (m, ps) \<leftarrow> concat calls, bit (snd (rpc_get_method_state_mask lib m)) 0] @
    Init_subsystems #
    [Request (request_of m ps). (m, ps) \<leftarrow> concat calls,
       bit (snd (rpc_get_method_state_mask lib m)) 1 \<and> \<not> bit (snd (rpc_get_method_state_mask lib m)) 0])"
  by (rule runs_mono [OF load_rounds [OF assms(1-3,7,8)]]) (simp add: assms(4,6) load_spec_accepted [OF assms(5)])

theorem json_two_passes_witness:
  "runs (load_run loopback_lib ''myfs.json'' None True (concat (replicate 20 [Message, Poll, Init_complete]))
     (Connecting 2, [], SPDK_RPC_STARTUP)) (\<lambda>s. cb_calls s = [0] \<and> fst (snd (env s)) =
       [Request (request_of ''a'' (Some ''{\"x\":1}'')), Init_subsystems, Request (request_of ''b'' None)])"
proof -
  have "e \<in> set [Message, Poll, Init_complete]" for e by (cases e) simp_all
  then have E: "\<forall>E\<in>set (replicate 20 [Message, Poll, Init_complete]). \<forall>e. e \<in> set E" by simp
  have n: "rounds_needed loopback_view demo_job 2 \<le> length (replicate 20 [Message, Poll, Init_complete])"
    using loopback_rounds by simp
  have d: "job_doc demo_job = map (map (case_prod Call)) demo_calls" "job_stop demo_job" by (simp_all add: demo_job_def)
  have ok: "\<forall>(m, ps)\<in>set (concat demo_calls). fst (rpc_get_method_state_mask loopback_lib m) \<noteq> - ENOENT \<and>
      ends loopback_view demo_job (request_of m ps) = None"
    by (simp add: loopback_lib_def ends_def loopback_view_def errno_defs)
  have i: "init_rc loopback_view = 0" by (simp add: loopback_view_def)
  from json_two_passes [OF loopback_laws loopback_starts d(1) ok i E n] d(2) show ?thesis
    by (simp add: demo_calls_def loopback_lib_def loopback_view_def bit_simps)
qed

text \<open>
  When the connection breaks while a message is under way or the subsystems are being initialised,
  the poller frees the context, and the message or the completion then uses it: the behaviour is undefined.
\<close>

lemma json_use_after_free:
  assumes "load_ctx s = Some c" and "client_conn_poller c = Some Client_poller"
    and "client_poll lib (env s) = (rc, w)" and "rc < 0"
  shows "runs (run_event lib Poll s) (\<lambda>s'. cb_calls s' = cb_calls s @ [rc]) \<and>
    (msgs s \<noteq> [] \<longrightarrow> run_events lib [Poll, Message] s = None) \<and>
    (init_pending s \<longrightarrow> run_events lib [Poll, Init_complete] s = None)"
proof -
  from poll_breaks [OF assms] obtain w' where
    "run_event lib Poll s = Some (s\<lparr>env := w', cb_calls := cb_calls s @ [rc], load_ctx := None\<rparr>)" (is "_ = Some ?s")
    by blast
  with dangling_ctx [of ?s lib] show ?thesis by (simp del: run_event.simps)
qed

text \<open>A file without subsystems and a connection that breaks during the initialisation.\<close>

definition broken_lib :: "loopback rpc_lib" where
  "broken_lib = loopback_lib\<lparr>json_find_array := \<lambda>vs data key. (- ENOENT, None),
     client_poll := \<lambda>w. if Init_subsystems \<in> set (fst (snd w)) then (- 5, w) else loopback_poll w\<rparr>"

lemma json_use_after_free_example:
  "load_run broken_lib ''myfs.json'' None True [Poll, Poll, Poll, Poll, Init_complete] (Connecting 2, [], SPDK_RPC_STARTUP) = None"
proof -
  let ?w = "(Connecting 2, [], SPDK_RPC_STARTUP)"
  have "\<exists>s c. load_run broken_lib ''myfs.json'' None True [Poll, Poll, Poll] ?w = Some s \<and> load_ctx s = Some c \<and>
      client_conn_poller c = Some Client_poller \<and> init_pending s \<and> fst (snd (env s)) = [Init_subsystems]"
    by (simp add: load_run_def broken_lib_def loopback_lib_def spdk_subsystem_init_from_json_config_temp_def start_load_def
        app_json_config_read_def read_file_def zero_ctx_def new_loader_def rpc_client_set_timeout_def loader_simps
        socket_path_def SPDK_DEFAULT_RPC_ADDR_def SOCKET_PATH_SIZE_def rpc_client_connect_poller_def
        rpc_client_check_timeout_def app_json_config_load_subsystem_def errno_defs numeral_2_eq_2
        RPC_CLIENT_CONNECT_TIMEOUT_US_def Let_def)
  then obtain s c where s: "load_run broken_lib ''myfs.json'' None True [Poll, Poll, Poll] ?w = Some s" "load_ctx s = Some c"
      "client_conn_poller c = Some Client_poller" "init_pending s" "fst (snd (env s)) = [Init_subsystems]"
    by blast
  have "client_poll broken_lib (env s) = (- 5, env s)" using s(5) by (simp add: broken_lib_def)
  from json_use_after_free [OF s(2,3) this] s(4) have "run_events broken_lib [Poll, Init_complete] s = None" by simp
  with s(1) load_run_append [of broken_lib _ _ _ "[Poll, Poll, Poll]" "[Poll, Init_complete]"] show ?thesis
    by (simp del: run_event.simps run_events.simps)
qed

end
