(* ===== verification/Fs_Boot.thy ===== *)
theory Fs_Boot
  imports Myfs_Props Json_Props
begin

text \<open>
  The start of the file system together with the loader of its configuration. \<open>Myfs\<close> takes the load as a request
  \<open>Json_config\<close> to its library, answered by the callback \<open>Json_load_done\<close>. Here the request runs the loader of
  \<open>Json_Config\<close>: it starts it, and the \<open>i\<close>th \<open>spdk_thread_poll\<close> runs the loader's events \<open>order i\<close>, any of its messages,
  its poller and the completion of the initialisation in any order, or none, besides the messages of the file
  system. Each call of the loader's callback is a \<open>Json_load_done\<close>. A loader whose behaviour is undefined is \<open>None\<close>.
\<close>

section \<open>The composed library\<close>

record ('a, 'w) booting =
  base_world :: 'a
  loader_state :: "'w loader option"
  delivered :: nat
  polls :: nat

definition json_file :: string where "json_file = ''/home/hugo/learn_spdk/spdk_filesystem/myfs.json''"

definition lift :: "('a \<Rightarrow> 'b \<times> 'a) \<Rightarrow> ('a, 'w) booting \<Rightarrow> 'b \<times> ('a, 'w) booting" where
  "lift f b = (case f (base_world b) of (x, a) \<Rightarrow> (x, b\<lparr>base_world := a\<rparr>))"

definition start_loader :: "'w rpc_lib \<Rightarrow> ('a, 'w) booting \<Rightarrow> ('a, 'w) booting" where
  "start_loader lib b = b\<lparr>loader_state := loader_state b \<bind>
     spdk_subsystem_init_from_json_config_temp lib json_file (Some SPDK_DEFAULT_RPC_ADDR) True\<rparr>"

definition boot_poll :: "'a spdk \<Rightarrow> 'w rpc_lib \<Rightarrow> (nat \<Rightarrow> event list) \<Rightarrow> ('a, 'w) booting \<Rightarrow> call list \<times> ('a, 'w) booting" where
  "boot_poll base lib order b =
     (let (cs, a) = thread_poll base (base_world b);
          l = loader_state b \<bind> (\<lambda>l. run_events lib (order (polls b)) l);
          n = (case l of None \<Rightarrow> delivered b | Some l \<Rightarrow> length (cb_calls l))
      in (cs @ replicate (n - delivered b) Json_load_done, \<lparr>base_world = a, loader_state = l, delivered = n, polls = Suc (polls b)\<rparr>))"

definition boot_lib :: "'a spdk \<Rightarrow> 'w rpc_lib \<Rightarrow> (nat \<Rightarrow> event list) \<Rightarrow> ('a, 'w) booting spdk" where
  "boot_lib base lib order = \<lparr>
     env_init = lift (env_init base), thread_create = lift (thread_create base),
     send_msg = \<lambda>c b. b\<lparr>base_world := send_msg base c (base_world b)\<rparr>,
     submit = \<lambda>r b. (if r = Json_config then start_loader lib b else b\<lparr>base_world := submit base r (base_world b)\<rparr>),
     thread_poll = boot_poll base lib order,
     create_bs_dev = lift (create_bs_dev base), get_io_unit_size = \<lambda>st b. get_io_unit_size base st (base_world b),
     alloc_io_channel = \<lambda>st. lift (alloc_io_channel base st),
     free_io_channel = \<lambda>ch b. b\<lparr>base_world := free_io_channel base ch (base_world b)\<rparr>,
     free_cluster_count = \<lambda>st b. free_cluster_count base st (base_world b),
     sys_creat = \<lambda>p. lift (sys_creat base p), sys_open = \<lambda>p. lift (sys_open base p),
     sys_read = \<lambda>fd buf n. lift (sys_read base fd buf n), sys_write = \<lambda>fd buf n. lift (sys_write base fd buf n),
     sys_close = \<lambda>fd. lift (sys_close base fd)\<rparr>"

lemma boot_lib_sel [simp]:
  "env_init (boot_lib base lib order) = lift (env_init base)"
  "thread_create (boot_lib base lib order) = lift (thread_create base)"
  "send_msg (boot_lib base lib order) c b = b\<lparr>base_world := send_msg base c (base_world b)\<rparr>"
  "submit (boot_lib base lib order) Json_config b = start_loader lib b"
  "thread_poll (boot_lib base lib order) = boot_poll base lib order"
  by (simp_all add: boot_lib_def)

section \<open>The loader under the polls of the file system\<close>

text \<open>A loader that has not been started does nothing.\<close>

lemma new_loader_idle: "run_events lib es (new_loader w) = Some (new_loader w)"
proof (induction es)
  case (Cons e es)
  have "run_event lib e (new_loader w) = Some (new_loader w)" by (cases e) (simp_all add: new_loader_def)
  with Cons.IH show ?case by (simp del: run_event.simps)
qed simp

text \<open>The thread runs a message when it has been sent and a poller when its period, 100 microseconds, has passed; so
  every kind of event occurs in any \<open>K\<close> polls that are spread over that time. A poll in which the event that makes
  progress does not occur changes nothing.\<close>

definition fair :: "nat \<Rightarrow> (nat \<Rightarrow> event list) \<Rightarrow> bool" where
  "fair K order \<longleftrightarrow> (\<forall>i e. \<exists>d<K. e \<in> set (order (i + d)))"

lemma loader_round:
  assumes "link_laws lib v" and "server_laws lib v" and "phase lib v j l (todo, r) k (Some e)"
  shows "runs (run_events lib es l) (\<lambda>l'. \<exists>now todo' k' a'. todo = now @ todo' \<and> log v (env l') = log v (env l) @ now \<and>
    phase lib v j l' (todo', r) k' a' \<and> (k' < k \<or> k' = k \<and> a' = Some e \<and> e \<notin> set es))"
proof -
  have "link_laws lib v \<and> server_laws lib v \<and> phase lib v j l (todo, r) k (Some e)" using assms(1-3) by simp
  from json.schedule [OF this, of es] show ?thesis unfolding run_events_all
    by (rule runs_mono) (metis order_less_le)
qed

text \<open>The file system's state while the loader works: only the loader and the base library change.\<close>

definition with_loader :: "('a, 'w) booting fs_state \<Rightarrow> 'a \<Rightarrow> 'w loader \<Rightarrow> nat \<Rightarrow> nat \<Rightarrow> ('a, 'w) booting fs_state" where
  "with_loader s a l n i = s\<lparr>world := \<lparr>base_world = a, loader_state = Some l, delivered = n, polls = i\<rparr>\<rparr>"

lemma with_loader_sel [simp]:
  "world (with_loader s a l n i) = \<lparr>base_world = a, loader_state = Some l, delivered = n, polls = i\<rparr>"
  "exit_code (with_loader s a l n i) = exit_code s" "json_done (with_loader s a l n i) = json_done s"
  "fs (with_loader s a l n i) = fs s"
  "(with_loader s a l n i)\<lparr>world := \<lparr>base_world = a', loader_state = Some l', delivered = n', polls = i'\<rparr>\<rparr> =
    with_loader s a' l' n' i'"
  by (simp_all add: with_loader_def)

lemma boot_poll_idle:
  assumes "thread_poll base a = (cs, a')" and "run_events lib (order i) l = Some l'" and "cb_calls l' = []"
  shows "boot_poll base lib order \<lparr>base_world = a, loader_state = Some l, delivered = 0, polls = i\<rparr> =
    (cs, \<lparr>base_world = a', loader_state = Some l', delivered = 0, polls = Suc i\<rparr>)"
  using assms by (simp add: boot_poll_def)

lemma boot_poll_done:
  assumes "thread_poll base a = ([], a')" and "run_events lib (order i) l = Some l'" and "cb_calls l' = [r]"
  shows "boot_poll base lib order \<lparr>base_world = a, loader_state = Some l, delivered = 0, polls = i\<rparr> =
    ([Json_load_done], \<lparr>base_world = a', loader_state = Some l', delivered = 1, polls = Suc i\<rparr>)"
  using assms by (simp add: boot_poll_def)

lemma poll_json_end:
  assumes "thread_poll base a = ([], a')" and "run_events lib (order i) l = Some l'" and "cb_calls l' = [r]"
    and "exit_code s = None" "json_done s = Some False"
  shows "poll_loop (boot_lib base lib order) Json_done n (with_loader s a l 0 i) =
    Some (True, (with_loader s a' l' 1 (Suc i))\<lparr>json_done := Some True\<rparr>)"
  using assms(4,5) by (subst poll_loop.simps)
    (simp add: boot_poll_done [of base a a' lib order i l l', OF assms(1-3)] json_app_load_done_def)

lemma poll_json_goes_on:
  assumes "thread_poll base a = ([], a')" and "run_events lib (order i) l = Some l'" and "cb_calls l' = []"
    and "exit_code s = None" "json_done s = Some False" and "Suc n < POLLER_MAX_TIME"
  shows "poll_loop (boot_lib base lib order) Json_done n (with_loader s a l 0 i) =
    poll_loop (boot_lib base lib order) Json_done (Suc n) (with_loader s a' l' 0 (Suc i))"
  using assms(4-6) by (subst poll_loop.simps)
    (simp add: boot_poll_idle [of base a "[]" a' lib order i l l', OF assms(1-3)])

text \<open>\<open>d\<close> polls from now the event that makes progress occurs.\<close>

lemma poll_json_phase:
  assumes laws: "link_laws lib v" "server_laws lib v" "thread_laws base due data D" and fair: "fair K order"
    and s: "exit_code s = None" "json_done s = Some False"
  shows "phase lib v j l (todo, r) k (Some e) \<Longrightarrow> due a = None \<Longrightarrow> e \<in> set (order (i + d)) \<Longrightarrow> d < K \<Longrightarrow>
    n + d + K * k < POLLER_MAX_TIME \<Longrightarrow>
    runs (poll_loop (boot_lib base lib order) Json_done n (with_loader s a l 0 i)) (\<lambda>(ok, t). ok \<and>
      (\<exists>a' l' i'. t = (with_loader s a' l' 1 i')\<lparr>json_done := Some True\<rparr> \<and> due a' = None \<and> load_ctx l' = None \<and>
        cb_calls l' = [r] \<and> log v (env l') = log v (env l) @ todo))"
proof (induction "K * k + d" arbitrary: n a l todo e k d i rule: less_induct)
  case less
  from laws(3) less.prems(2) obtain a' where a': "thread_poll base a = ([], a')" "due a' = None"
    unfolding thread_laws_def by blast
  from loader_round [OF laws(1,2) less.prems(1), of "order i"] obtain l' now todo' k' e' where
    l': "run_events lib (order i) l = Some l'" "todo = now @ todo'" "log v (env l') = log v (env l) @ now"
      "phase lib v j l' (todo', r) k' e'" "k' < k \<or> k' = k \<and> e' = Some e \<and> e \<notin> set (order i)"
    by (blast elim!: runsE)
  show ?case
  proof (cases e')
    case None
    with phase_ctx [OF l'(4)] have c: "cb_calls l' = [r]" "load_ctx l' = None" "todo' = []" by (auto split: if_splits)
    show ?thesis unfolding poll_json_end [where order = order, OF a'(1) l'(1) c(1) s]
      by (simp, intro exI [of _ a'] exI [of _ l']) (use a'(2) c l'(2,3) in auto)
  next
    case (Some e1)
    with phase_ctx [OF l'(4)] have c: "cb_calls l' = []" by (auto split: if_splits)
    have "\<exists>d'<K. e1 \<in> set (order (Suc i + d')) \<and> K * k' + d' < K * k + d"
    proof (cases "k' < k")
      case True
      from fair obtain d' where "d' < K" "e1 \<in> set (order (Suc i + d'))" unfolding fair_def by blast
      moreover from True have "K * Suc k' \<le> K * k" by (intro mult_le_mono2) simp
      ultimately show ?thesis by auto
    next
      case False
      with l'(5) Some have e: "k' = k" "e1 = e" "e \<notin> set (order i)" by auto
      then have "d \<noteq> 0" using less.prems(3) by (cases d) auto
      then show ?thesis using e less.prems(3,4) by (intro exI [of _ "d - 1"]) simp
    qed
    then obtain d' where d': "d' < K" "e1 \<in> set (order (Suc i + d'))" "K * k' + d' < K * k + d" by blast
    have n: "Suc n + d' + K * k' < POLLER_MAX_TIME" using d'(3) less.prems(5) by simp
    then have "Suc n < POLLER_MAX_TIME" by simp
    from less.hyps [OF d'(3) l'(4) [unfolded Some] a'(2) d'(2,1) n] show ?thesis
      unfolding poll_json_goes_on [where order = order, OF a'(1) l'(1) c s \<open>Suc n < POLLER_MAX_TIME\<close>]
      by (rule_tac runs_mono) (use l'(2,3) in auto)
  qed
qed

text \<open>Before the message that starts it has arrived, the loader is idle.\<close>

lemma poll_json_start:
  assumes laws: "link_laws lib v" "server_laws lib v" "thread_laws base due data D" and fair: "fair K order"
    and s: "exit_code s = None" "json_done s = Some False"
    and starts: "starts lib v j json_file (Some SPDK_DEFAULT_RPC_ADDR) m w" "job_stop j"
  shows "due a = Some (Setup_json, d) \<Longrightarrow> n + d + K * Suc (rounds_needed v j m) + 1 < POLLER_MAX_TIME \<Longrightarrow>
    runs (poll_loop (boot_lib base lib order) Json_done n (with_loader s a (new_loader w) 0 i)) (\<lambda>(ok, t). ok \<and>
      (\<exists>a' l' i'. t = (with_loader s a' l' 1 i')\<lparr>json_done := Some True\<rparr> \<and> due a' = None \<and> load_ctx l' = None \<and>
        cb_calls l' = [snd (spec_of lib v j)] \<and> log v (env l') = fst (spec_of lib v j)))"
proof (induction d arbitrary: n a i)
  case 0
  from laws(3) 0(1) obtain a' where a': "thread_poll base a = ([Setup_json], a')" "due a' = None"
    unfolding thread_laws_def by blast
  from start_phase [OF starts(1)] starts(2) obtain l where
    l: "spdk_subsystem_init_from_json_config_temp lib json_file (Some SPDK_DEFAULT_RPC_ADDR) True (new_loader w) = Some l"
      "log v (env l) = []" "phase lib v j l (fst (spec_of lib v j), snd (spec_of lib v j)) (rounds_needed v j m) (Some Poll)"
    by (auto elim!: runsE)
  have c: "cb_calls (new_loader w) = []" by (simp add: new_loader_def)
  have p: "poll_loop (boot_lib base lib order) Json_done n (with_loader s a (new_loader w) 0 i) =
      poll_loop (boot_lib base lib order) Json_done (Suc n) (with_loader s a' l 0 (Suc i))"
    using s 0(2) l(1) by (subst poll_loop.simps)
      (simp add: boot_poll_idle [of base a "[Setup_json]" a' lib order i "new_loader w", OF a'(1) new_loader_idle c]
        setup_spdk_json_app_def Myfs.request_def start_loader_def)
  from fair obtain d' where d': "d' < K" "Poll \<in> set (order (Suc i + d'))" unfolding fair_def by blast
  then have "Suc n + d' + K * rounds_needed v j m < POLLER_MAX_TIME" using 0(2) by simp
  from poll_json_phase [OF laws fair s l(3) a'(2) d'(2,1) this] show ?case
    unfolding p by (rule runs_mono) (use l(2) in auto)
next
  case (Suc d)
  from laws(3) Suc.prems(1) obtain a' where a': "thread_poll base a = ([], a')" "due a' = Some (Setup_json, d)"
    unfolding thread_laws_def by blast
  have c: "cb_calls (new_loader w) = []" by (simp add: new_loader_def)
  have "Suc n < POLLER_MAX_TIME" using Suc.prems(2) by simp
  from poll_json_goes_on [where order = order, OF a'(1) new_loader_idle c s this] show ?case
    by (simp only:) (rule Suc.IH [OF a'(2)], use Suc.prems(2) in simp)
qed

section \<open>Property\<close>

text \<open>
  C38. The start of the file system composed with the loader of its configuration, under the conditions of C36 on
  the load and the ones of C29 on the SPDK thread. The thread may run the loader's events in any order and need not run
  them at every poll: the pollers have a period of 100 microseconds. If every kind of event occurs in any \<open>K\<close>
  consecutive polls, and the rounds that the load needs, \<open>K\<close> polls each, are within the 10^8 polls of the file system's
  poller, then \<open>myfs_spdk_env_init\<close> returns 0 after its poller has seen the flag, which is still alive when the
  callback sets it: the loader has sent exactly the requests that the configuration prescribes, has called its callback
  once, with the prescribed code, and has released its context. The code is ignored: a load that failed counts as done.
\<close>

theorem fs_boot_correct:
  assumes "link_laws lib v" and "server_laws lib v" and "thread_laws base due data D" and "fair K order"
    and "starts lib v j json_file (Some SPDK_DEFAULT_RPC_ADDR) n w" and "job_stop j"
    and "D + K * Suc (rounds_needed v j n) + 1 < POLLER_MAX_TIME"
    and "env_init base a = (rc, a1)" and "thread_create base a1 = (True, a2)" and "due a2 = None"
    and "fs s = Some f" and "exit_code s = None"
  shows "runs (myfs_spdk_env_init (boot_lib base lib order) (with_loader s a (new_loader w) 0 i)) (\<lambda>(r, t). r = 0 \<and>
    (\<exists>a' l i'. t = (with_loader s a' l 1 i')\<lparr>fs := Some (f\<lparr>thread := True\<rparr>), json_done := None\<rparr> \<and> due a' = None \<and>
      load_ctx l = None \<and> cb_calls l = [snd (spec_of lib v j)] \<and> log v (env l) = fst (spec_of lib v j)))"
proof -
  let ?t = "s\<lparr>fs := Some (f\<lparr>thread := True\<rparr>), json_done := Some False\<rparr>" and ?a = "send_msg base Setup_json a2"
  from assms(3,10) obtain d where d: "due ?a = Some (Setup_json, d)" "d \<le> D" unfolding thread_laws_def replies_def by blast
  have "exit_code ?t = None" "json_done ?t = Some False" using assms(12) by simp_all
  from poll_json_start [OF assms(1-4) this assms(5,6) d(1), of 0 i] d(2) assms(7) obtain a' l i' where
    p: "poll_loop (boot_lib base lib order) Json_done 0 (with_loader ?t ?a (new_loader w) 0 i) =
        Some (True, (with_loader ?t a' l 1 i')\<lparr>json_done := Some True\<rparr>)" "due a' = None" "load_ctx l = None"
      "cb_calls l = [snd (spec_of lib v j)]" "log v (env l) = fst (spec_of lib v j)"
    by (auto elim!: runsE)
  have "myfs_spdk_env_init (boot_lib base lib order) (with_loader s a (new_loader w) 0 i) =
      Some (0, (with_loader s a' l 1 i')\<lparr>fs := Some (f\<lparr>thread := True\<rparr>), json_done := None\<rparr>)"
    using assms(8,9,11) p(1) by (simp add: myfs_spdk_env_init_def lift_def upd_fs_def poller_def with_loader_def)
  then show ?thesis using p(2-5) by auto
qed

text \<open>A thread that runs messages and completions at every poll and the pollers at every thousandth.\<close>

definition slow_pollers :: "nat \<Rightarrow> event list" where
  "slow_pollers i = (if i mod 1000 = 0 then [Poll, Message, Init_complete] else [Message, Init_complete])"

lemma slow_pollers_fair: "fair 1000 slow_pollers"
proof -
  have "\<exists>d<1000. e \<in> set (slow_pollers (i + d))" for i e
  proof (cases "e = Poll")
    case True
    let ?d = "(1000 - i mod 1000) mod 1000"
    have "(i + ?d) mod 1000 = (i mod 1000 + (1000 - i mod 1000)) mod 1000" by (simp only: mod_add_left_eq mod_add_right_eq)
    also have "\<dots> = 0" by simp
    finally have "(i + ?d) mod 1000 = 0" .
    then show ?thesis using True by (intro exI [of _ ?d]) (simp add: slow_pollers_def)
  next
    case False
    then show ?thesis by (cases e) (auto simp: slow_pollers_def intro!: exI [of _ 0])
  qed
  then show ?thesis by (simp add: fair_def)
qed

theorem fs_boot_correct_witness:
  "runs (myfs_spdk_env_init (boot_lib (ram_disk 512) loopback_lib slow_pollers)
     (with_loader (initial_state Map.empty \<lparr>base_world = (None, \<lambda>h. []), loader_state = None, delivered = 0, polls = 0\<rparr>
       \<lparr>fs := Some zero_fs\<rparr>)
       (None, \<lambda>h. []) (new_loader (Connecting 2, [], SPDK_RPC_STARTUP)) 0 7)) (\<lambda>(r, t). r = 0 \<and>
     (\<exists>l. loader_state (world t) = Some l \<and> load_ctx l = None \<and> cb_calls l = [0] \<and> fst (snd (env l)) =
       [Request (request_of ''a'' (Some ''{\"x\":1}'')), Init_subsystems, Request (request_of ''b'' None)]))"
proof -
  let ?s = "initial_state Map.empty \<lparr>base_world = (None, \<lambda>h. []) :: ram, loader_state = None :: loopback loader option,
      delivered = 0, polls = 0\<rparr>\<lparr>fs := Some zero_fs\<rparr>"
  have st: "starts loopback_lib loopback_view demo_job json_file (Some SPDK_DEFAULT_RPC_ADDR) 2 (Connecting 2, [], SPDK_RPC_STARTUP)"
    by (rule loopback_starts_at) simp
  have j: "job_stop demo_job" "0 + 1000 * Suc (rounds_needed loopback_view demo_job 2) + 1 < POLLER_MAX_TIME"
    using loopback_rounds by (simp_all add: demo_job_def POLLER_MAX_TIME_def)
  have b: "env_init (ram_disk 512) (None, \<lambda>h. []) = (0, (None, \<lambda>h. []))"
      "thread_create (ram_disk 512) (None, \<lambda>h. []) = (True, (None, \<lambda>h. []))" "ram_due (None, \<lambda>h. []) = None"
    by (simp_all add: ram_disk_def)
  have s: "fs ?s = Some zero_fs" "exit_code ?s = None" by (simp_all add: initial_state_def)
  from fs_boot_correct [OF loopback_laws ram_laws(1) slow_pollers_fair st j b s, of 7] show ?thesis
    unfolding loopback_spec by (rule runs_mono) (auto simp: loopback_view_def)
qed

end
