(* ===== verification/Nvme.thy ===== *)
theory Nvme
  imports Prelude
begin

text \<open>
  The two programs that access NVMe disks: \<open>spdk_nvme/nvme_opera.c\<close> writes a text to every namespace of every
  controller and reads it back, \<open>KV_Store/kv_main.cpp\<close> collects the controllers and namespaces and does so for one of
  them.

  The NVMe driver of SPDK is a parameter, the record \<open>nvme_lib\<close> over a state \<open>'w\<close>. \<open>mem\<close> holds the blocks of
  memory a pointer may point to; \<open>spdk_zmalloc\<close> makes a new one, and the memory of a controller that
  \<open>map_cmb\<close> maps is there from the start. A write hands the sectors of the buffer to the device, a read delivers them
  at its completion; \<open>process_completions\<close> yields the completions that are due, whose callbacks then run.
  \<open>nvme_probe\<close> is told which addresses the probe callback accepts and yields the callbacks in the order of their calls.
  \<open>out\<close> is what the programs print, one entry for each call of \<open>printf\<close>, without its line ends. Dereferencing a null
  pointer, leaving a block and a loop that does not end have no value. \<open>malloc\<close> succeeds.
\<close>

section \<open>The driver and the state of the host\<close>

datatype completion = Write_cpl | Read_cpl "addr option" "byte list"

datatype probe_event = Probed string | Attached string addr

record 'w nvme_lib =
  nvme_env_init :: "'w \<Rightarrow> int \<times> 'w"
  vmd_init :: "'w \<Rightarrow> 'w"
  vmd_fini :: "'w \<Rightarrow> 'w"
  nvme_probe :: "(string \<Rightarrow> bool) \<Rightarrow> 'w \<Rightarrow> probe_event list \<times> 'w"
  ctrlr_num_ns :: "addr \<Rightarrow> 32 word"
  first_active_ns :: "addr \<Rightarrow> 32 word"
  next_active_ns :: "addr \<Rightarrow> 32 word \<Rightarrow> 32 word"
  ctrlr_get_ns :: "addr \<Rightarrow> 32 word \<Rightarrow> addr option"
  ns_size :: "addr \<Rightarrow> 64 word"
  sector_size :: "addr \<Rightarrow> nat"
  alloc_io_qpair :: "addr \<Rightarrow> 'w \<Rightarrow> addr option \<times> 'w"
  free_io_qpair :: "addr \<Rightarrow> 'w \<Rightarrow> 'w"
  map_cmb :: "addr \<Rightarrow> 'w \<Rightarrow> (addr option \<times> size_t) \<times> 'w"
  zmalloc :: "nat \<Rightarrow> 'w \<Rightarrow> addr option \<times> 'w"
  ns_cmd_write :: "addr \<Rightarrow> addr \<Rightarrow> byte list \<Rightarrow> 64 word \<Rightarrow> 32 word \<Rightarrow> 32 word \<Rightarrow> 'w \<Rightarrow> int \<times> 'w"
  ns_cmd_read :: "addr \<Rightarrow> addr \<Rightarrow> addr option \<Rightarrow> 64 word \<Rightarrow> 32 word \<Rightarrow> 32 word \<Rightarrow> 'w \<Rightarrow> int \<times> 'w"
  process_completions :: "addr \<Rightarrow> 'w \<Rightarrow> completion list \<times> 'w"

record 'w host =
  mem :: "addr \<rightharpoonup> byte list"
  out :: "byte list list"
  dev :: 'w

text \<open>A function returns a value or calls \<open>exit\<close>.\<close>

datatype outcome = Returns int | Exits int

definition MESSAGE :: "byte list" where
  "MESSAGE = c_str ''The test for spdk, 555, 1025, KKK''"

definition printf :: "byte list \<Rightarrow> ('w, 'z) host_scheme \<Rightarrow> ('w, 'z) host_scheme" where
  "printf text s = s\<lparr>out := out s @ [text]\<rparr>"

definition ALIGN_4k :: nat where "ALIGN_4k = 0x1000"

definition strcpy :: "addr option \<Rightarrow> byte list \<Rightarrow> ('w, 'z) host_scheme \<Rightarrow> ('w, 'z) host_scheme option" where
  "strcpy p str s = do {
     a \<leftarrow> p;
     bytes \<leftarrow> mem s a;
     (if length str < length bytes then
        Some (s\<lparr>mem := (mem s)(a \<mapsto> str @ 0 # drop (Suc (length str)) bytes)\<rparr>) else None) }"

definition dma_load :: "addr option \<Rightarrow> nat \<Rightarrow> ('w, 'z) host_scheme \<Rightarrow> byte list option" where
  "dma_load p n s = do {
     a \<leftarrow> p;
     bytes \<leftarrow> mem s a;
     (if n \<le> length bytes then Some (take n bytes) else None) }"

definition dma_store :: "addr option \<Rightarrow> byte list \<Rightarrow> ('w, 'z) host_scheme \<Rightarrow> ('w, 'z) host_scheme option" where
  "dma_store p d s = do {
     a \<leftarrow> p;
     bytes \<leftarrow> mem s a;
     (if length d \<le> length bytes then Some (s\<lparr>mem := (mem s)(a \<mapsto> d @ drop (length d) bytes)\<rparr>) else None) }"

definition zmalloc_buf :: "'w nvme_lib \<Rightarrow> nat \<Rightarrow> ('w, 'z) host_scheme \<Rightarrow> addr option \<times> ('w, 'z) host_scheme" where
  "zmalloc_buf lib n s = (let (p, w) = zmalloc lib n (dev s) in
     (p, case p of None \<Rightarrow> s\<lparr>dev := w\<rparr> | Some a \<Rightarrow> s\<lparr>dev := w, mem := (mem s)(a \<mapsto> replicate n 0)\<rparr>))"

section \<open>Reading and writing a sector\<close>

text \<open>The callbacks set the local variable \<open>finished\<close> they get a pointer to.\<close>

definition nvme_opera_write_cb :: "('w, 'z) host_scheme \<Rightarrow> bool \<times> ('w, 'z) host_scheme" where
  "nvme_opera_write_cb s = (True, printf (c_str ''nvme_opera_write cb finished'') s)"

definition nvme_opera_read_cb :: "('w, 'z) host_scheme \<Rightarrow> bool \<times> ('w, 'z) host_scheme" where
  "nvme_opera_read_cb s = (True, printf (c_str ''nvme_opera_read cb finished'') s)"

fun run_completions :: "completion list \<Rightarrow> bool \<Rightarrow> ('w, 'z) host_scheme \<Rightarrow> (bool \<times> ('w, 'z) host_scheme) option" where
  "run_completions [] finished s = Some (finished, s)"
| "run_completions (Write_cpl # cs) finished s = (let (finished, s) = nvme_opera_write_cb s in run_completions cs finished s)"
| "run_completions (Read_cpl p d # cs) finished s = do {
     s \<leftarrow> dma_store p d s;
     let (finished, s) = nvme_opera_read_cb s;
     run_completions cs finished s }"

partial_function (option) wait_finished :: "'w nvme_lib \<Rightarrow> addr \<Rightarrow> bool \<Rightarrow> ('w, 'z) host_scheme \<Rightarrow> ('w, 'z) host_scheme option" where
  "wait_finished lib q finished s = (if finished then Some s else
     (case process_completions lib q (dev s) of (cs, w) \<Rightarrow> do {
        (finished, s) \<leftarrow> run_completions cs finished (s\<lparr>dev := w\<rparr>);
        wait_finished lib q finished s }))"

declare wait_finished.simps [code]

text \<open>The memory of the controller if it can be mapped, else a page.\<close>

definition get_buffer :: "'w nvme_lib \<Rightarrow> addr \<Rightarrow> ('w, 'z) host_scheme \<Rightarrow> addr option \<times> ('w, 'z) host_scheme" where
  "get_buffer lib ctrlr s = (let ((p, sz), w) = map_cmb lib ctrlr (dev s); s = s\<lparr>dev := w\<rparr> in
     if p = None then zmalloc_buf lib 0x1000 s else (p, s))"

definition submit_write :: "'w nvme_lib \<Rightarrow> addr \<Rightarrow> addr \<Rightarrow> addr option \<Rightarrow> 64 word \<Rightarrow> 32 word \<Rightarrow> 32 word \<Rightarrow>
    ('w, 'z) host_scheme \<Rightarrow> (int \<times> ('w, 'z) host_scheme) option" where
  "submit_write lib ns q p lba lba_count io_flags s = do {
     d \<leftarrow> dma_load p (unat lba_count * sector_size lib ns) s;
     let (rc, w) = ns_cmd_write lib ns q d lba lba_count io_flags (dev s);
     Some (rc, s\<lparr>dev := w\<rparr>) }"

definition nvme_opera_write :: "'w nvme_lib \<Rightarrow> addr \<Rightarrow> addr \<Rightarrow> ('w, 'z) host_scheme \<Rightarrow> (outcome \<times> ('w, 'z) host_scheme) option" where
  "nvme_opera_write lib ctrlr ns s = (case alloc_io_qpair lib ctrlr (dev s) of
     (None, w) \<Rightarrow> Some (Returns (- 1), s\<lparr>dev := w\<rparr>)
   | (Some q, w) \<Rightarrow> do {
       let (wmem, s) = get_buffer lib ctrlr (s\<lparr>dev := w\<rparr>);
       s \<leftarrow> strcpy wmem MESSAGE s;
       (rc, s) \<leftarrow> submit_write lib ns q wmem 0 1 0 s;
       (if rc \<noteq> 0 then Some (Exits 1, printf (c_str ''starting write I/O failed'') s) else do {
          s \<leftarrow> wait_finished lib q False s;
          let s = s\<lparr>dev := free_io_qpair lib q (dev s)\<rparr>;
          Some (Returns 0, printf (c_str ''nvme_opera_write successful'') s) }) })"

text \<open>\<open>nvme_opera_read\<close> of both programs; they differ in the text that comes before the bytes read.\<close>

definition read_sector :: "'w nvme_lib \<Rightarrow> string \<Rightarrow> addr \<Rightarrow> addr \<Rightarrow> ('w, 'z) host_scheme \<Rightarrow> (outcome \<times> ('w, 'z) host_scheme) option" where
  "read_sector lib title ctrlr ns s = (case alloc_io_qpair lib ctrlr (dev s) of
     (None, w) \<Rightarrow> Some (Returns (- 1), s\<lparr>dev := w\<rparr>)
   | (Some q, w) \<Rightarrow> do {
       let (rmem, s) = get_buffer lib ctrlr (s\<lparr>dev := w\<rparr>);
       let (rc, w) = ns_cmd_read lib ns q rmem 0 1 0 (dev s);
       let s = s\<lparr>dev := w\<rparr>;
       (if rc \<noteq> 0 then Some (Exits 1, printf (c_str ''starting read I/O failed'') s) else do {
          s \<leftarrow> wait_finished lib q False s;
          let s = s\<lparr>dev := free_io_qpair lib q (dev s)\<rparr>;
          a \<leftarrow> rmem;
          bytes \<leftarrow> mem s a;
          text \<leftarrow> c_string bytes 0;
          Some (Returns 0, printf (c_str title @ text) s) }) })"

definition nvme_opera_read :: "'w nvme_lib \<Rightarrow> addr \<Rightarrow> addr \<Rightarrow> ('w, 'z) host_scheme \<Rightarrow> (outcome \<times> ('w, 'z) host_scheme) option" where
  "nvme_opera_read lib ctrlr ns s = read_sector lib ''nvme_opera_write successful: '' ctrlr ns s"

section \<open>The program \<open>nvme_opera.c\<close>\<close>

definition ns_line :: "'w nvme_lib \<Rightarrow> 32 word \<Rightarrow> addr \<Rightarrow> byte list" where
  "ns_line lib nsid ns = c_str (''nsid: '' @ show_nat (unat nsid) @ '' name space size: '' @
     show_nat (unat (ns_size lib ns) div (1024 * 1024 * 1024)) @ ''GB'')"

partial_function (option) opera_attach_loop :: "'w nvme_lib \<Rightarrow> addr \<Rightarrow> 32 word \<Rightarrow> ('w, 'z) host_scheme \<Rightarrow>
    (outcome \<times> ('w, 'z) host_scheme) option" where
  "opera_attach_loop lib ctrlr nsid s = (if nsid = 0 then Some (Returns 0, s) else
     (case ctrlr_get_ns lib ctrlr nsid of
        None \<Rightarrow> opera_attach_loop lib ctrlr nsid s
      | Some ns \<Rightarrow> do {
          (r, s) \<leftarrow> nvme_opera_write lib ctrlr ns (printf (ns_line lib nsid ns) s);
          (case r of Exits e \<Rightarrow> Some (Exits e, s)
           | Returns v \<Rightarrow> do {
               (r, s) \<leftarrow> nvme_opera_read lib ctrlr ns s;
               (case r of Exits e \<Rightarrow> Some (Exits e, s)
                | Returns v \<Rightarrow> opera_attach_loop lib ctrlr (next_active_ns lib ctrlr nsid) s) }) }))"

declare opera_attach_loop.simps [code]

definition nvme_opera_attach_callback :: "'w nvme_lib \<Rightarrow> addr \<Rightarrow> ('w, 'z) host_scheme \<Rightarrow>
    (outcome \<times> ('w, 'z) host_scheme) option" where
  "nvme_opera_attach_callback lib ctrlr s =
     (let s = printf (c_str ''nvme_opera_attach_callback'') s;
          s = printf (c_str (''name space num: '' @ show_nat (unat (ctrlr_num_ns lib ctrlr)))) s
      in opera_attach_loop lib ctrlr (first_active_ns lib ctrlr) s)"

definition nvme_opera_probe_callback :: "string \<Rightarrow> ('w, 'z) host_scheme \<Rightarrow> bool \<times> ('w, 'z) host_scheme" where
  "nvme_opera_probe_callback traddr s = (True, printf (c_str ''nvme_opera_probe_callback'') s)"

fun opera_attach_all :: "'w nvme_lib \<Rightarrow> probe_event list \<Rightarrow> ('w, 'z) host_scheme \<Rightarrow> (outcome \<times> ('w, 'z) host_scheme) option" where
  "opera_attach_all lib [] s = Some (Returns 0, s)"
| "opera_attach_all lib (Probed traddr # es) s = opera_attach_all lib es (snd (nvme_opera_probe_callback traddr s))"
| "opera_attach_all lib (Attached traddr ctrlr # es) s = do {
     (r, s) \<leftarrow> nvme_opera_attach_callback lib ctrlr s;
     (case r of Exits e \<Rightarrow> Some (Exits e, s) | Returns v \<Rightarrow> opera_attach_all lib es s) }"

definition nvme_opera_main :: "'w nvme_lib \<Rightarrow> ('w, 'z) host_scheme \<Rightarrow> (outcome \<times> ('w, 'z) host_scheme) option" where
  "nvme_opera_main lib s =
     (let (res, w) = nvme_env_init lib (dev s);
          s = printf (c_str (''spdk_env_init res: '' @ show_int res)) (s\<lparr>dev := w\<rparr>);
          (events, w) = nvme_probe lib (\<lambda>traddr. fst (nvme_opera_probe_callback traddr s)) (vmd_init lib (dev s)) in do {
        (r, s) \<leftarrow> opera_attach_all lib events (s\<lparr>dev := w\<rparr>);
        Some (case r of Exits e \<Rightarrow> (Exits e, s) | Returns v \<Rightarrow> (Returns 0, s\<lparr>dev := vmd_fini lib (dev s)\<rparr>)) })"

section \<open>The program \<open>kv_main.cpp\<close>\<close>

record ctrlr_entry =
  ce_ctrlr :: addr
  ce_qpair :: "addr option"
  ce_name :: string

text \<open>A pointer to a \<open>ctrlr_entry\<close> is its position in the list.\<close>

record namespace_entry =
  ne_ns :: addr
  ne_ctrlr :: nat
  ne_nsid :: "32 word"

record 'w kv = "'w host" +
  gctrlr :: "addr option"
  gns :: "addr option"
  gqpair :: "addr option"
  g_ctrlr :: "ctrlr_entry list"
  g_ns :: "namespace_entry list"

definition NVME_CONTROLLER_NAME_LENGTH :: nat where "NVME_CONTROLLER_NAME_LENGTH = 5112"

definition nvme_probe_cb :: "string \<Rightarrow> 'w kv \<Rightarrow> bool \<times> 'w kv" where
  "nvme_probe_cb traddr s = (True, printf (c_str (''nvme_probe_cb: '' @ traddr)) s)"

partial_function (option) kv_attach_loop :: "'w nvme_lib \<Rightarrow> addr \<Rightarrow> nat \<Rightarrow> 32 word \<Rightarrow> 'w kv \<Rightarrow> 'w kv option" where
  "kv_attach_loop lib ctrlr e nsid s = (if nsid = 0 then Some s else
     (case ctrlr_get_ns lib ctrlr nsid of
        None \<Rightarrow> kv_attach_loop lib ctrlr e nsid s
      | Some ns \<Rightarrow> kv_attach_loop lib ctrlr e (next_active_ns lib ctrlr nsid)
          (s\<lparr>g_ns := g_ns s @ [\<lparr>ne_ns = ns, ne_ctrlr = e, ne_nsid = nsid\<rparr>]\<rparr>)))"

declare kv_attach_loop.simps [code]

definition nvme_attach_cb :: "'w nvme_lib \<Rightarrow> string \<Rightarrow> addr \<Rightarrow> 'w kv \<Rightarrow> 'w kv option" where
  "nvme_attach_cb lib traddr ctrlr s =
     (let nsid = first_active_ns lib ctrlr;
          s = s\<lparr>gns := ctrlr_get_ns lib ctrlr nsid, gctrlr := Some ctrlr\<rparr>;
          (qpair, w) = alloc_io_qpair lib ctrlr (dev s);
          entry = \<lparr>ce_ctrlr = ctrlr, ce_qpair = qpair, ce_name = take (NVME_CONTROLLER_NAME_LENGTH - 1) traddr\<rparr>
      in kv_attach_loop lib ctrlr (length (g_ctrlr s)) nsid (s\<lparr>dev := w, g_ctrlr := g_ctrlr s @ [entry]\<rparr>))"

fun kv_attach_all :: "'w nvme_lib \<Rightarrow> probe_event list \<Rightarrow> 'w kv \<Rightarrow> 'w kv option" where
  "kv_attach_all lib [] s = Some s"
| "kv_attach_all lib (Probed traddr # es) s = kv_attach_all lib es (snd (nvme_probe_cb traddr s))"
| "kv_attach_all lib (Attached traddr ctrlr # es) s = do {
     s \<leftarrow> nvme_attach_cb lib traddr ctrlr s;
     kv_attach_all lib es s }"

definition kv_opera_read :: "'w nvme_lib \<Rightarrow> addr \<Rightarrow> addr \<Rightarrow> 'w kv \<Rightarrow> (outcome \<times> 'w kv) option" where
  "kv_opera_read lib ctrlr ns s = read_sector lib ''nvme_opera_read successful: '' ctrlr ns s"

definition memset0 :: "addr \<Rightarrow> nat \<Rightarrow> 'w kv \<Rightarrow> 'w kv option" where
  "memset0 a n s = do {
     bytes \<leftarrow> mem s a;
     (if n \<le> length bytes then Some (s\<lparr>mem := (mem s)(a \<mapsto> replicate n 0 @ drop n bytes)\<rparr>) else None) }"

text \<open>Lines 150 to 159: the buffer, its size and \<open>mmap_io\<close>.\<close>

definition kv_buffer :: "'w nvme_lib \<Rightarrow> addr \<Rightarrow> 'w kv \<Rightarrow> (addr option \<times> nat \<times> int) \<times> 'w kv" where
  "kv_buffer lib ctrlr s = (let ((p, sz), w) = map_cmb lib ctrlr (dev s); s = s\<lparr>dev := w\<rparr> in
     if p = None \<or> sz = 0 then
       (let (p, s) = zmalloc_buf lib ALIGN_4k (printf (c_str ''switch spdk_zmalloc'') s) in ((p, ALIGN_4k, 0), s))
     else ((p, unat sz, 1), s))"

text \<open>Lines 163 to 175: the write, the wait for it and the read.\<close>

definition kv_write_read :: "'w nvme_lib \<Rightarrow> addr \<Rightarrow> addr \<Rightarrow> addr \<Rightarrow> int \<Rightarrow> 'w kv \<Rightarrow> (outcome \<times> 'w kv) option" where
  "kv_write_read lib ctrlr q buf mmap_io s = do {
     ns \<leftarrow> gns s;
     (rc, s) \<leftarrow> submit_write lib ns q (Some buf) 0 1 0 s;
     (if rc \<noteq> 0 then Some (Exits 1, printf (c_str ''starting write I/O failed'') s) else do {
        s \<leftarrow> wait_finished lib q False s;
        (r, s) \<leftarrow> kv_opera_read lib ctrlr ns (s\<lparr>dev := free_io_qpair lib q (dev s)\<rparr>);
        Some (case r of Exits e \<Rightarrow> (Exits e, s) | Returns v \<Rightarrow> (Returns 0, printf (c_str (''main mmap_io '' @ show_int mmap_io)) s)) }) }"

definition kv_main :: "'w nvme_lib \<Rightarrow> 'w kv \<Rightarrow> (outcome \<times> 'w kv) option" where
  "kv_main lib s =
     (let (res, w) = nvme_env_init lib (dev s); (events, w) = nvme_probe lib (\<lambda>traddr. fst (nvme_probe_cb traddr s)) w in do {
        s \<leftarrow> kv_attach_all lib events (s\<lparr>dev := w\<rparr>);
        ctrlr \<leftarrow> gctrlr s;
        let (qpair, w) = alloc_io_qpair lib ctrlr (dev s);
        let s = s\<lparr>dev := w, gqpair := qpair\<rparr>;
        (case qpair of None \<Rightarrow> Some (Returns (- 1), s)
         | Some q \<Rightarrow> do {
             let ((p, sz, mmap_io), s) = kv_buffer lib ctrlr s;
             (case p of None \<Rightarrow> Some (Returns (- 1), s)
              | Some buf \<Rightarrow> do {
                  s \<leftarrow> memset0 buf sz s;
                  s \<leftarrow> strcpy (Some buf) MESSAGE s;
                  kv_write_read lib ctrlr q buf mmap_io s }) }) })"

definition kv_start :: "(addr \<rightharpoonup> byte list) \<Rightarrow> 'w \<Rightarrow> 'w kv" where
  "kv_start m w = \<lparr>mem = m, out = [], dev = w, gctrlr = None, gns = None, gqpair = None, g_ctrlr = [], g_ns = []\<rparr>"

end
