(* ===== verification/Nvme_Props.thy ===== *)
theory Nvme_Props
  imports Nvme
begin

text \<open>
  What the NVMe programs do over a driver that works: they write their text to the disks and read it back.
\<close>

section \<open>The laws of the driver\<close>

text \<open>Two observations of the driver: the sectors of each namespace and the completion that is due on a queue
  pair, with the number of polls it waits. \<open>cmb\<close> are the addresses of controller memory and \<open>cmb_size\<close> their size.\<close>

record 'w disk_view =
  disk :: "'w \<Rightarrow> addr \<Rightarrow> 64 word \<Rightarrow> byte list"
  pending :: "'w \<Rightarrow> (addr \<times> completion \<times> nat) option"
  cmb :: "addr set"
  cmb_size :: size_t

definition quiet :: "'w disk_view \<Rightarrow> 'w \<Rightarrow> 'w \<Rightarrow> bool" where
  "quiet v w w' \<longleftrightarrow> disk v w' = disk v w \<and> pending v w' = pending v w"

text \<open>A command for one sector inside the namespace; its completion is due after some polls.\<close>

definition io_laws :: "'w nvme_lib \<Rightarrow> 'w disk_view \<Rightarrow> bool" where
  "io_laws lib v \<longleftrightarrow>
     (\<forall>w ns q d lba. pending v w = None \<and> length d = sector_size lib ns \<and> unat lba * sector_size lib ns < unat (ns_size lib ns) \<longrightarrow>
        (\<exists>w' n. ns_cmd_write lib ns q d lba 1 0 w = (0, w') \<and>
          pending v w' = Some (q, Write_cpl, n) \<and> disk v w' = (disk v w)(ns := (disk v w ns)(lba := d)))) \<and>
     (\<forall>w ns q p lba. pending v w = None \<and> unat lba * sector_size lib ns < unat (ns_size lib ns) \<longrightarrow>
        (\<exists>w' n. ns_cmd_read lib ns q p lba 1 0 w = (0, w') \<and>
          pending v w' = Some (q, Read_cpl p (disk v w ns lba), n) \<and> disk v w' = disk v w)) \<and>
     (\<forall>w q c n. pending v w = Some (q, c, Suc n) \<longrightarrow> (\<exists>w'. process_completions lib q w = ([], w') \<and>
        pending v w' = Some (q, c, n) \<and> disk v w' = disk v w)) \<and>
     (\<forall>w q c. pending v w = Some (q, c, 0) \<longrightarrow> (\<exists>w'. process_completions lib q w = ([c], w') \<and>
        pending v w' = None \<and> disk v w' = disk v w))"

text \<open>Queue pairs and buffers can be allocated, and a sector holds the text and fits into a page.\<close>

definition resource_laws :: "'w nvme_lib \<Rightarrow> 'w disk_view \<Rightarrow> bool" where
  "resource_laws lib v \<longleftrightarrow>
     (\<forall>w c. \<exists>q w'. alloc_io_qpair lib c w = (Some q, w') \<and> quiet v w w') \<and>
     (\<forall>w q. quiet v w (free_io_qpair lib q w)) \<and>
     (\<forall>w c. quiet v w (snd (map_cmb lib c w)) \<and> (case fst (map_cmb lib c w) of (None, sz) \<Rightarrow> True
        | (Some a, sz) \<Rightarrow> a \<in> cmb v \<and> sz = cmb_size v)) \<and>
     (\<forall>w n. \<exists>a w'. zmalloc lib n w = (Some a, w') \<and> a \<notin> cmb v \<and> quiet v w w') \<and>
     (\<forall>ns. length MESSAGE < sector_size lib ns \<and> sector_size lib ns \<le> 0x1000 \<and> 0 < unat (ns_size lib ns)) \<and> 0x1000 \<le> unat (cmb_size v)"

definition host_ok :: "'w disk_view \<Rightarrow> ('w, 'z) host_scheme \<Rightarrow> bool" where
  "host_ok v s \<longleftrightarrow> pending v (dev s) = None \<and> (\<forall>a\<in>cmb v. \<exists>bytes. mem s a = Some bytes \<and> length bytes = unat (cmb_size v))"

definition carries :: "byte list \<Rightarrow> bool" where
  "carries d \<longleftrightarrow> (\<exists>rest. d = MESSAGE @ 0 # rest)"

section \<open>One sector\<close>

lemma sector_laws:
  assumes "resource_laws lib v"
  shows "length MESSAGE < sector_size lib ns" "sector_size lib ns \<le> 0x1000" "unat (0 :: 64 word) * sector_size lib ns < unat (ns_size lib ns)"
  using assms by (simp_all add: resource_laws_def)

definition write_done :: "byte list" where "write_done = c_str ''nvme_opera_write cb finished''"
definition read_done :: "byte list" where "read_done = c_str ''nvme_opera_read cb finished''"

lemmas cb_defs = nvme_opera_write_cb_def nvme_opera_read_cb_def printf_def write_done_def read_done_def

lemma wait_write:
  assumes laws: "io_laws lib v" and p: "pending v (dev s) = Some (q, Write_cpl, n)"
  shows "\<exists>w. wait_finished lib q False s = Some (s\<lparr>dev := w, out := out s @ [write_done]\<rparr>) \<and> pending v w = None \<and> disk v w = disk v (dev s)"
  using p
proof (induction n arbitrary: s)
  case 0
  with laws obtain w where w: "process_completions lib q (dev s) = ([Write_cpl], w)" "pending v w = None" "disk v w = disk v (dev s)"
    unfolding io_laws_def by blast
  then show ?case
    by (subst wait_finished.simps, simp add: cb_defs) (subst wait_finished.simps, auto)
next
  case (Suc n)
  with laws obtain w where w: "process_completions lib q (dev s) = ([], w)" "pending v w = Some (q, Write_cpl, n)"
      "disk v w = disk v (dev s)"
    unfolding io_laws_def by blast
  with Suc.IH [of "s\<lparr>dev := w\<rparr>"] show ?case by (subst wait_finished.simps) auto
qed

lemma wait_read:
  assumes laws: "io_laws lib v" and p: "pending v (dev s) = Some (q, Read_cpl (Some a) d, n)"
    and m: "mem s a = Some bytes" "length d \<le> length bytes"
  shows "\<exists>w. wait_finished lib q False s = Some (s\<lparr>dev := w, mem := (mem s)(a \<mapsto> d @ drop (length d) bytes),
      out := out s @ [read_done]\<rparr>) \<and> pending v w = None \<and> disk v w = disk v (dev s)"
  using p m
proof (induction n arbitrary: s)
  case 0
  with laws obtain w where w: "process_completions lib q (dev s) = ([Read_cpl (Some a) d], w)" "pending v w = None"
      "disk v w = disk v (dev s)"
    unfolding io_laws_def by blast
  with 0 show ?case
    by (subst wait_finished.simps, simp add: cb_defs dma_store_def) (subst wait_finished.simps, auto)
next
  case (Suc n)
  with laws obtain w where w: "process_completions lib q (dev s) = ([], w)" "pending v w = Some (q, Read_cpl (Some a) d, n)"
      "disk v w = disk v (dev s)"
    unfolding io_laws_def by blast
  have "wait_finished lib q False s = wait_finished lib q False (s\<lparr>dev := w\<rparr>)"
    by (subst wait_finished.simps) (simp add: w(1))
  with Suc.IH [of "s\<lparr>dev := w\<rparr>"] Suc.prems w(2,3) show ?case by simp
qed

text \<open>The buffer of an operation.\<close>

lemma map_cmb_ok:
  assumes "resource_laws lib v" and "map_cmb lib c w = ((p, sz), w')"
  shows "quiet v w w'" and "p = Some a \<Longrightarrow> a \<in> cmb v \<and> sz = cmb_size v"
proof -
  have "quiet v w (snd (map_cmb lib c w)) \<and>
      (case fst (map_cmb lib c w) of (None, sz) \<Rightarrow> True | (Some a, sz) \<Rightarrow> a \<in> cmb v \<and> sz = cmb_size v)"
    using assms(1) by (simp add: resource_laws_def)
  then show "quiet v w w'" and "p = Some a \<Longrightarrow> a \<in> cmb v \<and> sz = cmb_size v" using assms(2) by auto
qed

lemma get_buffer_ok:
  assumes laws: "resource_laws lib v" and s: "host_ok v s"
  shows "\<exists>a bytes w m. get_buffer lib c s = (Some a, s\<lparr>dev := w, mem := m\<rparr>) \<and> m a = Some bytes \<and>
    0x1000 \<le> length bytes \<and> host_ok v (s\<lparr>dev := w, mem := m\<rparr>) \<and> disk v w = disk v (dev s) \<and>
    (a \<in> cmb v \<longrightarrow> length bytes = unat (cmb_size v))"
proof -
  obtain p sz w where w: "map_cmb lib c (dev s) = ((p, sz), w)" by (metis prod.exhaust)
  note q = map_cmb_ok [OF laws w]
  show ?thesis
  proof (cases p)
    case None
    from laws obtain a w' where z: "zmalloc lib 0x1000 w = (Some a, w')" "a \<notin> cmb v" "quiet v w w'"
      unfolding resource_laws_def by blast
    let ?m = "(mem s)(a \<mapsto> replicate 0x1000 0)"
    have "get_buffer lib c s = (Some a, s\<lparr>dev := w', mem := ?m\<rparr>)"
      using w z None by (simp add: get_buffer_def zmalloc_buf_def)
    moreover have "host_ok v (s\<lparr>dev := w', mem := ?m\<rparr>)" using s q z by (auto simp: host_ok_def quiet_def)
    ultimately show ?thesis using q z by (intro exI [of _ a] exI [of _ "replicate 0x1000 0"] exI [of _ w'] exI [of _ ?m]) (simp add: quiet_def)
  next
    case (Some a)
    with q(2) have a: "a \<in> cmb v" by simp
    with s obtain bytes where b: "mem s a = Some bytes" "length bytes = unat (cmb_size v)" by (auto simp: host_ok_def)
    have "get_buffer lib c s = (Some a, s\<lparr>dev := w, mem := mem s\<rparr>)" using w Some by (simp add: get_buffer_def)
    moreover have "0x1000 \<le> unat (cmb_size v)" using laws by (simp add: resource_laws_def)
    ultimately show ?thesis using a b s q by (intro exI [of _ a] exI [of _ bytes] exI [of _ w] exI [of _ "mem s"]) (auto simp: quiet_def host_ok_def)
  qed
qed

lemma host_ok_update [simp]:
  "host_ok v (s\<lparr>out := x\<rparr>) = host_ok v s"
  by (simp add: host_ok_def)

lemma host_ok_mem:
  assumes "host_ok v s" and "mem s a = Some bytes" and "length bytes' = length bytes" and "pending v w = None"
  shows "host_ok v (s\<lparr>dev := w, mem := (mem s)(a \<mapsto> bytes')\<rparr>)"
  using assms by (auto simp: host_ok_def)

text \<open>Storing the text in a buffer and writing its first sector.\<close>

lemma submit_message:
  assumes laws: "io_laws lib v" "resource_laws lib v" and s: "host_ok v s" "mem s a = Some bytes" "0x1000 \<le> length bytes"
  shows "\<exists>w m. strcpy (Some a) MESSAGE s \<bind> (\<lambda>s. submit_write lib ns q (Some a) 0 1 0 s) = Some (0, s\<lparr>mem := m, dev := w\<rparr>) \<and>
    (\<exists>n. pending v w = Some (q, Write_cpl, n)) \<and> (\<forall>u. pending v u = None \<longrightarrow> host_ok v (s\<lparr>mem := m, dev := u\<rparr>)) \<and>
    (\<exists>d. disk v w = (disk v (dev s))(ns := (disk v (dev s) ns)(0 := d)) \<and> carries d \<and> length d = sector_size lib ns)"
proof -
  let ?b = "MESSAGE @ 0 # drop (Suc (length MESSAGE)) bytes"
  let ?d = "take (sector_size lib ns) ?b"
  note k = sector_laws [OF laws(2), of ns]
  have l: "length ?b = length bytes" using k s(3) by simp
  have d: "length ?d = sector_size lib ns" using k s(3) l by simp
  with laws(1) s(1) k(3) obtain w n where w: "ns_cmd_write lib ns q ?d 0 1 0 (dev s) = (0, w)" "pending v w = Some (q, Write_cpl, n)"
      "disk v w = (disk v (dev s))(ns := (disk v (dev s) ns)(0 := ?d))"
    unfolding io_laws_def host_ok_def by blast
  have "strcpy (Some a) MESSAGE s = Some (s\<lparr>mem := (mem s)(a \<mapsto> ?b)\<rparr>)" using s(2,3) k by (simp add: strcpy_def)
  moreover have "submit_write lib ns q (Some a) 0 1 0 (s\<lparr>mem := (mem s)(a \<mapsto> ?b)\<rparr>) = Some (0, s\<lparr>mem := (mem s)(a \<mapsto> ?b), dev := w\<rparr>)"
    using w(1) l k s(3) by (simp add: submit_write_def dma_load_def)
  moreover have "host_ok v (s\<lparr>mem := (mem s)(a \<mapsto> ?b), dev := u\<rparr>)" if "pending v u = None" for u
    using s(1,2) l that by (auto simp: host_ok_def)
  moreover have "carries ?d"
  proof -
    have "?d = MESSAGE @ 0 # take (sector_size lib ns - Suc (length MESSAGE)) (drop (Suc (length MESSAGE)) bytes)"
      using k(1) by (simp add: take_Cons' )
    then show ?thesis unfolding carries_def by blast
  qed
  ultimately show ?thesis using w d
    by (intro exI [of _ w] exI [of _ "(mem s)(a \<mapsto> ?b)"] conjI) (auto intro: exI [of _ ?d])
qed

lemma write_runs:
  assumes laws: "io_laws lib v" "resource_laws lib v" and s: "host_ok v s"
  shows "runs (nvme_opera_write lib c ns s) (\<lambda>(r, t). r = Returns 0 \<and> host_ok v t \<and>
    out t = out s @ [write_done, c_str ''nvme_opera_write successful''] \<and>
    (\<exists>d. disk v (dev t) = (disk v (dev s))(ns := (disk v (dev s) ns)(0 := d)) \<and> carries d \<and> length d = sector_size lib ns))"
proof -
  from laws(2) obtain q w0 where q: "alloc_io_qpair lib c (dev s) = (Some q, w0)" "quiet v (dev s) w0"
    unfolding resource_laws_def by blast
  have "host_ok v (s\<lparr>dev := w0\<rparr>)" using s q(2) by (simp add: host_ok_def quiet_def)
  from get_buffer_ok [OF laws(2) this, of c] obtain a bytes w1 m1 where
    b: "get_buffer lib c (s\<lparr>dev := w0\<rparr>) = (Some a, s\<lparr>dev := w1, mem := m1\<rparr>)" "m1 a = Some bytes"
      "0x1000 \<le> length bytes" "host_ok v (s\<lparr>dev := w1, mem := m1\<rparr>)" "disk v w1 = disk v w0"
    by auto
  from submit_message [OF laws b(4) _ b(3), of a ns q] b(2) obtain w2 m2 n d where
    sub: "strcpy (Some a) MESSAGE (s\<lparr>dev := w1, mem := m1\<rparr>) \<bind> (\<lambda>s. submit_write lib ns q (Some a) 0 1 0 s) =
        Some (0, s\<lparr>dev := w1, mem := m1\<rparr>\<lparr>mem := m2, dev := w2\<rparr>)"
      "pending v w2 = Some (q, Write_cpl, n)" "\<And>u. pending v u = None \<Longrightarrow> host_ok v (s\<lparr>dev := w1, mem := m1\<rparr>\<lparr>mem := m2, dev := u\<rparr>)"
      "disk v w2 = (disk v w1)(ns := (disk v w1 ns)(0 := d))" "carries d" "length d = sector_size lib ns"
    by auto
  let ?t = "s\<lparr>dev := w1, mem := m1\<rparr>\<lparr>mem := m2, dev := w2\<rparr>"
  from wait_write [OF laws(1), of ?t q n] sub(2) obtain w3 where
    w3: "wait_finished lib q False ?t = Some (?t\<lparr>dev := w3, out := out s @ [write_done]\<rparr>)" "pending v w3 = None" "disk v w3 = disk v w2"
    by auto
  have f: "quiet v w3 (free_io_qpair lib q w3)" using laws(2) by (simp add: resource_laws_def)
  have "nvme_opera_write lib c ns s = Some (Returns 0, ?t\<lparr>dev := free_io_qpair lib q w3,
      out := out s @ [write_done, c_str ''nvme_opera_write successful'']\<rparr>)"
    using q(1) b(1) sub(1) w3(1) by (simp add: nvme_opera_write_def printf_def flip: bind_assoc)
  then show ?thesis using sub w3 f b(5) q(2) by (auto simp: quiet_def)
qed

lemma message_no_nul: "0 \<notin> set MESSAGE"
  by (simp add: MESSAGE_def c_str_def)

lemma read_runs:
  assumes laws: "io_laws lib v" "resource_laws lib v" and s: "host_ok v s"
    and d: "carries (disk v (dev s) ns 0)" "length (disk v (dev s) ns 0) = sector_size lib ns"
  shows "runs (read_sector lib title c ns s) (\<lambda>(r, t). r = Returns 0 \<and> host_ok v t \<and> out t = out s @ [read_done, c_str title @ MESSAGE] \<and>
    disk v (dev t) = disk v (dev s) \<and> (\<exists>w m. t = s\<lparr>mem := m, dev := w, out := out s @ [read_done, c_str title @ MESSAGE]\<rparr>))"
proof -
  from laws(2) obtain q w0 where q: "alloc_io_qpair lib c (dev s) = (Some q, w0)" "quiet v (dev s) w0"
    unfolding resource_laws_def by blast
  have "host_ok v (s\<lparr>dev := w0\<rparr>)" using s q(2) by (simp add: host_ok_def quiet_def)
  from get_buffer_ok [OF laws(2) this, of c] obtain a bytes w1 m1 where
    b: "get_buffer lib c (s\<lparr>dev := w0\<rparr>) = (Some a, s\<lparr>dev := w1, mem := m1\<rparr>)" "m1 a = Some bytes"
      "0x1000 \<le> length bytes" "host_ok v (s\<lparr>dev := w1, mem := m1\<rparr>)" "disk v w1 = disk v w0"
    by auto
  let ?d = "disk v (dev s) ns 0"
  have dw: "disk v w1 = disk v (dev s)" using b(5) q(2) by (simp add: quiet_def)
  have "pending v w1 = None" using b(4) by (simp add: host_ok_def)
  with laws(1) sector_laws(3) [OF laws(2), of ns] obtain w2 n where w2: "ns_cmd_read lib ns q (Some a) 0 1 0 w1 = (0, w2)"
      "pending v w2 = Some (q, Read_cpl (Some a) (disk v w1 ns 0), n)" "disk v w2 = disk v w1"
    unfolding io_laws_def by blast
  have len: "length ?d \<le> length bytes" using d(2) b(3) sector_laws(2) [OF laws(2), of ns] by simp
  let ?t = "s\<lparr>mem := m1, dev := w2\<rparr>"
  from wait_read [OF laws(1), of ?t q a ?d n bytes] w2(2) b(2) len dw obtain w3 where
    w3: "wait_finished lib q False ?t = Some (?t\<lparr>dev := w3, mem := m1(a \<mapsto> ?d @ drop (length ?d) bytes), out := out s @ [read_done]\<rparr>)"
      "pending v w3 = None" "disk v w3 = disk v w2"
    by auto
  have f: "quiet v w3 (free_io_qpair lib q w3)" using laws(2) by (simp add: resource_laws_def)
  let ?u = "?t\<lparr>dev := w3, mem := m1(a \<mapsto> ?d @ drop (length ?d) bytes)\<rparr>\<lparr>dev := free_io_qpair lib q w3, out := out s @ [read_done, c_str title @ MESSAGE]\<rparr>"
  from d(1) obtain rest where "?d = MESSAGE @ 0 # rest" by (auto simp: carries_def)
  then have "c_string (?d @ drop (length ?d) bytes) 0 = Some MESSAGE"
    using c_string_here [OF message_no_nul, of "[]" "rest @ drop (length ?d) bytes"] by simp
  then have "read_sector lib title c ns s = Some (Returns 0, ?u)"
    using q(1) b(1) w2(1) w3(1) by (simp add: read_sector_def printf_def)
  moreover have "host_ok v ?u" using b(2,4) len w3(2) f by (auto simp: host_ok_def quiet_def)
  moreover have "?u = s\<lparr>mem := m1(a \<mapsto> ?d @ drop (length ?d) bytes), dev := free_io_qpair lib q w3, out := out s @ [read_done, c_str title @ MESSAGE]\<rparr>"
    by simp
  then have "\<exists>w m. ?u = s\<lparr>mem := m, dev := w, out := out s @ [read_done, c_str title @ MESSAGE]\<rparr>" by blast
  ultimately show ?thesis using w2(3) w3(3) f dw unfolding runs_iff by (intro exI conjI) (assumption, simp add: quiet_def)
qed

section \<open>All namespaces\<close>

text \<open>The active namespaces of a controller from \<open>nsid\<close> on.\<close>

fun namespaces :: "'w nvme_lib \<Rightarrow> addr \<Rightarrow> 32 word \<Rightarrow> (32 word \<times> addr) list \<Rightarrow> bool" where
  "namespaces lib c nsid [] \<longleftrightarrow> nsid = 0"
| "namespaces lib c nsid ((i, ns) # nss) \<longleftrightarrow> nsid = i \<and> i \<noteq> 0 \<and> ctrlr_get_ns lib c i = Some ns \<and>
     namespaces lib c (next_active_ns lib c i) nss"

text \<open>The first sectors of the namespaces \<open>A\<close> carry the text; no other sector has changed.\<close>

definition same_disks :: "'w disk_view \<Rightarrow> addr set \<Rightarrow> 'w \<Rightarrow> 'w \<Rightarrow> bool" where
  "same_disks v A w w' \<longleftrightarrow> (\<forall>ns lba. if ns \<in> A \<and> lba = 0 then carries (disk v w' ns lba) else disk v w' ns lba = disk v w ns lba)"

lemma same_disks_trans:
  assumes "same_disks v A w w1" and "same_disks v B w1 w2"
  shows "same_disks v (A \<union> B) w w2"
  unfolding same_disks_def
proof (intro allI)
  fix ns lba
  show "if ns \<in> A \<union> B \<and> lba = 0 then carries (disk v w2 ns lba) else disk v w2 ns lba = disk v w ns lba"
    using assms [unfolded same_disks_def, THEN spec [of _ ns], THEN spec [of _ lba]] by (auto split: if_splits)
qed

text \<open>What is printed for a namespace, and for a callback of \<open>spdk_nvme_probe\<close>, when \<open>names\<close> are the namespaces of the
  controllers.\<close>

definition ns_output :: "'w nvme_lib \<Rightarrow> 32 word \<times> addr \<Rightarrow> byte list list" where
  "ns_output lib x = [ns_line lib (fst x) (snd x), write_done, c_str ''nvme_opera_write successful'', read_done,
     c_str ''nvme_opera_write successful: '' @ MESSAGE]"

fun event_output :: "'w nvme_lib \<Rightarrow> (addr \<Rightarrow> (32 word \<times> addr) list) \<Rightarrow> probe_event \<Rightarrow> byte list list" where
  "event_output lib names (Probed traddr) = [c_str ''nvme_opera_probe_callback'']"
| "event_output lib names (Attached traddr c) = [c_str ''nvme_opera_attach_callback'',
     c_str (''name space num: '' @ show_nat (unat (ctrlr_num_ns lib c)))] @ concat (map (ns_output lib) (names c))"

fun attached :: "probe_event list \<Rightarrow> addr list" where
  "attached [] = []"
| "attached (Probed traddr # es) = attached es"
| "attached (Attached traddr c # es) = c # attached es"

lemma attach_runs:
  assumes laws: "io_laws lib v" "resource_laws lib v"
  shows "host_ok v s \<Longrightarrow> namespaces lib c nsid nss \<Longrightarrow>
    runs (opera_attach_loop lib c nsid s) (\<lambda>(r, t). r = Returns 0 \<and> host_ok v t \<and>
      out t = out s @ concat (map (ns_output lib) nss) \<and> same_disks v (snd ` set nss) (dev s) (dev t))"
proof (induction nss arbitrary: nsid s)
  case Nil
  then show ?case by (subst opera_attach_loop.simps) (simp add: same_disks_def)
next
  case (Cons x nss)
  obtain i ns where x: "x = (i, ns)" by fastforce
  let ?s = "printf (ns_line lib i ns) s"
  have s: "host_ok v ?s" "out ?s = out s @ [ns_line lib i ns]" "dev ?s = dev s" using Cons.prems(1) by (simp_all add: printf_def)
  from write_runs [OF laws s(1), of c ns] obtain s1 d where
    1: "nvme_opera_write lib c ns ?s = Some (Returns 0, s1)" "host_ok v s1"
      "out s1 = out ?s @ [write_done, c_str ''nvme_opera_write successful'']"
      "disk v (dev s1) = (disk v (dev s))(ns := (disk v (dev s) ns)(0 := d))" "carries d" "length d = sector_size lib ns"
    by (auto elim!: runsE simp: s(3))
  from read_runs [OF laws 1(2), of ns "''nvme_opera_write successful: ''" c] 1 obtain s2 where
    2: "nvme_opera_read lib c ns s1 = Some (Returns 0, s2)" "host_ok v s2" "out s2 = out s @ ns_output lib x"
      "disk v (dev s2) = (disk v (dev s))(ns := (disk v (dev s) ns)(0 := d))"
    by (auto elim!: runsE simp: nvme_opera_read_def ns_output_def x s(2))
  have "opera_attach_loop lib c nsid s = opera_attach_loop lib c (next_active_ns lib c i) s2"
    using Cons.prems(2) x 1(1) 2(1) by (subst opera_attach_loop.simps) simp
  moreover from Cons.IH [OF 2(2), of "next_active_ns lib c i"] Cons.prems(2) x obtain t where
    t: "opera_attach_loop lib c (next_active_ns lib c i) s2 = Some (Returns 0, t)" "host_ok v t"
      "out t = out s2 @ concat (map (ns_output lib) nss)" "same_disks v (snd ` set nss) (dev s2) (dev t)"
    by (auto elim!: runsE)
  moreover have "same_disks v {ns} (dev s) (dev s2)" using 1(5) by (simp add: same_disks_def 2(4))
  from same_disks_trans [OF this t(4)] have "same_disks v (snd ` set (x # nss)) (dev s) (dev t)" using x by simp
  ultimately show ?case using 2(3) by simp
qed

lemma attach_all_runs:
  assumes laws: "io_laws lib v" "resource_laws lib v"
  shows "host_ok v s \<Longrightarrow> \<forall>c\<in>set (attached es). namespaces lib c (first_active_ns lib c) (names c) \<Longrightarrow>
    runs (opera_attach_all lib es s) (\<lambda>(r, t). r = Returns 0 \<and> host_ok v t \<and>
      out t = out s @ concat (map (event_output lib names) es) \<and>
      same_disks v (snd ` set (concat (map names (attached es)))) (dev s) (dev t))"
proof (induction es arbitrary: s)
  case Nil
  then show ?case by (simp add: same_disks_def)
next
  case (Cons x es)
  show ?case
  proof (cases x)
    case (Probed traddr)
    let ?s = "snd (nvme_opera_probe_callback traddr s)"
    have s: "host_ok v ?s" "out ?s = out s @ event_output lib names x" "dev ?s = dev s"
      using Cons.prems(1) Probed by (simp_all add: nvme_opera_probe_callback_def printf_def)
    from Cons.IH [OF s(1)] Cons.prems(2) Probed show ?thesis
      by (auto elim!: runs_mono simp: s(2,3) simp del: event_output.simps)
  next
    case (Attached traddr c)
    obtain s0 where s0: "nvme_opera_attach_callback lib c s = opera_attach_loop lib c (first_active_ns lib c) s0" "host_ok v s0"
        "out s0 @ concat (map (ns_output lib) (names c)) = out s @ event_output lib names x" "dev s0 = dev s"
      by (rule that [of "printf (c_str (''name space num: '' @ show_nat (unat (ctrlr_num_ns lib c))))
            (printf (c_str ''nvme_opera_attach_callback'') s)"])
        (use Cons.prems(1) Attached in \<open>simp_all add: nvme_opera_attach_callback_def printf_def\<close>)
    have "namespaces lib c (first_active_ns lib c) (names c)" using Cons.prems(2) Attached by simp
    from attach_runs [OF laws s0(2) this] obtain s1 where
      1: "nvme_opera_attach_callback lib c s = Some (Returns 0, s1)" "host_ok v s1"
        "out s1 = out s @ event_output lib names x" "same_disks v (snd ` set (names c)) (dev s) (dev s1)"
      unfolding s0(1,3,4) by (auto elim!: runsE)
    from Cons.IH [OF 1(2)] Cons.prems(2) Attached obtain t where
      t: "opera_attach_all lib es s1 = Some (Returns 0, t)" "host_ok v t" "out t = out s1 @ concat (map (event_output lib names) es)"
        "same_disks v (snd ` set (concat (map names (attached es)))) (dev s1) (dev t)"
      by (auto elim!: runsE)
    have "same_disks v (snd ` set (concat (map names (attached (x # es))))) (dev s) (dev t)"
      using same_disks_trans [OF 1(4) t(4)] Attached by (simp add: image_Un)
    then show ?thesis using 1(1,3) t Attached by (simp del: event_output.simps)
  qed
qed

text \<open>A namespace that is active but cannot be opened makes both attach callbacks loop forever.\<close>

lemma opera_attach_stuck:
  assumes "nsid \<noteq> 0" and "ctrlr_get_ns lib c nsid = None"
  shows "opera_attach_loop lib c nsid s = None"
proof -
  have "\<not> (nsid \<noteq> 0 \<and> ctrlr_get_ns lib c nsid = None)" if "opera_attach_loop lib c nsid s = Some y" for y
    using that by (rule opera_attach_loop.raw_induct [rotated]) (fastforce split: if_splits option.splits)
  with assms show ?thesis by (cases "opera_attach_loop lib c nsid s") auto
qed

lemma kv_attach_stuck:
  assumes "nsid \<noteq> 0" and "ctrlr_get_ns lib c nsid = None"
  shows "kv_attach_loop lib c e nsid s = None"
proof -
  have "\<not> (nsid \<noteq> 0 \<and> ctrlr_get_ns lib c nsid = None)" if "kv_attach_loop lib c e nsid s = Some y" for y
    using that by (rule kv_attach_loop.raw_induct [rotated]) (fastforce split: if_splits option.splits)
  with assms show ?thesis by (cases "kv_attach_loop lib c e nsid s") auto
qed

section \<open>The lists of \<open>kv_main.cpp\<close>\<close>

definition ns_entry :: "nat \<Rightarrow> 32 word \<times> addr \<Rightarrow> namespace_entry" where
  "ns_entry e x = \<lparr>ne_ns = snd x, ne_ctrlr = e, ne_nsid = fst x\<rparr>"

text \<open>Every entry of a namespace points to the entry of the controller that has it.\<close>

definition kv_linked :: "'w nvme_lib \<Rightarrow> 'w kv \<Rightarrow> bool" where
  "kv_linked lib s \<longleftrightarrow> (\<forall>n\<in>set (g_ns s). ne_ctrlr n < length (g_ctrlr s) \<and>
     ctrlr_get_ns lib (ce_ctrlr (g_ctrlr s ! ne_ctrlr n)) (ne_nsid n) = Some (ne_ns n))"

lemma kv_attach_loop_runs:
  "namespaces lib c nsid nss \<Longrightarrow> kv_attach_loop lib c e nsid s = Some (s\<lparr>g_ns := g_ns s @ map (ns_entry e) nss\<rparr>)"
proof (induction nss arbitrary: nsid s)
  case Nil
  then show ?case by (subst kv_attach_loop.simps) simp
next
  case (Cons x nss)
  obtain i ns where x: "x = (i, ns)" by fastforce
  with Cons show ?case by (subst kv_attach_loop.simps) (simp add: ns_entry_def)
qed

lemma namespaces_get: "namespaces lib c nsid nss \<Longrightarrow> (i, ns) \<in> set nss \<Longrightarrow> ctrlr_get_ns lib c i = Some ns"
  by (induction lib c nsid nss rule: namespaces.induct) auto

lemma nvme_attach_cb_runs:
  assumes "resource_laws lib v" and "namespaces lib c (first_active_ns lib c) nss" and "kv_linked lib s"
  shows "\<exists>s'. nvme_attach_cb lib traddr c s = Some s' \<and> kv_linked lib s' \<and> mem s' = mem s \<and> out s' = out s \<and>
    quiet v (dev s) (dev s') \<and> gctrlr s' = Some c \<and> gns s' = ctrlr_get_ns lib c (first_active_ns lib c) \<and>
    map ce_ctrlr (g_ctrlr s') = map ce_ctrlr (g_ctrlr s) @ [c] \<and> g_ns s' = g_ns s @ map (ns_entry (length (g_ctrlr s))) nss"
proof -
  from assms(1) obtain q w where q: "alloc_io_qpair lib c (dev s) = (Some q, w)" "quiet v (dev s) w"
    unfolding resource_laws_def by blast
  show ?thesis using q assms(3) namespaces_get [OF assms(2)]
    by (auto simp: nvme_attach_cb_def kv_attach_loop_runs [OF assms(2)] kv_linked_def nth_append ns_entry_def less_Suc_eq)
qed

text \<open>The lines of the probe callback.\<close>

fun kv_probe_output :: "probe_event list \<Rightarrow> byte list list" where
  "kv_probe_output [] = []"
| "kv_probe_output (Probed traddr # es) = c_str (''nvme_probe_cb: '' @ traddr) # kv_probe_output es"
| "kv_probe_output (Attached traddr c # es) = kv_probe_output es"

lemma kv_attach_all_runs:
  assumes laws: "resource_laws lib v"
  shows "kv_linked lib s \<Longrightarrow> \<forall>c\<in>set (attached es). namespaces lib c (first_active_ns lib c) (names c) \<Longrightarrow>
    \<exists>s'. kv_attach_all lib es s = Some s' \<and> kv_linked lib s' \<and> mem s' = mem s \<and> out s' = out s @ kv_probe_output es \<and>
      quiet v (dev s) (dev s') \<and> map ce_ctrlr (g_ctrlr s') = map ce_ctrlr (g_ctrlr s) @ attached es \<and>
      map (\<lambda>n. (ne_nsid n, ne_ns n)) (g_ns s') = map (\<lambda>n. (ne_nsid n, ne_ns n)) (g_ns s) @ concat (map names (attached es)) \<and>
      (if attached es = [] then gctrlr s' = gctrlr s \<and> gns s' = gns s
       else gctrlr s' = Some (last (attached es)) \<and>
         gns s' = ctrlr_get_ns lib (last (attached es)) (first_active_ns lib (last (attached es))))"
proof (induction es arbitrary: s)
  case Nil
  then show ?case by (simp add: quiet_def)
next
  case (Cons x es)
  show ?case
  proof (cases x)
    case (Probed traddr)
    obtain s0 where s0: "snd (nvme_probe_cb traddr s) = s0" "kv_linked lib s0" "mem s0 = mem s" "dev s0 = dev s"
        "out s0 = out s @ kv_probe_output [x]" "g_ctrlr s0 = g_ctrlr s" "g_ns s0 = g_ns s" "gctrlr s0 = gctrlr s" "gns s0 = gns s"
      by (rule that [OF refl]) (use Cons.prems(1) Probed in \<open>simp_all add: nvme_probe_cb_def printf_def kv_linked_def\<close>)
    from Cons.IH [OF s0(2)] Cons.prems(2) Probed obtain s' where s': "kv_attach_all lib es s0 = Some s'" "kv_linked lib s'"
        "mem s' = mem s0" "out s' = out s0 @ kv_probe_output es" "quiet v (dev s0) (dev s')"
        "map ce_ctrlr (g_ctrlr s') = map ce_ctrlr (g_ctrlr s0) @ attached es"
        "map (\<lambda>n. (ne_nsid n, ne_ns n)) (g_ns s') = map (\<lambda>n. (ne_nsid n, ne_ns n)) (g_ns s0) @ concat (map names (attached es))"
        "if attached es = [] then gctrlr s' = gctrlr s0 \<and> gns s' = gns s0 else gctrlr s' = Some (last (attached es)) \<and>
           gns s' = ctrlr_get_ns lib (last (attached es)) (first_active_ns lib (last (attached es)))"
      by auto
    have "kv_attach_all lib (x # es) s = Some s'" using s0(1) s'(1) Probed by simp
    moreover have "out s' = out s @ kv_probe_output (x # es)" using s0(5) s'(4) Probed by simp
    moreover have "attached (x # es) = attached es" using Probed by simp
    ultimately show ?thesis using s'(2,3,5-8) s0(3,4,6-9) by (intro exI [of _ s']) (simp only: simp_thms)
  next
    case (Attached traddr c)
    have nss: "namespaces lib c (first_active_ns lib c) (names c)" using Cons.prems(2) Attached by simp
    from nvme_attach_cb_runs [OF laws nss Cons.prems(1), of traddr] obtain s1 where
      1: "nvme_attach_cb lib traddr c s = Some s1" "kv_linked lib s1" "mem s1 = mem s" "out s1 = out s" "quiet v (dev s) (dev s1)"
        "gctrlr s1 = Some c" "gns s1 = ctrlr_get_ns lib c (first_active_ns lib c)"
        "map ce_ctrlr (g_ctrlr s1) = map ce_ctrlr (g_ctrlr s) @ [c]" "g_ns s1 = g_ns s @ map (ns_entry (length (g_ctrlr s))) (names c)"
      by blast
    have "map (\<lambda>n. (ne_nsid n, ne_ns n)) (g_ns s1) = map (\<lambda>n. (ne_nsid n, ne_ns n)) (g_ns s) @ names c"
      using 1(9) by (simp add: ns_entry_def comp_def)
    with Cons.IH [OF 1(2)] Cons.prems(2) Attached 1 show ?thesis by (fastforce simp: quiet_def split: if_splits)
  qed
qed

section \<open>The rest of \<open>kv_main.cpp\<close>\<close>

definition switch_output :: "int \<Rightarrow> byte list list" where
  "switch_output mmap_io = (if mmap_io = 0 then [c_str ''switch spdk_zmalloc''] else [])"

lemma kv_buffer_ok:
  assumes laws: "resource_laws lib v" and s: "host_ok v s"
  shows "\<exists>a n mmap_io bytes w m. kv_buffer lib c s = ((Some a, n, mmap_io), s\<lparr>dev := w, mem := m, out := out s @ switch_output mmap_io\<rparr>) \<and>
    mmap_io \<in> {0, 1} \<and> m a = Some bytes \<and> n = length bytes \<and>
    0x1000 \<le> length bytes \<and> host_ok v (s\<lparr>dev := w, mem := m, out := out s @ switch_output mmap_io\<rparr>) \<and> disk v w = disk v (dev s)"
proof -
  obtain p sz w where w: "map_cmb lib c (dev s) = ((p, sz), w)" by (metis prod.exhaust)
  have l: "0x1000 \<le> unat (cmb_size v)" using laws by (simp add: resource_laws_def)
  note q = map_cmb_ok [OF laws w]
  show ?thesis
  proof (cases p)
    case None
    from laws obtain a w' where z: "zmalloc lib 0x1000 w = (Some a, w')" "a \<notin> cmb v" "quiet v w w'"
      unfolding resource_laws_def by blast
    let ?m = "(mem s)(a \<mapsto> replicate 0x1000 0)"
    have "kv_buffer lib c s = ((Some a, 0x1000, 0), s\<lparr>dev := w', mem := ?m, out := out s @ switch_output 0\<rparr>)"
      using w z None by (simp add: kv_buffer_def zmalloc_buf_def ALIGN_4k_def printf_def switch_output_def)
    moreover have "host_ok v (s\<lparr>dev := w', mem := ?m, out := out s @ switch_output 0\<rparr>)" using s q z by (auto simp: host_ok_def quiet_def)
    ultimately show ?thesis using q z
      by (intro exI [of _ a] exI [of _ "0x1000"] exI [of _ 0] exI [of _ "replicate 0x1000 0"] exI [of _ w'] exI [of _ ?m])
        (simp add: quiet_def)
  next
    case (Some a)
    with q(2) have a: "a \<in> cmb v" "sz = cmb_size v" by auto
    with s obtain bytes where b: "mem s a = Some bytes" "length bytes = unat (cmb_size v)" by (auto simp: host_ok_def)
    have "sz \<noteq> 0" using a(2) l by auto
    then have "kv_buffer lib c s = ((Some a, unat sz, 1), s\<lparr>dev := w, mem := mem s, out := out s @ switch_output 1\<rparr>)"
      using w Some by (simp add: kv_buffer_def switch_output_def)
    then show ?thesis using a b s q l
      by (intro exI [of _ a] exI [of _ "unat sz"] exI [of _ 1] exI [of _ bytes] exI [of _ w] exI [of _ "mem s"])
        (auto simp: quiet_def host_ok_def)
  qed
qed

lemma kv_write_read_runs:
  assumes laws: "io_laws lib v" "resource_laws lib v" and s: "host_ok v s" "mem s a = Some bytes" "0x1000 \<le> length bytes"
    and ns: "gns s = Some ns"
  shows "runs (strcpy (Some a) MESSAGE s \<bind> kv_write_read lib c q a mmap_io) (\<lambda>(r, t). r = Returns 0 \<and>
    out t = out s @ [write_done, read_done, c_str ''nvme_opera_read successful: '' @ MESSAGE,
      c_str (''main mmap_io '' @ show_int mmap_io)] \<and>
    same_disks v {ns} (dev s) (dev t) \<and> g_ns t = g_ns s \<and> g_ctrlr t = g_ctrlr s)"
proof -
  from submit_message [OF laws s, of ns q] obtain w m n d where
    sub: "strcpy (Some a) MESSAGE s \<bind> (\<lambda>s. submit_write lib ns q (Some a) 0 1 0 s) = Some (0, s\<lparr>mem := m, dev := w\<rparr>)"
      "pending v w = Some (q, Write_cpl, n)" "\<And>u. pending v u = None \<Longrightarrow> host_ok v (s\<lparr>mem := m, dev := u\<rparr>)"
      "disk v w = (disk v (dev s))(ns := (disk v (dev s) ns)(0 := d))" "carries d" "length d = sector_size lib ns"
    by auto
  then obtain s1 where s1: "strcpy (Some a) MESSAGE s = Some s1"
      "submit_write lib ns q (Some a) 0 1 0 s1 = Some (0, s\<lparr>mem := m, dev := w\<rparr>)"
    by (cases "strcpy (Some a) MESSAGE s") auto
  have "gns s1 = Some ns" using s1(1) ns by (auto simp: strcpy_def split: bind_splits if_splits)
  let ?o = "out s @ [write_done]"
  from wait_write [OF laws(1), of "s\<lparr>mem := m, dev := w\<rparr>" q n] sub(2) obtain w2 where
    w2: "wait_finished lib q False (s\<lparr>mem := m, dev := w\<rparr>) = Some (s\<lparr>mem := m, dev := w2, out := ?o\<rparr>)" "pending v w2 = None"
      "disk v w2 = disk v w"
    by auto
  let ?w = "free_io_qpair lib q w2"
  have f: "quiet v w2 ?w" using laws(2) by (simp add: resource_laws_def)
  let ?t = "s\<lparr>mem := m, dev := w2, out := ?o, dev := ?w\<rparr>"
  have dd: "disk v (dev ?t) = (disk v (dev s))(ns := (disk v (dev s) ns)(0 := d))" using f w2(3) sub(4) by (simp add: quiet_def)
  then have d: "disk v (dev ?t) ns 0 = d" by simp
  have "host_ok v ?t" using sub(3) [of ?w] f w2(2) by (simp add: quiet_def host_ok_def)
  note rd = read_runs [OF laws this, of ns "''nvme_opera_read successful: ''" c, unfolded d, OF sub(5,6)]
  have "strcpy (Some a) MESSAGE s \<bind> kv_write_read lib c q a mmap_io = do {
      (r, s) \<leftarrow> read_sector lib ''nvme_opera_read successful: '' c ns ?t;
      Some (case r of Exits e \<Rightarrow> (Exits e, s)
        | Returns v \<Rightarrow> (Returns 0, printf (c_str (''main mmap_io '' @ show_int mmap_io)) s)) }"
    using s1 \<open>gns s1 = Some ns\<close> w2(1) by (simp add: kv_write_read_def kv_opera_read_def)
  moreover have "same_disks v {ns} (dev s) u" if "disk v u = disk v (dev ?t)" for u
    using sub(5) unfolding same_disks_def that dd by simp
  ultimately show ?thesis using rd by (auto simp: runs_iff printf_def)
qed

section \<open>A disk in memory\<close>

type_synonym nvme_ram = "(addr \<times> completion \<times> nat) option \<times> (addr \<Rightarrow> 64 word \<Rightarrow> byte list)"

text \<open>One controller, 0, with the namespaces 1 and 2 of 512-byte sectors and no mappable memory; completions are due
  after one poll.\<close>

definition ram_nvme :: "nvme_ram nvme_lib" where
  "ram_nvme = \<lparr>nvme_env_init = \<lambda>w. (0, w), vmd_init = \<lambda>w. w, vmd_fini = \<lambda>w. w,
     nvme_probe = \<lambda>accept w. (Probed ''0000:00:04.0'' # (if accept ''0000:00:04.0'' then [Attached ''0000:00:04.0'' 0] else []), w),
     ctrlr_num_ns = \<lambda>c. 2, first_active_ns = \<lambda>c. 1, next_active_ns = \<lambda>c i. if i = 1 then 2 else 0,
     ctrlr_get_ns = \<lambda>c i. if i = 0 then None else Some (unat i), ns_size = \<lambda>ns. 0x40000000, sector_size = \<lambda>ns. 512,
     alloc_io_qpair = \<lambda>c w. (Some 7, w), free_io_qpair = \<lambda>q w. w, map_cmb = \<lambda>c w. ((None, 0), w),
     zmalloc = \<lambda>n w. (Some 9, w),
     ns_cmd_write = \<lambda>ns q d lba n fl w. (0, (Some (q, Write_cpl, 1), (snd w)(ns := (snd w ns)(lba := d)))),
     ns_cmd_read = \<lambda>ns q p lba n fl w. (0, (Some (q, Read_cpl p (snd w ns lba), 1), snd w)),
     process_completions = \<lambda>q w. (case fst w of Some (q', c, n) \<Rightarrow>
        if n = 0 then ([c], (None, snd w)) else ([], (Some (q', c, n - 1), snd w)) | None \<Rightarrow> ([], w))\<rparr>"

definition ram_view :: "nvme_ram disk_view" where
  "ram_view = \<lparr>disk = snd, pending = fst, cmb = {}, cmb_size = 4096\<rparr>"

lemma ram_nvme_laws: "io_laws ram_nvme ram_view" "resource_laws ram_nvme ram_view"
  by (auto simp: io_laws_def resource_laws_def ram_nvme_def ram_view_def quiet_def MESSAGE_def c_str_def)

lemma kv_main_runs:
  assumes laws: "io_laws lib v" "resource_laws lib v"
    and p: "nvme_env_init lib w = (res, w1)" "nvme_probe lib (\<lambda>traddr. True) w1 = (es, w2)" "quiet v w w2"
    and cs: "attached es \<noteq> []" "\<forall>c\<in>set (attached es). namespaces lib c (first_active_ns lib c) (names c)"
      "names (last (attached es)) = (i, ns) # nss" and s: "host_ok v (kv_start m w)"
  shows "runs (kv_main lib (kv_start m w)) (\<lambda>(r, t). r = Returns 0 \<and>
    (\<exists>mmap_io\<in>{0, 1}. out t = kv_probe_output es @ switch_output mmap_io @
      [write_done, read_done, c_str ''nvme_opera_read successful: '' @ MESSAGE, c_str (''main mmap_io '' @ show_int mmap_io)]) \<and>
    same_disks v {ns} w (dev t) \<and> kv_linked lib t \<and> map ce_ctrlr (g_ctrlr t) = attached es \<and>
    map (\<lambda>n. (ne_nsid n, ne_ns n)) (g_ns t) = concat (map names (attached es)))"
proof -
  let ?s = "(kv_start m w)\<lparr>dev := w2\<rparr>"
  let ?c = "last (attached es)"
  have "kv_linked lib ?s" by (simp add: kv_linked_def kv_start_def)
  from kv_attach_all_runs [OF laws(2) this cs(2)] cs(1) obtain s1 where
    1: "kv_attach_all lib es ?s = Some s1" "kv_linked lib s1" "mem s1 = m" "out s1 = kv_probe_output es" "quiet v w2 (dev s1)"
      "map ce_ctrlr (g_ctrlr s1) = attached es" "map (\<lambda>n. (ne_nsid n, ne_ns n)) (g_ns s1) = concat (map names (attached es))"
      "gctrlr s1 = Some ?c" "gns s1 = ctrlr_get_ns lib ?c (first_active_ns lib ?c)"
    by (auto simp: kv_start_def)
  have "namespaces lib ?c (first_active_ns lib ?c) (names ?c)" using cs(1,2) by simp
  then have ns: "gns s1 = Some ns" using 1(9) cs(3) by simp
  from laws(2) obtain q w3 where q: "alloc_io_qpair lib ?c (dev s1) = (Some q, w3)" "quiet v (dev s1) w3"
    unfolding resource_laws_def by blast
  let ?s2 = "s1\<lparr>dev := w3, gqpair := Some q\<rparr>"
  have "host_ok v ?s2" using s 1(3,5) q(2) p(3) by (simp add: host_ok_def quiet_def kv_start_def)
  from kv_buffer_ok [OF laws(2) this, of ?c] obtain a n mm bytes w4 m4 where
    b: "kv_buffer lib ?c ?s2 = ((Some a, n, mm), ?s2\<lparr>dev := w4, mem := m4, out := out ?s2 @ switch_output mm\<rparr>)" "mm \<in> {0, 1}"
      "m4 a = Some bytes" "n = length bytes" "0x1000 \<le> length bytes"
      "host_ok v (?s2\<lparr>dev := w4, mem := m4, out := out ?s2 @ switch_output mm\<rparr>)" "disk v w4 = disk v (dev ?s2)"
    by blast
  let ?s3 = "?s2\<lparr>dev := w4, mem := m4(a \<mapsto> replicate n 0), out := out s1 @ switch_output mm\<rparr>"
  have set0: "memset0 a n (?s2\<lparr>dev := w4, mem := m4, out := out ?s2 @ switch_output mm\<rparr>) = Some ?s3" using b(3,4) by (simp add: memset0_def)
  have h: "host_ok v ?s3" using b(3,4,6) by (auto simp: host_ok_def)
  have e: "kv_main lib (kv_start m w) = strcpy (Some a) MESSAGE ?s3 \<bind> kv_write_read lib ?c q a mm"
    using p(1,2) 1(1,8) q(1) b(1) set0 by (simp add: kv_main_def kv_start_def nvme_probe_cb_def)
  have dk: "disk v w4 = disk v w" using b(7) q(2) 1(5) p(3) by (simp add: quiet_def)
  then have same: "same_disks v {ns} (dev ?s3) u = same_disks v {ns} w u" for u by (simp add: same_disks_def)
  have "runs (strcpy (Some a) MESSAGE ?s3 \<bind> kv_write_read lib ?c q a mm) (\<lambda>(r, t). r = Returns 0 \<and>
      out t = out ?s3 @ [write_done, read_done, c_str ''nvme_opera_read successful: '' @ MESSAGE,
        c_str (''main mmap_io '' @ show_int mm)] \<and>
      same_disks v {ns} w (dev t) \<and> g_ns t = g_ns ?s3 \<and> g_ctrlr t = g_ctrlr ?s3)"
    unfolding same [symmetric] by (rule kv_write_read_runs [OF laws h, of a "replicate n 0"]) (use b ns in simp_all)
  then show ?thesis unfolding e by (rule runs_mono) (use 1 b(2) in \<open>auto simp: kv_linked_def\<close>)
qed

section \<open>Properties\<close>

text \<open>
  C39. \<open>nvme_opera\<close>, where every active namespace of every controller can be opened, a sector holds the text and fits into a
  page, queue pairs and buffers can be allocated, and the driver's reads and writes of a sector succeed: the program
  returns 0; sector 0 of every namespace of every attached controller carries the text, and no other sector of
  any namespace has changed; and the output is exactly the result of the initialisation, a line for each
  controller probed, and for each one attached its lines, with the text of each namespace as it was read back.
\<close>

theorem nvme_opera_roundtrip:
  assumes "io_laws lib v" and "resource_laws lib v" and "host_ok v s"
    and "nvme_env_init lib (dev s) = (res, w1)" and "nvme_probe lib (\<lambda>traddr. True) (vmd_init lib w1) = (es, w2)"
    and "quiet v (dev s) w2"
    and "\<forall>c\<in>set (attached es). namespaces lib c (first_active_ns lib c) (names c)"
    and "\<forall>w. quiet v w (vmd_fini lib w)"
  shows "runs (nvme_opera_main lib s) (\<lambda>(r, t). r = Returns 0 \<and>
    out t = out s @ c_str (''spdk_env_init res: '' @ show_int res) # concat (map (event_output lib names) es) \<and>
    same_disks v (snd ` set (concat (map names (attached es)))) (dev s) (dev t))"
proof -
  let ?s = "s\<lparr>dev := w1, out := out s @ [c_str (''spdk_env_init res: '' @ show_int res)], dev := w2\<rparr>"
  have "host_ok v ?s" using assms(3,6) by (simp add: host_ok_def quiet_def)
  from attach_all_runs [OF assms(1,2) this assms(7)] obtain t where
    t: "opera_attach_all lib es ?s = Some (Returns 0, t)" "out t = out ?s @ concat (map (event_output lib names) es)"
      "same_disks v (snd ` set (concat (map names (attached es)))) w2 (dev t)"
    by (auto simp: runs_iff)
  have "nvme_opera_main lib s = Some (Returns 0, t\<lparr>dev := vmd_fini lib (dev t)\<rparr>)"
    using assms(4,5) t(1) by (simp add: nvme_opera_main_def nvme_opera_probe_callback_def printf_def)
  then show ?thesis using t(2,3) assms(6,8) by (simp add: same_disks_def quiet_def)
qed

theorem nvme_opera_roundtrip_witness:
  "runs (nvme_opera_main ram_nvme \<lparr>mem = Map.empty, out = [], dev = (None, \<lambda>ns lba. [])\<rparr>)
     (\<lambda>(r, t). r = Returns 0 \<and> carries (snd (dev t) 1 0) \<and> carries (snd (dev t) 2 0) \<and> snd (dev t) 1 1 = [] \<and> snd (dev t) 3 0 = [] \<and>
       out t = [c_str (''spdk_env_init res: '' @ show_int 0), c_str ''nvme_opera_probe_callback'', c_str ''nvme_opera_attach_callback'',
         c_str (''name space num: '' @ show_nat 2)] @ ns_output ram_nvme (1, 1) @ ns_output ram_nvme (2, 2))"
proof -
  let ?s = "\<lparr>mem = Map.empty, out = [], dev = (None, \<lambda>ns lba. [])\<rparr> :: nvme_ram host"
  let ?es = "[Probed ''0000:00:04.0'', Attached ''0000:00:04.0'' 0]" and ?names = "\<lambda>c. [(1, 1), (2, 2)]"
  have l: "\<forall>c\<in>set (attached ?es). namespaces ram_nvme c (first_active_ns ram_nvme c) (?names c)"
    by (simp add: ram_nvme_def)
  have h: "host_ok ram_view ?s" by (simp add: host_ok_def ram_view_def)
  have p: "nvme_env_init ram_nvme (dev ?s) = (0, dev ?s)"
      "nvme_probe ram_nvme (\<lambda>traddr. True) (vmd_init ram_nvme (dev ?s)) = (?es, dev ?s)"
      "quiet ram_view (dev ?s) (dev ?s)" and f: "\<forall>w. quiet ram_view w (vmd_fini ram_nvme w)"
    by (simp_all add: ram_nvme_def quiet_def)
  have c: "unat (ctrlr_num_ns ram_nvme 0) = 2" by (simp add: ram_nvme_def)
  from nvme_opera_roundtrip [OF ram_nvme_laws h p l f] show ?thesis
  proof (rule runs_mono, clarify)
    fix t :: "nvme_ram host"
    assume o: "out t = out ?s @ c_str (''spdk_env_init res: '' @ show_int 0) # concat (map (event_output ram_nvme ?names) ?es)"
      and d: "same_disks ram_view (snd ` set (concat (map ?names (attached ?es)))) (dev ?s) (dev t)"
    have sec: "if ns \<in> {1, 2} \<and> lba = 0 then carries (snd (dev t) ns lba) else snd (dev t) ns lba = []" for ns lba
      using d [unfolded same_disks_def, THEN spec [of _ ns], THEN spec [of _ lba]] by (auto simp: ram_view_def split: if_splits)
    show "Returns 0 = Returns 0 \<and> carries (snd (dev t) 1 0) \<and> carries (snd (dev t) 2 0) \<and> snd (dev t) 1 1 = [] \<and> snd (dev t) 3 0 = [] \<and>
       out t = [c_str (''spdk_env_init res: '' @ show_int 0), c_str ''nvme_opera_probe_callback'', c_str ''nvme_opera_attach_callback'',
         c_str (''name space num: '' @ show_nat 2)] @ ns_output ram_nvme (1, 1) @ ns_output ram_nvme (2, 2)"
      using o sec [of 1 0] sec [of 2 0] sec [of 1 1] sec [of 3 0] by (simp add: c)
  qed
qed

text \<open>
  C40. \<open>kv_main\<close> under the same conditions on the driver, with at least one controller, where the last controller has an
  active namespace: the program collects all controllers and namespaces in order, each namespace linked to its
  controller, writes the text to sector 0 of the first namespace of the last controller and to no other sector, and
  reads it back. Its output is exactly the address of each controller probed, the note that the buffer had to be
  allocated, if it had, the lines of the two completions, the text as read back, and \<open>mmap_io\<close>, which is 0 in that case
  and 1 otherwise.
\<close>

theorem kv_main_correct:
  assumes "io_laws lib v" and "resource_laws lib v" and "host_ok v (kv_start m w)"
    and "nvme_env_init lib w = (res, w1)" and "nvme_probe lib (\<lambda>traddr. True) w1 = (es, w2)" and "quiet v w w2"
    and "attached es \<noteq> []" and "\<forall>c\<in>set (attached es). namespaces lib c (first_active_ns lib c) (names c)"
    and "names (last (attached es)) = (i, ns) # nss"
  shows "runs (kv_main lib (kv_start m w)) (\<lambda>(r, t). r = Returns 0 \<and>
    (\<exists>mmap_io\<in>{0, 1}. out t = kv_probe_output es @ switch_output mmap_io @
      [write_done, read_done, c_str ''nvme_opera_read successful: '' @ MESSAGE, c_str (''main mmap_io '' @ show_int mmap_io)]) \<and>
    same_disks v {ns} w (dev t) \<and> kv_linked lib t \<and> map ce_ctrlr (g_ctrlr t) = attached es \<and>
    map (\<lambda>n. (ne_nsid n, ne_ns n)) (g_ns t) = concat (map names (attached es)))"
  by (rule kv_main_runs [OF assms(1,2,4-9,3)])

theorem kv_main_correct_witness:
  "runs (kv_main ram_nvme (kv_start Map.empty (None, \<lambda>ns lba. []))) (\<lambda>(r, t). r = Returns 0 \<and>
     same_disks ram_view {1} (None, \<lambda>ns lba. []) (dev t) \<and> map ce_ctrlr (g_ctrlr t) = [0] \<and>
     map (\<lambda>n. (ne_nsid n, ne_ns n)) (g_ns t) = [(1, 1), (2, 2)] \<and>
     (\<exists>mmap_io\<in>{0, 1}. out t = [c_str ''nvme_probe_cb: 0000:00:04.0''] @ switch_output mmap_io @
      [write_done, read_done, c_str ''nvme_opera_read successful: '' @ MESSAGE, c_str (''main mmap_io '' @ show_int mmap_io)]))"
proof -
  let ?w = "(None, \<lambda>ns lba. []) :: nvme_ram"
  let ?es = "[Probed ''0000:00:04.0'', Attached ''0000:00:04.0'' 0]" and ?names = "\<lambda>c :: nat. [(1 :: 32 word, 1 :: nat), (2, 2)]"
  have l: "\<forall>c\<in>set (attached ?es). namespaces ram_nvme c (first_active_ns ram_nvme c) (?names c)"
    by (simp add: ram_nvme_def)
  have h: "host_ok ram_view (kv_start Map.empty ?w)" by (simp add: host_ok_def ram_view_def kv_start_def)
  have p: "nvme_env_init ram_nvme ?w = (0, ?w)" "nvme_probe ram_nvme (\<lambda>traddr. True) ?w = (?es, ?w)" "quiet ram_view ?w ?w"
    by (simp_all add: ram_nvme_def quiet_def)
  have x: "attached ?es \<noteq> []" "?names (last (attached ?es)) = (1, 1) # [(2, 2)]" by simp_all
  from kv_main_correct [OF ram_nvme_laws h p x(1) l x(2)] show ?thesis
    by (rule runs_mono) (auto simp: c_str_def)
qed

end
