(* ===== verification/Singletons.thy ===== *)
theory Singletons
  imports Prelude
begin

text \<open>
  \<open>class Singleton\<close> and \<open>class SingletonEager\<close> of \<open>Sigleton/Singleton.cpp\<close>. The static objects live in a store of
  objects: the one of \<open>Singleton\<close> is made by the first call of \<open>getInstance\<close> (the language runs the initialiser of a
  local static once, also with concurrent calls, so a call is one step), the one of \<open>SingletonEager\<close> before \<open>main\<close>.
  A reference is an address.

  Proved: however often and in whatever order the two accessors are called, each class has at most one object, and
  all references to it are equal.
\<close>

section \<open>The classes\<close>

datatype class_name = Singleton | SingletonEager

record statics =
  instance_local :: "addr option"
  instance_eager :: addr
  objects :: "class_name list"

text \<open>The state in which \<open>main\<close> starts: line 29 has run.\<close>

definition statics_init :: statics where
  "statics_init = \<lparr>instance_local = None, instance_eager = 0, objects = [SingletonEager]\<rparr>"

definition getInstance :: "statics \<Rightarrow> addr \<times> statics" where
  "getInstance s = (case instance_local s of
     Some a \<Rightarrow> (a, s)
   | None \<Rightarrow> let a = length (objects s) in (a, s\<lparr>instance_local := Some a, objects := objects s @ [Singleton]\<rparr>))"

definition getInstance_eager :: "statics \<Rightarrow> addr \<times> statics" where
  "getInstance_eager s = (instance_eager s, s)"

fun access :: "class_name \<Rightarrow> statics \<Rightarrow> addr \<times> statics" where
  "access Singleton s = getInstance s"
| "access SingletonEager s = getInstance_eager s"

fun accesses :: "class_name list \<Rightarrow> statics \<Rightarrow> addr list \<times> statics" where
  "accesses [] s = ([], s)"
| "accesses (c # cs) s = (let (a, s) = access c s; (as, s) = accesses cs s in (a # as, s))"

definition singleton_main :: "addr \<times> addr \<times> addr \<times> addr" where
  "singleton_main = (let (s1, s) = getInstance statics_init; (s2, s) = getInstance s;
     (s3, s) = getInstance_eager s; (s4, s) = getInstance_eager s in (s1, s2, s3, s4))"

section \<open>One object each\<close>

definition address_of :: "class_name \<Rightarrow> addr" where
  "address_of c = (case c of SingletonEager \<Rightarrow> 0 | Singleton \<Rightarrow> 1)"

text \<open>The states in which \<open>getInstance\<close> has and has not been called.\<close>

definition built :: "bool \<Rightarrow> statics" where
  "built b = (if b then \<lparr>instance_local = Some 1, instance_eager = 0, objects = [SingletonEager, Singleton]\<rparr> else statics_init)"

lemma access_built: "access c (built b) = (address_of c, built (b \<or> c = Singleton))"
  by (cases c) (auto simp: built_def statics_init_def getInstance_def getInstance_eager_def address_of_def)

lemma accesses_built: "accesses cs (built b) = (map address_of cs, built (b \<or> Singleton \<in> set cs))"
proof (induction cs arbitrary: b)
  case (Cons c cs)
  then show ?case by (cases c) (simp_all add: access_built)
qed simp

text \<open>Any sequence of calls returns one address per class, and leaves one object of each class that was asked for
  (the eager one always); \<open>main\<close> gets two pairs of equal references.\<close>

theorem singleton_unique:
  "accesses cs statics_init = (map address_of cs, built (Singleton \<in> set cs)) \<and>
   distinct (objects (built b)) \<and> address_of Singleton \<noteq> address_of SingletonEager \<and> singleton_main = (1, 1, 0, 0)"
proof -
  have "accesses cs statics_init = (map address_of cs, built (Singleton \<in> set cs))"
    using accesses_built [of cs False] by (simp add: built_def)
  moreover have "singleton_main = (1, 1, 0, 0)"
    by (simp add: singleton_main_def getInstance_def getInstance_eager_def statics_init_def)
  ultimately show ?thesis by (simp add: built_def statics_init_def address_of_def)
qed

end
