(* ===== verification/Spec2Isabelle.thy ===== *)
theory Spec2Isabelle
  imports RedBlackTree_Test Sentinel_Test BPlusTree_Props BPlusTree_Test LRUCache Simple_Slab LockfreeQueue_Test
    Threadpool_Main Myfs_Props Server_Props Echo_Client Fs_Boot Nvme_Props Singletons
begin

text \<open>
  A verification of the programs of this repository, which was written to learn SPDK: the containers and
  the allocator of a key-value store, its network server and an echo server, a file system over an SPDK
  blobstore with its configuration loader, two programs over NVMe, a cache, a lock-free queue and a thread
  pool. Most programs do not call each other; what they share is the style of their data structures and of
  their callbacks, and the development shares the corresponding libraries and contracts.

  \<^bold>\<open>Conventions.\<close> A C or C++ object is a record, a pointer an address (a natural number, \<open>None\<close> for the null
  pointer) and the heap a finite map from addresses to records. A computation whose behaviour is
  undefined (a null or dangling pointer, an index out of range, a division by zero, a failed
  assertion) or that does not return has the value \<open>None\<close>; \<open>runs m P\<close> says that \<open>m\<close> returns a value that
  satisfies \<open>P\<close>, so the statements are about total correctness. Loops over a heap are
  \<open>partial_function (option)\<close>, without fuel: that they return is proved. Loops with a bound in the source are
  functions with a termination proof. C's \<open>int\<close>, \<open>size_t\<close> and bytes are words where they can wrap around
  or are masked; \<open>Prelude\<close> holds these types, \<open>runs\<close>, sorted association lists and vector primitives.

  \<^bold>\<open>Search trees.\<close>
  \<^item> \<open>Heap_Tree\<close> relates a heap of nodes with parent links to a tree, and a position in it to a context;
    \<open>Tree_Repair\<close> has the invariants of the repair loops. Both red-black trees use them.
  \<^item> \<open>RedBlackTree\<close> models \<open>class RedBlackTree\<close> of \<open>KV_Store/RBTree.cpp\<close> (\<open>B+Tree/temp.cpp\<close> is a copy of it): \<open>insert\<close>
    with \<open>fix_insert\<close>, \<open>remove\<close> with \<open>transplant\<close> and \<open>fix_delete\<close>, the rotations, lookups, traversals, \<open>validate\<close>,
    \<open>clear\<close>. \<open>RedBlackTree_Proofs\<close> treats insertion, \<open>RedBlackTree_Delete\<close> removal and \<open>RedBlackTree_Map\<close> the
    queries. C1 to C6: every operation returns, keeps the red-black conditions and changes the
    sorted list of entries as a map does; \<open>validate\<close> decides the conditions; the traversals list the tree that the nodes and
    links form, and its height, which \<open>get_height\<close> returns, is at most twice the integer part of \<open>log2 (n + 1)\<close>. \<open>RedBlackTree_Test\<close> models \<open>print_tree\<close> and the test program \<open>test_redblack_tree\<close>; C7: all of
    its checks pass, by the contract of the tree.
  \<^item> \<open>Sentinel_Tree\<close> models \<open>class RBTree\<close> of \<open>Red_Black_Tree/RBTree.hpp\<close>, whose leaves are one shared node;
    \<open>Sentinel_Proofs\<close>, \<open>Sentinel_Insert\<close>, \<open>Sentinel_Delete\<close> and \<open>Sentinel_Map\<close> prove it correct (C30, C31), the
    exceptions of \<open>get\<close>, \<open>min\<close> and \<open>max\<close> included. \<open>Sentinel_Test\<close> models the test program
    \<open>Red_Black_Tree/TesTRBT.cpp\<close> (theorem \<open>testRBTree_output\<close>).
  \<^item> \<open>Ordered_Map\<close> is the contract of both: a locale of maps whose contents are a sorted list, with the
    consequences for sequences of calls. \<open>rb\<close> and \<open>rt\<close> interpret it.
  \<^item> \<open>BPlusTree\<close> models \<open>class BPlusTree\<close> of \<open>B+Tree/BplusTree.cpp\<close> (\<open>KV_Store/BplusTree.cpp\<close> is a copy).
    \<open>BPlusTree_Proofs\<close>, \<open>BPlusTree_Insert\<close>, \<open>BPlusTree_Remove\<close> and \<open>BPlusTree_Props\<close> show that the tree is a multimap as
    long as no internal node has to be split, that is for at least \<open>(d - 1) * (2 * d - 1)\<close> insertions into a new
    tree of degree \<open>d\<close> below \<open>2^30\<close>, from where on \<open>2 * d\<close> overflows (locale \<open>bounded_multimap\<close>, C22 to C24), and what goes wrong: promoted keys are not
    found, \<open>validate\<close> rejects every tree with two levels, and splitting an internal node reads a key out of range
    (C25, C26, lemma \<open>bp_validate_rejects\<close>). \<open>BPlusTree_Test\<close> models the printing functions and the test program
    \<open>test_bplustree\<close>, with the random numbers as a parameter; C27: what it
    prints in its first four tests, the messages of \<open>validate\<close> included, shows these errors, and its fifth test has undefined
    behaviour.

  \<^bold>\<open>Cache.\<close> \<open>LRUCache\<close> models \<open>class LRUCacheWithTTL\<close> of \<open>LRU_with_TTL/LRUCache.cpp\<close>; the readings of the clock are
  arguments of the methods. C8 to C11: \<open>get\<close> and \<open>put\<close> refine a list of entries by recency, and so do sequences
  of calls; entries live until their deadline unless enough other keys come in. \<open>get\<close> reads the clock twice, and an entry
  that expires in between leads to a use after erase: C8 and C11 say exactly when, C10 excludes it. \<open>lru_main_output\<close> says what its \<open>main\<close> prints.

  \<^bold>\<open>Allocator.\<close> \<open>Simple_Slab\<close> models \<open>KV_Store/simple_slab.c\<close> on a memory of pointer-sized cells; the free list
  lives inside the free blocks. C12: the pool that \<open>init_slab\<close> makes, and the block sizes for which it writes behind its
  page. C13 (locale \<open>block_pool\<close>): the blocks that any sequence of calls is given, and that what clients store in their blocks
  stays there and does not disturb the allocator.

  \<^bold>\<open>Concurrency.\<close> \<open>Fifo_System\<close> is the contract of a concurrent queue. \<open>LockfreeQueue\<close> models the atomic accesses of
  \<open>atomic/LockfreeQueue.cpp\<close> as the steps of any number of interleaved threads under sequential consistency,
  spurious failures of the compare-exchange included (C14 to C16). \<open>LockfreeQueue_Test\<close> adds the threads of its
  test program \<open>test_queue\<close> and the destructor; C17: in every interleaving the test succeeds so far, and when it ends
  nothing was lost. \<open>Threadpool\<close> models
  \<open>ThreadPool/Threadpool.cpp\<close>: the critical sections of workers, \<open>add_task\<close> and destructor, the
  notifications of the condition variable, and the futures of the tasks (C18 to C20). \<open>Threadpool_Main\<close> composes the
  pool with its \<open>main\<close>; C21: it prints the results in order and returns.

  \<^bold>\<open>File system.\<close> \<open>Myfs\<close> models \<open>spdk_filesystem/myfs.c\<close>: the bitmap of descriptors, the callbacks on the SPDK
  thread, the poller that waits for their flags (at most \<open>POLLER_MAX_TIME\<close> polls, as in the source) and the POSIX
  functions. SPDK and the kernel are a parameter, the record \<open>spdk\<close> of the calls the code makes; \<open>Myfs_Device\<close> states
  as hypotheses what the code relies on: a message or completion is due within \<open>D\<close> polls, a blob returns the
  bytes written to it. \<open>Myfs_Props\<close> gives a device in memory that satisfies them. C28 (locale \<open>descriptor_pool\<close>):
  the bitmap is a set of descriptors, the least free one is taken; C29: what is written is read back; lemma
  \<open>fs_main_overread\<close>: the transfer of whole units makes \<open>main\<close> read behind its buffer.

  \<^bold>\<open>Configuration loader.\<close> \<open>Json_Config\<close> models \<open>spdk_filesystem/json_config.c\<close>, which the file system starts first: the
  walk over the subsystems and their calls, the two pollers, the timeouts, the messages it sends to its own
  thread and the release of its context. The parser, the RPC client and server and the clock are a
  parameter, the record \<open>rpc_lib\<close>. \<open>Paced_Machine\<close> is the contract of a program that reacts to events: a machine in which
  every event either advances a phase or leaves it, and no phase waits for ever; its lemmas say that any order
  of events is safe and that enough rounds of all events end it. \<open>Json_Load\<close> states the laws of the library as
  hypotheses, the specification \<open>load_spec\<close> (which requests are sent for a document, and the code of the callback)
  and the phases of a load; \<open>Json_Steps\<close> proves that every event respects them and \<open>Json_Props\<close> interprets the
  contract. C36: if the connection breaks only while a request is under way, the loader follows \<open>load_spec\<close>
  in any order of events, after failed requests and a failed initialisation too, and ends; C37: a configuration
  without errors is sent in two passes, each call once. Lemmas \<open>json_use_after_free\<close> and \<open>write_chunks_overflow\<close> show
  what a connection that breaks at another moment and a long error response lead to. \<open>Fs_Boot\<close> composes the loader with the start of the file
  system: the request \<open>Json_config\<close> of \<open>Myfs\<close> runs the model of the loader, and the poller of the file system drives
  it. The SPDK thread need not run a poller of the loader at every poll, since these have a period: if every kind of event
  occurs in any \<open>K\<close> consecutive polls, and \<open>K\<close> times the rounds of the load are within the limit of the poller, it sees the
  flag, and the code of the load is ignored (C38).

  \<^bold>\<open>NVMe programs.\<close> \<open>Nvme\<close> models \<open>spdk_nvme/nvme_opera.c\<close> and \<open>KV_Store/kv_main.cpp\<close>: the attach callbacks, which walk the
  active namespaces of a controller, and the synchronous writes and reads, which poll the queue pair until the
  callback has run. The driver is a parameter, the record \<open>nvme_lib\<close>. \<open>Nvme_Props\<close> states what the code relies on (a
  submitted command completes after finitely many polls, a sector returns the bytes stored in it, queue pairs and
  buffers can be allocated) and shows that both programs read back what they wrote to sector 0, change no other sector, and
  what they print (C39, C40); a namespace that cannot be opened makes their loops run
  for ever (lemmas \<open>opera_attach_stuck\<close>, \<open>kv_attach_stuck\<close>).

  \<^bold>\<open>Servers.\<close> \<open>Kvs_Proto\<close> models the tokeniser and command parser of \<open>KV_Store/spdk_server.c\<close> on C strings (C32);
  \<open>Kvs_Server\<close> the pollers, accept and close paths of it and of \<open>spdk_echo_server/spdk_server.c\<close>, with sockets and SPDK
  as a parameter. \<open>Server_Props\<close> proves once, in the locale \<open>stream_server\<close>, what one call of a poller does with
  the sockets that are ready, whatever \<open>recv\<close> and \<open>writev\<close> return, and interprets it for both servers (C33, C34).
  \<open>Echo_Client\<close> models \<open>spdk_echo_server/client.cpp\<close>, with the sockets of the operating system as a parameter; C35 says what it
  sends, to which address, what it prints and with which code it ends, for every result of the calls it makes.

  \<^bold>\<open>Singletons.\<close> \<open>Singletons\<close> models \<open>Sigleton/Singleton.cpp\<close>: each class has one object (theorem \<open>singleton_unique\<close>).

  \<^bold>\<open>Not modelled.\<close> Code that is commented out or excluded by the preprocessor (a third of \<open>myfs.c\<close>, the \<open>main\<close> of
  \<open>simple_slab.c\<close>); the functions \<open>main\<close> that only call a test program; callbacks and usage texts that only print;
  memory exhaustion; weak memory orders. The two copied files and the functions that both servers have in the same words
  are modelled once. The logging of the servers, the texts of \<open>strerror\<close>, the \<open>Violation\<close> messages of \<open>RedBlackTree::validate\<close>, the headings of the tests in Chinese and what the tasks of the pool
  print are left out of their models. That the test of the lock-free queue ends needs a fair scheduler, which is not
  assumed: proved is that it is never stuck.
\<close>

end
